(* ===== verification/Prelude.thy ===== *)
theory Prelude
  imports
    Main
    "HOL-Library.Word"
    "HOL-Library.Monad_Syntax"
    "HOL-Library.Sublist"
    "HOL-Library.Multiset"
begin

text \<open>
  Shared vocabulary of the development: the machine types, panics as \<open>None\<close>, the
  fold of an operation that may panic, and the generic facts on lists that the
  components use.

  A Rust function that can panic (an \<open>assert!\<close>, an \<open>unwrap()\<close> of \<open>None\<close>, an index
  out of range) is a function into \<open>option\<close>, and \<open>None\<close> stands for the panic. A
  \<open>debug_assert!\<close> is treated as an \<open>assert!\<close>: a theorem that says that the result is
  \<open>Some\<close> then says that debug and release builds agree.
\<close>

type_synonym byte = "8 word"
type_synonym usize = nat

text \<open>The collections of rewrite rules that component proofs share.\<close>

named_theorems deque_simps \<open>effect of the deque operations on its fields\<close>
named_theorems stream_simps \<open>effect of the stream operations on their fields\<close>
named_theorems merge_simps \<open>effect of the merge strategy operations on their fields\<close>

subsection \<open>Panics\<close>

definition assert_that :: "bool \<Rightarrow> unit option" where
  "assert_that b = (if b then Some () else None)"

lemma assert_that_simps [simp]:
  "assert_that True = Some ()" "assert_that False = None"
  by (simp_all add: assert_that_def)

lemma assert_that_eq_Some [simp]: "assert_that b = Some u \<longleftrightarrow> b"
  by (simp add: assert_that_def)

lemma bind_assert_that [simp]: "(assert_that b \<bind> f = Some y) \<longleftrightarrow> b \<and> f () = Some y"
  by (simp add: assert_that_def)

text \<open>A \<open>for\<close> loop whose body may panic.\<close>

fun foldM :: "('a \<Rightarrow> 's \<Rightarrow> 's option) \<Rightarrow> 'a list \<Rightarrow> 's \<Rightarrow> 's option" where
  "foldM f [] s = Some s"
| "foldM f (x # xs) s = f x s \<bind> foldM f xs"

text \<open>
  The rule for such a loop: an invariant that speaks of the items still to come, kept
  by every iteration, none of which panics.
\<close>

lemma foldM_invariant:
  assumes "I xs s"
    and "\<And>x ys s. set (x # ys) \<subseteq> set xs \<Longrightarrow> I (x # ys) s \<Longrightarrow> \<exists>s'. f x s = Some s' \<and> I ys s'"
  shows "\<exists>s'. foldM f xs s = Some s' \<and> I [] s'"
  using assms
proof (induction xs arbitrary: s)
  case Nil
  then show ?case by simp
next
  case (Cons x xs)
  from Cons.prems obtain t where t: "f x s = Some t" "I xs t" by blast
  have "\<exists>s'. foldM f xs t = Some s' \<and> I [] s'"
  proof (rule Cons.IH [OF t(2)])
    fix y ys u
    assume "set (y # ys) \<subseteq> set xs" and I: "I (y # ys) u"
    then have "set (y # ys) \<subseteq> set (x # xs)" by auto
    then show "\<exists>s'. f y u = Some s' \<and> I ys s'" using I by (rule Cons.prems(2))
  qed
  with t show ?case by simp
qed

text \<open>The same for a loop over the numbers below \<open>n\<close>.\<close>

lemma foldM_inv:
  assumes "\<And>i s. i < n \<Longrightarrow> I i s \<Longrightarrow> \<exists>s'. f i s = Some s' \<and> I (Suc i) s'" "I 0 s"
  shows "\<exists>s'. foldM f [0..<n] s = Some s' \<and> I n s'"
proof -
  have "\<exists>s'. foldM f [0..<n] s = Some s' \<and> (\<exists>i \<le> n. [] = [i..<n] \<and> I i s')"
  proof (rule foldM_invariant)
    fix x ys s assume "\<exists>i \<le> n. x # ys = [i..<n] \<and> I i s"
    then obtain i where i: "i \<le> n" "x # ys = [i..<n]" "I i s" by blast
    then have "i < n" by (cases "i = n") auto
    then have x: "x = i" "ys = [Suc i..<n]" using i(2) by (simp_all add: upt_conv_Cons)
    obtain s' where "f i s = Some s'" "I (Suc i) s'" using assms(1) [OF \<open>i < n\<close> i(3)] by blast
    then show "\<exists>s'. f x s = Some s' \<and> (\<exists>i \<le> n. ys = [i..<n] \<and> I i s')"
      using x \<open>i < n\<close> by (intro exI [of _ s'] conjI exI [of _ "Suc i"]) simp_all
  qed (use assms(2) in auto)
  then obtain s' i where s': "foldM f [0..<n] s = Some s'" "i \<le> n" "[] = [i..<n]" "I i s'" by blast
  have "i = n" using s'(2) s'(3) [symmetric] by auto
  then show ?thesis using s'(1,4) by blast
qed

text \<open>Mapping a function that may panic over a list.\<close>

fun mapM :: "('a \<Rightarrow> 'b option) \<Rightarrow> 'a list \<Rightarrow> 'b list option" where
  "mapM f [] = Some []"
| "mapM f (x # xs) = do { y \<leftarrow> f x; ys \<leftarrow> mapM f xs; Some (y # ys) }"

lemma mapM_Some: "(\<And>x. x \<in> set xs \<Longrightarrow> f x = Some (g x)) \<Longrightarrow> mapM f xs = Some (map g xs)"
  by (induction xs) auto

text \<open>The std methods \<open>Iterator::max\<close> on a list of items (\<open>None\<close> when there are none).\<close>

definition iter_max :: "'a::linorder list \<Rightarrow> 'a option" where
  "iter_max xs = (if xs = [] then None else Some (Max (set xs)))"

definition iter_min :: "'a::linorder list \<Rightarrow> 'a option" where
  "iter_min xs = (if xs = [] then None else Some (Min (set xs)))"

text \<open>\<open>Iterator::min_by_key\<close> gives the first of the items with the least key.\<close>

definition iter_min_by_key :: "('a \<Rightarrow> 'b::linorder) \<Rightarrow> 'a list \<Rightarrow> 'a option" where
  "iter_min_by_key f xs = (if xs = [] then None else Some (arg_min_list f xs))"

definition first_item :: "'a list \<Rightarrow> 'a option" where
  "first_item xs = (case xs of [] \<Rightarrow> None | x # _ \<Rightarrow> Some x)"

subsection \<open>Lists\<close>

lemma prefix_drop_nth:
  assumes "prefix c (drop p xs)" and "i < length c"
  shows "c ! i = xs ! (p + i)"
proof -
  from assms(1) obtain zs where zs: "drop p xs = c @ zs" by (auto simp: prefix_def)
  with assms(2) have "drop p xs \<noteq> []" by auto
  then have "p \<le> length xs" by simp
  have "c ! i = drop p xs ! i" using zs assms(2) by (simp add: nth_append)
  then show ?thesis using \<open>p \<le> length xs\<close> by simp
qed

lemma prefix_drop_length: "prefix c (drop p xs) \<Longrightarrow> c \<noteq> [] \<Longrightarrow> p + length c \<le> length xs"
  by (cases "p < length xs") (auto dest!: prefix_length_le)

lemma prefix_drop_take:
  assumes "prefix c (drop p xs)"
  shows "c = take (length c) (drop p xs)"
  using assms by (auto simp: prefix_def)

lemma prefix_drop_append:
  assumes "prefix c (drop p xs)"
  shows "c @ drop (p + length c) xs = drop p xs"
proof -
  from assms obtain zs where zs: "drop p xs = c @ zs" by (auto simp: prefix_def)
  have "drop (p + length c) xs = drop (length c) (drop p xs)" by (simp add: add.commute)
  also have "\<dots> = zs" unfolding zs by simp
  finally show ?thesis using zs by simp
qed

lemma take_drop_append: "a \<le> b \<Longrightarrow> take a xs @ take (b - a) (drop a xs) = take b xs"
  by (metis le_add_diff_inverse take_add)

lemma drop_Suc_nth: "n < length xs \<Longrightarrow> take (Suc 0) (drop n xs) = [xs ! n]"
  by (simp add: take_Suc_conv_app_nth)

text \<open>
  Two byte sequences agree on the positions from \<open>a\<close> up to and excluding \<open>b\<close>.
\<close>

definition agree :: "'a list \<Rightarrow> 'a list \<Rightarrow> nat \<Rightarrow> nat \<Rightarrow> bool" where
  "agree xs ys a b \<longleftrightarrow> (\<forall>p. a \<le> p \<and> p < b \<longrightarrow> xs ! p = ys ! p)"

lemma agree_empty [simp]: "b \<le> a \<Longrightarrow> agree xs ys a b"
  by (auto simp: agree_def)

lemma agree_mono: "agree xs ys a b \<Longrightarrow> a \<le> a' \<Longrightarrow> b' \<le> b \<Longrightarrow> agree xs ys a' b'"
  by (auto simp: agree_def)

lemma agree_trans: "agree xs ys a b \<Longrightarrow> agree xs ys b c \<Longrightarrow> agree xs ys a c"
  unfolding agree_def by (metis not_le)

lemma agree_sym: "agree xs ys a b \<Longrightarrow> agree ys xs a b"
  by (auto simp: agree_def)

lemma agree_append1: "b \<le> length xs \<Longrightarrow> agree (xs @ zs) ys a b \<longleftrightarrow> agree xs ys a b"
  by (auto simp: agree_def nth_append)

lemma agree_append2: "b \<le> length ys \<Longrightarrow> agree xs (ys @ zs) a b \<longleftrightarrow> agree xs ys a b"
  by (auto simp: agree_def nth_append)

lemma agree_prefix:
  assumes "agree xs ys 0 (length ys)" and "length ys \<le> length xs"
  shows "prefix ys xs"
proof -
  have "take (length ys) xs = ys"
    using assms by (intro nth_equalityI) (auto simp: agree_def)
  then show ?thesis by (metis take_is_prefix)
qed

lemma prefix_agree: "prefix ys xs \<Longrightarrow> agree xs ys a (length ys)"
  by (auto simp: prefix_def agree_def nth_append)

end
