(* ===== verification/Buf_Traits.thy ===== *)
theory Buf_Traits
  imports Prelude
begin

text \<open>
  The traits of \<open>src/util/buf_traits.rs\<close>. \<open>ChunkedBuf\<close> is a dictionary (the record
  \<open>chunked\<close>), and the blanket implementations \<open>ChunkedBufExt\<close>, \<open>IterChunks\<close>, \<open>ReadAt\<close>
  and \<open>ReadAtCursor\<close> are functions over that dictionary. The locale \<open>chunked_buf\<close> is the
  contract of the trait; what the blanket implementations promise is proved in it once.
\<close>

subsection \<open>The trait and its blanket implementations\<close>

record 'b chunked =
  cb_get_chunk :: "'b \<Rightarrow> usize \<Rightarrow> byte list option"
  cb_len :: "'b \<Rightarrow> usize"

text \<open>
  \<open>common_prefix_from_to\<close>: the loop compares the chunks at \<open>pos\<close> byte by byte. A chunk is
  not cut at \<open>max_cmp\<close>, so the result may lie beyond it. \<open>None\<close> is a panic of
  \<open>get_chunk\<close> or a loop that never ends (which an empty chunk would cause).
\<close>

partial_function (option) common_prefix_loop ::
  "'a chunked \<Rightarrow> 'b chunked \<Rightarrow> 'a \<Rightarrow> 'b \<Rightarrow> usize \<Rightarrow> usize \<Rightarrow> usize option" where
  "common_prefix_loop A B a b max_cmp pos =
     (if pos < max_cmp then
        do {
          my_chunk \<leftarrow> cb_get_chunk A a pos;
          other_chunk \<leftarrow> cb_get_chunk B b pos;
          let eq_len = length (takeWhile (\<lambda>(x, y). x = y) (zip my_chunk other_chunk));
          if eq_len < min (length my_chunk) (length other_chunk)
          then Some (pos + eq_len)
          else common_prefix_loop A B a b max_cmp (pos + eq_len)
        }
      else Some pos)"

declare common_prefix_loop.simps [code]

definition common_prefix_from_to ::
  "'a chunked \<Rightarrow> 'b chunked \<Rightarrow> 'a \<Rightarrow> 'b \<Rightarrow> usize \<Rightarrow> usize option \<Rightarrow> usize option" where
  "common_prefix_from_to A B a b start lim =
     (let max_cmp = min (cb_len A a) (cb_len B b);
          max_cmp = (case lim of Some e \<Rightarrow> min max_cmp e | None \<Rightarrow> max_cmp)
      in common_prefix_loop A B a b max_cmp start)"

definition common_prefix_from ::
  "'a chunked \<Rightarrow> 'b chunked \<Rightarrow> 'a \<Rightarrow> 'b \<Rightarrow> usize \<Rightarrow> usize option" where
  "common_prefix_from A B a b start = common_prefix_from_to A B a b start None"

definition buf_at :: "'b chunked \<Rightarrow> 'b \<Rightarrow> usize \<Rightarrow> byte option" where
  "buf_at B b pos =
     do {
       c \<leftarrow> cb_get_chunk B b pos;
       (case c of [] \<Rightarrow> None | x # _ \<Rightarrow> Some x)
     }"

text \<open>\<open>IterChunks\<close> and its \<open>next\<close>; the inner option is the iterator's own.\<close>

record 'b chunk_iter =
  it_buf :: 'b
  it_start :: usize
  it_end :: usize

definition iter_chunks :: "'b chunked \<Rightarrow> 'b \<Rightarrow> usize \<Rightarrow> usize \<Rightarrow> 'b chunk_iter option" where
  "iter_chunks B b start lim =
     do {
       assert_that (start \<le> lim);
       assert_that (lim \<le> cb_len B b);
       Some \<lparr>it_buf = b, it_start = start, it_end = lim\<rparr>
     }"

definition iter_next ::
  "'b chunked \<Rightarrow> 'b chunk_iter \<Rightarrow> ((byte list \<times> 'b chunk_iter) option) option" where
  "iter_next B it =
     (if it_start it = it_end it then Some None
      else do {
        chunk \<leftarrow> cb_get_chunk B (it_buf it) (it_start it);
        let chunk = (if it_start it + length chunk > it_end it
                     then take (it_end it - it_start it) chunk else chunk);
        Some (Some (chunk, it\<lparr>it_start := it_start it + length chunk\<rparr>))
      })"

text \<open>\<open>read_at\<close> gives at most \<open>cap\<close> bytes, \<open>cap\<close> being the size of the caller's buffer.\<close>

definition read_at :: "'b chunked \<Rightarrow> 'b \<Rightarrow> usize \<Rightarrow> usize \<Rightarrow> byte list option" where
  "read_at B b start cap =
     (if start \<ge> cb_len B b then Some []
      else map_option (take cap) (cb_get_chunk B b start))"

record 'b read_cursor =
  cur_src :: 'b
  cur_start :: usize

definition cursor_read ::
  "'b chunked \<Rightarrow> 'b read_cursor \<Rightarrow> usize \<Rightarrow> (byte list \<times> 'b read_cursor) option" where
  "cursor_read B cur cap =
     do {
       res \<leftarrow> read_at B (cur_src cur) (cur_start cur) cap;
       Some (res, cur\<lparr>cur_start := cur_start cur + length res\<rparr>)
     }"

definition reader_from :: "'b \<Rightarrow> usize \<Rightarrow> 'b read_cursor" where
  "reader_from b start = \<lparr>cur_src = b, cur_start = start\<rparr>"

text \<open>The std \<open>read_to_end\<close>: read with some buffer size until a read gives nothing.\<close>

partial_function (option) read_to_end ::
  "'b chunked \<Rightarrow> usize \<Rightarrow> 'b read_cursor \<Rightarrow> byte list \<Rightarrow> byte list option" where
  "read_to_end B cap cur acc =
     do {
       (res, cur') \<leftarrow> cursor_read B cur cap;
       if res = [] then Some acc else read_to_end B cap cur' (acc @ res)
     }"

declare read_to_end.simps [code]

subsection \<open>The contract of \<open>ChunkedBuf\<close>\<close>

text \<open>
  \<open>rep b xs\<close>: the buffer \<open>b\<close> stands for the byte sequence \<open>xs\<close>. Data before \<open>lo b\<close> may
  have been dropped; from there on, \<open>get_chunk\<close> gives a non-empty piece of \<open>xs\<close>.
\<close>

locale chunked_buf =
  fixes B :: "'b chunked"
    and rep :: "'b \<Rightarrow> byte list \<Rightarrow> bool"
    and lo :: "'b \<Rightarrow> usize"
  assumes len_rep: "rep b xs \<Longrightarrow> cb_len B b = length xs"
    and chunk_rep: "rep b xs \<Longrightarrow> lo b \<le> p \<Longrightarrow> p < length xs \<Longrightarrow>
      \<exists>c. cb_get_chunk B b p = Some c \<and> c \<noteq> [] \<and> prefix c (drop p xs)"
begin

lemma at_rep: "rep b xs \<Longrightarrow> lo b \<le> p \<Longrightarrow> p < length xs \<Longrightarrow> buf_at B b p = Some (xs ! p)"
  using chunk_rep [of b xs p] prefix_drop_nth [of _ p xs 0]
  by (force simp: buf_at_def neq_Nil_conv)

lemma read_at_rep:
  assumes "rep b xs" "lo b \<le> p" "0 < cap"
  shows "\<exists>res. read_at B b p cap = Some res \<and> prefix res (drop p xs) \<and> length res \<le> cap
    \<and> (res = [] \<longleftrightarrow> length xs \<le> p)"
proof (cases "p < length xs")
  case True
  with assms obtain c where c: "cb_get_chunk B b p = Some c" "c \<noteq> []" "prefix c (drop p xs)"
    using chunk_rep by blast
  have "prefix (take cap c) (drop p xs)"
    using c(3) take_is_prefix prefix_order.trans by blast
  then show ?thesis using c True assms(3) len_rep [OF assms(1)] by (auto simp: read_at_def)
next
  case False
  then show ?thesis using len_rep [OF assms(1)] by (simp add: read_at_def)
qed

lemma read_to_upto_rep:
  assumes "rep b xs" "lo b \<le> p" "0 < cap"
  shows "read_to_end B cap (reader_from b p) acc = Some (acc @ drop p xs)"
  using assms(2)
proof (induction "length xs - p" arbitrary: p acc rule: less_induct)
  case less
  obtain res where res: "read_at B b p cap = Some res" "prefix res (drop p xs)"
    "res = [] \<longleftrightarrow> length xs \<le> p"
    using read_at_rep [OF assms(1) less.prems assms(3)] by blast
  show ?case
  proof (cases "res = []")
    case True
    then show ?thesis using res by (subst read_to_end.simps) (simp add: cursor_read_def reader_from_def)
  next
    case False
    then have "0 < length res" by simp
    from False res have p: "p < length xs" "p + length res \<le> length xs"
      by (auto dest: prefix_drop_length)
    have "read_to_end B cap (reader_from b (p + length res)) (acc @ res)
        = Some ((acc @ res) @ drop (p + length res) xs)"
      by (rule less.hyps) (use p \<open>0 < length res\<close> less.prems in linarith)+
    moreover have "res @ drop (p + length res) xs = drop p xs"
      using res(2) by (rule prefix_drop_append)
    ultimately show ?thesis using res False
      by (subst read_to_end.simps) (simp add: cursor_read_def reader_from_def)
  qed
qed

lemma iter_next_rep:
  assumes "rep (it_buf it) xs" "lo (it_buf it) \<le> it_start it"
    "it_start it < it_end it" "it_end it \<le> length xs"
  shows "\<exists>c. iter_next B it = Some (Some (c, it\<lparr>it_start := it_start it + length c\<rparr>))
    \<and> c \<noteq> [] \<and> c = take (length c) (drop (it_start it) xs)
    \<and> it_start it + length c \<le> it_end it"
proof -
  obtain c where c: "cb_get_chunk B (it_buf it) (it_start it) = Some c" "c \<noteq> []"
    "prefix c (drop (it_start it) xs)"
    using chunk_rep [OF assms(1,2)] assms(3,4) by force
  from c(3) obtain zs where zs: "drop (it_start it) xs = c @ zs" by (auto simp: prefix_def)
  then have "length c + length zs = length xs - it_start it" by (metis length_append length_drop)
  then show ?thesis using c assms(3,4) zs
    by (auto simp: iter_next_def Let_def min_def)
qed

end

subsection \<open>Comparing two buffers\<close>

text \<open>What the comparison of two buffers gives, for any two implementations of the trait.\<close>

locale chunked_buf_pair =
  l: chunked_buf A rep_a lo_a + r: chunked_buf B rep_b lo_b
  for A :: "'a chunked" and rep_a lo_a and B :: "'b chunked" and rep_b lo_b
begin

lemma loop_step:
  assumes rep: "rep_a a xs" "rep_b b ys"
    and pos: "lo_a a \<le> pos" "lo_b b \<le> pos" "pos < length xs" "pos < length ys"
  shows "\<exists>mc oc n. cb_get_chunk A a pos = Some mc \<and> cb_get_chunk B b pos = Some oc
    \<and> n = length (takeWhile (\<lambda>(x, y). x = y) (zip mc oc))
    \<and> agree xs ys pos (pos + n) \<and> pos + n \<le> length xs \<and> pos + n \<le> length ys
    \<and> 0 < min (length mc) (length oc) \<and> n \<le> min (length mc) (length oc)
    \<and> (n < min (length mc) (length oc) \<longrightarrow> pos + n < length xs \<and> pos + n < length ys
        \<and> xs ! (pos + n) \<noteq> ys ! (pos + n))"
proof -
  obtain mc where mc: "cb_get_chunk A a pos = Some mc" "mc \<noteq> []" "prefix mc (drop pos xs)"
    using l.chunk_rep rep(1) pos by blast
  obtain oc where oc: "cb_get_chunk B b pos = Some oc" "oc \<noteq> []" "prefix oc (drop pos ys)"
    using r.chunk_rep rep(2) pos by blast
  define n where "n = length (takeWhile (\<lambda>(x, y). x = y) (zip mc oc))"
  have n_le: "n \<le> min (length mc) (length oc)"
    unfolding n_def by (metis length_takeWhile_le length_zip)
  have eq: "mc ! i = oc ! i" if "i < n" for i
  proof -
    have "i < length (takeWhile (\<lambda>(x, y). x = y) (zip mc oc))" using that n_def by simp
    then have "(\<lambda>(x, y). x = y) (zip mc oc ! i)"
      by (metis (no_types, lifting) nth_mem set_takeWhileD takeWhile_nth)
    then show ?thesis using that n_le by simp
  qed
  have ne: "mc ! n \<noteq> oc ! n" if "n < min (length mc) (length oc)"
  proof -
    have "\<not> (\<lambda>(x, y). x = y) (zip mc oc ! n)"
      unfolding n_def using that by (intro nth_length_takeWhile) (simp add: n_def)
    then show ?thesis using that by simp
  qed
  have lens: "pos + length mc \<le> length xs" "pos + length oc \<le> length ys"
    using mc oc by (auto dest: prefix_drop_length)
  have "agree xs ys pos (pos + n)"
    unfolding agree_def
  proof (intro allI impI)
    fix p assume p: "pos \<le> p \<and> p < pos + n"
    then have "p - pos < n" by linarith
    then have "mc ! (p - pos) = oc ! (p - pos)" by (rule eq)
    moreover have "mc ! (p - pos) = xs ! p"
      using prefix_drop_nth [OF mc(3), of "p - pos"] p n_le \<open>p - pos < n\<close> by simp
    moreover have "oc ! (p - pos) = ys ! p"
      using prefix_drop_nth [OF oc(3), of "p - pos"] p n_le \<open>p - pos < n\<close> by simp
    ultimately show "xs ! p = ys ! p" by simp
  qed
  moreover have "xs ! (pos + n) \<noteq> ys ! (pos + n)" if "n < min (length mc) (length oc)"
    using ne [OF that] that prefix_drop_nth [OF mc(3), of n] prefix_drop_nth [OF oc(3), of n] by simp
  ultimately show ?thesis
    using mc oc n_le lens n_def by (intro exI [of _ mc] exI [of _ oc] exI [of _ n]) auto
qed

lemma loop_rep:
  assumes rep: "rep_a a xs" "rep_b b ys"
    and m: "m \<le> length xs" "m \<le> length ys"
    and pos: "lo_a a \<le> pos" "lo_b b \<le> pos" "pos \<le> length xs" "pos \<le> length ys"
  shows "\<exists>k. common_prefix_loop A B a b m pos = Some k \<and> pos \<le> k
    \<and> k \<le> length xs \<and> k \<le> length ys \<and> agree xs ys pos k
    \<and> (k < m \<longrightarrow> xs ! k \<noteq> ys ! k)"
  using pos
proof (induction "m - pos" arbitrary: pos rule: less_induct)
  case less
  show ?case
  proof (cases "pos < m")
    case False
    then show ?thesis using less.prems by (subst common_prefix_loop.simps) auto
  next
    case True
    then have "pos < length xs" "pos < length ys" using m by auto
    then obtain mc oc n where st: "cb_get_chunk A a pos = Some mc" "cb_get_chunk B b pos = Some oc"
      "n = length (takeWhile (\<lambda>(x, y). x = y) (zip mc oc))"
      "agree xs ys pos (pos + n)" "pos + n \<le> length xs" "pos + n \<le> length ys"
      "0 < min (length mc) (length oc)" "n \<le> min (length mc) (length oc)"
      "n < min (length mc) (length oc) \<longrightarrow> xs ! (pos + n) \<noteq> ys ! (pos + n)"
      using loop_step [OF rep less.prems(1,2)] by blast
    show ?thesis
    proof (cases "n < min (length mc) (length oc)")
      case True
      then show ?thesis using st \<open>pos < m\<close>
        by (subst common_prefix_loop.simps) (auto simp: Let_def)
    next
      case False
      have "\<exists>k. common_prefix_loop A B a b m (pos + n) = Some k \<and> pos + n \<le> k
        \<and> k \<le> length xs \<and> k \<le> length ys \<and> agree xs ys (pos + n) k
        \<and> (k < m \<longrightarrow> xs ! k \<noteq> ys ! k)"
        by (rule less.hyps) (use False st(4-8) less.prems \<open>pos < m\<close> in linarith)+
      then show ?thesis using False st \<open>pos < m\<close> agree_trans [OF st(4)]
        by (subst common_prefix_loop.simps) (auto simp: Let_def)
    qed
  qed
qed

lemma from_to_rep:
  assumes "rep_a a xs" "rep_b b ys"
    and "lo_a a \<le> pos" "lo_b b \<le> pos" "pos \<le> length xs" "pos \<le> length ys"
  shows "\<exists>k. common_prefix_from_to A B a b pos lim = Some k \<and> pos \<le> k
    \<and> k \<le> length xs \<and> k \<le> length ys \<and> agree xs ys pos k
    \<and> (k < min (length xs) (length ys) \<and> (\<forall>e. lim = Some e \<longrightarrow> k < e) \<longrightarrow> xs ! k \<noteq> ys ! k)"
proof -
  let ?m = "case lim of Some e \<Rightarrow> min (min (length xs) (length ys)) e
    | None \<Rightarrow> min (length xs) (length ys)"
  have "?m \<le> length xs" "?m \<le> length ys" by (auto split: option.splits)
  from loop_rep [OF assms(1,2) this assms(3-6)] show ?thesis
    by (auto simp: common_prefix_from_to_def Let_def l.len_rep [OF assms(1)]
        r.len_rep [OF assms(2)] split: option.splits)
qed

lemma from_rep:
  assumes "rep_a a xs" "rep_b b ys"
    and "lo_a a \<le> pos" "lo_b b \<le> pos" "pos \<le> length xs" "pos \<le> length ys"
  shows "\<exists>k. common_prefix_from A B a b pos = Some k \<and> pos \<le> k
    \<and> k \<le> length xs \<and> k \<le> length ys \<and> agree xs ys pos k
    \<and> (k < min (length xs) (length ys) \<longrightarrow> xs ! k \<noteq> ys ! k)"
  using from_to_rep [OF assms, of None] by (simp add: common_prefix_from_def)

end

end
