(* ===== verification/Buf_Deque.thy ===== *)
theory Buf_Deque
  imports Buf_Traits
begin

text \<open>
  \<open>BufDeque\<close> of \<open>src/util/buf_deque.rs\<close>: a sliding window of replay data kept in boxes of
  \<open>CHUNK_SIZE\<close> bytes. Data is appended at the end and dropped from the start in whole
  chunks; dropping may go beyond the end, in which case later writes only move the end.
  The representation relation \<open>deque_rep\<close> ties a deque to the whole byte sequence that
  was ever written to it, of which only the part from \<open>window_start\<close> on is still stored.
\<close>

definition CHUNK_SIZE :: usize where
  "CHUNK_SIZE = 4096"

lemma CHUNK_SIZE_pos [simp]: "0 < CHUNK_SIZE"
  by (simp add: CHUNK_SIZE_def)

definition usize_max :: nat where
  "usize_max = 2 ^ 64 - 1"

record buf_deque =
  chunks :: "byte list list"
  discarded_chunks :: usize
  window_end :: usize

definition bd_new :: buf_deque where
  "bd_new = \<lparr>chunks = [], discarded_chunks = 0, window_end = 0\<rparr>"

definition window_start :: "buf_deque \<Rightarrow> usize" where
  "window_start d = discarded_chunks d * CHUNK_SIZE"

definition window_size :: "buf_deque \<Rightarrow> usize option" where
  "window_size d =
     do {
       assert_that (window_start d \<le> window_end d);
       Some (window_end d - window_start d)
     }"

definition no_space_in_last_chunk :: "buf_deque \<Rightarrow> bool option" where
  "no_space_in_last_chunk d =
     do {
       size \<leftarrow> window_size d;
       Some (size = length (chunks d) * CHUNK_SIZE)
     }"

text \<open>
  \<open>get_last_chunk\<close> gives a mutable borrow of the last chunk: here the deque, with a fresh
  chunk where one was needed, and the chunk's contents, which the caller writes back.
\<close>

definition get_last_chunk :: "buf_deque \<Rightarrow> (buf_deque \<times> byte list) option" where
  "get_last_chunk d =
     do {
       full \<leftarrow> no_space_in_last_chunk d;
       let d = (if full then d\<lparr>chunks := chunks d @ [replicate CHUNK_SIZE 0]\<rparr> else d);
       (if chunks d = [] then None else Some (d, last (chunks d)))
     }"

text \<open>
  \<open>discard\<close>: the loop pops a chunk for each chunk of data that goes; what is left of the
  count after the last chunk is recorded at once.
\<close>

fun discard_loop :: "usize \<Rightarrow> byte list list \<Rightarrow> usize \<Rightarrow> byte list list \<times> usize" where
  "discard_loop discardable [] n = ([], n)"
| "discard_loop discardable (c # cs) n =
     (if n < discardable then discard_loop discardable cs (Suc n) else (c # cs, n))"

definition bd_discard :: "buf_deque \<Rightarrow> usize \<Rightarrow> buf_deque" where
  "bd_discard d until =
     (let discardable_chunks = until div CHUNK_SIZE;
          (cs, n) = discard_loop discardable_chunks (chunks d) (discarded_chunks d)
      in d\<lparr>chunks := cs, discarded_chunks := max discardable_chunks n\<rparr>)"

text \<open>
  \<open>append_some\<close>: skip what was discarded beforehand, then write into the last chunk as
  much as fits. The number returned counts both.
\<close>

definition append_some :: "buf_deque \<Rightarrow> byte list \<Rightarrow> (buf_deque \<times> usize) option" where
  "append_some d buf =
     (let (d, buf, skipped) =
        (if window_end d < window_start d
         then let data_discarded_beyond_end = window_start d - window_end d;
                  skipped = min data_discarded_beyond_end (length buf)
              in (d\<lparr>window_end := window_end d + skipped\<rparr>, drop skipped buf, skipped)
         else (d, buf, 0))
      in if buf \<noteq> []
         then do {
           let offset = window_end d mod CHUNK_SIZE;
           (d, chunk) \<leftarrow> get_last_chunk d;
           assert_that (offset \<le> length chunk);
           let written = min (length chunk - offset) (length buf);
           let chunk = take offset chunk @ take written buf @ drop (offset + written) chunk;
           Some (d\<lparr>chunks := butlast (chunks d) @ [chunk], window_end := window_end d + written\<rparr>,
                 skipped + written)
         }
         else Some (d, skipped))"

text \<open>
  The std method \<open>Write::write_all\<close> over \<open>append_some\<close>: it repeats until the buffer is
  empty, and a write of no bytes is an error, which every caller unwraps.
\<close>

function write_all :: "buf_deque \<Rightarrow> byte list \<Rightarrow> buf_deque option" where
  "write_all d buf =
     (if buf = [] then Some d
      else (case append_some d buf of
              None \<Rightarrow> None
            | Some (d', n) \<Rightarrow> (if n = 0 then None else write_all d' (drop n buf))))"
  by pat_completeness auto
termination
  by (relation "measure (\<lambda>(d, buf). length buf)") auto

declare write_all.simps [simp del]

definition bd_get_chunk :: "buf_deque \<Rightarrow> usize \<Rightarrow> byte list option" where
  "bd_get_chunk d start =
     do {
       assert_that (window_start d \<le> start \<and> start < window_end d);
       let start = start - window_start d;
       let chunk_idx = start div CHUNK_SIZE;
       let chunk_start = start mod CHUNK_SIZE;
       size \<leftarrow> window_size d;
       assert_that (chunk_idx * CHUNK_SIZE \<le> size);
       let chunk_end = min CHUNK_SIZE (size - chunk_idx * CHUNK_SIZE);
       assert_that (chunk_idx < length (chunks d));
       let chunk = chunks d ! chunk_idx;
       assert_that (chunk_start \<le> chunk_end \<and> chunk_end \<le> length chunk);
       Some (take (chunk_end - chunk_start) (drop chunk_start chunk))
     }"

definition bd_ops :: "buf_deque chunked" where
  "bd_ops = \<lparr>cb_get_chunk = bd_get_chunk, cb_len = window_end\<rparr>"

subsection \<open>Representation\<close>

definition deque_inv :: "buf_deque \<Rightarrow> bool" where
  "deque_inv d \<longleftrightarrow>
     (\<forall>c \<in> set (chunks d). length c = CHUNK_SIZE) \<and>
     (if window_end d < window_start d then chunks d = []
      else window_end d - window_start d \<le> length (chunks d) * CHUNK_SIZE \<and>
           length (chunks d) * CHUNK_SIZE < window_end d - window_start d + CHUNK_SIZE)"

definition deque_rep :: "buf_deque \<Rightarrow> byte list \<Rightarrow> bool" where
  "deque_rep d xs \<longleftrightarrow>
     deque_inv d \<and> window_end d = length xs \<and>
     take (length xs - window_start d) (concat (chunks d)) = drop (window_start d) xs"

lemma deque_rep_len: "deque_rep d xs \<Longrightarrow> window_end d = length xs"
  by (simp add: deque_rep_def)

lemma bd_new_simps [simp]:
  "chunks bd_new = []" "discarded_chunks bd_new = 0" "window_end bd_new = 0" "window_start bd_new = 0"
  by (simp_all add: bd_new_def window_start_def)

lemma window_start_update [simp]:
  "window_start (d\<lparr>window_end := n\<rparr>) = window_start d"
  "window_start (d\<lparr>chunks := cs\<rparr>) = window_start d"
  by (simp_all add: window_start_def)

lemma deque_rep_new [simp]: "deque_rep bd_new []"
  by (simp add: deque_rep_def deque_inv_def)

lemma length_concat_const: "\<forall>c \<in> set cs. length c = n \<Longrightarrow> length (concat cs) = length cs * n"
  by (induction cs) auto

lemma concat_chunk:
  assumes "\<forall>c \<in> set cs. length c = n" "i < length cs"
  shows "drop (i * n) (concat cs) = cs ! i @ concat (drop (Suc i) cs)"
  using assms
proof (induction i arbitrary: cs)
  case 0
  then show ?case by (cases cs) auto
next
  case (Suc i)
  then show ?case by (cases cs) auto
qed

subsection \<open>get_chunk\<close>

lemma bd_get_chunk_rep:
  assumes rep: "deque_rep d xs" and p: "window_start d \<le> p" "p < length xs"
  shows "\<exists>c. bd_get_chunk d p = Some c \<and> c \<noteq> [] \<and> prefix c (drop p xs)"
proof -
  define q where "q = p - window_start d"
  define i where "i = q div CHUNK_SIZE"
  define j where "j = q mod CHUNK_SIZE"
  define size where "size = length xs - window_start d"
  from rep p have inv: "\<forall>c \<in> set (chunks d). length c = CHUNK_SIZE"
    and len: "size \<le> length (chunks d) * CHUNK_SIZE" "window_end d = length xs"
    and dat: "take size (concat (chunks d)) = drop (window_start d) xs"
    by (auto simp: deque_rep_def deque_inv_def size_def split: if_splits)
  have q: "q = i * CHUNK_SIZE + j" "j < CHUNK_SIZE" "q < size"
    using p by (auto simp: i_def j_def q_def size_def)
  have i: "i < length (chunks d)"
  proof (rule ccontr)
    assume "\<not> i < length (chunks d)"
    then have "length (chunks d) * CHUNK_SIZE \<le> i * CHUNK_SIZE" by simp
    with q len show False by linarith
  qed
  define e where "e = min CHUNK_SIZE (size - i * CHUNK_SIZE)"
  define c where "c = take (e - j) (drop j (chunks d ! i))"
  have chunk: "length (chunks d ! i) = CHUNK_SIZE" using inv i by simp
  have e: "j < e" "e \<le> CHUNK_SIZE" "i * CHUNK_SIZE + e \<le> size"
    using q unfolding e_def by linarith+
  have lc: "length c = e - j" using e chunk by (simp add: c_def)
  have got: "bd_get_chunk d p = Some c"
    using p len i q e chunk
    by (simp add: bd_get_chunk_def window_size_def Let_def q_def [symmetric] i_def [symmetric]
        j_def [symmetric] size_def [symmetric] e_def [symmetric] c_def)
  have "drop p xs = drop q (drop (window_start d) xs)"
    using p by (simp add: q_def)
  also have "\<dots> = drop q (take size (concat (chunks d)))" by (simp add: dat)
  also have "\<dots> = take (size - q) (drop j (drop (i * CHUNK_SIZE) (concat (chunks d))))"
    by (simp add: drop_take q(1) add.commute)
  also have "\<dots> = take (size - q) (drop j (chunks d ! i @ concat (drop (Suc i) (chunks d))))"
    by (simp add: concat_chunk [OF inv i])
  also have "\<dots> = take (size - q) (drop j (chunks d ! i) @ concat (drop (Suc i) (chunks d)))"
    using chunk q by simp
  finally have dp: "drop p xs = \<dots>" .
  have "e - j \<le> size - q" using e q by linarith
  moreover have "e - j \<le> length (drop j (chunks d ! i))" using e q chunk by simp
  ultimately have le: "e - j \<le> size - q" "e - j \<le> length (drop j (chunks d ! i))" by blast+
  have "c = take (e - j) (drop p xs)"
    using le by (simp add: dp c_def)
  then have "prefix c (drop p xs)" by (metis take_is_prefix)
  moreover have "c \<noteq> []" using lc e by auto
  ultimately show ?thesis using got by blast
qed

subsection \<open>Appending\<close>

lemma get_last_chunk_rep:
  assumes rep: "deque_rep d xs" and le: "window_start d \<le> length xs"
  shows "\<exists>cs c. get_last_chunk d = Some (d\<lparr>chunks := cs @ [c]\<rparr>, c)
    \<and> (\<forall>x \<in> set (cs @ [c]). length x = CHUNK_SIZE)
    \<and> length cs * CHUNK_SIZE + window_end d mod CHUNK_SIZE = length xs - window_start d
    \<and> take (length xs - window_start d) (concat cs @ c) = drop (window_start d) xs"
proof -
  define size where "size = length xs - window_start d"
  have we: "window_end d = discarded_chunks d * CHUNK_SIZE + size"
    using rep le by (simp add: size_def deque_rep_def window_start_def)
  then have off: "window_end d mod CHUNK_SIZE = size mod CHUNK_SIZE" by simp
  from rep le have inv: "\<forall>c \<in> set (chunks d). length c = CHUNK_SIZE"
    and len: "size \<le> length (chunks d) * CHUNK_SIZE"
      "length (chunks d) * CHUNK_SIZE < size + CHUNK_SIZE" "window_end d = length xs"
    and dat: "take size (concat (chunks d)) = drop (window_start d) xs"
    by (auto simp: deque_rep_def deque_inv_def size_def)
  have full: "no_space_in_last_chunk d = Some (size = length (chunks d) * CHUNK_SIZE)"
    using le len by (simp add: no_space_in_last_chunk_def window_size_def size_def)
  show ?thesis
  proof (cases "size = length (chunks d) * CHUNK_SIZE")
    case True
    let ?z = "replicate CHUNK_SIZE (0::byte)"
    have "get_last_chunk d = Some (d\<lparr>chunks := chunks d @ [?z]\<rparr>, ?z)"
      using full True by (simp add: get_last_chunk_def)
    moreover have "take size (concat (chunks d) @ ?z) = drop (window_start d) xs"
      using dat True length_concat_const [OF inv] by simp
    moreover have "\<forall>x \<in> set (chunks d @ [?z]). length x = CHUNK_SIZE" using inv by simp
    moreover have "length (chunks d) * CHUNK_SIZE + window_end d mod CHUNK_SIZE = size"
      using off True by simp
    ultimately show ?thesis unfolding size_def [symmetric] by blast
  next
    case False
    with len have ne: "chunks d \<noteq> []" by auto
    then obtain cs c where cs: "chunks d = cs @ [c]" by (metis append_butlast_last_id)
    have "get_last_chunk d = Some (d\<lparr>chunks := cs @ [c]\<rparr>, c)"
      using full False cs by (simp add: get_last_chunk_def)
    moreover have "size = length cs * CHUNK_SIZE + size mod CHUNK_SIZE"
    proof -
      have "length cs * CHUNK_SIZE \<le> size" "size < Suc (length cs) * CHUNK_SIZE"
        using len False cs by simp_all
      then have "size div CHUNK_SIZE = length cs"
        by (intro div_nat_eqI) (simp_all add: mult.commute)
      then show ?thesis by (metis div_mult_mod_eq)
    qed
    ultimately show ?thesis using inv dat off cs
      unfolding size_def [symmetric] by (intro exI [of _ cs] exI [of _ c]) simp
  qed
qed

text \<open>The two halves of \<open>append_some\<close>: skipping, and writing into the last chunk.\<close>

lemma deque_rep_skip:
  assumes "deque_rep d xs" "window_end d < window_start d"
    "sk = min (window_start d - window_end d) (length buf)"
  shows "deque_rep (d\<lparr>window_end := window_end d + sk\<rparr>) (xs @ take sk buf)"
proof -
  have "window_start (d\<lparr>window_end := window_end d + sk\<rparr>) = window_start d"
    by (simp add: window_start_def)
  moreover have "window_end d + sk \<le> window_start d" "sk \<le> length buf"
    using assms by auto
  ultimately show ?thesis using assms(1,2) by (auto simp: deque_rep_def deque_inv_def)
qed

lemma deque_rep_write:
  assumes rep: "deque_rep d xs" and le: "window_start d \<le> length xs" and "buf \<noteq> []"
  shows "\<exists>d' n. append_some d buf = Some (d', n) \<and> deque_rep d' (xs @ take n buf)
    \<and> 0 < n \<and> n \<le> length buf \<and> discarded_chunks d' = discarded_chunks d"
proof -
  define off where "off = window_end d mod CHUNK_SIZE"
  have off: "off < CHUNK_SIZE" by (simp add: off_def)
  obtain cs c where g: "get_last_chunk d = Some (d\<lparr>chunks := cs @ [c]\<rparr>, c)"
    and all: "\<forall>x \<in> set (cs @ [c]). length x = CHUNK_SIZE"
    and size: "length cs * CHUNK_SIZE + off = length xs - window_start d"
    and dat: "take (length xs - window_start d) (concat cs @ c) = drop (window_start d) xs"
    using get_last_chunk_rep [OF rep le] unfolding off_def by blast
  define w where "w = min (length c - off) (length buf)"
  define c' where "c' = take off c @ take w buf @ drop (off + w) c"
  define d' where "d' = d\<lparr>chunks := cs @ [c'], window_end := window_end d + w\<rparr>"
  have w: "0 < w" "w \<le> length buf" "off + w \<le> CHUNK_SIZE"
    using off all assms(3) by (auto simp: w_def)
  have len: "window_end d = length xs" using rep by (rule deque_rep_len)
  have app: "append_some d buf = Some (d', w)"
    using g off all le assms(3)
    by (simp add: append_some_def Let_def off_def [symmetric] len [symmetric] w_def c'_def d'_def)
  have ws: "window_start d' = window_start d" by (simp add: d'_def window_start_def)
  have "length c' = CHUNK_SIZE" using w off all by (simp add: c'_def)
  then have "deque_inv d'"
    using all size w le len by (auto simp: deque_inv_def ws) (auto simp: d'_def)
  moreover have "take (length xs + w - window_start d) (concat cs @ c') = drop (window_start d) (xs @ take w buf)"
  proof -
    have cl: "length (concat cs) = length cs * CHUNK_SIZE"
      by (rule length_concat_const) (use all in auto)
    have "length xs + w - window_start d = length cs * CHUNK_SIZE + (off + w)"
      using size le by linarith
    then have "take (length xs + w - window_start d) (concat cs @ c') = concat cs @ take (off + w) c'"
      using cl by simp
    also have "take (off + w) c' = take off c @ take w buf"
      using w off all by (simp add: c'_def)
    finally have "take (length xs + w - window_start d) (concat cs @ c')
        = (concat cs @ take off c) @ take w buf" by simp
    moreover have "concat cs @ take off c = drop (window_start d) xs"
      using dat cl by (simp flip: size)
    ultimately show ?thesis using le by simp
  qed
  ultimately have "deque_rep d' (xs @ take w buf)"
    using w len by (simp add: deque_rep_def ws) (simp add: d'_def)
  then show ?thesis using app w by (auto simp: d'_def)
qed

lemma append_some_rep:
  assumes "deque_rep d xs"
  shows "\<exists>d' n. append_some d buf = Some (d', n) \<and> deque_rep d' (xs @ take n buf)
    \<and> (buf \<noteq> [] \<longrightarrow> 0 < n) \<and> n \<le> length buf \<and> discarded_chunks d' = discarded_chunks d"
proof (cases "window_end d < window_start d")
  case False
  have "window_start d \<le> length xs" using False assms by (simp add: deque_rep_def)
  show ?thesis
  proof (cases "buf = []")
    case True
    then show ?thesis using False assms by (simp add: append_some_def)
  next
    case False
    then show ?thesis using deque_rep_write [OF assms \<open>window_start d \<le> length xs\<close>] by blast
  qed
next
  case True
  define sk where "sk = min (window_start d - window_end d) (length buf)"
  define d1 where "d1 = d\<lparr>window_end := window_end d + sk\<rparr>"
  have rep: "deque_rep d1 (xs @ take sk buf)"
    unfolding d1_def by (rule deque_rep_skip [OF assms True sk_def])
  have ws: "window_start d1 = window_start d" by (simp add: d1_def window_start_def)
  show ?thesis
  proof (cases "drop sk buf = []")
    case empty: True
    have "append_some d buf = Some (d1, sk)"
      using True empty by (simp add: append_some_def Let_def sk_def [symmetric] d1_def)
    moreover have "buf \<noteq> [] \<longrightarrow> 0 < sk" using True by (auto simp: sk_def)
    ultimately show ?thesis using rep by (simp add: sk_def d1_def)
  next
    case rest: False
    then have sk: "sk = window_start d - window_end d" "sk \<le> length buf"
      by (auto simp: sk_def min_def split: if_splits)
    then have le: "window_start d1 \<le> length (xs @ take sk buf)" "\<not> window_end d1 < window_start d1"
      using True deque_rep_len [OF assms] unfolding ws by (auto simp: d1_def)
    obtain d' n where d': "append_some d1 (drop sk buf) = Some (d', n)"
      "deque_rep d' ((xs @ take sk buf) @ take n (drop sk buf))" "0 < n"
      "n \<le> length (drop sk buf)" "discarded_chunks d' = discarded_chunks d1"
      using deque_rep_write [OF rep le(1) rest] by blast
    have "append_some d buf = Some (d', sk + n)"
    proof -
      have "append_some d buf = map_option (\<lambda>(d', n). (d', sk + n)) (append_some d1 (drop sk buf))"
        using True rest le(2)
        by (cases "get_last_chunk d1")
           (auto simp: append_some_def Let_def sk_def [symmetric] d1_def [symmetric] assert_that_def)
      then show ?thesis using d'(1) by simp
    qed
    moreover have "(xs @ take sk buf) @ take n (drop sk buf) = xs @ take (sk + n) buf"
      by (simp add: take_add)
    ultimately show ?thesis using d' sk by (auto simp: d1_def)
  qed
qed

lemma write_all_rep:
  assumes "deque_rep d xs"
  shows "\<exists>d'. write_all d buf = Some d' \<and> deque_rep d' (xs @ buf)
    \<and> discarded_chunks d' = discarded_chunks d"
  using assms
proof (induction "length buf" arbitrary: d xs buf rule: less_induct)
  case less
  show ?case
  proof (cases "buf = []")
    case True
    then show ?thesis using less.prems by (simp add: write_all.simps)
  next
    case False
    obtain d1 n where d1: "append_some d buf = Some (d1, n)" "deque_rep d1 (xs @ take n buf)"
      "0 < n" "n \<le> length buf" "discarded_chunks d1 = discarded_chunks d"
      using append_some_rep [OF less.prems, of buf] False by blast
    have "\<exists>d'. write_all d1 (drop n buf) = Some d'
        \<and> deque_rep d' ((xs @ take n buf) @ drop n buf) \<and> discarded_chunks d' = discarded_chunks d1"
      by (rule less.hyps) (use d1 False in auto)
    then show ?thesis using d1 False by (simp add: write_all.simps [of d buf])
  qed
qed

subsection \<open>Discarding\<close>

lemma discard_loop_eq:
  "discard_loop m cs n = (drop (min (length cs) (m - n)) cs, n + min (length cs) (m - n))"
proof (induction m cs n rule: discard_loop.induct)
  case (1 m n)
  then show ?case by simp
next
  case (2 m c cs n)
  show ?case
  proof (cases "n < m")
    case True
    then have "m - n = Suc (m - Suc n)" by simp
    then show ?thesis using 2 True by simp
  qed simp
qed

lemma bd_discard_fields [deque_simps]:
  "window_end (bd_discard d until) = window_end d"
  "discarded_chunks (bd_discard d until) = max (until div CHUNK_SIZE) (discarded_chunks d)"
  "chunks (bd_discard d until) = drop (until div CHUNK_SIZE - discarded_chunks d) (chunks d)"
  by (auto simp: bd_discard_def discard_loop_eq Let_def max_def min_def)

lemma window_start_discard [deque_simps]:
  "window_start (bd_discard d until) = max (until div CHUNK_SIZE * CHUNK_SIZE) (window_start d)"
  by (simp add: window_start_def bd_discard_fields nat_mult_max_left)

lemma window_start_discard_le: "window_start (bd_discard d until) \<le> max until (window_start d)"
  unfolding window_start_discard by (rule max.mono) simp_all

lemma drop_concat_const:
  "\<forall>c \<in> set cs. length c = n \<Longrightarrow> concat (drop k cs) = drop (k * n) (concat cs)"
proof (induction k arbitrary: cs)
  case 0
  then show ?case by simp
next
  case (Suc k)
  then show ?case by (cases cs) auto
qed

lemma bd_discard_rep:
  assumes rep: "deque_rep d xs"
  shows "deque_rep (bd_discard d until) xs"
proof (cases "until div CHUNK_SIZE \<le> discarded_chunks d")
  case True
  then have "bd_discard d until = d"
    by (intro buf_deque.equality) (auto simp: bd_discard_fields)
  with rep show ?thesis by simp
next
  case False
  define k where "k = until div CHUNK_SIZE - discarded_chunks d"
  have len: "window_end d = length xs" using rep by (rule deque_rep_len)
  have "discarded_chunks (bd_discard d until) = discarded_chunks d + k"
    using False by (simp add: bd_discard_fields k_def)
  then have ws: "window_start (bd_discard d until) = window_start d + k * CHUNK_SIZE"
    by (simp add: window_start_def distrib_right)
  have all: "\<forall>c \<in> set (chunks d). length c = CHUNK_SIZE"
    using rep by (simp add: deque_rep_def deque_inv_def)
  have sub: "set (drop k (chunks d)) \<subseteq> set (chunks d)" by (rule set_drop_subset)
  have inv: "deque_inv (bd_discard d until)"
  proof (cases "length xs < window_start d + k * CHUNK_SIZE")
    case True
    have "drop k (chunks d) = []"
    proof (cases "window_end d < window_start d")
      case True
      then show ?thesis using rep by (simp add: deque_rep_def deque_inv_def)
    next
      case F: False
      have "deque_inv d" using rep by (simp add: deque_rep_def)
      with F have "length (chunks d) * CHUNK_SIZE < length xs - window_start d + CHUNK_SIZE"
        by (simp add: deque_inv_def len)
      then have "length (chunks d) * CHUNK_SIZE < Suc k * CHUNK_SIZE"
        using True F len by simp
      then have "length (chunks d) < Suc k" by (metis mult_less_cancel2)
      then show ?thesis by simp
    qed
    then show ?thesis using True len
      by (simp add: deque_inv_def ws bd_discard_fields k_def [symmetric])
  next
    case F: False
    have "deque_inv d" using rep by (simp add: deque_rep_def)
    then have "length xs - window_start d \<le> length (chunks d) * CHUNK_SIZE"
      "length (chunks d) * CHUNK_SIZE < length xs - window_start d + CHUNK_SIZE"
      using F by (simp_all add: deque_inv_def len)
    moreover have "(length (chunks d) - k) * CHUNK_SIZE = length (chunks d) * CHUNK_SIZE - k * CHUNK_SIZE"
      by (rule diff_mult_distrib)
    ultimately show ?thesis using F len all sub
      by (auto simp: deque_inv_def ws bd_discard_fields k_def [symmetric])
  qed
  have "take (length xs - (window_start d + k * CHUNK_SIZE)) (drop (k * CHUNK_SIZE) (concat (chunks d)))
      = drop (k * CHUNK_SIZE) (take (length xs - window_start d) (concat (chunks d)))"
    by (simp add: drop_take)
  also have "\<dots> = drop (window_start d + k * CHUNK_SIZE) xs"
    using rep by (simp add: deque_rep_def add.commute)
  finally show ?thesis using inv len
    by (simp add: deque_rep_def ws bd_discard_fields k_def [symmetric] drop_concat_const [OF all])
qed

text \<open>Discarding everything, as a diverged replay does, stays within a 64-bit \<open>usize\<close>.\<close>

lemma window_start_discard_bound:
  "until \<le> usize_max \<Longrightarrow> window_start d \<le> usize_max \<Longrightarrow>
   window_start (bd_discard d until) \<le> usize_max"
  using window_start_discard_le [of d until] by simp

text \<open>The data that is still held, from \<open>window_start\<close> on.\<close>

definition deque_data :: "buf_deque \<Rightarrow> byte list" where
  "deque_data d = take (window_end d - window_start d) (concat (chunks d))"

lemma deque_data_rep: "deque_rep d xs \<Longrightarrow> deque_data d = drop (window_start d) xs"
  by (simp add: deque_data_def deque_rep_def)

text \<open>A sequence of writes and discards, as the owners of a deque make them.\<close>

datatype deque_op = Write "byte list" | Discard usize

fun deque_run :: "deque_op list \<Rightarrow> buf_deque \<Rightarrow> buf_deque option" where
  "deque_run [] d = Some d"
| "deque_run (Write buf # ops) d = do { d \<leftarrow> write_all d buf; deque_run ops d }"
| "deque_run (Discard until # ops) d = deque_run ops (bd_discard d until)"

fun written :: "deque_op list \<Rightarrow> byte list" where
  "written [] = []"
| "written (Write buf # ops) = buf @ written ops"
| "written (Discard until # ops) = written ops"

fun discard_limit :: "deque_op list \<Rightarrow> usize" where
  "discard_limit [] = 0"
| "discard_limit (Write buf # ops) = discard_limit ops"
| "discard_limit (Discard until # ops) = max until (discard_limit ops)"

lemma deque_run_rep:
  assumes "deque_rep d xs"
  shows "\<exists>d'. deque_run ops d = Some d' \<and> deque_rep d' (xs @ written ops)
    \<and> window_start d' = max (window_start d) (discard_limit ops div CHUNK_SIZE * CHUNK_SIZE)"
  using assms
proof (induction ops d arbitrary: xs rule: deque_run.induct)
  case (2 buf ops d)
  obtain d1 where d1: "write_all d buf = Some d1" "deque_rep d1 (xs @ buf)"
    "discarded_chunks d1 = discarded_chunks d"
    using write_all_rep [OF "2.prems"] by blast
  from "2.IH" [OF d1(1,2)] d1 show ?case by (auto simp: window_start_def)
next
  case (3 until ops d)
  have mono: "max a b div CHUNK_SIZE = max (a div CHUNK_SIZE) (b div CHUNK_SIZE)" for a b
    by (simp add: max_def div_le_mono antisym)
  from "3.IH" [OF bd_discard_rep [OF "3.prems"]] show ?case
    by (auto simp: window_start_discard mono nat_mult_max_left)
qed simp

subsection \<open>The deque as a \<open>ChunkedBuf\<close>\<close>

interpretation bd: chunked_buf bd_ops deque_rep window_start
  by unfold_locales (auto simp: bd_ops_def deque_rep_len intro: bd_get_chunk_rep)

interpretation bd2: chunked_buf_pair bd_ops deque_rep window_start bd_ops deque_rep window_start
  by unfold_locales

end
