(* ===== verification/Writer_Replay.thy ===== *)
theory Writer_Replay
  imports Buf_Deque
begin

text \<open>
  \<open>WriterReplay\<close> of \<open>src/replay/streams/writer_replay.rs\<close>: what one connection sent, its
  header until the merge strategy takes it, and how far the delayed position has come.
  \<open>ReplayHeader\<close> is its \<open>data\<close>, a byte sequence.
\<close>

type_synonym replay_header = "byte list"

record writer_replay =
  wr_header :: "replay_header option"
  wr_data :: buf_deque
  wr_delayed_data_len :: usize
  wr_finished :: bool

definition wr_new :: writer_replay where
  "wr_new = \<lparr>wr_header = None, wr_data = bd_new, wr_delayed_data_len = 0, wr_finished = False\<rparr>"

definition wr_data_len :: "writer_replay \<Rightarrow> usize" where
  "wr_data_len w = cb_len bd_ops (wr_data w)"

definition wr_add_header :: "writer_replay \<Rightarrow> replay_header \<Rightarrow> writer_replay" where
  "wr_add_header w h = w\<lparr>wr_header := Some h\<rparr>"

text \<open>\<open>take_header\<close> moves the header out; without one it panics.\<close>

definition wr_take_header :: "writer_replay \<Rightarrow> (replay_header \<times> writer_replay) option" where
  "wr_take_header w =
     (case wr_header w of None \<Rightarrow> None | Some h \<Rightarrow> Some (h, w\<lparr>wr_header := None\<rparr>))"

definition wr_add_data :: "writer_replay \<Rightarrow> byte list \<Rightarrow> writer_replay option" where
  "wr_add_data w buf =
     do {
       d \<leftarrow> write_all (wr_data w) buf;
       Some (w\<lparr>wr_data := d\<rparr>)
     }"

definition wr_set_delayed_data_len :: "writer_replay \<Rightarrow> usize \<Rightarrow> writer_replay option" where
  "wr_set_delayed_data_len w new =
     do {
       assert_that (wr_delayed_data_len w \<le> new);
       Some (w\<lparr>wr_delayed_data_len := new\<rparr>)
     }"

definition wr_discard :: "writer_replay \<Rightarrow> usize \<Rightarrow> writer_replay" where
  "wr_discard w until = w\<lparr>wr_data := bd_discard (wr_data w) until\<rparr>"

definition wr_discard_all :: "writer_replay \<Rightarrow> writer_replay" where
  "wr_discard_all w = w\<lparr>wr_data := bd_discard (wr_data w) usize_max\<rparr>"

definition wr_finish :: "writer_replay \<Rightarrow> writer_replay" where
  "wr_finish w = w\<lparr>wr_finished := True\<rparr>"

text \<open>
  \<open>read_data\<close>: one read per await. A read gives an I/O error or up to 4096 bytes, and no
  bytes mean the end of the stream. The loop over the results of the reads ends with the
  first error or the first empty read; a list that ends before is a connection whose task
  is still waiting (or was dropped), the third outcome.
\<close>

datatype 'e read_outcome = ReadOk | ReadErr 'e | ReadPending

fun read_data :: "writer_replay \<Rightarrow> ('e + byte list) list \<Rightarrow> (writer_replay \<times> 'e read_outcome) option" where
  "read_data w [] = Some (w, ReadPending)"
| "read_data w (Inl e # _) = Some (w, ReadErr e)"
| "read_data w (Inr buf # reads) =
     (if buf = [] then Some (w, ReadOk)
      else do { w' \<leftarrow> wr_add_data w buf; read_data w' reads })"

text \<open>The data that arrives with a sequence of read results.\<close>

fun received :: "('e + byte list) list \<Rightarrow> byte list" where
  "received [] = []"
| "received (Inl e # _) = []"
| "received (Inr buf # reads) = (if buf = [] then [] else buf @ received reads)"

subsection \<open>Facts\<close>

lemma wr_new_simps [stream_simps]:
  "wr_header wr_new = None" "wr_data wr_new = bd_new" "wr_delayed_data_len wr_new = 0"
  "wr_finished wr_new = False"
  by (simp_all add: wr_new_def)

lemma wr_data_len_rep: "deque_rep (wr_data w) xs \<Longrightarrow> wr_data_len w = length xs"
  by (simp add: wr_data_len_def bd.len_rep)

lemma wr_simps [stream_simps]:
  "wr_data (wr_discard w n) = bd_discard (wr_data w) n"
  "wr_delayed_data_len (wr_discard w n) = wr_delayed_data_len w"
  "wr_finished (wr_discard w n) = wr_finished w"
  "wr_header (wr_discard w n) = wr_header w"
  "wr_data (wr_discard_all w) = bd_discard (wr_data w) usize_max"
  "wr_delayed_data_len (wr_discard_all w) = wr_delayed_data_len w"
  "wr_finished (wr_discard_all w) = wr_finished w"
  "wr_header (wr_discard_all w) = wr_header w"
  "wr_data (wr_finish w) = wr_data w" "wr_finished (wr_finish w)"
  "wr_delayed_data_len (wr_finish w) = wr_delayed_data_len w"
  "wr_header (wr_finish w) = wr_header w"
  "wr_data (wr_add_header w h) = wr_data w" "wr_header (wr_add_header w h) = Some h"
  "wr_delayed_data_len (wr_add_header w h) = wr_delayed_data_len w"
  "wr_finished (wr_add_header w h) = wr_finished w"
  by (simp_all add: wr_discard_def wr_discard_all_def wr_finish_def wr_add_header_def)

lemma wr_data_len_simps [stream_simps]:
  "wr_data_len (wr_discard w n) = wr_data_len w"
  "wr_data_len (wr_discard_all w) = wr_data_len w"
  "wr_data_len (wr_finish w) = wr_data_len w"
  "wr_data_len (wr_add_header w h) = wr_data_len w"
  by (simp_all add: wr_data_len_def bd_ops_def stream_simps deque_simps)

lemma wr_discard_rep:
  "deque_rep (wr_data w) xs \<Longrightarrow> deque_rep (wr_data (wr_discard w n)) xs"
  "deque_rep (wr_data w) xs \<Longrightarrow> deque_rep (wr_data (wr_discard_all w)) xs"
  by (simp_all add: stream_simps bd_discard_rep)

lemma wr_add_data_rep:
  assumes "deque_rep (wr_data w) xs"
  shows "\<exists>d. wr_add_data w buf = Some (w\<lparr>wr_data := d\<rparr>) \<and> deque_rep d (xs @ buf)
    \<and> window_start d = window_start (wr_data w)"
  using write_all_rep [OF assms, of buf] by (auto simp: wr_add_data_def window_start_def)

lemma read_data_rep:
  assumes "deque_rep (wr_data w) xs"
  shows "\<exists>d out. read_data w reads = Some (w\<lparr>wr_data := d\<rparr>, out) \<and> deque_rep d (xs @ received reads)"
  using assms
proof (induction w reads arbitrary: xs rule: read_data.induct)
  case (1 w)
  then show ?case by (intro exI [of _ "wr_data w"]) simp
next
  case (2 w e reads)
  then show ?case by (intro exI [of _ "wr_data w"]) simp
next
  case (3 w buf reads)
  show ?case
  proof (cases "buf = []")
    case True
    with "3.prems" show ?thesis by (intro exI [of _ "wr_data w"]) simp
  next
    case False
    obtain d where d: "wr_add_data w buf = Some (w\<lparr>wr_data := d\<rparr>)" "deque_rep d (xs @ buf)"
      using wr_add_data_rep [OF "3.prems"] by blast
    then have "deque_rep (wr_data (w\<lparr>wr_data := d\<rparr>)) (xs @ buf)" by simp
    from "3.IH" [OF False d(1) this] d False show ?thesis by auto
  qed
qed

end
