(* ===== verification/Event.thy ===== *)
theory Event
  imports Prelude
begin

text \<open>
  \<open>Event\<close> of \<open>src/util/event.rs\<close>: the wakers of the tasks that wait for an object to
  change. A task is a number. Calling \<open>Waker::wake\<close> acts on the runtime, which is outside
  the program; the model records the calls in \<open>woken\<close>, in order.
\<close>

type_synonym task = nat

record event_queue =
  wakers :: "task list"
  woken :: "task list"

definition event_new :: event_queue where
  "event_new = \<lparr>wakers = [], woken = []\<rparr>"

definition event_wait :: "event_queue \<Rightarrow> task \<Rightarrow> event_queue" where
  "event_wait ev cx = ev\<lparr>wakers := wakers ev @ [cx]\<rparr>"

text \<open>\<open>notify\<close> drains the queue and wakes what it drains.\<close>

fun notify_loop :: "task list \<Rightarrow> task list \<Rightarrow> task list" where
  "notify_loop [] log = log"
| "notify_loop (w # ws) log = notify_loop ws (log @ [w])"

definition event_notify :: "event_queue \<Rightarrow> event_queue" where
  "event_notify ev = ev\<lparr>wakers := [], woken := notify_loop (wakers ev) (woken ev)\<rparr>"

definition event_drop :: "event_queue \<Rightarrow> event_queue" where
  "event_drop ev = event_notify ev"

lemma notify_loop_eq: "notify_loop ws log = log @ ws"
  by (induction ws arbitrary: log) auto

lemma event_simps [stream_simps]:
  "wakers event_new = []" "woken event_new = []"
  "wakers (event_wait ev t) = wakers ev @ [t]" "woken (event_wait ev t) = woken ev"
  "wakers (event_notify ev) = []" "woken (event_notify ev) = woken ev @ wakers ev"
  by (simp_all add: event_new_def event_wait_def event_notify_def notify_loop_eq)

end
