(* ===== verification/Merged_Replay.thy ===== *)
theory Merged_Replay
  imports Writer_Replay Event
begin

text \<open>
  \<open>MergedReplay\<close> and its reader, of \<open>src/replay/streams/merged_replay.rs\<close>: the canonical
  replay that the merge strategy writes and that reader connections and the saver read.
  A reader sees the header followed by the data up to the delayed position.
\<close>

record merged_replay =
  mr_data :: buf_deque
  mr_header :: "replay_header option"
  mr_delayed_data_len :: usize
  mr_finished :: bool
  mr_read_event :: event_queue

definition mr_new :: merged_replay where
  "mr_new = \<lparr>mr_data = bd_new, mr_header = None, mr_delayed_data_len = 0,
             mr_finished = False, mr_read_event = event_new\<rparr>"

definition mr_data_len :: "merged_replay \<Rightarrow> usize" where
  "mr_data_len c = cb_len bd_ops (mr_data c)"

definition mr_header_len :: "merged_replay \<Rightarrow> usize" where
  "mr_header_len c = (case mr_header c of None \<Rightarrow> 0 | Some h \<Rightarrow> length h)"

definition mr_notify_read_event :: "merged_replay \<Rightarrow> merged_replay" where
  "mr_notify_read_event c = c\<lparr>mr_read_event := event_notify (mr_read_event c)\<rparr>"

definition mr_wait_for_read_event :: "merged_replay \<Rightarrow> task \<Rightarrow> merged_replay" where
  "mr_wait_for_read_event c cx = c\<lparr>mr_read_event := event_wait (mr_read_event c) cx\<rparr>"

definition mr_add_header :: "merged_replay \<Rightarrow> replay_header \<Rightarrow> merged_replay option" where
  "mr_add_header c h =
     do {
       assert_that (\<not> mr_finished c);
       assert_that (mr_data_len c = 0);
       Some (mr_notify_read_event (c\<lparr>mr_header := Some h\<rparr>))
     }"

text \<open>The \<open>for\<close> loop of \<open>add_data\<close> over the chunks of the writer's data.\<close>

partial_function (option) write_chunks :: "buf_deque chunk_iter \<Rightarrow> buf_deque \<Rightarrow> buf_deque option" where
  "write_chunks it d =
     do {
       nx \<leftarrow> iter_next bd_ops it;
       (case nx of
          None \<Rightarrow> Some d
        | Some (chunk, it') \<Rightarrow> do { d' \<leftarrow> write_all d chunk; write_chunks it' d' })
     }"

declare write_chunks.simps [code]

definition mr_add_data :: "merged_replay \<Rightarrow> writer_replay \<Rightarrow> usize \<Rightarrow> merged_replay option" where
  "mr_add_data c writer until =
     do {
       assert_that (\<not> mr_finished c);
       assert_that (until \<le> cb_len bd_ops (wr_data writer));
       it \<leftarrow> iter_chunks bd_ops (wr_data writer) (cb_len bd_ops (mr_data c)) until;
       d \<leftarrow> write_chunks it (mr_data c);
       Some (c\<lparr>mr_data := d\<rparr>)
     }"

definition mr_advance_delayed_data :: "merged_replay \<Rightarrow> usize \<Rightarrow> merged_replay option" where
  "mr_advance_delayed_data c len =
     do {
       assert_that (len \<le> cb_len bd_ops (mr_data c));
       assert_that (\<not> mr_finished c);
       Some (mr_notify_read_event (c\<lparr>mr_delayed_data_len := len\<rparr>))
     }"

definition mr_finish :: "merged_replay \<Rightarrow> merged_replay" where
  "mr_finish c = mr_notify_read_event (c\<lparr>mr_finished := True\<rparr>)"

subsection \<open>Header and data as one \<open>ChunkedBuf\<close>\<close>

definition mr_len :: "merged_replay \<Rightarrow> usize" where
  "mr_len c = mr_delayed_data_len c + mr_header_len c"

text \<open>The subtraction \<open>delayed_data_len - start\<close> panics when it would underflow.\<close>

definition mr_get_chunk :: "merged_replay \<Rightarrow> usize \<Rightarrow> byte list option" where
  "mr_get_chunk c start =
     (if start < mr_header_len c
      then map_option (drop start) (mr_header c)
      else do {
        let start = start - mr_header_len c;
        assert_that (start \<le> mr_delayed_data_len c);
        let delay_limit = mr_delayed_data_len c - start;
        chunk \<leftarrow> bd_get_chunk (mr_data c) start;
        let read_max = min (length chunk) delay_limit;
        Some (take read_max chunk)
      })"

definition mr_ops :: "merged_replay chunked" where
  "mr_ops = \<lparr>cb_get_chunk = mr_get_chunk, cb_len = mr_len\<rparr>"

subsection \<open>The reader\<close>

datatype poll = Pending | Ready

record mreplay_reader =
  rd_position :: usize

definition rd_new :: mreplay_reader where
  "rd_new = \<lparr>rd_position = 0\<rparr>"

text \<open>
  \<open>poll_read\<close> with \<open>cap\<close> bytes left in the caller's buffer; the bytes put into it are
  part of the result. The replay changes too: a reader that has to wait registers itself.
\<close>

definition poll_read ::
  "mreplay_reader \<Rightarrow> merged_replay \<Rightarrow> task \<Rightarrow> usize \<Rightarrow>
   (poll \<times> byte list \<times> mreplay_reader \<times> merged_replay) option" where
  "poll_read self r cx cap =
     (if mr_len r \<le> rd_position self
      then (if mr_finished r then Some (Ready, [], self, r)
            else Some (Pending, [], self, mr_wait_for_read_event r cx))
      else do {
        chunk \<leftarrow> mr_get_chunk r (rd_position self);
        let copyable = min (length chunk) cap;
        Some (Ready, take copyable chunk, self\<lparr>rd_position := rd_position self + copyable\<rparr>, r)
      })"

subsection \<open>Representation\<close>

text \<open>
  \<open>mr_rep c cs\<close>: the canonical replay holds the data \<open>cs\<close>, none of it discarded, and its
  delayed position is not beyond the data. \<open>mr_stream\<close> is what a reader may see.
\<close>

definition mr_rep :: "merged_replay \<Rightarrow> byte list \<Rightarrow> bool" where
  "mr_rep c cs \<longleftrightarrow>
     deque_rep (mr_data c) cs \<and> discarded_chunks (mr_data c) = 0 \<and>
     mr_delayed_data_len c \<le> length cs"

definition header_bytes :: "merged_replay \<Rightarrow> byte list" where
  "header_bytes c = (case mr_header c of None \<Rightarrow> [] | Some h \<Rightarrow> h)"

definition mr_stream :: "merged_replay \<Rightarrow> byte list \<Rightarrow> byte list" where
  "mr_stream c cs = header_bytes c @ take (mr_delayed_data_len c) cs"

definition mr_visible :: "merged_replay \<Rightarrow> byte list \<Rightarrow> bool" where
  "mr_visible c zs \<longleftrightarrow> (\<exists>cs. mr_rep c cs \<and> zs = mr_stream c cs)"

lemma mr_header_len_eq: "mr_header_len c = length (header_bytes c)"
  by (simp add: mr_header_len_def header_bytes_def split: option.splits)

lemma mr_new_simps [stream_simps]:
  "mr_data mr_new = bd_new" "mr_header mr_new = None" "mr_delayed_data_len mr_new = 0"
  "mr_finished mr_new = False" "mr_read_event mr_new = event_new"
  by (simp_all add: mr_new_def)

lemma mr_rep_new: "mr_rep mr_new []"
  by (simp add: mr_rep_def stream_simps)

lemma mr_rep_len: "mr_rep c cs \<Longrightarrow> mr_data_len c = length cs"
  by (simp add: mr_rep_def mr_data_len_def bd.len_rep)

text \<open>The canonical data as the replay stores it, and what a reader may see of it.\<close>

definition merged_bytes :: "merged_replay \<Rightarrow> byte list" where
  "merged_bytes c = deque_data (mr_data c)"

definition visible_bytes :: "merged_replay \<Rightarrow> byte list" where
  "visible_bytes c = mr_stream c (merged_bytes c)"

lemma merged_bytes_rep: "mr_rep c cs \<Longrightarrow> merged_bytes c = cs"
  using deque_data_rep [of "mr_data c" cs] by (simp add: mr_rep_def merged_bytes_def window_start_def)

lemma visible_bytes_rep: "mr_rep c cs \<Longrightarrow> mr_visible c (visible_bytes c)"
  by (auto simp: mr_visible_def visible_bytes_def merged_bytes_rep)

lemma mr_rep_window: "mr_rep c cs \<Longrightarrow> window_start (mr_data c) = 0"
  by (simp add: mr_rep_def window_start_def)

lemma length_mr_stream: "mr_rep c cs \<Longrightarrow> length (mr_stream c cs) = mr_len c"
  by (simp add: mr_stream_def mr_len_def mr_header_len_eq mr_rep_def)

lemma mr_get_chunk_rep:
  assumes "mr_visible c zs" "p < length zs"
  shows "\<exists>ch. mr_get_chunk c p = Some ch \<and> ch \<noteq> [] \<and> prefix ch (drop p zs)"
proof -
  obtain cs where rep: "mr_rep c cs" and zs: "zs = mr_stream c cs"
    using assms(1) by (auto simp: mr_visible_def)
  show ?thesis
  proof (cases "p < mr_header_len c")
    case True
    then obtain h where "mr_header c = Some h" "p < length h"
      by (auto simp: mr_header_len_def split: option.splits)
    then show ?thesis using True by (simp add: mr_get_chunk_def zs mr_stream_def header_bytes_def)
  next
    case False
    define q where "q = p - mr_header_len c"
    have q: "q < mr_delayed_data_len c" "q < length cs"
      using False assms(2) rep length_mr_stream [OF rep]
      by (auto simp: q_def zs mr_len_def mr_rep_def)
    obtain ch where ch: "bd_get_chunk (mr_data c) q = Some ch" "ch \<noteq> []" "prefix ch (drop q cs)"
      using bd_get_chunk_rep [of "mr_data c" cs q] rep q mr_rep_window [OF rep]
      by (auto simp: mr_rep_def)
    have "drop p zs = take (mr_delayed_data_len c - q) (drop q cs)"
      using False by (simp add: zs mr_stream_def mr_header_len_eq q_def drop_take)
    moreover from ch(3) obtain ws where "drop q cs = ch @ ws" by (auto simp: prefix_def)
    ultimately have "prefix (take (min (length ch) (mr_delayed_data_len c - q)) ch) (drop p zs)"
      by (simp add: min_def)
    then show ?thesis using ch q False
      by (intro exI [of _ "take (min (length ch) (mr_delayed_data_len c - q)) ch"])
         (simp add: mr_get_chunk_def Let_def q_def [symmetric])
  qed
qed

interpretation mr: chunked_buf mr_ops mr_visible "\<lambda>_. 0"
proof
  fix b zs
  assume "mr_visible b zs"
  then show "cb_len mr_ops b = length zs"
    by (auto simp: mr_ops_def mr_visible_def length_mr_stream)
qed (simp add: mr_ops_def mr_get_chunk_rep)

subsection \<open>Writing\<close>

lemma write_chunks_rep:
  assumes "deque_rep (it_buf it) xs" "window_start (it_buf it) \<le> it_start it"
    and "it_start it \<le> it_end it" "it_end it \<le> length xs" "deque_rep d ds"
  shows "\<exists>d'. write_chunks it d = Some d'
    \<and> deque_rep d' (ds @ take (it_end it - it_start it) (drop (it_start it) xs))
    \<and> discarded_chunks d' = discarded_chunks d"
  using assms
proof (induction "it_end it - it_start it" arbitrary: it d ds rule: less_induct)
  case less
  show ?case
  proof (cases "it_start it = it_end it")
    case True
    then show ?thesis using less.prems by (subst write_chunks.simps) (simp add: iter_next_def)
  next
    case False
    let ?s = "it_start it" and ?e = "it_end it"
    from False less.prems have "?s < ?e" by simp
    then obtain c where c: "iter_next bd_ops it = Some (Some (c, it\<lparr>it_start := ?s + length c\<rparr>))"
      "c \<noteq> []" "c = take (length c) (drop ?s xs)" "?s + length c \<le> ?e"
      using bd.iter_next_rep [OF less.prems(1,2) _ less.prems(4)] by blast
    obtain d1 where d1: "write_all d c = Some d1" "deque_rep d1 (ds @ c)"
      "discarded_chunks d1 = discarded_chunks d"
      using write_all_rep [OF less.prems(5)] by blast
    let ?it = "it\<lparr>it_start := ?s + length c\<rparr>"
    have "0 < length c" using c by simp
    then have "?e - (?s + length c) < ?e - ?s" using c(4) by linarith
    then have "\<exists>d'. write_chunks ?it d1 = Some d'
      \<and> deque_rep d' ((ds @ c) @ take (it_end ?it - it_start ?it) (drop (it_start ?it) xs))
      \<and> discarded_chunks d' = discarded_chunks d1"
      using c d1 less.prems \<open>?s < ?e\<close> by (intro less.hyps) simp_all
    moreover have "c @ take (?e - (?s + length c)) (drop (?s + length c) xs) = take (?e - ?s) (drop ?s xs)"
    proof -
      have "take (?e - ?s) (drop ?s xs) = take (length c + (?e - (?s + length c))) (drop ?s xs)"
        using c(4) by simp
      also have "\<dots> = take (length c) (drop ?s xs) @ take (?e - (?s + length c)) (drop (?s + length c) xs)"
        by (simp add: take_add add.commute)
      finally show ?thesis using c(3) by simp
    qed
    ultimately show ?thesis using c(1) d1
      by (subst write_chunks.simps) simp
  qed
qed

text \<open>\<open>add_data\<close> appends exactly the writer's data between the two lengths.\<close>

lemma mr_add_data_rep:
  assumes rep: "mr_rep c cs" "deque_rep (wr_data w) xs" and nf: "\<not> mr_finished c"
    and win: "window_start (wr_data w) \<le> length cs"
    and until: "length cs \<le> until" "until \<le> length xs"
  shows "\<exists>d. mr_add_data c w until = Some (c\<lparr>mr_data := d\<rparr>)
    \<and> mr_rep (c\<lparr>mr_data := d\<rparr>) (cs @ take (until - length cs) (drop (length cs) xs))"
proof -
  have drep: "deque_rep (mr_data c) cs" using rep by (simp add: mr_rep_def)
  let ?it = "\<lparr>it_buf = wr_data w, it_start = length cs, it_end = until\<rparr>"
  have it: "iter_chunks bd_ops (wr_data w) (cb_len bd_ops (mr_data c)) until = Some ?it"
    using until by (simp add: iter_chunks_def bd.len_rep [OF drep] bd.len_rep [OF rep(2)])
  obtain d where d: "write_chunks ?it (mr_data c) = Some d"
    "deque_rep d (cs @ take (until - length cs) (drop (length cs) xs))"
    "discarded_chunks d = discarded_chunks (mr_data c)"
    using write_chunks_rep [of ?it xs "mr_data c" cs] rep drep win until by auto
  have "mr_add_data c w until = Some (c\<lparr>mr_data := d\<rparr>)"
    using nf until it d(1) by (simp add: mr_add_data_def bd.len_rep [OF rep(2)])
  then show ?thesis using d rep by (auto simp: mr_rep_def)
qed

lemma mr_add_header_rep:
  assumes "mr_rep c []" "\<not> mr_finished c"
  shows "mr_add_header c h = Some (mr_notify_read_event (c\<lparr>mr_header := Some h\<rparr>))"
  using assms mr_rep_len [OF assms(1)] by (simp add: mr_add_header_def)

lemma mr_advance_rep:
  assumes "mr_rep c cs" "\<not> mr_finished c" "n \<le> length cs"
  shows "mr_advance_delayed_data c n = Some (mr_notify_read_event (c\<lparr>mr_delayed_data_len := n\<rparr>))"
  using assms bd.len_rep [of "mr_data c" cs] by (simp add: mr_advance_delayed_data_def mr_rep_def)

lemma mr_notify_simps [stream_simps]:
  "mr_data (mr_notify_read_event c) = mr_data c"
  "mr_header (mr_notify_read_event c) = mr_header c"
  "mr_delayed_data_len (mr_notify_read_event c) = mr_delayed_data_len c"
  "mr_finished (mr_notify_read_event c) = mr_finished c"
  "wakers (mr_read_event (mr_notify_read_event c)) = []"
  "woken (mr_read_event (mr_notify_read_event c)) = woken (mr_read_event c) @ wakers (mr_read_event c)"
  "mr_data (mr_wait_for_read_event c t) = mr_data c"
  "mr_header (mr_wait_for_read_event c t) = mr_header c"
  "mr_delayed_data_len (mr_wait_for_read_event c t) = mr_delayed_data_len c"
  "mr_finished (mr_wait_for_read_event c t) = mr_finished c"
  "mr_data (mr_finish c) = mr_data c" "mr_header (mr_finish c) = mr_header c"
  "mr_delayed_data_len (mr_finish c) = mr_delayed_data_len c" "mr_finished (mr_finish c)"
  by (simp_all add: mr_notify_read_event_def mr_wait_for_read_event_def mr_finish_def event_simps)

lemma mr_rep_cong:
  "mr_data c' = mr_data c \<Longrightarrow> mr_delayed_data_len c' = mr_delayed_data_len c \<Longrightarrow>
   mr_rep c' cs \<longleftrightarrow> mr_rep c cs"
  by (simp add: mr_rep_def)

subsection \<open>Reading\<close>

text \<open>
  What a reader has handed out is always the visible stream up to its position, and one
  poll extends it by a piece of the stream.
\<close>

definition reader_ok :: "mreplay_reader \<Rightarrow> byte list \<Rightarrow> byte list \<Rightarrow> bool" where
  "reader_ok rd out zs \<longleftrightarrow> rd_position rd \<le> length zs \<and> out = take (rd_position rd) zs"

lemma reader_ok_new: "reader_ok rd_new [] zs"
  by (simp add: reader_ok_def rd_new_def)

lemma reader_ok_grow: "reader_ok rd out zs \<Longrightarrow> prefix zs zs' \<Longrightarrow> reader_ok rd out zs'"
  by (auto simp: reader_ok_def prefix_def)

lemma poll_read_rep:
  assumes vis: "mr_visible c zs" and ok: "reader_ok rd out zs"
  shows "\<exists>p bs rd' c'. poll_read rd c t cap = Some (p, bs, rd', c')
    \<and> reader_ok rd' (out @ bs) zs
    \<and> (p = Pending \<longleftrightarrow> length zs \<le> rd_position rd \<and> \<not> mr_finished c)
    \<and> (p = Pending \<longrightarrow> bs = [] \<and> t \<in> set (wakers (mr_read_event c')))
    \<and> (p = Ready \<longrightarrow> c' = c)
    \<and> (p = Ready \<and> bs = [] \<and> 0 < cap \<longrightarrow> mr_finished c \<and> out = zs)
    \<and> length bs \<le> cap"
proof -
  have len: "mr_len c = length zs" using mr.len_rep [OF vis] by (simp add: mr_ops_def)
  show ?thesis
  proof (cases "rd_position rd < length zs")
    case True
    obtain ch where ch: "mr_get_chunk c (rd_position rd) = Some ch" "ch \<noteq> []"
      "prefix ch (drop (rd_position rd) zs)"
      using mr_get_chunk_rep [OF vis True] by blast
    define n where "n = min (length ch) cap"
    have "rd_position rd + n \<le> length zs"
      using prefix_drop_length [OF ch(3,2)] by (simp add: n_def)
    moreover have "take n ch = take n (drop (rd_position rd) zs)"
      using ch(3) by (auto simp: prefix_def n_def)
    ultimately have "reader_ok (rd\<lparr>rd_position := rd_position rd + n\<rparr>) (out @ take n ch) zs"
      using ok by (simp add: reader_ok_def take_add)
    then show ?thesis using True ch len
      by (simp add: poll_read_def Let_def n_def [symmetric]) (auto simp: n_def min_def split: if_splits)
  next
    case False
    then show ?thesis using ok len
      by (auto simp: poll_read_def reader_ok_def mr_wait_for_read_event_def event_wait_def)
  qed
qed

text \<open>One read of a finished replay takes more of it, unless the reader has it all.\<close>

lemma finished_poll:
  assumes "mr_visible c zs" "mr_finished c" "reader_ok rd out zs" "0 < cap"
  shows "\<exists>bs rd'. poll_read rd c k cap = Some (Ready, bs, rd', c) \<and> reader_ok rd' (out @ bs) zs
    \<and> (bs = [] \<longrightarrow> out = zs)"
proof -
  obtain p bs rd' c' where p: "poll_read rd c k cap = Some (p, bs, rd', c')" "reader_ok rd' (out @ bs) zs"
    "p = Pending \<longleftrightarrow> length zs \<le> rd_position rd \<and> \<not> mr_finished c" "p = Ready \<longrightarrow> c' = c"
    "p = Ready \<and> bs = [] \<and> 0 < cap \<longrightarrow> mr_finished c \<and> out = zs"
    using poll_read_rep [OF assms(1,3), of k cap] by blast
  then have "p = Ready" using assms(2) by (cases p) auto
  then show ?thesis using p assms(4) by auto
qed

end
