(* ===== verification/Merge_Strategy.thy ===== *)
theory Merge_Strategy
  imports Merged_Replay "HOL-Library.Product_Lexorder"
begin

text \<open>
  \<open>QuorumMergeStrategy\<close> of \<open>src/replay/receive/quorum_merge_strategy.rs\<close>, operation by
  operation. The strategy owns one \<open>WriterReplay\<close> per token and the canonical replay;
  the shared references of the code (\<open>Rc<RefCell<..>>\<close>) point to those objects only, so the
  objects are kept where the strategy reaches them: in the \<open>ReplayState\<close> of the token and
  in the \<open>SharedState\<close>. The connection tasks change them through \<open>with_writer\<close>.

  The iteration order of a \<open>HashSet\<close> and the order that \<open>sort_unstable_by_key\<close> gives to
  equal keys are not determined by the code. They are an argument, \<open>iteration\<close>, and what
  the std library guarantees of them is \<open>iteration_ok\<close>.
\<close>

record iteration =
  set_iter :: "nat set \<Rightarrow> nat list"
  sort_unstable :: "(nat \<Rightarrow> usize) \<Rightarrow> nat list \<Rightarrow> nat list"

definition iteration_ok :: "iteration \<Rightarrow> bool" where
  "iteration_ok it \<longleftrightarrow>
     (\<forall>S. finite S \<longrightarrow> distinct (set_iter it S) \<and> set (set_iter it S) = S) \<and>
     (\<forall>f xs. mset (sort_unstable it f xs) = mset xs \<and> sorted (map f (sort_unstable it f xs)))"

subsection \<open>ReplayState\<close>

record replay_state =
  rs_r :: writer_replay
  rs_stream_cmp_distance :: usize
  data_matching_canon :: usize

definition rs_new :: "writer_replay \<Rightarrow> usize \<Rightarrow> replay_state" where
  "rs_new r dist = \<lparr>rs_r = r, rs_stream_cmp_distance = dist, data_matching_canon = 0\<rparr>"

definition rs_data_len :: "replay_state \<Rightarrow> usize" where
  "rs_data_len self = wr_data_len (rs_r self)"

definition rs_common_prefix_from_to ::
  "replay_state \<Rightarrow> replay_state \<Rightarrow> usize \<Rightarrow> usize option \<Rightarrow> usize option" where
  "rs_common_prefix_from_to self other start lim =
     common_prefix_from_to bd_ops bd_ops (wr_data (rs_r self)) (wr_data (rs_r other)) start lim"

definition match_start_optimization :: "replay_state \<Rightarrow> usize \<Rightarrow> usize" where
  "match_start_optimization self canon_length = canon_length - rs_stream_cmp_distance self"

definition diverges_at_stalemate :: "replay_state \<Rightarrow> merged_replay \<Rightarrow> bool option" where
  "diverges_at_stalemate self c =
     do {
       assert_that (rs_data_len self \<ge> mr_data_len c);
       let optimized_match_start = match_start_optimization self (mr_data_len c);
       let match_start = max (data_matching_canon self) optimized_match_start;
       match_len \<leftarrow> common_prefix_from bd_ops bd_ops (wr_data (rs_r self)) (mr_data c) match_start;
       Some (match_len \<noteq> mr_data_len c)
     }"

definition set_diverged :: "replay_state \<Rightarrow> replay_state" where
  "set_diverged self = self\<lparr>rs_r := wr_discard_all (rs_r self)\<rparr>"

definition set_matching :: "replay_state \<Rightarrow> usize \<Rightarrow> replay_state" where
  "set_matching self canon_length =
     (let m = max canon_length (data_matching_canon self)
      in self\<lparr>data_matching_canon := m, rs_r := wr_discard (rs_r self) m\<rparr>)"

definition discard_if_not_needed_for_checking_divergence :: "replay_state \<Rightarrow> usize \<Rightarrow> replay_state" where
  "discard_if_not_needed_for_checking_divergence self canon_length =
     self\<lparr>rs_r := wr_discard (rs_r self) (match_start_optimization self canon_length)\<rparr>"

subsection \<open>SharedState\<close>

record shared_state =
  token :: nat
  stream_cmp_distance :: usize
  delayed_data_started :: bool
  target_quorum_size :: usize
  replays :: "nat \<Rightarrow> replay_state option"
  canonical_stream :: merged_replay

definition shared_new :: "usize \<Rightarrow> usize \<Rightarrow> shared_state" where
  "shared_new tq dist =
     \<lparr>token = 0, stream_cmp_distance = dist, delayed_data_started = False,
      target_quorum_size = tq, replays = Map.empty, canonical_stream = mr_new\<rparr>"

definition shared_add_replay :: "shared_state \<Rightarrow> writer_replay \<Rightarrow> shared_state \<times> nat" where
  "shared_add_replay s r =
     (let t = token s;
          replay = rs_new r (stream_cmp_distance s)
      in (s\<lparr>replays := (replays s)(t \<mapsto> replay), token := t + 1\<rparr>, t))"

definition get_replay :: "shared_state \<Rightarrow> nat \<Rightarrow> replay_state option" where
  "get_replay s t = replays s t"

text \<open>\<open>get_mut_replay\<close> followed by an operation on what it borrowed.\<close>

definition update_replay :: "shared_state \<Rightarrow> nat \<Rightarrow> (replay_state \<Rightarrow> replay_state) \<Rightarrow> shared_state option" where
  "update_replay s t f =
     (case replays s t of None \<Rightarrow> None | Some r \<Rightarrow> Some (s\<lparr>replays := (replays s)(t \<mapsto> f r)\<rparr>))"

definition canon_data_len :: "shared_state \<Rightarrow> usize" where
  "canon_data_len s = mr_data_len (canonical_stream s)"

definition canon_delayed_data_len :: "shared_state \<Rightarrow> usize" where
  "canon_delayed_data_len s = mr_delayed_data_len (canonical_stream s)"

definition append_canon_data :: "shared_state \<Rightarrow> nat \<Rightarrow> usize \<Rightarrow> shared_state option" where
  "append_canon_data s t until =
     do {
       source_replay \<leftarrow> get_replay s t;
       c \<leftarrow> mr_add_data (canonical_stream s) (rs_r source_replay) until;
       Some (s\<lparr>canonical_stream := c\<rparr>)
     }"

definition update_canon_delayed_data_len :: "shared_state \<Rightarrow> usize \<Rightarrow> shared_state option" where
  "update_canon_delayed_data_len s hint =
     (let hint = min hint (canon_data_len s)
      in if hint \<le> canon_delayed_data_len s then Some s
         else do {
           c \<leftarrow> mr_advance_delayed_data (canonical_stream s) hint;
           Some (s\<lparr>canonical_stream := c\<rparr>)
         })"

subsection \<open>Quorum\<close>

record quorum_state =
  qs :: shared_state
  quorum :: "nat set"
  q_reserve :: "nat set"

definition quorum_delayed_position :: "iteration \<Rightarrow> quorum_state \<Rightarrow> usize option" where
  "quorum_delayed_position it m =
     do {
       lens \<leftarrow> mapM (\<lambda>t. map_option (\<lambda>r. wr_delayed_data_len (rs_r r)) (get_replay (qs m) t))
                 (set_iter it (quorum m));
       iter_min lens
     }"

definition update_delayed_position :: "iteration \<Rightarrow> quorum_state \<Rightarrow> quorum_state option" where
  "update_delayed_position it m =
     do {
       pos \<leftarrow> quorum_delayed_position it m;
       s \<leftarrow> update_canon_delayed_data_len (qs m) pos;
       Some (m\<lparr>qs := s\<rparr>)
     }"

definition discard_data_after_merging :: "iteration \<Rightarrow> quorum_state \<Rightarrow> quorum_state option" where
  "discard_data_after_merging it m =
     (let merged_len = canon_data_len (qs m)
      in do {
        s \<leftarrow> foldM (\<lambda>t s. update_replay s t (\<lambda>r. set_matching r merged_len))
               (set_iter it (quorum m)) (qs m);
        s \<leftarrow> foldM (\<lambda>t s. update_replay s t
                  (\<lambda>r. discard_if_not_needed_for_checking_divergence r merged_len))
               (set_iter it (q_reserve m)) s;
        Some (m\<lparr>qs := s\<rparr>)
      })"

definition data_len_of :: "shared_state \<Rightarrow> nat \<Rightarrow> usize" where
  "data_len_of s t = (case get_replay s t of None \<Rightarrow> 0 | Some r \<Rightarrow> rs_data_len r)"

definition calculate_quorum_prefix :: "iteration \<Rightarrow> quorum_state \<Rightarrow> usize option" where
  "calculate_quorum_prefix it m =
     do {
       assert_that (quorum m \<noteq> {});
       let ids = set_iter it (quorum m);
       assert_that (\<forall>t \<in> set ids. get_replay (qs m) t \<noteq> None);
       shortest_id \<leftarrow> iter_min_by_key (data_len_of (qs m)) ids;
       shortest \<leftarrow> get_replay (qs m) shortest_id;
       let cmp_start = canon_data_len (qs m);
       foldM (\<lambda>t common_prefix.
           if t = shortest_id then Some common_prefix
           else do {
             other \<leftarrow> get_replay (qs m) t;
             rs_common_prefix_from_to shortest other cmp_start (Some common_prefix)
           }) ids (rs_data_len shortest)
     }"

definition merge_more_data :: "iteration \<Rightarrow> quorum_state \<Rightarrow> quorum_state option" where
  "merge_more_data it m =
     do {
       common_prefix \<leftarrow> calculate_quorum_prefix it m;
       any_in_quorum \<leftarrow> first_item (set_iter it (quorum m));
       s \<leftarrow> append_canon_data (qs m) any_in_quorum common_prefix;
       m \<leftarrow> discard_data_after_merging it (m\<lparr>qs := s\<rparr>);
       update_delayed_position it m
     }"

text \<open>\<open>MergeQuorumState::from_stalemate\<close>.\<close>

definition from_stalemate ::
  "iteration \<Rightarrow> shared_state \<Rightarrow> nat list \<Rightarrow> nat set \<Rightarrow> quorum_state option" where
  "from_stalemate it shared good_replays reserve =
     do {
       assert_that (good_replays \<noteq> []);
       assert_that (\<forall>t \<in> set good_replays. get_replay shared t \<noteq> None);
       let good_replays = rev (sort_unstable it (data_len_of shared) good_replays);
       let new_quorum_len = min (length good_replays) (target_quorum_size shared);
       let new_quorum = set (take new_quorum_len good_replays);
       let reserve = reserve \<union> set (drop new_quorum_len good_replays);
       merge_more_data it \<lparr>qs = shared, quorum = new_quorum, q_reserve = reserve\<rparr>
     }"

definition quorum_add_replay :: "quorum_state \<Rightarrow> writer_replay \<Rightarrow> quorum_state \<times> nat" where
  "quorum_add_replay m r =
     (let (s, t) = shared_add_replay (qs m) r
      in (m\<lparr>qs := s, q_reserve := insert t (q_reserve m)\<rparr>, t))"

definition quorum_replay_data_updated :: "iteration \<Rightarrow> quorum_state \<Rightarrow> nat \<Rightarrow> quorum_state option" where
  "quorum_replay_data_updated it m t =
     (if t \<in> quorum m then update_delayed_position it m else Some m)"

definition quorum_replay_ended :: "quorum_state \<Rightarrow> nat \<Rightarrow> quorum_state option" where
  "quorum_replay_ended m t = Some m"

definition has_to_enter_stalemate :: "quorum_state \<Rightarrow> bool" where
  "has_to_enter_stalemate m \<longleftrightarrow> canon_delayed_data_len (qs m) \<ge> canon_data_len (qs m)"

subsection \<open>Stalemate\<close>

text \<open>
  The candidates are a \<open>HashMap<u8, Vec<u64>>\<close>, kept as an association list; every use of
  it is independent of the order of the keys.
\<close>

record stalemate_state =
  ms :: shared_state
  candidates :: "(byte \<times> nat list) list"
  m_reserve :: "nat set"

definition stalemate_new :: "usize \<Rightarrow> usize \<Rightarrow> stalemate_state" where
  "stalemate_new tq dist = \<lparr>ms = shared_new tq dist, candidates = [], m_reserve = {}\<rparr>"

fun push_candidate :: "(byte \<times> nat list) list \<Rightarrow> byte \<Rightarrow> nat \<Rightarrow> (byte \<times> nat list) list" where
  "push_candidate [] b t = [(b, [t])]"
| "push_candidate ((k, v) # cs) b t =
     (if k = b then (k, v @ [t]) # cs else (k, v) # push_candidate cs b t)"

definition insert_candidate :: "stalemate_state \<Rightarrow> byte \<Rightarrow> nat \<Rightarrow> stalemate_state" where
  "insert_candidate m b t = m\<lparr>candidates := push_candidate (candidates m) b t\<rparr>"

definition try_move_replay_to_candidates :: "stalemate_state \<Rightarrow> nat \<Rightarrow> stalemate_state option" where
  "try_move_replay_to_candidates m t =
     do {
       let canon_len = canon_data_len (ms m);
       replay \<leftarrow> get_replay (ms m) t;
       let replay_len = rs_data_len replay;
       let replay_is_finished = wr_finished (rs_r replay);
       if replay_len \<le> canon_len
       then (if replay_is_finished
             then do {
               s \<leftarrow> update_replay (ms m) t set_diverged;
               Some (m\<lparr>ms := s, m_reserve := m_reserve m - {t}\<rparr>)
             }
             else Some m)
       else do {
         diverges \<leftarrow> diverges_at_stalemate replay (canonical_stream (ms m));
         let m = m\<lparr>m_reserve := m_reserve m - {t}\<rparr>;
         if diverges
         then do {
           s \<leftarrow> update_replay (ms m) t set_diverged;
           Some (m\<lparr>ms := s\<rparr>)
         }
         else do {
           s \<leftarrow> update_replay (ms m) t (\<lambda>r. set_matching r canon_len);
           replay \<leftarrow> get_replay s t;
           next_byte \<leftarrow> buf_at bd_ops (wr_data (rs_r replay)) canon_len;
           Some (insert_candidate (m\<lparr>ms := s\<rparr>) next_byte t)
         }
       }
     }"

definition from_quorum :: "iteration \<Rightarrow> shared_state \<Rightarrow> nat set \<Rightarrow> stalemate_state option" where
  "from_quorum it shared reserve =
     foldM (\<lambda>t m. try_move_replay_to_candidates m t) (set_iter it reserve)
       \<lparr>ms = shared, candidates = [], m_reserve = reserve\<rparr>"

definition enter_stalemate :: "iteration \<Rightarrow> quorum_state \<Rightarrow> stalemate_state option" where
  "enter_stalemate it m = from_quorum it (qs m) (q_reserve m \<union> quorum m)"

definition stalemate_add_replay :: "stalemate_state \<Rightarrow> writer_replay \<Rightarrow> stalemate_state \<times> nat" where
  "stalemate_add_replay m r =
     (let (s, t) = shared_add_replay (ms m) r
      in (m\<lparr>ms := s, m_reserve := insert t (m_reserve m)\<rparr>, t))"

definition stalemate_replay_data_updated :: "stalemate_state \<Rightarrow> nat \<Rightarrow> stalemate_state option" where
  "stalemate_replay_data_updated m t =
     do {
       m \<leftarrow> (if t \<in> m_reserve m then try_move_replay_to_candidates m t else Some m);
       if \<not> delayed_data_started (ms m)
       then do {
         replay \<leftarrow> get_replay (ms m) t;
         Some (if wr_delayed_data_len (rs_r replay) > 0
               then m\<lparr>ms := (ms m)\<lparr>delayed_data_started := True\<rparr>\<rparr> else m)
       }
       else Some m
     }"

definition stalemate_replay_ended :: "stalemate_state \<Rightarrow> nat \<Rightarrow> stalemate_state option" where
  "stalemate_replay_ended m t =
     (if t \<in> m_reserve m then try_move_replay_to_candidates m t else Some m)"

definition can_exit_stalemate :: "stalemate_state \<Rightarrow> bool" where
  "can_exit_stalemate m =
     (if \<not> delayed_data_started (ms m) then False
      else if candidates m = [] then False
      else if m_reserve m = {} then True
      else the (iter_max (map (\<lambda>(_, c). length c) (candidates m))) \<ge> target_quorum_size (ms m))"

text \<open>\<open>exit_stalemate\<close>: entries compare by stream count, then longest stream, then byte.\<close>

definition best_candidate :: "stalemate_state \<Rightarrow> byte option" where
  "best_candidate m =
     do {
       keyed \<leftarrow> mapM (\<lambda>(k, v). do {
           lens \<leftarrow> mapM (\<lambda>t. map_option rs_data_len (get_replay (ms m) t)) v;
           longest \<leftarrow> iter_max lens;
           Some (length v, longest, k)
         }) (candidates m);
       best \<leftarrow> iter_max keyed;
       Some (snd (snd best))
     }"

definition exit_stalemate :: "iteration \<Rightarrow> stalemate_state \<Rightarrow> quorum_state option" where
  "exit_stalemate it m =
     do {
       assert_that (candidates m \<noteq> []);
       best_byte \<leftarrow> best_candidate m;
       good_replays \<leftarrow> map_of (candidates m) best_byte;
       let cands = filter (\<lambda>(k, _). k \<noteq> best_byte) (candidates m);
       good_replay \<leftarrow> first_item good_replays;
       let byte_pos = canon_data_len (ms m);
       s \<leftarrow> append_canon_data (ms m) good_replay (byte_pos + 1);
       s \<leftarrow> foldM (\<lambda>(_, v) s. foldM (\<lambda>t s. update_replay s t set_diverged) v s) cands s;
       from_stalemate it s good_replays (m_reserve m)
     }"

subsection \<open>QuorumMergeStrategy\<close>

datatype strategy = Quorum quorum_state | Stalemate stalemate_state | Swapping

definition strategy_new :: "usize \<Rightarrow> usize \<Rightarrow> strategy" where
  "strategy_new tq dist = Stalemate (stalemate_new tq dist)"

fun should_change_state :: "strategy \<Rightarrow> bool option" where
  "should_change_state (Quorum m) = Some (has_to_enter_stalemate m)"
| "should_change_state (Stalemate m) = Some (can_exit_stalemate m)"
| "should_change_state Swapping = None"

fun swap_state :: "iteration \<Rightarrow> strategy \<Rightarrow> strategy option" where
  "swap_state it (Quorum m) = map_option Stalemate (enter_stalemate it m)"
| "swap_state it (Stalemate m) = map_option Quorum (exit_stalemate it m)"
| "swap_state it Swapping = None"

text \<open>
  \<open>work_state_until_stable\<close>. Each turn of the loop has an iteration order of its own.
  \<open>None\<close> is a panic or a loop that never ends.
\<close>

partial_function (option) work_state_until_stable :: "(nat \<Rightarrow> iteration) \<Rightarrow> strategy \<Rightarrow> strategy option" where
  "work_state_until_stable its q =
     do {
       change \<leftarrow> should_change_state q;
       if change
       then do {
         q' \<leftarrow> swap_state (its 0) q;
         work_state_until_stable (\<lambda>n. its (Suc n)) q'
       }
       else Some q
     }"

declare work_state_until_stable.simps [code]

fun shared_of :: "strategy \<Rightarrow> shared_state option" where
  "shared_of (Quorum m) = Some (qs m)"
| "shared_of (Stalemate m) = Some (ms m)"
| "shared_of Swapping = None"

fun set_shared :: "strategy \<Rightarrow> shared_state \<Rightarrow> strategy" where
  "set_shared (Quorum m) s = Quorum (m\<lparr>qs := s\<rparr>)"
| "set_shared (Stalemate m) s = Stalemate (m\<lparr>ms := s\<rparr>)"
| "set_shared Swapping s = Swapping"

fun both_add_replay :: "strategy \<Rightarrow> writer_replay \<Rightarrow> (strategy \<times> nat) option" where
  "both_add_replay (Quorum m) r = (let (m, t) = quorum_add_replay m r in Some (Quorum m, t))"
| "both_add_replay (Stalemate m) r = (let (m, t) = stalemate_add_replay m r in Some (Stalemate m, t))"
| "both_add_replay Swapping r = None"

definition replay_added :: "(nat \<Rightarrow> iteration) \<Rightarrow> strategy \<Rightarrow> writer_replay \<Rightarrow> (strategy \<times> nat) option" where
  "replay_added its q r =
     do {
       (q, t) \<leftarrow> both_add_replay q r;
       q \<leftarrow> work_state_until_stable (\<lambda>n. its (Suc n)) q;
       Some (q, t)
     }"

fun both_replay_ended :: "strategy \<Rightarrow> nat \<Rightarrow> strategy option" where
  "both_replay_ended (Quorum m) t = map_option Quorum (quorum_replay_ended m t)"
| "both_replay_ended (Stalemate m) t = map_option Stalemate (stalemate_replay_ended m t)"
| "both_replay_ended Swapping t = None"

definition replay_removed :: "(nat \<Rightarrow> iteration) \<Rightarrow> strategy \<Rightarrow> nat \<Rightarrow> strategy option" where
  "replay_removed its q t =
     do {
       q \<leftarrow> both_replay_ended q t;
       work_state_until_stable (\<lambda>n. its (Suc n)) q
     }"

definition replay_header_added :: "strategy \<Rightarrow> nat \<Rightarrow> strategy option" where
  "replay_header_added q t =
     do {
       s \<leftarrow> shared_of q;
       replay \<leftarrow> get_replay s t;
       (header, r) \<leftarrow> wr_take_header (rs_r replay);
       s \<leftarrow> update_replay s t (\<lambda>x. x\<lparr>rs_r := r\<rparr>);
       (case mr_header (canonical_stream s) of
          None \<Rightarrow> do {
            c \<leftarrow> mr_add_header (canonical_stream s) header;
            Some (set_shared q (s\<lparr>canonical_stream := c\<rparr>))
          }
        | Some _ \<Rightarrow> Some (set_shared q s))
     }"

fun both_replay_data_updated :: "iteration \<Rightarrow> strategy \<Rightarrow> nat \<Rightarrow> strategy option" where
  "both_replay_data_updated it (Quorum m) t = map_option Quorum (quorum_replay_data_updated it m t)"
| "both_replay_data_updated it (Stalemate m) t = map_option Stalemate (stalemate_replay_data_updated m t)"
| "both_replay_data_updated it Swapping t = None"

definition replay_data_updated :: "(nat \<Rightarrow> iteration) \<Rightarrow> strategy \<Rightarrow> nat \<Rightarrow> strategy option" where
  "replay_data_updated its q t =
     do {
       q \<leftarrow> both_replay_data_updated (its 0) q t;
       work_state_until_stable (\<lambda>n. its (Suc n)) q
     }"

definition get_merged_replay :: "strategy \<Rightarrow> merged_replay option" where
  "get_merged_replay q = map_option canonical_stream (shared_of q)"

definition strategy_finish :: "strategy \<Rightarrow> strategy option" where
  "strategy_finish q =
     do {
       (case q of
          Swapping \<Rightarrow> None
        | Quorum _ \<Rightarrow> None
        | Stalemate m \<Rightarrow> do {
            assert_that (canon_data_len (ms m) = canon_delayed_data_len (ms m));
            assert_that (m_reserve m = {});
            assert_that (candidates m = [])
          });
       s \<leftarrow> shared_of q;
       Some (set_shared q (s\<lparr>canonical_stream := mr_finish (canonical_stream s)\<rparr>))
     }"

text \<open>
  What a connection task does to its \<open>WriterReplay\<close> through its own reference: the replay
  of token \<open>t\<close> changes, the strategy is not told.
\<close>

definition with_writer :: "strategy \<Rightarrow> nat \<Rightarrow> (writer_replay \<Rightarrow> writer_replay option) \<Rightarrow> strategy option" where
  "with_writer q t f =
     do {
       s \<leftarrow> shared_of q;
       replay \<leftarrow> get_replay s t;
       r \<leftarrow> f (rs_r replay);
       Some (set_shared q (s\<lparr>replays := (replays s)(t \<mapsto> replay\<lparr>rs_r := r\<rparr>)\<rparr>))
     }"

end
