(* ===== verification/Merge_Invariant.thy ===== *)
theory Merge_Invariant
  imports Merge_Strategy
begin

text \<open>
  The invariants of the merge strategy and their preservation by the operations of
  \<open>Merge_Strategy\<close>. Two histories stand beside the state: \<open>H t\<close>, everything the connection
  with token \<open>t\<close> sent so far, and \<open>C\<close>, the canonical data. Neither is stored by the code:
  data is discarded once merged.
\<close>

subsection \<open>Shared state\<close>

type_synonym history = "nat \<Rightarrow> byte list"

definition replay_ok :: "shared_state \<Rightarrow> history \<Rightarrow> byte list \<Rightarrow> nat \<Rightarrow> replay_state \<Rightarrow> bool" where
  "replay_ok s H C t r \<longleftrightarrow>
     deque_rep (wr_data (rs_r r)) (H t) \<and> wr_delayed_data_len (rs_r r) \<le> length (H t) \<and>
     rs_stream_cmp_distance r = stream_cmp_distance s \<and> data_matching_canon r \<le> length C"

text \<open>Every canonical byte was sent by some connection, at the same position.\<close>

definition provenance :: "shared_state \<Rightarrow> history \<Rightarrow> byte list \<Rightarrow> bool" where
  "provenance s H C \<longleftrightarrow> (\<forall>p < length C. \<exists>t < token s. p < length (H t) \<and> H t ! p = C ! p)"

text \<open>The canonical delayed position is not beyond every writer's.\<close>

definition delay_bounded :: "shared_state \<Rightarrow> bool" where
  "delay_bounded s \<longleftrightarrow> mr_delayed_data_len (canonical_stream s) = 0 \<or>
     (\<exists>t r. replays s t = Some r \<and>
        mr_delayed_data_len (canonical_stream s) \<le> wr_delayed_data_len (rs_r r))"

text \<open>
  While nothing longer than the comparison distance was merged, and the quorum is a pair
  at most, the canonical data is a prefix of what one of the connections sent.
\<close>

definition has_source :: "shared_state \<Rightarrow> history \<Rightarrow> byte list \<Rightarrow> bool" where
  "has_source s H C \<longleftrightarrow>
     (target_quorum_size s \<le> 2 \<and> length C \<le> stream_cmp_distance s \<longrightarrow>
        C = [] \<or> (\<exists>t < token s. prefix C (H t)))"

definition shared_inv :: "shared_state \<Rightarrow> history \<Rightarrow> byte list \<Rightarrow> bool" where
  "shared_inv s H C \<longleftrightarrow>
     mr_rep (canonical_stream s) C \<and> \<not> mr_finished (canonical_stream s) \<and>
     0 < target_quorum_size s \<and> dom (replays s) = {..<token s} \<and>
     (\<forall>t r. replays s t = Some r \<longrightarrow> replay_ok s H C t r) \<and>
     provenance s H C \<and> delay_bounded s \<and> has_source s H C \<and>
     (mr_header (canonical_stream s) = None \<longrightarrow> (\<forall>t. H t = []))"

text \<open>
  A live replay can still take part in the merge: the data that a later comparison needs
  is there, and (for quorums of two) it agrees with the canonical data on the
  \<open>stream_cmp_distance\<close> bytes before the point up to which it was compared.
\<close>

definition live :: "shared_state \<Rightarrow> history \<Rightarrow> byte list \<Rightarrow> nat \<Rightarrow> bool" where
  "live s H C t \<longleftrightarrow> (\<exists>r. replays s t = Some r \<and>
     window_start (wr_data (rs_r r)) \<le> max (data_matching_canon r) (length C - stream_cmp_distance s) \<and>
     data_matching_canon r \<le> length (H t) \<and>
     (target_quorum_size s \<le> 2 \<longrightarrow>
        agree (H t) C (data_matching_canon r - stream_cmp_distance s) (data_matching_canon r)))"

text \<open>A dead replay diverged, or it ended without more data than was merged.\<close>

definition dead :: "shared_state \<Rightarrow> history \<Rightarrow> byte list \<Rightarrow> nat \<Rightarrow> bool" where
  "dead s H C t \<longleftrightarrow>
     (\<exists>p < min (length (H t)) (length C). H t ! p \<noteq> C ! p) \<or>
     (\<exists>r. replays s t = Some r \<and> wr_finished (rs_r r) \<and> length (H t) \<le> length C)"

text \<open>A replay that was compared up to the end of the canonical data.\<close>

definition matched :: "shared_state \<Rightarrow> byte list \<Rightarrow> nat \<Rightarrow> bool" where
  "matched s C t \<longleftrightarrow> (\<exists>r. replays s t = Some r \<and> data_matching_canon r = length C)"

text \<open>What the operations of the strategy leave alone in the replays and the settings.\<close>

definition writer_view :: "replay_state \<Rightarrow> usize \<times> bool \<times> replay_header option" where
  "writer_view r = (wr_delayed_data_len (rs_r r), wr_finished (rs_r r), wr_header (rs_r r))"

definition same_frame :: "shared_state \<Rightarrow> shared_state \<Rightarrow> bool" where
  "same_frame s s' \<longleftrightarrow>
     token s' = token s \<and> stream_cmp_distance s' = stream_cmp_distance s \<and>
     target_quorum_size s' = target_quorum_size s \<and>
     delayed_data_started s' = delayed_data_started s \<and>
     mr_header (canonical_stream s') = mr_header (canonical_stream s) \<and>
     mr_finished (canonical_stream s') = mr_finished (canonical_stream s) \<and>
     (\<forall>t. map_option writer_view (replays s' t) = map_option writer_view (replays s t))"

lemma same_frame_refl [simp, intro]: "same_frame s s"
  by (simp add: same_frame_def)

lemma same_frame_trans: "same_frame a b \<Longrightarrow> same_frame b c \<Longrightarrow> same_frame a c"
  by (simp add: same_frame_def)

lemma same_frame_SomeD:
  assumes "same_frame s s'" "replays s' t = Some r'"
  shows "\<exists>r. replays s t = Some r \<and> wr_delayed_data_len (rs_r r) = wr_delayed_data_len (rs_r r')
    \<and> wr_finished (rs_r r) = wr_finished (rs_r r') \<and> wr_header (rs_r r) = wr_header (rs_r r')"
proof -
  have "map_option writer_view (replays s' t) = map_option writer_view (replays s t)"
    using assms(1) by (simp add: same_frame_def)
  then show ?thesis using assms(2) by (cases "replays s t") (auto simp: writer_view_def)
qed

lemma same_frame_sym: "same_frame s s' \<Longrightarrow> same_frame s' s"
  by (auto simp: same_frame_def)

lemma shared_inv_tokenD: "shared_inv s H C \<Longrightarrow> t < token s \<Longrightarrow> \<exists>r. replays s t = Some r"
  by (auto simp: shared_inv_def dom_def)

lemma shared_inv_token: "shared_inv s H C \<Longrightarrow> replays s t = Some r \<Longrightarrow> t < token s"
  by (auto simp: shared_inv_def dom_def)

lemma shared_inv_replay: "shared_inv s H C \<Longrightarrow> replays s t = Some r \<Longrightarrow> replay_ok s H C t r"
  by (simp add: shared_inv_def)

lemma shared_inv_data_len: "shared_inv s H C \<Longrightarrow> replays s t = Some r \<Longrightarrow> rs_data_len r = length (H t)"
  by (auto simp: shared_inv_def replay_ok_def rs_data_len_def wr_data_len_rep)

lemma shared_inv_canon_len: "shared_inv s H C \<Longrightarrow> canon_data_len s = length C"
  by (simp add: shared_inv_def canon_data_len_def mr_rep_len)

lemma canon_len_bounded:
  assumes "shared_inv s H C" "\<And>t. t < token s \<Longrightarrow> length (H t) \<le> M"
  shows "length C \<le> M"
proof (cases "C = []")
  case False
  then have "length C - 1 < length C" by simp
  then obtain t where "t < token s" "length C - 1 < length (H t)"
    using assms(1) unfolding shared_inv_def provenance_def by blast
  with assms(2) [of t] show ?thesis by linarith
qed simp

text \<open>Changing one replay's bookkeeping, as \<open>set_diverged\<close> and its kin do.\<close>

lemma update_replay_inv:
  assumes inv: "shared_inv s H C" and r: "replays s t = Some r"
    and ok: "replay_ok s H C t (f r)" "writer_view (f r) = writer_view r"
  shows "\<exists>s'. update_replay s t f = Some s' \<and> s' = s\<lparr>replays := (replays s)(t \<mapsto> f r)\<rparr>
    \<and> shared_inv s' H C \<and> same_frame s s'"
proof -
  let ?s = "s\<lparr>replays := (replays s)(t \<mapsto> f r)\<rparr>"
  have frame: "same_frame s ?s"
    using r ok(2) by (auto simp: same_frame_def)
  have "delay_bounded ?s"
  proof -
    from inv have "delay_bounded s" by (simp add: shared_inv_def)
    then consider "mr_delayed_data_len (canonical_stream s) = 0"
      | u x where "replays s u = Some x"
          "mr_delayed_data_len (canonical_stream s) \<le> wr_delayed_data_len (rs_r x)"
      by (auto simp: delay_bounded_def)
    then show ?thesis
    proof cases
      case 2
      then show ?thesis using r ok(2)
        by (auto simp: delay_bounded_def writer_view_def
            intro!: exI [of _ u] exI [of _ "if u = t then f r else x"])
    qed (simp add: delay_bounded_def)
  qed
  moreover have "replay_ok ?s H C u x" if "replays ?s u = Some x" for u x
    using that ok(1) inv by (auto simp: replay_ok_def shared_inv_def split: if_splits)
  moreover have "dom (replays ?s) = {..<token ?s}"
    using inv r by (auto simp: shared_inv_def)
  ultimately have "shared_inv ?s H C"
    using inv by (simp add: shared_inv_def provenance_def has_source_def)
  with frame show ?thesis using r by (simp add: update_replay_def)
qed

lemma replay_ok_set_diverged:
  "replay_ok s H C t r \<Longrightarrow> replay_ok s H C t (set_diverged r)"
  by (simp add: replay_ok_def set_diverged_def bd_discard_rep stream_simps)

lemma replay_ok_set_matching:
  "replay_ok s H C t r \<Longrightarrow> n \<le> length C \<Longrightarrow> replay_ok s H C t (set_matching r n)"
  by (simp add: replay_ok_def set_matching_def Let_def bd_discard_rep stream_simps)

lemma replay_ok_discard:
  "replay_ok s H C t r \<Longrightarrow> replay_ok s H C t (discard_if_not_needed_for_checking_divergence r n)"
  by (simp add: replay_ok_def discard_if_not_needed_for_checking_divergence_def bd_discard_rep
      stream_simps)

lemma writer_view_simps [simp]:
  "writer_view (set_diverged r) = writer_view r"
  "writer_view (set_matching r n) = writer_view r"
  "writer_view (discard_if_not_needed_for_checking_divergence r n) = writer_view r"
  by (simp_all add: writer_view_def set_diverged_def set_matching_def Let_def
      discard_if_not_needed_for_checking_divergence_def stream_simps)

lemma matching_simps [merge_simps]:
  "data_matching_canon (set_diverged r) = data_matching_canon r"
  "data_matching_canon (set_matching r n) = max n (data_matching_canon r)"
  "data_matching_canon (discard_if_not_needed_for_checking_divergence r n) = data_matching_canon r"
  by (simp_all add: set_diverged_def set_matching_def Let_def
      discard_if_not_needed_for_checking_divergence_def)

text \<open>Liveness and death of the other replays do not see such a change.\<close>

lemma live_update_other:
  "live s H C u \<Longrightarrow> u \<noteq> t \<Longrightarrow> live (s\<lparr>replays := (replays s)(t \<mapsto> x)\<rparr>) H C u"
  by (simp add: live_def)

lemma dead_update:
  assumes "dead s H C u" "replays s t = Some r" "writer_view x = writer_view r"
  shows "dead (s\<lparr>replays := (replays s)(t \<mapsto> x)\<rparr>) H C u"
  using assms by (auto simp: dead_def writer_view_def)

lemma dead_append: "dead s H C t \<Longrightarrow> dead s H (C @ D) t"
  unfolding dead_def by (force simp: nth_append)

lemma live_append:
  assumes "shared_inv s H C" "live s H C t"
  shows "live s H (C @ D) t"
proof -
  obtain r where r: "replays s t = Some r"
    "window_start (wr_data (rs_r r)) \<le> max (data_matching_canon r) (length C - stream_cmp_distance s)"
    "data_matching_canon r \<le> length (H t)"
    "target_quorum_size s \<le> 2 \<longrightarrow>
       agree (H t) C (data_matching_canon r - stream_cmp_distance s) (data_matching_canon r)"
    using assms(2) by (auto simp: live_def)
  have "data_matching_canon r \<le> length C"
    using shared_inv_replay [OF assms(1) r(1)] by (simp add: replay_ok_def)
  then show ?thesis using r by (auto simp: live_def agree_append2)
qed

lemma live_cong:
  "replays s' = replays s \<Longrightarrow> stream_cmp_distance s' = stream_cmp_distance s \<Longrightarrow>
   target_quorum_size s' = target_quorum_size s \<Longrightarrow> live s' H C t \<longleftrightarrow> live s H C t"
  by (simp add: live_def)

lemma dead_cong: "replays s' = replays s \<Longrightarrow> dead s' H C t \<longleftrightarrow> dead s H C t"
  by (simp add: dead_def)

subsection \<open>Appending to the canonical replay\<close>

definition extend :: "byte list \<Rightarrow> byte list \<Rightarrow> nat \<Rightarrow> byte list" where
  "extend C xs n = C @ take (n - length C) (drop (length C) xs)"

lemma length_extend: "length C \<le> n \<Longrightarrow> n \<le> length xs \<Longrightarrow> length (extend C xs n) = n"
  by (simp add: extend_def)

lemma prefix_extend: "prefix C (extend C xs n)"
  by (simp add: extend_def)

lemma extend_nth:
  "length C \<le> p \<Longrightarrow> p < n \<Longrightarrow> n \<le> length xs \<Longrightarrow> extend C xs n ! p = xs ! p"
  by (simp add: extend_def nth_append)

lemma extend_prefix_source: "prefix C xs \<Longrightarrow> length C \<le> n \<Longrightarrow> prefix (extend C xs n) xs"
  unfolding extend_def prefix_def
  by (metis append_assoc append_eq_conv_conj append_take_drop_id drop_drop)

lemma append_canon_inv:
  assumes inv: "shared_inv s H C" and r: "replays s t = Some r"
    and win: "window_start (wr_data (rs_r r)) \<le> length C"
    and n: "length C \<le> n" "n \<le> length (H t)"
    and src: "target_quorum_size s \<le> 2 \<Longrightarrow> length C \<le> stream_cmp_distance s \<Longrightarrow> prefix C (H t)"
  shows "\<exists>s'. append_canon_data s t n = Some s' \<and> shared_inv s' H (extend C (H t) n)
    \<and> same_frame s s' \<and> replays s' = replays s
    \<and> mr_delayed_data_len (canonical_stream s') = mr_delayed_data_len (canonical_stream s)"
proof -
  let ?C = "extend C (H t) n"
  have ok: "replay_ok s H C t r" by (rule shared_inv_replay [OF inv r])
  obtain d where d: "mr_add_data (canonical_stream s) (rs_r r) n = Some ((canonical_stream s)\<lparr>mr_data := d\<rparr>)"
    "mr_rep ((canonical_stream s)\<lparr>mr_data := d\<rparr>) ?C"
    using mr_add_data_rep [of "canonical_stream s" C "rs_r r" "H t" n] inv ok win n
    by (auto simp: shared_inv_def replay_ok_def extend_def)
  let ?s = "s\<lparr>canonical_stream := (canonical_stream s)\<lparr>mr_data := d\<rparr>\<rparr>"
  have app: "append_canon_data s t n = Some ?s"
    using r d(1) by (simp add: append_canon_data_def get_replay_def)
  have len: "length ?C = n" using n by (rule length_extend)
  have "provenance s H C" using inv by (simp add: shared_inv_def)
  then have prov: "provenance ?s H ?C"
    unfolding provenance_def
  proof (intro allI impI)
    fix p assume prov: "\<forall>p<length C. \<exists>t<token s. p < length (H t) \<and> H t ! p = C ! p"
      and p: "p < length ?C"
    show "\<exists>t<token ?s. p < length (H t) \<and> H t ! p = ?C ! p"
    proof (cases "p < length C")
      case True
      then have "?C ! p = C ! p" by (simp add: extend_def nth_append)
      with prov True show ?thesis by simp
    next
      case False
      then have "?C ! p = H t ! p" using p len n by (intro extend_nth) auto
      then show ?thesis using shared_inv_token [OF inv r] p len n by auto
    qed
  qed
  have "has_source ?s H ?C"
    unfolding has_source_def
  proof
    assume small: "target_quorum_size ?s \<le> 2 \<and> length ?C \<le> stream_cmp_distance ?s"
    then have "length C \<le> stream_cmp_distance s" using len n by simp
    with small src have "prefix C (H t)" by simp
    then have "prefix ?C (H t)" using n by (intro extend_prefix_source)
    then show "?C = [] \<or> (\<exists>t<token ?s. prefix ?C (H t))"
      using shared_inv_token [OF inv r] by auto
  qed
  moreover have "replay_ok ?s H ?C u x" if "replays s u = Some x" for u x
    using shared_inv_replay [OF inv that] n len by (simp add: replay_ok_def)
  ultimately have "shared_inv ?s H ?C"
    using inv d(2) prov by (simp add: shared_inv_def delay_bounded_def)
  then show ?thesis using app by (simp add: same_frame_def)
qed

subsection \<open>Divergence at a stalemate\<close>

lemma diverges_spec:
  assumes inv: "shared_inv s H C" and r: "replays s t = Some r" and live: "live s H C t"
    and le: "length C \<le> length (H t)"
  shows "\<exists>b. diverges_at_stalemate r (canonical_stream s) = Some b
    \<and> (b \<longrightarrow> dead s H C t)
    \<and> (\<not> b \<longrightarrow> agree (H t) C (max (data_matching_canon r) (length C - stream_cmp_distance s)) (length C))"
proof -
  have ok: "replay_ok s H C t r" by (rule shared_inv_replay [OF inv r])
  have mr: "mr_rep (canonical_stream s) C" using inv by (simp add: shared_inv_def)
  define pos where "pos = max (data_matching_canon r) (length C - stream_cmp_distance s)"
  have win: "window_start (wr_data (rs_r r)) \<le> pos" using live r by (auto simp: live_def pos_def)
  have pos: "pos \<le> length C" using ok by (simp add: pos_def replay_ok_def)
  obtain k where k: "common_prefix_from bd_ops bd_ops (wr_data (rs_r r)) (mr_data (canonical_stream s)) pos = Some k"
    "k \<le> length C" "agree (H t) C pos k" "k < min (length (H t)) (length C) \<longrightarrow> H t ! k \<noteq> C ! k"
    using bd2.from_rep [of "wr_data (rs_r r)" "H t" "mr_data (canonical_stream s)" C pos]
      ok mr mr_rep_window [OF mr] win pos le
    by (auto simp: replay_ok_def mr_rep_def)
  have div: "diverges_at_stalemate r (canonical_stream s) = Some (k \<noteq> length C)"
    using ok k(1) le mr_rep_len [OF mr] shared_inv_data_len [OF inv r]
    by (simp add: diverges_at_stalemate_def Let_def match_start_optimization_def replay_ok_def
        pos_def [symmetric])
  show ?thesis
  proof (cases "k = length C")
    case True
    then show ?thesis using div k(3) by (intro exI [of _ False]) (simp add: pos_def)
  next
    case False
    then have "k < min (length (H t)) (length C)" using k(2) le by simp
    with k(4) have "dead s H C t" by (auto simp: dead_def)
    then show ?thesis using div False by (intro exI [of _ True]) simp
  qed
qed

text \<open>A successful comparison extends the agreement to the end of the canonical data.\<close>

lemma live_set_matching:
  assumes inv: "shared_inv s H C" and r: "replays s t = Some r" and live: "live s H C t"
    and le: "length C \<le> length (H t)"
    and agr: "agree (H t) C (max (data_matching_canon r) (length C - stream_cmp_distance s)) (length C)"
  shows "live (s\<lparr>replays := (replays s)(t \<mapsto> set_matching r (length C))\<rparr>) H C t"
    "matched (s\<lparr>replays := (replays s)(t \<mapsto> set_matching r (length C))\<rparr>) C t"
    "window_start (wr_data (rs_r (set_matching r (length C)))) \<le> length C"
proof -
  have dmc: "data_matching_canon r \<le> length C"
    using shared_inv_replay [OF inv r] by (simp add: replay_ok_def)
  have old: "window_start (wr_data (rs_r r)) \<le> max (data_matching_canon r) (length C - stream_cmp_distance s)"
    "target_quorum_size s \<le> 2 \<Longrightarrow>
       agree (H t) C (data_matching_canon r - stream_cmp_distance s) (data_matching_canon r)"
    using live r by (auto simp: live_def)
  have "window_start (bd_discard (wr_data (rs_r r)) (length C)) \<le> length C"
    using window_start_discard_le [of "wr_data (rs_r r)" "length C"] old(1) dmc by simp
  then show win: "window_start (wr_data (rs_r (set_matching r (length C)))) \<le> length C"
    using dmc by (simp add: set_matching_def Let_def stream_simps max_def)
  have "agree (H t) C (length C - stream_cmp_distance s) (length C)" if "target_quorum_size s \<le> 2"
    unfolding agree_def
  proof (intro allI impI)
    fix p assume p: "length C - stream_cmp_distance s \<le> p \<and> p < length C"
    show "H t ! p = C ! p"
    proof (cases "p < data_matching_canon r")
      case True
      then show ?thesis using old(2) [OF that] p dmc by (auto simp: agree_def)
    next
      case False
      then show ?thesis using agr p by (auto simp: agree_def)
    qed
  qed
  then show "live (s\<lparr>replays := (replays s)(t \<mapsto> set_matching r (length C))\<rparr>) H C t"
    using win dmc le by (simp add: live_def matching_simps max_def)
  show "matched (s\<lparr>replays := (replays s)(t \<mapsto> set_matching r (length C))\<rparr>) C t"
    using dmc by (simp add: matched_def matching_simps max_def)
qed

subsection \<open>The stalemate invariant\<close>

definition cand_ok :: "shared_state \<Rightarrow> history \<Rightarrow> byte list \<Rightarrow> byte \<Rightarrow> nat \<Rightarrow> bool" where
  "cand_ok s H C b t \<longleftrightarrow>
     live s H C t \<and> matched s C t \<and> length C < length (H t) \<and> H t ! length C = b"

definition candidate_ids :: "stalemate_state \<Rightarrow> nat set" where
  "candidate_ids m = set (concat (map snd (candidates m)))"

text \<open>
  In \<open>X\<close> are tokens whose replay changed without the strategy having been told yet: such a
  replay may be finished and still wait in the reserve.
\<close>

definition stalemate_inv :: "nat set \<Rightarrow> stalemate_state \<Rightarrow> history \<Rightarrow> byte list \<Rightarrow> bool" where
  "stalemate_inv X m H C \<longleftrightarrow>
     shared_inv (ms m) H C \<and>
     mr_delayed_data_len (canonical_stream (ms m)) = length C \<and>
     m_reserve m \<subseteq> {..<token (ms m)} \<and> candidate_ids m \<subseteq> {..<token (ms m)} \<and>
     (\<forall>t \<in> m_reserve m. live (ms m) H C t) \<and>
     (\<forall>t r. t \<in> m_reserve m - X \<longrightarrow> replays (ms m) t = Some r \<longrightarrow> \<not> wr_finished (rs_r r)) \<and>
     distinct (map fst (candidates m)) \<and> distinct (concat (map snd (candidates m))) \<and>
     m_reserve m \<inter> candidate_ids m = {} \<and>
     (\<forall>b v. (b, v) \<in> set (candidates m) \<longrightarrow> v \<noteq> []) \<and>
     (\<forall>b v t. (b, v) \<in> set (candidates m) \<longrightarrow> t \<in> set v \<longrightarrow> cand_ok (ms m) H C b t) \<and>
     (\<forall>t < token (ms m). t \<notin> m_reserve m \<longrightarrow> t \<notin> candidate_ids m \<longrightarrow> dead (ms m) H C t)"

lemma stalemate_invD:
  assumes "stalemate_inv X m H C"
  shows "shared_inv (ms m) H C"
    and "mr_delayed_data_len (canonical_stream (ms m)) = length C"
    and "m_reserve m \<subseteq> {..<token (ms m)}" and "candidate_ids m \<subseteq> {..<token (ms m)}"
    and "\<And>t. t \<in> m_reserve m \<Longrightarrow> live (ms m) H C t"
    and "\<And>t r. t \<in> m_reserve m \<Longrightarrow> t \<notin> X \<Longrightarrow> replays (ms m) t = Some r \<Longrightarrow> \<not> wr_finished (rs_r r)"
    and "distinct (map fst (candidates m))" and "distinct (concat (map snd (candidates m)))"
    and "m_reserve m \<inter> candidate_ids m = {}"
    and "\<And>b v. (b, v) \<in> set (candidates m) \<Longrightarrow> v \<noteq> []"
    and "\<And>b v t. (b, v) \<in> set (candidates m) \<Longrightarrow> t \<in> set v \<Longrightarrow> cand_ok (ms m) H C b t"
    and "\<And>t. t < token (ms m) \<Longrightarrow> t \<notin> m_reserve m \<Longrightarrow> t \<notin> candidate_ids m \<Longrightarrow> dead (ms m) H C t"
  using assms unfolding stalemate_inv_def by (blast, blast, blast, blast, blast, blast, blast, blast, blast, blast, blast, blast)

lemma stalemate_invI:
  assumes "shared_inv (ms m) H C"
    and "mr_delayed_data_len (canonical_stream (ms m)) = length C"
    and "m_reserve m \<subseteq> {..<token (ms m)}" and "candidate_ids m \<subseteq> {..<token (ms m)}"
    and "\<And>t. t \<in> m_reserve m \<Longrightarrow> live (ms m) H C t"
    and "\<And>t r. t \<in> m_reserve m \<Longrightarrow> t \<notin> X \<Longrightarrow> replays (ms m) t = Some r \<Longrightarrow> \<not> wr_finished (rs_r r)"
    and "distinct (map fst (candidates m))" and "distinct (concat (map snd (candidates m)))"
    and "m_reserve m \<inter> candidate_ids m = {}"
    and "\<And>b v. (b, v) \<in> set (candidates m) \<Longrightarrow> v \<noteq> []"
    and "\<And>b v t. (b, v) \<in> set (candidates m) \<Longrightarrow> t \<in> set v \<Longrightarrow> cand_ok (ms m) H C b t"
    and "\<And>t. t < token (ms m) \<Longrightarrow> t \<notin> m_reserve m \<Longrightarrow> t \<notin> candidate_ids m \<Longrightarrow> dead (ms m) H C t"
  shows "stalemate_inv X m H C"
  using assms unfolding stalemate_inv_def by blast

lemma stalemate_inv_mono: "stalemate_inv X m H C \<Longrightarrow> X \<subseteq> Y \<Longrightarrow> stalemate_inv Y m H C"
  unfolding stalemate_inv_def by blast

lemma push_candidate_ids:
  "set (concat (map snd (push_candidate cs b t))) = insert t (set (concat (map snd cs)))"
  by (induction cs b t rule: push_candidate.induct) auto

lemma push_candidate_distinct:
  "distinct (concat (map snd cs)) \<Longrightarrow> t \<notin> set (concat (map snd cs)) \<Longrightarrow>
   distinct (concat (map snd (push_candidate cs b t)))"
proof (induction cs b t rule: push_candidate.induct)
  case (2 k v cs b t)
  then show ?case using push_candidate_ids [of cs b t] by auto
qed simp

lemma push_candidate_keys: "fst ` set (push_candidate cs b t) = insert b (fst ` set cs)"
  by (induction cs b t rule: push_candidate.induct) auto

lemma push_candidate_keys_distinct:
  "distinct (map fst cs) \<Longrightarrow> distinct (map fst (push_candidate cs b t))"
proof (induction cs b t rule: push_candidate.induct)
  case (2 k v cs b t)
  then show ?case using push_candidate_keys [of cs b t] by (auto simp: image_iff)
qed simp

lemma push_candidate_entry:
  "(k, v) \<in> set (push_candidate cs b t) \<Longrightarrow>
   v \<noteq> [] \<or> (k, v) \<in> set cs"
  by (induction cs b t rule: push_candidate.induct) (auto split: if_splits)

lemma push_candidate_member:
  "(k, v) \<in> set (push_candidate cs b t) \<Longrightarrow> u \<in> set v \<Longrightarrow>
   (k = b \<and> u = t) \<or> (\<exists>v'. (k, v') \<in> set cs \<and> u \<in> set v')"
  by (induction cs b t rule: push_candidate.induct) (auto split: if_splits)

lemma cand_ok_update_other:
  "cand_ok s H C b u \<Longrightarrow> u \<noteq> t \<Longrightarrow> cand_ok (s\<lparr>replays := (replays s)(t \<mapsto> x)\<rparr>) H C b u"
  by (simp add: cand_ok_def live_def matched_def)

text \<open>What an operation on the stalemate leaves alone.\<close>

definition stalemate_frame :: "stalemate_state \<Rightarrow> stalemate_state \<Rightarrow> bool" where
  "stalemate_frame m m' \<longleftrightarrow> same_frame (ms m) (ms m') \<and>
     canonical_stream (ms m') = canonical_stream (ms m) \<and> m_reserve m' \<subseteq> m_reserve m"

lemma stalemate_frame_refl [simp, intro]: "stalemate_frame m m"
  by (simp add: stalemate_frame_def)

lemma stalemate_frame_trans: "stalemate_frame a b \<Longrightarrow> stalemate_frame b c \<Longrightarrow> stalemate_frame a c"
  by (auto simp: stalemate_frame_def intro: same_frame_trans)

text \<open>Moving a token out of the reserve, to the dead or to the candidates.\<close>

lemma stalemate_drop_inv:
  assumes inv: "stalemate_inv X m H C" and t: "t \<in> m_reserve m"
    and r: "replays (ms m) t = Some r" and dead: "dead (ms m) H C t"
  shows "\<exists>s'. update_replay (ms m) t set_diverged = Some s'
    \<and> stalemate_inv (X - {t}) (m\<lparr>ms := s', m_reserve := m_reserve m - {t}\<rparr>) H C
    \<and> stalemate_frame m (m\<lparr>ms := s', m_reserve := m_reserve m - {t}\<rparr>)"
proof -
  note I = stalemate_invD [OF inv]
  obtain s' where s': "update_replay (ms m) t set_diverged = Some s'"
    "s' = (ms m)\<lparr>replays := (replays (ms m))(t \<mapsto> set_diverged r)\<rparr>"
    "shared_inv s' H C" "same_frame (ms m) s'"
    using update_replay_inv [where f = set_diverged, OF I(1) r]
      replay_ok_set_diverged [OF shared_inv_replay [OF I(1) r]] by auto
  have nc: "t \<notin> candidate_ids m" using I(9) t by blast
  have fin: "\<not> wr_finished (rs_r x)"
    if "u \<in> m_reserve m - {t} - (X - {t})" "replays s' u = Some x" for u x
    using that I(6) by (auto simp: s'(2) split: if_splits)
  have cands: "cand_ok s' H C b u" if "(b, v) \<in> set (candidates m)" "u \<in> set v" for b v u
  proof -
    have "u \<noteq> t" using that nc by (force simp: candidate_ids_def)
    then show ?thesis using I(11) [OF that] unfolding s'(2) by (intro cand_ok_update_other)
  qed
  have dd: "dead s' H C u" if "dead (ms m) H C u" for u
    using that unfolding s'(2) by (rule dead_update [OF _ r]) simp
  have ids: "candidate_ids (m\<lparr>ms := s', m_reserve := m_reserve m - {t}\<rparr>) = candidate_ids m"
    by (simp add: candidate_ids_def)
  have frame: "stalemate_frame m (m\<lparr>ms := s', m_reserve := m_reserve m - {t}\<rparr>)"
    using s' by (auto simp: stalemate_frame_def)
  have lv: "live s' H C u" if "u \<in> m_reserve m - {t}" for u
    using I(5) [of u] that unfolding s'(2) by (intro live_update_other) auto
  let ?m = "m\<lparr>ms := s', m_reserve := m_reserve m - {t}\<rparr>"
  have "stalemate_inv (X - {t}) ?m H C"
  proof (rule stalemate_invI, unfold ids)
    show "live (ms ?m) H C u" if "u \<in> m_reserve ?m" for u using lv that by simp
    show "\<not> wr_finished (rs_r x)"
      if "u \<in> m_reserve ?m" "u \<notin> X - {t}" "replays (ms ?m) u = Some x" for u x
      using fin [of u x] that by simp
    show "cand_ok (ms ?m) H C b u" if "(b, v) \<in> set (candidates ?m)" "u \<in> set v" for b v u
      using cands that by simp
    show "dead (ms ?m) H C u"
      if "u < token (ms ?m)" "u \<notin> m_reserve ?m" "u \<notin> candidate_ids m" for u
      using that dd I(12) [of u] dd [OF dead] by (cases "u = t") (simp_all add: s'(2))
  qed (use s'(3) I(2,3,4,7,8,9,10) in \<open>auto simp: s'(2)\<close>)
  with s'(1) frame show ?thesis by blast
qed

lemma promoted_inv:
  assumes inv: "stalemate_inv X m H C" and t: "t \<in> m_reserve m" and r: "replays (ms m) t = Some r"
    and s': "s' = (ms m)\<lparr>replays := (replays (ms m))(t \<mapsto> set_matching r n)\<rparr>" and sh: "shared_inv s' H C"
    and new: "cand_ok s' H C b0 t"
  shows "stalemate_inv (X - {t}) (insert_candidate (m\<lparr>m_reserve := m_reserve m - {t}, ms := s'\<rparr>) b0 t) H C"
proof -
  note I = stalemate_invD [OF inv]
  define m' where "m' = insert_candidate (m\<lparr>m_reserve := m_reserve m - {t}, ms := s'\<rparr>) b0 t"
  have m': "ms m' = s'" "m_reserve m' = m_reserve m - {t}"
    "candidates m' = push_candidate (candidates m) b0 t"
    by (simp_all add: m'_def insert_candidate_def)
  have nc: "t \<notin> candidate_ids m" using I(9) t by blast
  have ids: "candidate_ids m' = insert t (candidate_ids m)"
    unfolding candidate_ids_def m'(3) by (rule push_candidate_ids)
  have cands: "cand_ok s' H C b u" if "(b, v) \<in> set (candidates m')" "u \<in> set v" for b v u
  proof -
    have "(b = b0 \<and> u = t) \<or> (\<exists>v'. (b, v') \<in> set (candidates m) \<and> u \<in> set v')"
      using that unfolding m'(3) by (rule push_candidate_member)
    then consider "b = b0" "u = t" | v' where "(b, v') \<in> set (candidates m)" "u \<in> set v'"
      by blast
    then show ?thesis
    proof cases
      case 2
      then have "u \<noteq> t" using nc by (force simp: candidate_ids_def)
      then show ?thesis using I(11) [OF 2] unfolding s' by (intro cand_ok_update_other)
    qed (use new in simp)
  qed
  have dd: "dead s' H C u" if "dead (ms m) H C u" for u
    using that unfolding s' by (rule dead_update [OF _ r]) simp
  have dis: "distinct (map fst (candidates m'))" "distinct (concat (map snd (candidates m')))"
    using I(7,8) nc push_candidate_keys_distinct push_candidate_distinct
    by (auto simp: m' candidate_ids_def)
  have "stalemate_inv (X - {t}) m' H C"
  proof (rule stalemate_invI, unfold ids m'(1,2))
    show "live s' H C u" if "u \<in> m_reserve m - {t}" for u
      using I(5) [of u] that unfolding s' by (intro live_update_other) auto
    show "\<not> wr_finished (rs_r x)"
      if "u \<in> m_reserve m - {t}" "u \<notin> X - {t}" "replays s' u = Some x" for u x
      using that I(6) by (auto simp: s' split: if_splits)
    show "cand_ok s' H C b u" if "(b, v) \<in> set (candidates m')" "u \<in> set v" for b v u
      using that by (rule cands)
    show "v \<noteq> []" if "(b, v) \<in> set (candidates m')" for b v
      using push_candidate_entry [of b v "candidates m" b0 t] that I(10) m' by auto
    show "dead s' H C u" if "u < token s'" "u \<notin> m_reserve m - {t}" "u \<notin> insert t (candidate_ids m)" for u
      using that dd I(12) [of u] by (simp add: s')
    show "insert t (candidate_ids m) \<subseteq> {..<token s'}" using I(3,4) t by (auto simp: s')
    show "(m_reserve m - {t}) \<inter> insert t (candidate_ids m) = {}" using I(9) by blast
  qed (use sh I(2,3) dis in \<open>auto simp: s'\<close>)
  then show ?thesis unfolding m'_def .
qed

lemma stalemate_promote_inv:
  assumes inv: "stalemate_inv X m H C" and t: "t \<in> m_reserve m"
    and r: "replays (ms m) t = Some r" and longer: "length C < length (H t)"
    and agr: "agree (H t) C (max (data_matching_canon r) (length C - stream_cmp_distance (ms m))) (length C)"
  shows "\<exists>s' r'. update_replay (ms m) t (\<lambda>r. set_matching r (length C)) = Some s'
    \<and> get_replay s' t = Some r'
    \<and> buf_at bd_ops (wr_data (rs_r r')) (length C) = Some (H t ! length C)
    \<and> stalemate_inv (X - {t})
         (insert_candidate (m\<lparr>m_reserve := m_reserve m - {t}, ms := s'\<rparr>) (H t ! length C) t) H C
    \<and> stalemate_frame m
         (insert_candidate (m\<lparr>m_reserve := m_reserve m - {t}, ms := s'\<rparr>) (H t ! length C) t)"
proof -
  note I = stalemate_invD [OF inv]
  let ?r = "set_matching r (length C)"
  let ?b = "H t ! length C"
  have ok: "replay_ok (ms m) H C t ?r"
    by (rule replay_ok_set_matching [OF shared_inv_replay [OF I(1) r]]) simp
  obtain s' where s': "update_replay (ms m) t (\<lambda>r. set_matching r (length C)) = Some s'"
    "s' = (ms m)\<lparr>replays := (replays (ms m))(t \<mapsto> ?r)\<rparr>"
    "shared_inv s' H C" "same_frame (ms m) s'"
    using update_replay_inv [where f = "\<lambda>r. set_matching r (length C)", OF I(1) r ok] by auto
  note lm = live_set_matching [OF I(1) r I(5) [OF t] less_imp_le [OF longer] agr, folded s'(2)]
  have at: "buf_at bd_ops (wr_data (rs_r ?r)) (length C) = Some ?b"
    using ok lm(3) longer by (intro bd.at_rep) (auto simp: replay_ok_def)
  have "cand_ok s' H C ?b t" using lm longer by (simp add: cand_ok_def)
  from promoted_inv [OF inv t r s'(2,3) this]
  have "stalemate_inv (X - {t}) (insert_candidate (m\<lparr>m_reserve := m_reserve m - {t}, ms := s'\<rparr>) ?b t) H C" .
  moreover have "stalemate_frame m (insert_candidate (m\<lparr>m_reserve := m_reserve m - {t}, ms := s'\<rparr>) ?b t)"
    using s' by (auto simp: stalemate_frame_def insert_candidate_def)
  moreover have "get_replay s' t = Some ?r" by (simp add: s'(2) get_replay_def)
  ultimately show ?thesis using s'(1) at by blast
qed

lemma try_move_inv:
  assumes inv: "stalemate_inv X m H C" and t: "t \<in> m_reserve m"
  shows "\<exists>m'. try_move_replay_to_candidates m t = Some m'
    \<and> stalemate_inv (X - {t}) m' H C \<and> stalemate_frame m m' \<and> m_reserve m - {t} \<subseteq> m_reserve m'"
proof -
  note I = stalemate_invD [OF inv]
  obtain r where r: "replays (ms m) t = Some r"
    using shared_inv_tokenD [OF I(1)] I(3) t by blast
  have len: "canon_data_len (ms m) = length C" "rs_data_len r = length (H t)"
    using shared_inv_canon_len [OF I(1)] shared_inv_data_len [OF I(1) r] by auto
  have gr: "get_replay (ms m) t = Some r" using r by (simp add: get_replay_def)
  show ?thesis
  proof (cases "length (H t) \<le> length C")
    case short: True
    show ?thesis
    proof (cases "wr_finished (rs_r r)")
      case True
      then have "dead (ms m) H C t" using r short by (auto simp: dead_def)
      then show ?thesis using stalemate_drop_inv [OF inv t r] short True gr len
        by (auto simp: try_move_replay_to_candidates_def)
    next
      case False
      then have "stalemate_inv (X - {t}) m H C"
        using inv r unfolding stalemate_inv_def by auto
      then show ?thesis using short False gr len
        by (auto simp: try_move_replay_to_candidates_def)
    qed
  next
    case False
    then have longer: "length C < length (H t)" by simp
    obtain b where b: "diverges_at_stalemate r (canonical_stream (ms m)) = Some b"
      "b \<longrightarrow> dead (ms m) H C t"
      "\<not> b \<longrightarrow> agree (H t) C (max (data_matching_canon r) (length C - stream_cmp_distance (ms m))) (length C)"
      using diverges_spec [OF I(1) r I(5) [OF t]] longer by auto
    show ?thesis
    proof (cases b)
      case True
      with b obtain s' where s': "update_replay (ms m) t set_diverged = Some s'"
        "stalemate_inv (X - {t}) (m\<lparr>ms := s', m_reserve := m_reserve m - {t}\<rparr>) H C"
        "stalemate_frame m (m\<lparr>ms := s', m_reserve := m_reserve m - {t}\<rparr>)"
        using stalemate_drop_inv [OF inv t r] by blast
      have eq: "m\<lparr>m_reserve := m_reserve m - {t}, ms := s'\<rparr> = m\<lparr>ms := s', m_reserve := m_reserve m - {t}\<rparr>"
        by (cases m) simp
      show ?thesis using s'(1) s'(2,3) [folded eq] b True longer gr len
        by (simp add: try_move_replay_to_candidates_def Let_def)
    next
      case False
      with b obtain s' r' where s': "update_replay (ms m) t (\<lambda>r. set_matching r (length C)) = Some s'"
        "get_replay s' t = Some r'" "buf_at bd_ops (wr_data (rs_r r')) (length C) = Some (H t ! length C)"
        "stalemate_inv (X - {t})
           (insert_candidate (m\<lparr>m_reserve := m_reserve m - {t}, ms := s'\<rparr>) (H t ! length C) t) H C"
        "stalemate_frame m
           (insert_candidate (m\<lparr>m_reserve := m_reserve m - {t}, ms := s'\<rparr>) (H t ! length C) t)"
        using stalemate_promote_inv [OF inv t r longer] by blast
      then show ?thesis using b False longer gr len
        by (simp add: try_move_replay_to_candidates_def Let_def) (simp add: insert_candidate_def)
    qed
  qed
qed

text \<open>Entering a stalemate tries every token of the reserve once, in any order.\<close>

lemma from_quorum_inv:
  assumes it: "iteration_ok it"
    and inv: "stalemate_inv R \<lparr>ms = s, candidates = [], m_reserve = R\<rparr> H C"
  shows "\<exists>m. from_quorum it s R = Some m \<and> stalemate_inv {} m H C
    \<and> same_frame s (ms m) \<and> canonical_stream (ms m) = canonical_stream s"
proof -
  let ?m0 = "\<lparr>ms = s, candidates = [], m_reserve = R\<rparr>"
  let ?I = "\<lambda>xs m. stalemate_inv (set xs) m H C \<and> stalemate_frame ?m0 m \<and> set xs \<subseteq> m_reserve m \<and> distinct xs"
  have "R \<subseteq> {..<token s}" using stalemate_invD(3) [OF inv] by simp
  then have fin: "finite R" using finite_subset by blast
  then have xs: "distinct (set_iter it R)" "set (set_iter it R) = R"
    using it by (auto simp: iteration_ok_def)
  have "\<exists>m. foldM (\<lambda>t m. try_move_replay_to_candidates m t) (set_iter it R) ?m0 = Some m \<and> ?I [] m"
  proof (rule foldM_invariant [where I = ?I])
    show "?I (set_iter it R) ?m0" using inv xs by simp
  next
    fix x ys m
    assume I: "?I (x # ys) m"
    then obtain m' where m': "try_move_replay_to_candidates m x = Some m'"
      "stalemate_inv (set (x # ys) - {x}) m' H C" "stalemate_frame m m'" "m_reserve m - {x} \<subseteq> m_reserve m'"
      using try_move_inv [of "set (x # ys)" m H C x] by auto
    moreover have "set (x # ys) - {x} = set ys" using I by auto
    ultimately show "\<exists>s'. try_move_replay_to_candidates m x = Some s' \<and> ?I ys s'"
      using I stalemate_frame_trans [of ?m0 m m'] by auto
  qed
  then show ?thesis by (auto simp: from_quorum_def stalemate_frame_def)
qed

end
