(* ===== verification/Merge_Quorum.thy ===== *)
theory Merge_Quorum
  imports Merge_Invariant
begin

text \<open>
  The quorum half of the merge strategy: what a merging step adds to the canonical replay,
  and how a stalemate is left and entered.
\<close>

subsection \<open>Members of a quorum\<close>

text \<open>
  A token that may serve in a quorum: its data goes at least as far as the canonical data
  and is still there from that point on; for a quorum of at most two it agrees with the last
  \<open>stream_cmp_distance\<close> canonical bytes.
\<close>

definition qmember :: "shared_state \<Rightarrow> history \<Rightarrow> byte list \<Rightarrow> nat \<Rightarrow> bool" where
  "qmember s H C t \<longleftrightarrow> (\<exists>r. replays s t = Some r \<and> window_start (wr_data (rs_r r)) \<le> length C \<and>
     length C \<le> length (H t) \<and>
     (target_quorum_size s \<le> 2 \<longrightarrow> agree (H t) C (length C - stream_cmp_distance s) (length C)))"

definition quorum_base :: "quorum_state \<Rightarrow> history \<Rightarrow> byte list \<Rightarrow> bool" where
  "quorum_base m H C \<longleftrightarrow>
     shared_inv (qs m) H C \<and> quorum m \<noteq> {} \<and> card (quorum m) \<le> target_quorum_size (qs m) \<and>
     quorum m \<subseteq> {..<token (qs m)} \<and> q_reserve m \<subseteq> {..<token (qs m)} \<and>
     quorum m \<inter> q_reserve m = {} \<and>
     (\<forall>t \<in> quorum m. qmember (qs m) H C t) \<and> (\<forall>t \<in> q_reserve m. live (qs m) H C t) \<and>
     (\<forall>t < token (qs m). t \<notin> quorum m \<longrightarrow> t \<notin> q_reserve m \<longrightarrow> dead (qs m) H C t)"

text \<open>
  Between calls the members of the quorum have been compared up to the end of the canonical
  data, and the canonical delayed position has caught up with one of them (or with the end
  of the canonical data), unless the strategy has yet to be told of a change of a member.
\<close>

definition quorum_inv :: "nat set \<Rightarrow> quorum_state \<Rightarrow> history \<Rightarrow> byte list \<Rightarrow> bool" where
  "quorum_inv X m H C \<longleftrightarrow>
     quorum_base m H C \<and> delayed_data_started (qs m) \<and>
     (\<forall>t \<in> quorum m. live (qs m) H C t \<and> matched (qs m) C t) \<and>
     (quorum m \<inter> X = {} \<longrightarrow>
       (\<exists>t r. t \<in> quorum m \<and> replays (qs m) t = Some r \<and>
          min (length C) (wr_delayed_data_len (rs_r r)) \<le> mr_delayed_data_len (canonical_stream (qs m))))"

lemma quorum_baseD:
  assumes "quorum_base m H C"
  shows "shared_inv (qs m) H C" "quorum m \<noteq> {}" "card (quorum m) \<le> target_quorum_size (qs m)"
    "quorum m \<subseteq> {..<token (qs m)}" "q_reserve m \<subseteq> {..<token (qs m)}" "quorum m \<inter> q_reserve m = {}"
    "\<And>t. t \<in> quorum m \<Longrightarrow> qmember (qs m) H C t" "\<And>t. t \<in> q_reserve m \<Longrightarrow> live (qs m) H C t"
    "\<And>t. t < token (qs m) \<Longrightarrow> t \<notin> quorum m \<Longrightarrow> t \<notin> q_reserve m \<Longrightarrow> dead (qs m) H C t"
    "finite (quorum m)" "finite (q_reserve m)"
  using assms finite_subset [of "quorum m" "{..<token (qs m)}"]
    finite_subset [of "q_reserve m" "{..<token (qs m)}"]
  unfolding quorum_base_def by blast+

lemma quorum_inv_mono: "quorum_inv X m H C \<Longrightarrow> X \<subseteq> Y \<Longrightarrow> quorum_inv Y m H C"
  unfolding quorum_inv_def by blast

lemma dead_frame: "same_frame s s' \<Longrightarrow> dead s H C t \<Longrightarrow> dead s' H C t"
  unfolding dead_def using same_frame_SomeD [of s' s] same_frame_sym [of s s'] by blast

lemma live_frame:
  "same_frame s s' \<Longrightarrow> replays s' t = replays s t \<Longrightarrow> live s H C t \<Longrightarrow> live s' H C t"
  by (simp add: live_def same_frame_def)

lemma iteration_set:
  assumes "iteration_ok it" "finite S"
  shows "distinct (set_iter it S)" "set (set_iter it S) = S"
  using assms by (auto simp: iteration_ok_def)

subsection \<open>The common prefix of the quorum\<close>

lemma arg_min_list_least:
  "xs \<noteq> [] \<Longrightarrow> x \<in> set xs \<Longrightarrow> f (arg_min_list f xs) \<le> (f x :: nat)"
  by (simp add: f_arg_min_list_f)

text \<open>The data of a member, and a quorum with no third member.\<close>

lemma quorum_member_data:
  assumes base: "quorum_base m H C" and t: "t \<in> quorum m"
  shows "\<exists>r. replays (qs m) t = Some r \<and> deque_rep (wr_data (rs_r r)) (H t)
      \<and> window_start (wr_data (rs_r r)) \<le> length C \<and> length C \<le> length (H t)
      \<and> data_len_of (qs m) t = length (H t) \<and> rs_data_len r = length (H t)"
proof -
  note B = quorum_baseD [OF base]
  obtain r where r: "replays (qs m) t = Some r" "window_start (wr_data (rs_r r)) \<le> length C"
    "length C \<le> length (H t)"
    using B(7) [OF t] by (auto simp: qmember_def)
  moreover have "rs_data_len r = length (H t)" by (rule shared_inv_data_len [OF B(1) r(1)])
  ultimately show ?thesis using shared_inv_replay [OF B(1) r(1)]
    by (auto simp: replay_ok_def data_len_of_def get_replay_def)
qed

lemma two_members:
  assumes "finite Q" "card Q \<le> 2" "w \<in> Q" "x \<in> Q" "u \<in> Q" "x \<noteq> w"
  shows "u = w \<or> u = x"
proof (rule ccontr)
  assume "\<not> ?thesis"
  then have "card {u, w, x} = 3" using assms(6) by auto
  moreover have "{u, w, x} \<subseteq> Q" using assms(3-5) by auto
  ultimately have "3 \<le> card Q" using card_mono [OF assms(1)] by metis
  then show False using assms(2) by simp
qed

lemma calculate_quorum_prefix_spec:
  assumes it: "iteration_ok it" and base: "quorum_base m H C"
  shows "\<exists>k. calculate_quorum_prefix it m = Some k \<and> length C \<le> k
    \<and> (\<forall>t \<in> quorum m. k \<le> length (H t))
    \<and> (card (quorum m) \<le> 2 \<longrightarrow> (\<forall>t \<in> quorum m. \<forall>u \<in> quorum m. agree (H t) (H u) (length C) k))"
proof -
  note B = quorum_baseD [OF base]
  define ids where "ids = set_iter it (quorum m)"
  have ids: "distinct ids" "set ids = quorum m" "ids \<noteq> []"
    using iteration_set [OF it B(10)] B(2) by (auto simp: ids_def)
  note rep = quorum_member_data [OF base]
  define w where "w = arg_min_list (data_len_of (qs m)) ids"
  have w: "w \<in> quorum m" using ids by (auto simp: w_def intro: arg_min_list_in)
  have least: "length (H w) \<le> length (H t)" if "t \<in> quorum m" for t
  proof -
    have "data_len_of (qs m) w \<le> data_len_of (qs m) t"
      using arg_min_list_least [OF ids(3)] that ids(2) by (simp add: w_def)
    then show ?thesis using rep [OF that] rep [OF w] by auto
  qed
  obtain rw where rw: "replays (qs m) w = Some rw" "deque_rep (wr_data (rs_r rw)) (H w)"
    "window_start (wr_data (rs_r rw)) \<le> length C" "length C \<le> length (H w)"
    "rs_data_len rw = length (H w)"
    using rep [OF w] by blast
  define body where "body = (\<lambda>t common_prefix.
    if t = w then Some common_prefix
    else do {
      other \<leftarrow> get_replay (qs m) t;
      rs_common_prefix_from_to rw other (canon_data_len (qs m)) (Some common_prefix)
    })"
  let ?I = "\<lambda>ys k. distinct ys \<and> length C \<le> k \<and> k \<le> length (H w) \<and>
    (card (quorum m) \<le> 2 \<longrightarrow> (\<forall>u \<in> quorum m - set ys. agree (H w) (H u) (length C) k))"
  have "\<exists>k. foldM body ids (length (H w)) = Some k \<and> ?I [] k"
  proof (rule foldM_invariant [where I = ?I])
    show "?I ids (length (H w))" using ids rw by simp
  next
    fix x ys k
    assume sub: "set (x # ys) \<subseteq> set ids" and I: "?I (x # ys) k"
    show "\<exists>k'. body x k = Some k' \<and> ?I ys k'"
    proof (cases "x = w")
      case True
      then show ?thesis using I by (auto simp: body_def agree_def)
    next
      case False
      have x: "x \<in> quorum m" using sub ids by auto
      obtain r where r: "replays (qs m) x = Some r" "deque_rep (wr_data (rs_r r)) (H x)"
        "window_start (wr_data (rs_r r)) \<le> length C" "length C \<le> length (H x)"
        using rep [OF x] by blast
      obtain k' where k': "common_prefix_from_to bd_ops bd_ops (wr_data (rs_r rw)) (wr_data (rs_r r))
          (length C) (Some k) = Some k'"
        "length C \<le> k'" "k' \<le> length (H w)" "agree (H w) (H x) (length C) k'"
        using bd2.from_to_rep [OF rw(2) r(2) rw(3) r(3) rw(4) r(4), of "Some k"] by blast
      have "body x k = Some k'"
        using False r(1) k'(1) shared_inv_canon_len [OF B(1)]
        by (simp add: body_def get_replay_def rs_common_prefix_from_to_def)
      moreover have "agree (H w) (H u) (length C) k'" if "card (quorum m) \<le> 2" "u \<in> quorum m" for u
        using two_members [OF B(10) that(1) w x that(2) False] k'(4) by (auto simp: agree_def)
      ultimately show ?thesis using k' I by auto
    qed
  qed
  then obtain k where k: "foldM body ids (length (H w)) = Some k" "?I [] k" by blast
  have "calculate_quorum_prefix it m = Some k"
    using B(2) ids rw(1,5) k(1) rep
    unfolding calculate_quorum_prefix_def ids_def [symmetric] iter_min_by_key_def
    by (force simp: Let_def w_def [symmetric] get_replay_def body_def)
  moreover have "agree (H t) (H u) (length C) k"
    if "card (quorum m) \<le> 2" "t \<in> quorum m" "u \<in> quorum m" for t u
  proof -
    have "agree (H w) (H t) (length C) k" "agree (H w) (H u) (length C) k" using k(2) that by auto
    then show ?thesis unfolding agree_def by metis
  qed
  ultimately show ?thesis using k(2) least by (meson le_trans)
qed

subsection \<open>The delayed position\<close>

lemma update_canon_delayed_inv:
  assumes inv: "shared_inv s H C" and r: "replays s t = Some r"
    and hint: "hint \<le> wr_delayed_data_len (rs_r r)"
  shows "\<exists>s'. update_canon_delayed_data_len s hint = Some s' \<and> shared_inv s' H C
    \<and> same_frame s s' \<and> replays s' = replays s
    \<and> mr_delayed_data_len (canonical_stream s') = max (min hint (length C)) (mr_delayed_data_len (canonical_stream s))"
proof (cases "min hint (length C) \<le> mr_delayed_data_len (canonical_stream s)")
  case True
  then show ?thesis using inv shared_inv_canon_len [OF inv]
    by (simp add: update_canon_delayed_data_len_def canon_delayed_data_len_def max_def Let_def)
next
  case False
  let ?n = "min hint (length C)"
  let ?c = "mr_notify_read_event ((canonical_stream s)\<lparr>mr_delayed_data_len := ?n\<rparr>)"
  have mr: "mr_rep (canonical_stream s) C" "\<not> mr_finished (canonical_stream s)"
    using inv by (auto simp: shared_inv_def)
  have upd: "update_canon_delayed_data_len s hint = Some (s\<lparr>canonical_stream := ?c\<rparr>)"
    using False mr_advance_rep [OF mr, of ?n] shared_inv_canon_len [OF inv]
    by (simp add: update_canon_delayed_data_len_def canon_delayed_data_len_def Let_def)
  have "mr_rep ?c C" using mr by (simp add: mr_rep_def stream_simps)
  moreover have "?n \<le> wr_delayed_data_len (rs_r r)" using hint by simp
  then have "delay_bounded (s\<lparr>canonical_stream := ?c\<rparr>)"
    using r by (auto simp only: delay_bounded_def stream_simps) (auto simp: stream_simps)
  ultimately have "shared_inv (s\<lparr>canonical_stream := ?c\<rparr>) H C"
    using inv by (simp add: shared_inv_def replay_ok_def provenance_def has_source_def stream_simps)
  then show ?thesis using upd False by (simp add: same_frame_def stream_simps max_def)
qed

lemma update_delayed_position_inv:
  assumes it: "iteration_ok it" and base: "quorum_base m H C"
    and cmp: "delayed_data_started (qs m)"
      "\<And>t. t \<in> quorum m \<Longrightarrow> live (qs m) H C t \<and> matched (qs m) C t"
  shows "\<exists>m'. update_delayed_position it m = Some m' \<and> quorum_inv {} m' H C
    \<and> same_frame (qs m) (qs m') \<and> quorum m' = quorum m \<and> q_reserve m' = q_reserve m"
proof -
  note B = quorum_baseD [OF base]
  define ids where "ids = set_iter it (quorum m)"
  have ids: "set ids = quorum m" "ids \<noteq> []"
    using iteration_set [OF it B(10)] B(2) by (auto simp: ids_def)
  define del where "del = (\<lambda>t. wr_delayed_data_len (rs_r (the (replays (qs m) t))))"
  have some: "\<exists>r. replays (qs m) t = Some r" if "t \<in> quorum m" for t
    using B(7) [OF that] by (auto simp: qmember_def)
  have "mapM (\<lambda>t. map_option (\<lambda>r. wr_delayed_data_len (rs_r r)) (get_replay (qs m) t)) ids
      = Some (map del ids)"
    by (rule mapM_Some) (use some ids in \<open>force simp: get_replay_def del_def\<close>)
  then have pos: "quorum_delayed_position it m = Some (Min (del ` quorum m))"
    using ids by (simp add: quorum_delayed_position_def ids_def [symmetric] iter_min_def)
  obtain t where t: "t \<in> quorum m" "Min (del ` quorum m) = del t"
    using Min_in [of "del ` quorum m"] B(2,10) by blast
  obtain r where r: "replays (qs m) t = Some r" using some t by blast
  obtain s' where s': "update_canon_delayed_data_len (qs m) (Min (del ` quorum m)) = Some s'"
    "shared_inv s' H C" "same_frame (qs m) s'" "replays s' = replays (qs m)"
    "mr_delayed_data_len (canonical_stream s')
       = max (min (Min (del ` quorum m)) (length C)) (mr_delayed_data_len (canonical_stream (qs m)))"
    using update_canon_delayed_inv [OF B(1) r, of "Min (del ` quorum m)"] t r by (auto simp: del_def)
  have upd: "update_delayed_position it m = Some (m\<lparr>qs := s'\<rparr>)"
    using pos s'(1) by (simp add: update_delayed_position_def)
  have cg: "live s' H C u \<longleftrightarrow> live (qs m) H C u" "dead s' H C u \<longleftrightarrow> dead (qs m) H C u"
    "matched s' C u \<longleftrightarrow> matched (qs m) C u" "qmember s' H C u \<longleftrightarrow> qmember (qs m) H C u" for u
    using s'(3,4) by (auto simp: live_def dead_def matched_def qmember_def same_frame_def)
  have "quorum_base (m\<lparr>qs := s'\<rparr>) H C"
    using base s'(2,3) by (simp add: quorum_base_def cg same_frame_def)
  moreover have "min (length C) (wr_delayed_data_len (rs_r r)) \<le> mr_delayed_data_len (canonical_stream s')"
    using t r s'(5) by (simp add: del_def)
  ultimately have "quorum_inv {} (m\<lparr>qs := s'\<rparr>) H C"
    using cmp t r s'(3,4) by (auto simp: quorum_inv_def cg same_frame_def)
  then show ?thesis using upd s'(3) by simp
qed

subsection \<open>Merging\<close>

text \<open>After a merge the bookkeeping of the quorum moves to the new end of the data.\<close>

lemma qmember_set_matching:
  assumes inv: "shared_inv s H C" and mem: "qmember s H C t"
  shows "\<exists>s'. update_replay s t (\<lambda>r. set_matching r (length C)) = Some s' \<and> shared_inv s' H C
    \<and> same_frame s s' \<and> canonical_stream s' = canonical_stream s
    \<and> (\<forall>u. u \<noteq> t \<longrightarrow> replays s' u = replays s u) \<and> qmember s' H C t \<and> live s' H C t \<and> matched s' C t"
proof -
  obtain r where r: "replays s t = Some r" "window_start (wr_data (rs_r r)) \<le> length C"
    "length C \<le> length (H t)"
    "target_quorum_size s \<le> 2 \<longrightarrow> agree (H t) C (length C - stream_cmp_distance s) (length C)"
    using mem by (auto simp: qmember_def)
  let ?r = "set_matching r (length C)"
  have ok: "replay_ok s H C t r" by (rule shared_inv_replay [OF inv r(1)])
  have ok': "replay_ok s H C t ?r" by (rule replay_ok_set_matching [OF ok]) simp
  obtain s' where s': "update_replay s t (\<lambda>r. set_matching r (length C)) = Some s'"
    "s' = s\<lparr>replays := (replays s)(t \<mapsto> ?r)\<rparr>" "shared_inv s' H C" "same_frame s s'"
    using update_replay_inv [where f = "\<lambda>r. set_matching r (length C)", OF inv r(1) ok'] by auto
  have dmc: "max (length C) (data_matching_canon r) = length C"
    using ok by (simp add: replay_ok_def)
  have win: "window_start (wr_data (rs_r ?r)) \<le> length C"
    using window_start_discard_le [of "wr_data (rs_r r)" "length C"] r(2) dmc
    by (simp add: set_matching_def Let_def stream_simps)
  then have "qmember s' H C t" "live s' H C t" "matched s' C t"
    using r(3,4) dmc by (auto simp: s'(2) qmember_def live_def matched_def matching_simps)
  then show ?thesis using s' by auto
qed

lemma set_matching_loop:
  assumes inv: "shared_inv s H C" and xs: "distinct xs" "\<And>t. t \<in> set xs \<Longrightarrow> qmember s H C t"
  shows "\<exists>s'. foldM (\<lambda>t s. update_replay s t (\<lambda>r. set_matching r (length C))) xs s = Some s'
    \<and> shared_inv s' H C \<and> same_frame s s' \<and> canonical_stream s' = canonical_stream s
    \<and> (\<forall>u. u \<notin> set xs \<longrightarrow> replays s' u = replays s u)
    \<and> (\<forall>t \<in> set xs. qmember s' H C t \<and> live s' H C t \<and> matched s' C t)"
proof -
  let ?I = "\<lambda>ys s'. distinct ys \<and> set ys \<subseteq> set xs \<and> shared_inv s' H C \<and> same_frame s s'
    \<and> canonical_stream s' = canonical_stream s
    \<and> (\<forall>u. u \<notin> set xs - set ys \<longrightarrow> replays s' u = replays s u)
    \<and> (\<forall>t \<in> set xs - set ys. qmember s' H C t \<and> live s' H C t \<and> matched s' C t)"
  have "\<exists>s'. foldM (\<lambda>t s. update_replay s t (\<lambda>r. set_matching r (length C))) xs s = Some s' \<and> ?I [] s'"
  proof (rule foldM_invariant [where I = ?I])
    show "?I xs s" using inv xs by simp
  next
    fix x ys u
    assume I: "?I (x # ys) u"
    then have x: "x \<in> set xs" "x \<notin> set ys" by auto
    have "replays u x = replays s x" using I x by auto
    then have "qmember u H C x" using xs(2) [OF x(1)] I by (simp add: qmember_def same_frame_def)
    then obtain u' where u': "update_replay u x (\<lambda>r. set_matching r (length C)) = Some u'"
      "shared_inv u' H C" "same_frame u u'" "canonical_stream u' = canonical_stream u"
      "\<And>v. v \<noteq> x \<Longrightarrow> replays u' v = replays u v"
      "qmember u' H C x" "live u' H C x" "matched u' C x"
      using qmember_set_matching [of u H C x] I by blast
    have cg: "qmember u' H C t \<longleftrightarrow> qmember u H C t" "live u' H C t \<longleftrightarrow> live u H C t"
      "matched u' C t \<longleftrightarrow> matched u C t" if "t \<noteq> x" for t
      using u'(3) u'(5) [OF that] by (auto simp: qmember_def live_def matched_def same_frame_def)
    have "?I ys u'"
    proof (intro conjI)
      show "same_frame s u'" using I u'(3) same_frame_trans by blast
      show "\<forall>v. v \<notin> set xs - set ys \<longrightarrow> replays u' v = replays s v"
      proof (intro allI impI)
        fix v assume v: "v \<notin> set xs - set ys"
        then have "v \<noteq> x" "v \<notin> set xs - set (x # ys)" using x by auto
        then show "replays u' v = replays s v" using I u'(5) by simp
      qed
      show "\<forall>t\<in>set xs - set ys. qmember u' H C t \<and> live u' H C t \<and> matched u' C t"
        using I u'(6-8) cg x by (metis DiffD1 DiffD2 DiffI set_ConsD)
    qed (use I u' in auto)
    then show "\<exists>s'. update_replay u x (\<lambda>r. set_matching r (length C)) = Some s' \<and> ?I ys s'"
      using u'(1) by blast
  qed
  then show ?thesis by auto
qed

lemma live_discard:
  assumes inv: "shared_inv s H C" and live: "live s H C t"
  shows "\<exists>s'. update_replay s t (\<lambda>r. discard_if_not_needed_for_checking_divergence r (length C)) = Some s'
    \<and> shared_inv s' H C \<and> same_frame s s' \<and> canonical_stream s' = canonical_stream s
    \<and> (\<forall>u. u \<noteq> t \<longrightarrow> replays s' u = replays s u) \<and> live s' H C t"
proof -
  let ?f = "\<lambda>r. discard_if_not_needed_for_checking_divergence r (length C)"
  obtain r where r: "replays s t = Some r"
    "window_start (wr_data (rs_r r)) \<le> max (data_matching_canon r) (length C - stream_cmp_distance s)"
    using live by (auto simp: live_def)
  have ok: "replay_ok s H C t r" by (rule shared_inv_replay [OF inv r(1)])
  obtain s' where s': "update_replay s t ?f = Some s'"
    "s' = s\<lparr>replays := (replays s)(t \<mapsto> ?f r)\<rparr>" "shared_inv s' H C" "same_frame s s'"
    using update_replay_inv [where f = ?f, OF inv r(1) replay_ok_discard [OF ok]] by auto
  have "window_start (wr_data (rs_r (?f r))) \<le> max (data_matching_canon r) (length C - stream_cmp_distance s)"
    using window_start_discard_le [of "wr_data (rs_r r)" "length C - stream_cmp_distance s"] r(2) ok
    by (simp add: discard_if_not_needed_for_checking_divergence_def match_start_optimization_def
        stream_simps replay_ok_def)
  then have "live s' H C t" using live r by (auto simp: s'(2) live_def matching_simps)
  then show ?thesis using s' by auto
qed

lemma discard_loop_inv:
  assumes inv: "shared_inv s H C" and xs: "distinct xs" "\<And>t. t \<in> set xs \<Longrightarrow> live s H C t"
  shows "\<exists>s'. foldM (\<lambda>t s. update_replay s t
        (\<lambda>r. discard_if_not_needed_for_checking_divergence r (length C))) xs s = Some s'
    \<and> shared_inv s' H C \<and> same_frame s s' \<and> canonical_stream s' = canonical_stream s
    \<and> (\<forall>u. u \<notin> set xs \<longrightarrow> replays s' u = replays s u) \<and> (\<forall>t \<in> set xs. live s' H C t)"
proof -
  let ?f = "\<lambda>r. discard_if_not_needed_for_checking_divergence r (length C)"
  let ?I = "\<lambda>ys s'. distinct ys \<and> set ys \<subseteq> set xs \<and> shared_inv s' H C \<and> same_frame s s'
    \<and> canonical_stream s' = canonical_stream s
    \<and> (\<forall>u. u \<notin> set xs - set ys \<longrightarrow> replays s' u = replays s u) \<and> (\<forall>t \<in> set xs. live s' H C t)"
  have "\<exists>s'. foldM (\<lambda>t s. update_replay s t ?f) xs s = Some s' \<and> ?I [] s'"
  proof (rule foldM_invariant [where I = ?I])
    show "?I xs s" using inv xs by simp
  next
    fix x ys u
    assume I: "?I (x # ys) u"
    then have x: "x \<in> set xs" "x \<notin> set ys" by auto
    then obtain u' where u': "update_replay u x ?f = Some u'"
      "shared_inv u' H C" "same_frame u u'" "canonical_stream u' = canonical_stream u"
      "\<And>v. v \<noteq> x \<Longrightarrow> replays u' v = replays u v" "live u' H C x"
      using live_discard [of u H C x] I by blast
    have cg: "live u' H C t \<longleftrightarrow> live u H C t" if "t \<noteq> x" for t
      using u'(3) u'(5) [OF that] by (auto simp: live_def same_frame_def)
    have "?I ys u'"
    proof (intro conjI)
      show "same_frame s u'" using I u'(3) same_frame_trans by blast
      show "\<forall>v. v \<notin> set xs - set ys \<longrightarrow> replays u' v = replays s v"
      proof (intro allI impI)
        fix v assume v: "v \<notin> set xs - set ys"
        then have "v \<noteq> x" "v \<notin> set xs - set (x # ys)" using x by auto
        then show "replays u' v = replays s v" using I u'(5) by simp
      qed
      show "\<forall>t\<in>set xs. live u' H C t" using I u'(6) cg by metis
    qed (use I u' in auto)
    then show "\<exists>s'. update_replay u x ?f = Some s' \<and> ?I ys s'" using u'(1) by blast
  qed
  then show ?thesis by auto
qed

lemma discard_data_after_merging_inv:
  assumes it: "iteration_ok it" and base: "quorum_base m H C"
  shows "\<exists>m'. discard_data_after_merging it m = Some m' \<and> quorum_base m' H C
    \<and> (\<forall>t \<in> quorum m. live (qs m') H C t \<and> matched (qs m') C t)
    \<and> same_frame (qs m) (qs m') \<and> quorum m' = quorum m \<and> q_reserve m' = q_reserve m
    \<and> canonical_stream (qs m') = canonical_stream (qs m)"
proof -
  note B = quorum_baseD [OF base]
  note q = iteration_set [OF it B(10)] and rs = iteration_set [OF it B(11)]
  obtain s1 where s1: "foldM (\<lambda>t s. update_replay s t (\<lambda>r. set_matching r (length C)))
      (set_iter it (quorum m)) (qs m) = Some s1"
    "shared_inv s1 H C" "same_frame (qs m) s1" "canonical_stream s1 = canonical_stream (qs m)"
    "\<And>u. u \<notin> quorum m \<Longrightarrow> replays s1 u = replays (qs m) u"
    "\<And>t. t \<in> quorum m \<Longrightarrow> qmember s1 H C t \<and> live s1 H C t \<and> matched s1 C t"
    using set_matching_loop [OF B(1) q(1)] B(7) unfolding q(2) by metis
  have "live s1 H C t" if "t \<in> q_reserve m" for t
  proof -
    have "t \<notin> quorum m" using that B(6) by blast
    then show ?thesis using B(8) [OF that] s1(3,5) by (simp add: live_def same_frame_def)
  qed
  then obtain s2 where s2: "foldM (\<lambda>t s. update_replay s t
      (\<lambda>r. discard_if_not_needed_for_checking_divergence r (length C))) (set_iter it (q_reserve m)) s1 = Some s2"
    "shared_inv s2 H C" "same_frame s1 s2" "canonical_stream s2 = canonical_stream s1"
    "\<And>u. u \<notin> q_reserve m \<Longrightarrow> replays s2 u = replays s1 u"
    "\<And>t. t \<in> q_reserve m \<Longrightarrow> live s2 H C t"
    using discard_loop_inv [OF s1(2) rs(1)] unfolding rs(2) by metis
  have frame: "same_frame (qs m) s2" using s1(3) s2(3) by (rule same_frame_trans)
  have res: "discard_data_after_merging it m = Some (m\<lparr>qs := s2\<rparr>)"
    using s1(1) s2(1) shared_inv_canon_len [OF B(1)] by (simp add: discard_data_after_merging_def)
  have mem: "qmember s2 H C t \<and> live s2 H C t \<and> matched s2 C t" if "t \<in> quorum m" for t
  proof -
    have "replays s2 t = replays s1 t" using s2(5) that B(6) by blast
    then show ?thesis using s1(6) [OF that] s2(3)
      by (simp add: qmember_def live_def matched_def same_frame_def)
  qed
  have "dead s2 H C t" if "t < token s2" "t \<notin> quorum m" "t \<notin> q_reserve m" for t
    using that frame by (intro dead_frame [OF frame B(9)]) (auto simp: same_frame_def)
  then have "quorum_base (m\<lparr>qs := s2\<rparr>) H C"
    using s2(2,6) frame mem B(2-6) by (simp add: quorum_base_def same_frame_def)
  then show ?thesis using res mem frame s1(4) s2(4) by simp
qed

text \<open>A member stays one when data are appended that it agrees with.\<close>

lemma qmember_append:
  assumes mem: "qmember s H C t" and s1: "same_frame s s1" "replays s1 = replays s"
    and k: "length C \<le> k" "k \<le> length (H t)" "k \<le> length (H a)"
    and ag: "target_quorum_size s \<le> 2 \<Longrightarrow> agree (H t) (H a) (length C) k"
  shows "qmember s1 H (extend C (H a) k) t"
proof -
  let ?C = "extend C (H a) k"
  have len: "length ?C = k" using k(1,3) by (rule length_extend)
  obtain x where x: "replays s t = Some x" "window_start (wr_data (rs_r x)) \<le> length C"
    "target_quorum_size s \<le> 2 \<longrightarrow> agree (H t) C (length C - stream_cmp_distance s) (length C)"
    using mem by (auto simp: qmember_def)
  have "agree (H t) ?C (k - stream_cmp_distance s) k" if two: "target_quorum_size s \<le> 2"
    unfolding agree_def
  proof (intro allI impI)
    fix p assume p: "k - stream_cmp_distance s \<le> p \<and> p < k"
    show "H t ! p = ?C ! p"
    proof (cases "p < length C")
      case True
      then have "H t ! p = C ! p" using x(3) two p k(1) by (auto simp: agree_def)
      then show ?thesis using True by (simp add: extend_def nth_append)
    next
      case False
      then have "?C ! p = H a ! p" using p k(3) by (intro extend_nth) auto
      then show ?thesis using False p ag [OF two] by (auto simp: agree_def)
    qed
  qed
  then show ?thesis using x(1,2) s1 len k by (auto simp: qmember_def same_frame_def)
qed

lemma merge_more_data_inv:
  assumes it: "iteration_ok it" and base: "quorum_base m H C" and st: "delayed_data_started (qs m)"
  shows "\<exists>m' C'. merge_more_data it m = Some m' \<and> quorum_inv {} m' H C' \<and> prefix C C'
    \<and> same_frame (qs m) (qs m') \<and> quorum m' = quorum m \<and> q_reserve m' = q_reserve m"
proof -
  note B = quorum_baseD [OF base]
  obtain k where k: "calculate_quorum_prefix it m = Some k" "length C \<le> k"
    "\<And>t. t \<in> quorum m \<Longrightarrow> k \<le> length (H t)"
    "card (quorum m) \<le> 2 \<longrightarrow> (\<forall>t \<in> quorum m. \<forall>u \<in> quorum m. agree (H t) (H u) (length C) k)"
    using calculate_quorum_prefix_spec [OF it base] by blast
  obtain a ids where a: "set_iter it (quorum m) = a # ids" "a \<in> quorum m"
    using iteration_set [OF it B(10)] B(2) by (metis list.exhaust list.set_intros(1) set_empty)
  obtain r where r: "replays (qs m) a = Some r" "window_start (wr_data (rs_r r)) \<le> length C"
    "length C \<le> length (H a)"
    "target_quorum_size (qs m) \<le> 2 \<longrightarrow>
       agree (H a) C (length C - stream_cmp_distance (qs m)) (length C)"
    using B(7) [OF a(2)] by (auto simp: qmember_def)
  let ?C = "extend C (H a) k"
  have src: "prefix C (H a)"
    if "target_quorum_size (qs m) \<le> 2" "length C \<le> stream_cmp_distance (qs m)"
    using r(3,4) that by (intro agree_prefix) auto
  obtain s1 where s1: "append_canon_data (qs m) a k = Some s1" "shared_inv s1 H ?C"
    "same_frame (qs m) s1" "replays s1 = replays (qs m)"
    using append_canon_inv [OF B(1) r(1,2) k(2) k(3) [OF a(2)] src] by blast
  have len: "length ?C = k" using k(2) k(3) [OF a(2)] by (rule length_extend)
  have mem: "qmember s1 H ?C t" if t: "t \<in> quorum m" for t
  proof (rule qmember_append [OF B(7) [OF t] s1(3,4) k(2) k(3) [OF t] k(3) [OF a(2)]])
    show "target_quorum_size (qs m) \<le> 2 \<Longrightarrow> agree (H t) (H a) (length C) k"
      using k(4) t a(2) B(3) by simp
  qed
  have base1: "quorum_base (m\<lparr>qs := s1\<rparr>) H ?C"
  proof -
    have "live s1 H ?C t" if "t \<in> q_reserve m" for t
    proof (rule live_frame [OF s1(3)])
      show "live (qs m) H ?C t"
        unfolding extend_def by (rule live_append [OF B(1) B(8) [OF that]])
    qed (simp add: s1(4))
    moreover have "dead s1 H ?C t" if "t < token s1" "t \<notin> quorum m" "t \<notin> q_reserve m" for t
      using dead_append [OF B(9)] dead_frame [OF s1(3)] that s1(3)
      by (simp add: extend_def same_frame_def)
    ultimately show ?thesis using s1(2,3) mem B(2-6) by (simp add: quorum_base_def same_frame_def)
  qed
  obtain m2 where m2: "discard_data_after_merging it (m\<lparr>qs := s1\<rparr>) = Some m2" "quorum_base m2 H ?C"
    "\<forall>t \<in> quorum m. live (qs m2) H ?C t \<and> matched (qs m2) ?C t"
    "same_frame s1 (qs m2)" "quorum m2 = quorum m" "q_reserve m2 = q_reserve m"
    using discard_data_after_merging_inv [OF it base1] by auto
  have "delayed_data_started (qs m2)" using st s1(3) m2(4) by (simp add: same_frame_def)
  then obtain m3 where m3: "update_delayed_position it m2 = Some m3" "quorum_inv {} m3 H ?C"
    "same_frame (qs m2) (qs m3)" "quorum m3 = quorum m2" "q_reserve m3 = q_reserve m2"
    using update_delayed_position_inv [OF it m2(2)] m2(3,5) by auto
  have "merge_more_data it m = Some m3"
    using k(1) a(1) s1(1) m2(1) m3(1) by (simp add: merge_more_data_def first_item_def)
  moreover have "same_frame (qs m) (qs m3)"
    using s1(3) m2(4) m3(3) same_frame_trans by blast
  ultimately show ?thesis using m3 m2 prefix_extend by metis
qed

end
