(* ===== verification/Merge_Work.thy ===== *)
theory Merge_Work
  imports Merge_Quorum
begin

text \<open>
  The two transitions between a stalemate and a quorum, and the loop that takes them until
  the strategy is stable.
\<close>

subsection \<open>Leaving a stalemate\<close>

lemma fst_le_lex: "(x :: nat \<times> nat \<times> byte) \<le> y \<Longrightarrow> fst x \<le> fst y"
  by (cases x; cases y) (auto simp: less_eq_prod_def)

text \<open>The entry that wins has as many replays as any other.\<close>

lemma best_candidate_spec:
  assumes "candidates m \<noteq> []"
    and ne: "\<And>b v. (b, v) \<in> set (candidates m) \<Longrightarrow> v \<noteq> []"
    and some: "\<And>t. t \<in> candidate_ids m \<Longrightarrow> \<exists>r. replays (ms m) t = Some r"
  shows "\<exists>b v. best_candidate m = Some b \<and> (b, v) \<in> set (candidates m)
    \<and> (\<forall>(b', v') \<in> set (candidates m). length v' \<le> length v)"
proof -
  define len where "len = (\<lambda>t. rs_data_len (the (replays (ms m) t)))"
  define key where "key = (\<lambda>(b::byte, v). (length v, Max (len ` set v), b))"
  have inner: "mapM (\<lambda>t. map_option rs_data_len (get_replay (ms m) t)) v = Some (map len v)"
    if "(b, v) \<in> set (candidates m)" for b v
  proof (rule mapM_Some)
    fix t assume "t \<in> set v"
    then have "t \<in> candidate_ids m" using that by (force simp: candidate_ids_def)
    then show "map_option rs_data_len (get_replay (ms m) t) = Some (len t)"
      using some [of t] by (auto simp: get_replay_def len_def)
  qed
  have keyed: "mapM (\<lambda>(k, v). do {
      lens \<leftarrow> mapM (\<lambda>t. map_option rs_data_len (get_replay (ms m) t)) v;
      longest \<leftarrow> iter_max lens;
      Some (length v, longest, k) }) (candidates m) = Some (map key (candidates m))"
    by (rule mapM_Some) (use inner ne in \<open>force simp: key_def iter_max_def\<close>)
  define best where "best = Max (key ` set (candidates m))"
  have "best \<in> key ` set (candidates m)" using assms(1) by (auto simp: best_def)
  then obtain b v where bv: "(b, v) \<in> set (candidates m)" "best = key (b, v)" by auto
  have "best_candidate m = Some b"
    using keyed assms(1) bv(2)
    by (simp add: best_candidate_def iter_max_def [of "map key (candidates m)"] best_def [symmetric])
       (simp add: key_def)
  moreover have "length v' \<le> length v" if "(b', v') \<in> set (candidates m)" for b' v'
  proof -
    have "key (b', v') \<le> best" using that by (auto simp: best_def)
    then show ?thesis using fst_le_lex bv(2) by (fastforce simp: key_def)
  qed
  ultimately show ?thesis using bv(1) by blast
qed

lemma foldM_append: "foldM f (xs @ ys) s = foldM f xs s \<bind> foldM f ys"
proof (induction xs arbitrary: s)
  case (Cons x xs)
  then show ?case by (cases "f x s") simp_all
qed simp

lemma foldM_nested: "foldM (\<lambda>(_, v) s. foldM f v s) cs s = foldM f (concat (map snd cs)) s"
proof (induction cs arbitrary: s)
  case (Cons c cs)
  then show ?case by (cases c; cases "foldM f (snd c) s") (simp_all add: foldM_append)
qed simp

lemma diverge_loop_inv:
  assumes inv: "shared_inv s H C" and xs: "set xs \<subseteq> {..<token s}"
  shows "\<exists>s'. foldM (\<lambda>t s. update_replay s t set_diverged) xs s = Some s'
    \<and> shared_inv s' H C \<and> same_frame s s' \<and> canonical_stream s' = canonical_stream s
    \<and> (\<forall>u. u \<notin> set xs \<longrightarrow> replays s' u = replays s u)"
proof -
  let ?I = "\<lambda>ys s'. set ys \<subseteq> set xs \<and> shared_inv s' H C \<and> same_frame s s'
    \<and> canonical_stream s' = canonical_stream s
    \<and> (\<forall>u. u \<notin> set xs \<longrightarrow> replays s' u = replays s u)"
  have "\<exists>s'. foldM (\<lambda>t s. update_replay s t set_diverged) xs s = Some s' \<and> ?I [] s'"
  proof (rule foldM_invariant [where I = ?I])
    show "?I xs s" using inv by simp
  next
    fix x ys u
    assume I: "?I (x # ys) u"
    then have "x < token u" using xs by (auto simp: same_frame_def)
    then obtain r where r: "replays u x = Some r" using shared_inv_tokenD I by blast
    have ok: "replay_ok u H C x (set_diverged r)"
      using I r by (intro replay_ok_set_diverged shared_inv_replay) auto
    have iu: "shared_inv u H C" using I by simp
    obtain u' where u': "update_replay u x set_diverged = Some u'"
      "u' = u\<lparr>replays := (replays u)(x \<mapsto> set_diverged r)\<rparr>" "shared_inv u' H C" "same_frame u u'"
      using update_replay_inv [where f = set_diverged, OF iu r ok] by auto
    have "?I ys u'" using I u' same_frame_trans [of s u u'] by auto
    then show "\<exists>s'. update_replay u x set_diverged = Some s' \<and> ?I ys s'" using u'(1) by blast
  qed
  then show ?thesis by auto
qed

text \<open>What \<open>from_stalemate\<close> makes of the winners: a quorum, and the rest to the reserve.\<close>

lemma from_stalemate_inv:
  assumes it: "iteration_ok it" and inv: "shared_inv s H C" and st: "delayed_data_started s"
    and good: "good \<noteq> []" "distinct good" "set good \<subseteq> {..<token s}" "set good \<inter> R = {}"
      "\<And>t. t \<in> set good \<Longrightarrow> qmember s H C t \<and> live s H C t"
    and res: "R \<subseteq> {..<token s}" "\<And>t. t \<in> R \<Longrightarrow> live s H C t"
    and dead: "\<And>t. t < token s \<Longrightarrow> t \<notin> set good \<Longrightarrow> t \<notin> R \<Longrightarrow> dead s H C t"
  shows "\<exists>q C'. from_stalemate it s good R = Some q \<and> quorum_inv {} q H C' \<and> prefix C C'
    \<and> same_frame s (qs q) \<and> card (quorum q) = min (length good) (target_quorum_size s)
    \<and> quorum q \<subseteq> set good \<and> quorum q \<union> q_reserve q = set good \<union> R"
proof -
  define xs where "xs = rev (sort_unstable it (data_len_of s) good)"
  have "mset xs = mset good" using it by (simp add: xs_def iteration_ok_def)
  then have xs: "set xs = set good" "distinct xs" "length xs = length good"
    using good(2) by (metis mset_eq_setD, metis mset_eq_imp_distinct_iff, metis mset_eq_length)
  define n where "n = min (length xs) (target_quorum_size s)"
  let ?Q = "set (take n xs)" and ?R = "R \<union> set (drop n xs)"
  have tq: "0 < target_quorum_size s" using inv by (simp add: shared_inv_def)
  have split: "?Q \<union> set (drop n xs) = set good" "?Q \<inter> set (drop n xs) = {}"
    using xs set_take_disj_set_drop_if_distinct [of xs n n]
    by (metis append_take_drop_id set_append, simp)
  have card: "card ?Q = n"
    using xs(2) by (subst distinct_card) (simp_all add: n_def)
  have "n > 0" using good(1) xs(3) tq by (simp add: n_def)
  then have ne: "?Q \<noteq> {}" using card by force
  let ?m = "\<lparr>qs = s, quorum = ?Q, q_reserve = ?R\<rparr>"
  have "quorum_base ?m H C"
    unfolding quorum_base_def
  proof (intro conjI)
    show "card (quorum ?m) \<le> target_quorum_size (qs ?m)" using card by (simp add: n_def)
    show "quorum ?m \<inter> q_reserve ?m = {}" using split good(4) by auto
    show "\<forall>t\<in>quorum ?m. qmember (qs ?m) H C t" using split good(5) by auto
    show "\<forall>t\<in>q_reserve ?m. live (qs ?m) H C t" using split good(5) res(2) by auto
    show "\<forall>t<token (qs ?m). t \<notin> quorum ?m \<longrightarrow> t \<notin> q_reserve ?m \<longrightarrow> dead (qs ?m) H C t"
      using dead split by auto
  qed (use inv ne split good(3) res(1) in auto)
  then obtain q C' where q: "merge_more_data it ?m = Some q" "quorum_inv {} q H C'" "prefix C C'"
    "same_frame s (qs q)" "quorum q = ?Q" "q_reserve q = ?R"
    using merge_more_data_inv [OF it, of ?m H C] st by auto
  have "get_replay s t \<noteq> None" if "t \<in> set good" for t
    using shared_inv_tokenD [OF inv] good(3) that by (force simp: get_replay_def)
  then have "from_stalemate it s good R = Some q"
    using q(1) good(1) by (simp add: from_stalemate_def Let_def xs_def [symmetric] n_def [symmetric])
  moreover have "card (quorum q) = min (length good) (target_quorum_size s)"
    using card q(5) xs(3) by (simp add: n_def)
  ultimately show ?thesis using q split by blast
qed

lemma map_of_distinct: "distinct (map fst cs) \<Longrightarrow> (b, v) \<in> set cs \<Longrightarrow> map_of cs b = Some v"
  by simp

text \<open>A winner, seen after the canonical data grew by the byte the winners agree on.\<close>

lemma cand_qmember:
  assumes inv: "shared_inv s H C" and cand: "cand_ok s H C b t"
  shows "qmember s H (C @ [b]) t" "live s H (C @ [b]) t"
proof -
  have c: "live s H C t" "matched s C t" "length C < length (H t)" "H t ! length C = b"
    using cand by (auto simp: cand_ok_def)
  show "live s H (C @ [b]) t" by (rule live_append [OF inv c(1)])
  obtain r where r: "replays s t = Some r" "data_matching_canon r = length C"
    "window_start (wr_data (rs_r r)) \<le> max (length C) (length C - stream_cmp_distance s)"
    "target_quorum_size s \<le> 2 \<longrightarrow> agree (H t) C (length C - stream_cmp_distance s) (length C)"
    using c(1,2) by (auto simp: live_def matched_def)
  have "agree (H t) (C @ [b]) (Suc (length C) - stream_cmp_distance s) (Suc (length C))"
    if "target_quorum_size s \<le> 2"
    using r(4) that c(4) by (auto simp: agree_def nth_append less_Suc_eq)
  then show "qmember s H (C @ [b]) t" using r c(3) by (auto simp: qmember_def)
qed

text \<open>
  The candidates for the byte \<open>b\<close> and those for another one: together they are all candidates, and the
  second ones do not go on with \<open>b\<close>.
\<close>

lemma candidates_split:
  assumes inv: "stalemate_inv X m H C" and b: "(b, v) \<in> set (candidates m)"
    and cs: "cs = filter (\<lambda>(k, _). k \<noteq> b) (candidates m)"
  shows "candidate_ids m = set v \<union> set (concat (map snd cs))"
    and "set v \<inter> set (concat (map snd cs)) = {}"
    and "t \<in> set (concat (map snd cs)) \<Longrightarrow> length C < length (H t) \<and> H t ! length C \<noteq> b"
proof -
  note I = stalemate_invD [OF inv]
  have "x = (b, v) \<or> fst x \<noteq> b" if "x \<in> set (candidates m)" for x
    using map_of_distinct [OF I(7), of b] b that by (metis option.inject prod.collapse)
  then have "set (candidates m) = insert (b, v) (set cs)"
    using b by (auto simp: cs case_prod_beta)
  then show "candidate_ids m = set v \<union> set (concat (map snd cs))" by (simp add: candidate_ids_def)
  show other: "length C < length (H t) \<and> H t ! length C \<noteq> b" if t: "t \<in> set (concat (map snd cs))" for t
  proof -
    obtain b' v' where "(b', v') \<in> set (candidates m)" "b' \<noteq> b" "t \<in> set v'" using t by (auto simp: cs)
    with I(11) [of b' v' t] show ?thesis by (simp add: cand_ok_def)
  qed
  have "H t ! length C = b" if "t \<in> set v" for t using I(11) [OF b that] by (simp add: cand_ok_def)
  then show "set v \<inter> set (concat (map snd cs)) = {}" using other by blast
qed

lemma best_candidate_inv:
  assumes inv: "stalemate_inv X m H C" and "candidates m \<noteq> []"
  obtains b v where "best_candidate m = Some b" "(b, v) \<in> set (candidates m)"
    "\<forall>(b', v') \<in> set (candidates m). length v' \<le> length v"
proof -
  note I = stalemate_invD [OF inv]
  have "\<exists>r. replays (ms m) t = Some r" if "t \<in> candidate_ids m" for t
    using shared_inv_tokenD [OF I(1)] I(4) that by blast
  then show thesis using best_candidate_spec [OF assms(2)] I(10) that by blast
qed

text \<open>The first winner gives the canonical data the byte.\<close>

lemma winner_appended:
  assumes inv: "shared_inv s H C" and g: "cand_ok s H C b g"
  shows "\<exists>s1. append_canon_data s g (Suc (length C)) = Some s1 \<and> shared_inv s1 H (C @ [b])
    \<and> same_frame s s1 \<and> replays s1 = replays s"
proof -
  obtain r where r: "replays s g = Some r" "length C < length (H g)" "H g ! length C = b"
    "window_start (wr_data (rs_r r)) \<le> length C"
    "target_quorum_size s \<le> 2 \<longrightarrow> agree (H g) C (length C - stream_cmp_distance s) (length C)"
    using g by (fastforce simp: cand_ok_def live_def matched_def)
  have src: "prefix C (H g)"
    if "target_quorum_size s \<le> 2" "length C \<le> stream_cmp_distance s"
    using r(2,5) that by (intro agree_prefix) auto
  have ext: "extend C (H g) (Suc (length C)) = C @ [b]"
    using r(2,3) by (simp add: extend_def drop_Suc_nth)
  show ?thesis
    using append_canon_inv [OF inv r(1,4) _ _ src, of "Suc (length C)"] r(2) unfolding ext by auto
qed

text \<open>With the losers marked as diverged, the winners can be a quorum and the reserve stays alive.\<close>

lemma losers_diverged:
  assumes inv: "stalemate_inv X m H C" and b: "(b, v) \<in> set (candidates m)"
    and cs: "cs = filter (\<lambda>(k, _). k \<noteq> b) (candidates m)"
    and frame: "same_frame (ms m) s"
    and same: "\<And>t. t \<notin> set (concat (map snd cs)) \<Longrightarrow> replays s t = replays (ms m) t"
  shows "t \<in> set v \<Longrightarrow> qmember s H (C @ [b]) t \<and> live s H (C @ [b]) t"
    and "t \<in> m_reserve m \<Longrightarrow> live s H (C @ [b]) t"
    and "t < token s \<Longrightarrow> t \<notin> set v \<Longrightarrow> t \<notin> m_reserve m \<Longrightarrow> dead s H (C @ [b]) t"
proof -
  note I = stalemate_invD [OF inv]
  note split = candidates_split [OF inv b cs]
  show "qmember s H (C @ [b]) t \<and> live s H (C @ [b]) t" if t: "t \<in> set v"
  proof -
    have "replays s t = replays (ms m) t" using same t split(2) by blast
    then show ?thesis using cand_qmember [OF I(1) I(11) [OF b t]] frame
      by (simp add: qmember_def live_def same_frame_def)
  qed
  show "live s H (C @ [b]) t" if t: "t \<in> m_reserve m"
  proof -
    have "t \<notin> set (concat (map snd cs))" using t I(9) split(1) by blast
    from live_frame [OF frame same [OF this] live_append [OF I(1) I(5) [OF t]]] show ?thesis .
  qed
  show "dead s H (C @ [b]) t" if t: "t < token s" "t \<notin> set v" "t \<notin> m_reserve m"
  proof (cases "t \<in> candidate_ids m")
    case True
    then have "length C < length (H t)" "H t ! length C \<noteq> (C @ [b]) ! length C"
      using split(1,3) t(2) by auto
    then show ?thesis unfolding dead_def
      by (intro disjI1 exI [of _ "length C"]) simp
  next
    case False
    then have "dead (ms m) H C t" using I(12) t frame by (simp add: same_frame_def)
    then show ?thesis by (intro dead_frame [OF frame dead_append])
  qed
qed

lemma exit_stalemate_inv:
  assumes it: "iteration_ok it" and inv: "stalemate_inv X m H C"
    and can: "candidates m \<noteq> []" "delayed_data_started (ms m)"
  shows "\<exists>q C'. exit_stalemate it m = Some q \<and> quorum_inv {} q H C' \<and> prefix C C'
    \<and> length C < length C' \<and> same_frame (ms m) (qs q)
    \<and> (\<exists>n. (\<forall>(b, v) \<in> set (candidates m). length v \<le> n) \<and> card (quorum q) = min n (target_quorum_size (ms m)))
    \<and> quorum q \<subseteq> candidate_ids m"
proof -
  note I = stalemate_invD [OF inv]
  obtain b v where b: "best_candidate m = Some b" "(b, v) \<in> set (candidates m)"
    "\<forall>(b', v') \<in> set (candidates m). length v' \<le> length v"
    using best_candidate_inv [OF inv can(1)] .
  define cs where "cs = filter (\<lambda>(k, _). k \<noteq> b) (candidates m)"
  have v: "map_of (candidates m) b = Some v" "v \<noteq> []" "\<And>t. t \<in> set v \<Longrightarrow> cand_ok (ms m) H C b t"
    using map_of_distinct [OF I(7) b(2)] I(10,11) b(2) by blast+
  note split = candidates_split [OF inv b(2) cs_def]
  obtain g vs where g: "v = g # vs" using v(2) by (cases v) auto
  obtain s1 where s1: "append_canon_data (ms m) g (Suc (length C)) = Some s1" "shared_inv s1 H (C @ [b])"
    "same_frame (ms m) s1" "replays s1 = replays (ms m)"
    using winner_appended [OF I(1) v(3), of g] g by auto
  have tok: "token s1 = token (ms m)" using s1(3) by (simp add: same_frame_def)
  obtain s2 where s2: "foldM (\<lambda>t s. update_replay s t set_diverged) (concat (map snd cs)) s1 = Some s2"
    "shared_inv s2 H (C @ [b])" "same_frame s1 s2"
    "\<And>u. u \<notin> set (concat (map snd cs)) \<Longrightarrow> replays s2 u = replays s1 u"
    using diverge_loop_inv [OF s1(2), of "concat (map snd cs)"] I(4) split(1) tok by auto
  have frame: "same_frame (ms m) s2" using s1(3) s2(3) by (rule same_frame_trans)
  have same: "\<And>t. t \<notin> set (concat (map snd cs)) \<Longrightarrow> replays s2 t = replays (ms m) t"
    using s2(4) s1(4) by simp
  note sides = losers_diverged [OF inv b(2) cs_def frame same]
  have dv: "distinct v" using I(8) b(2) by (force simp: distinct_concat_iff)
  have "set v \<inter> m_reserve m = {}" "set v \<subseteq> {..<token s2}" "m_reserve m \<subseteq> {..<token s2}"
    using I(3,4,9) split(1) frame by (auto simp: same_frame_def)
  moreover have "delayed_data_started s2" using can(2) frame by (simp add: same_frame_def)
  ultimately obtain q C' where q: "from_stalemate it s2 v (m_reserve m) = Some q"
    "quorum_inv {} q H C'" "prefix (C @ [b]) C'" "same_frame s2 (qs q)"
    "card (quorum q) = min (length v) (target_quorum_size s2)" "quorum q \<subseteq> set v"
    using from_stalemate_inv [OF it s2(2), of v "m_reserve m"] v(2) dv sides by blast
  have "exit_stalemate it m = Some q"
    using can(1) b(1) v(1) g s1(1) s2(1) q(1) shared_inv_canon_len [OF I(1)]
    unfolding exit_stalemate_def foldM_nested
    by (simp add: Let_def cs_def [symmetric] first_item_def)
  moreover have "prefix C C'" "length C < length C'"
    using q(3) by (auto simp: prefix_def)
  moreover have "same_frame (ms m) (qs q)" using frame q(4) by (rule same_frame_trans)
  moreover have "card (quorum q) = min (length v) (target_quorum_size (ms m))"
    using q(5) frame by (simp add: same_frame_def)
  moreover have "quorum q \<subseteq> candidate_ids m" using q(6) split(1) by blast
  ultimately show ?thesis using q(2) b(3) by blast
qed

subsection \<open>Entering a stalemate\<close>

lemma enter_stalemate_inv:
  assumes it: "iteration_ok it" and inv: "quorum_inv X m H C"
    and has: "has_to_enter_stalemate m"
  shows "\<exists>m'. enter_stalemate it m = Some m' \<and> stalemate_inv {} m' H C
    \<and> same_frame (qs m) (ms m') \<and> canonical_stream (ms m') = canonical_stream (qs m)"
proof -
  have base: "quorum_base m H C" and lv: "\<And>t. t \<in> quorum m \<Longrightarrow> live (qs m) H C t"
    using inv by (auto simp: quorum_inv_def)
  note B = quorum_baseD [OF base]
  have "mr_delayed_data_len (canonical_stream (qs m)) \<le> length C"
    using B(1) by (simp add: shared_inv_def mr_rep_def)
  then have del: "mr_delayed_data_len (canonical_stream (qs m)) = length C"
    using has shared_inv_canon_len [OF B(1)]
    by (simp add: has_to_enter_stalemate_def canon_delayed_data_len_def)
  have "stalemate_inv (q_reserve m \<union> quorum m)
      \<lparr>ms = qs m, candidates = [], m_reserve = q_reserve m \<union> quorum m\<rparr> H C"
    by (rule stalemate_invI) (use B(1,4,5,8,9) lv del in \<open>auto simp: candidate_ids_def\<close>)
  from from_quorum_inv [OF it this] show ?thesis by (simp add: enter_stalemate_def)
qed

subsection \<open>The strategy\<close>

text \<open>
  \<open>delays_known\<close>: before any delayed position was reported to the strategy, the delayed
  positions are zero, those of the tokens in \<open>X\<close> excepted. In \<open>strategy_inv F X\<close>, \<open>F\<close> are
  the tokens that may have finished, and \<open>X\<close> those whose delayed position may have moved,
  without the strategy having been told.
\<close>

definition delays_known :: "nat set \<Rightarrow> shared_state \<Rightarrow> bool" where
  "delays_known X s \<longleftrightarrow> delayed_data_started s \<or>
     (\<forall>t r. t \<notin> X \<longrightarrow> replays s t = Some r \<longrightarrow> wr_delayed_data_len (rs_r r) = 0)"

fun strategy_inv :: "nat set \<Rightarrow> nat set \<Rightarrow> strategy \<Rightarrow> history \<Rightarrow> byte list \<Rightarrow> bool" where
  "strategy_inv F X (Quorum m) H C \<longleftrightarrow> quorum_inv X m H C"
| "strategy_inv F X (Stalemate m) H C \<longleftrightarrow> stalemate_inv F m H C \<and> delays_known X (ms m)"
| "strategy_inv F X Swapping H C \<longleftrightarrow> False"

definition stable :: "strategy \<Rightarrow> bool" where
  "stable q \<longleftrightarrow> should_change_state q = Some False"

lemma delays_known_frame: "delays_known X s \<Longrightarrow> same_frame s s' \<Longrightarrow> delays_known X s'"
  unfolding delays_known_def using same_frame_SomeD [of s s'] by (fastforce simp: same_frame_def)

lemma strategy_inv_shared:
  "strategy_inv F X q H C \<Longrightarrow> \<exists>s. shared_of q = Some s \<and> shared_inv s H C \<and> delays_known X s"
proof (cases q)
  case (Quorum m)
  moreover assume "strategy_inv F X q H C"
  ultimately show ?thesis by (simp add: quorum_inv_def quorum_base_def delays_known_def)
next
  case (Stalemate m)
  moreover assume "strategy_inv F X q H C"
  ultimately show ?thesis by (auto dest: stalemate_invD(1))
qed simp

lemma strategy_inv_mono: "strategy_inv F X q H C \<Longrightarrow> F \<subseteq> G \<Longrightarrow> X \<subseteq> Y \<Longrightarrow> strategy_inv G Y q H C"
  by (cases q) (auto intro: quorum_inv_mono stalemate_inv_mono simp: delays_known_def)

text \<open>The potential that one turn of the loop decreases: what is left to merge, twice.\<close>

fun work_left :: "nat \<Rightarrow> strategy \<Rightarrow> byte list \<Rightarrow> nat" where
  "work_left M (Quorum m) C = 2 * (M - length C) + 1"
| "work_left M _ C = 2 * (M - length C)"

lemma swap_state_inv:
  assumes it: "iteration_ok it" and inv: "strategy_inv F X q H C"
    and ch: "should_change_state q = Some True"
    and M: "\<And>s t. shared_of q = Some s \<Longrightarrow> t < token s \<Longrightarrow> length (H t) \<le> M"
  shows "\<exists>q' C' s s'. swap_state it q = Some q' \<and> strategy_inv F X q' H C' \<and> prefix C C'
    \<and> work_left M q' C' < work_left M q C
    \<and> shared_of q = Some s \<and> shared_of q' = Some s' \<and> same_frame s s'"
proof (cases q)
  case (Quorum m)
  then have m: "quorum_inv X m H C" "has_to_enter_stalemate m" using inv ch by auto
  obtain m' where m': "enter_stalemate it m = Some m'" "stalemate_inv {} m' H C"
    "same_frame (qs m) (ms m')"
    using enter_stalemate_inv [OF it m] by blast
  have "delayed_data_started (qs m)" using m(1) by (simp add: quorum_inv_def)
  then have "delays_known X (ms m')" using m'(3) by (simp add: delays_known_def same_frame_def)
  then have "strategy_inv F X (Stalemate m') H C"
    using stalemate_inv_mono [OF m'(2)] by simp
  then show ?thesis using Quorum m'(1,3)
    by (intro exI [of _ "Stalemate m'"] exI [of _ C] exI [of _ "qs m"] exI [of _ "ms m'"]) simp
next
  case (Stalemate m)
  then have m: "stalemate_inv F m H C" "candidates m \<noteq> []" "delayed_data_started (ms m)"
    using inv ch by (auto simp: can_exit_stalemate_def split: if_splits)
  obtain m' C' where m': "exit_stalemate it m = Some m'" "quorum_inv {} m' H C'" "prefix C C'"
    "length C < length C'" "same_frame (ms m) (qs m')"
    using exit_stalemate_inv [OF it m] by blast
  have "shared_inv (qs m') H C'" using m'(2) by (simp add: quorum_inv_def quorum_base_def)
  moreover have "length (H t) \<le> M" if "t < token (qs m')" for t
    using M [of "ms m" t] Stalemate that m'(5) by (simp add: same_frame_def)
  ultimately have "length C' \<le> M" by (rule canon_len_bounded)
  then have "work_left M (Quorum m') C' < work_left M q C" using Stalemate m'(4) by simp
  moreover have "strategy_inv F X (Quorum m') H C'" using quorum_inv_mono [OF m'(2)] by simp
  ultimately show ?thesis using Stalemate m'
    by (intro exI [of _ "Quorum m'"] exI [of _ C'] exI [of _ "ms m"] exI [of _ "qs m'"]) simp
next
  case Swapping
  then show ?thesis using inv by simp
qed

text \<open>
  The loop ends, without a panic, in a stable state; it only appends to the canonical data.
\<close>

lemma work_until_stable_inv:
  assumes "\<And>n. iteration_ok (its n)" and "strategy_inv F X q H C" and "shared_of q = Some s"
  shows "\<exists>q' C' s'. work_state_until_stable its q = Some q' \<and> strategy_inv F X q' H C' \<and> stable q'
    \<and> prefix C C' \<and> shared_of q' = Some s' \<and> same_frame s s'"
proof -
  define M where "M = Max (insert 0 ((\<lambda>t. length (H t)) ` {..<token s}))"
  have M: "length (H t) \<le> M" if "t < token s" for t
    using that unfolding M_def by (intro Max_ge) auto
  show ?thesis
    using assms M
  proof (induction "work_left M q C" arbitrary: its q C s rule: less_induct)
    case less
    have "q \<noteq> Swapping" using less.prems(2) by auto
    then obtain ch where ch: "should_change_state q = Some ch" by (cases q) auto
    show ?case
    proof (cases ch)
      case False
      then have "work_state_until_stable its q = Some q"
        using ch by (subst work_state_until_stable.simps) simp
      then show ?thesis using less.prems ch False by (auto simp: stable_def)
    next
      case True
      obtain q1 C1 s1 where q1: "swap_state (its 0) q = Some q1" "strategy_inv F X q1 H C1" "prefix C C1"
        "work_left M q1 C1 < work_left M q C" "shared_of q1 = Some s1" "same_frame s s1"
        using swap_state_inv [OF less.prems(1) less.prems(2), of M 0] ch True less.prems(3,4) by auto
      have its: "iteration_ok (its (Suc n))" for n using less.prems(1) .
      have M1: "length (H t) \<le> M" if "t < token s1" for t
        using less.prems(4) that q1(6) by (simp add: same_frame_def)
      have "\<exists>q' C' s'. work_state_until_stable (\<lambda>n. its (Suc n)) q1 = Some q'
        \<and> strategy_inv F X q' H C' \<and> stable q' \<and> prefix C1 C' \<and> shared_of q' = Some s' \<and> same_frame s1 s'"
        by (rule less.hyps [OF q1(4)]) (use its q1(2,5) M1 in simp_all)
      then obtain q' C' s' where q': "work_state_until_stable (\<lambda>n. its (Suc n)) q1 = Some q'"
        "strategy_inv F X q' H C'" "stable q'" "prefix C1 C'" "shared_of q' = Some s'" "same_frame s1 s'"
        by blast
      have "work_state_until_stable its q = Some q'"
        using ch True q1(1) q'(1) by (subst work_state_until_stable.simps) simp
      then show ?thesis using q' q1(3,6) same_frame_trans prefix_order.trans by blast
    qed
  qed
qed

end
