(* ===== verification/Merge_Trait.thy ===== *)
theory Merge_Trait
  imports Merged_Replay
begin

text \<open>
  The trait \<open>MergeStrategy\<close> of \<open>src/replay/receive/merge_strategy.rs\<close>. The record has the
  trait's operations, the two ways in which a connection task reaches the \<open>WriterReplay\<close> it
  shares with the strategy, and the one in which a reader changes the merged replay that it
  shares with it: it registers itself as waiting. The locale states the contract that the
  comment above the trait describes: what the caller may do to a replay before it calls the
  strategy, and what each call then promises.

  An operation takes an argument of type \<open>'i\<close>: whatever the code leaves undetermined in it,
  such as the iteration order of a hash set.
\<close>

record ('q, 'i) merge_ops =
  mo_replay_added :: "'i \<Rightarrow> 'q \<Rightarrow> writer_replay \<Rightarrow> ('q \<times> nat) option"
  mo_replay_removed :: "'i \<Rightarrow> 'q \<Rightarrow> nat \<Rightarrow> 'q option"
  mo_replay_header_added :: "'q \<Rightarrow> nat \<Rightarrow> 'q option"
  mo_replay_data_updated :: "'i \<Rightarrow> 'q \<Rightarrow> nat \<Rightarrow> 'q option"
  mo_finish :: "'q \<Rightarrow> 'q option"
  mo_get_merged_replay :: "'q \<Rightarrow> merged_replay option"
  mo_reader_waits :: "'q \<Rightarrow> task \<Rightarrow> 'q option"
  mo_writer :: "'q \<Rightarrow> nat \<Rightarrow> writer_replay option"
  mo_with_writer :: "'q \<Rightarrow> nat \<Rightarrow> (writer_replay \<Rightarrow> writer_replay option) \<Rightarrow> 'q option"

text \<open>What the strategy leaves alone in a writer's replay (all but its data and its header).\<close>

definition writer_marks :: "writer_replay \<Rightarrow> usize \<times> bool" where
  "writer_marks w = (wr_delayed_data_len w, wr_finished w)"

text \<open>
  \<open>inv F X q H C\<close>: the strategy has state \<open>q\<close>, the connections sent \<open>H\<close>, the canonical data
  is \<open>C\<close>; the tokens in \<open>F\<close> may have finished and those in \<open>X\<close> may have moved their delayed
  position without the strategy having been told. \<open>settled q\<close>: no work is left to do.
\<close>

locale merge_contract =
  fixes S :: "('q, 'i) merge_ops"
    and inv :: "nat set \<Rightarrow> nat set \<Rightarrow> 'q \<Rightarrow> (nat \<Rightarrow> byte list) \<Rightarrow> byte list \<Rightarrow> bool"
    and settled :: "'q \<Rightarrow> bool"
    and tokens :: "'q \<Rightarrow> nat"
    and choice_ok :: "'i \<Rightarrow> bool"
  assumes untold_mono: "inv F X q H C \<Longrightarrow> F \<subseteq> G \<Longrightarrow> X \<subseteq> Y \<Longrightarrow> inv G Y q H C"
    and writer_known:
      "inv F X q H C \<Longrightarrow> t < tokens q \<Longrightarrow>
       \<exists>w. mo_writer S q t = Some w \<and> deque_rep (wr_data w) (H t) \<and> wr_delayed_data_len w \<le> length (H t)"
    and canon_known:
      "inv F X q H C \<Longrightarrow> \<exists>c. mo_get_merged_replay S q = Some c \<and> mr_rep c C \<and> \<not> mr_finished c"
    and with_writer:
      "mo_writer S q t = Some w \<Longrightarrow> f w = Some w' \<Longrightarrow>
       \<exists>q'. mo_with_writer S q t f = Some q' \<and> mo_writer S q' = (mo_writer S q)(t \<mapsto> w')
         \<and> mo_get_merged_replay S q' = mo_get_merged_replay S q \<and> tokens q' = tokens q
         \<and> settled q' = settled q"
    and data_appended:
      "inv F X q H C \<Longrightarrow> mo_writer S q t = Some w \<Longrightarrow> \<not> wr_finished w \<Longrightarrow>
       map_option mr_header (mo_get_merged_replay S q) \<noteq> Some None \<Longrightarrow>
       deque_rep d (H t @ buf) \<Longrightarrow> window_start d = window_start (wr_data w) \<Longrightarrow>
       f w = Some (w\<lparr>wr_data := d\<rparr>) \<Longrightarrow> mo_with_writer S q t f = Some q' \<Longrightarrow>
       inv F X q' (H(t := H t @ buf)) C"
    and delay_moved:
      "inv F X q H C \<Longrightarrow> mo_writer S q t = Some w \<Longrightarrow>
       wr_delayed_data_len w \<le> v \<Longrightarrow> v \<le> length (H t) \<Longrightarrow>
       f w = Some (w\<lparr>wr_delayed_data_len := v\<rparr>) \<Longrightarrow> mo_with_writer S q t f = Some q' \<Longrightarrow>
       inv F (if v = wr_delayed_data_len w then X else insert t X) q' H C"
    and writer_finished:
      "inv F X q H C \<Longrightarrow> mo_writer S q t = Some w \<Longrightarrow>
       f w = Some (wr_finish w) \<Longrightarrow> mo_with_writer S q t f = Some q' \<Longrightarrow>
       inv (insert t F) X q' H C"
    and header_set:
      "inv F X q H C \<Longrightarrow> mo_writer S q t = Some w \<Longrightarrow>
       f w = Some (w\<lparr>wr_header := oh\<rparr>) \<Longrightarrow> mo_with_writer S q t f = Some q' \<Longrightarrow> inv F X q' H C"
    and replay_added:
      "inv {} {} q H C \<Longrightarrow> choice_ok i \<Longrightarrow> H (tokens q) = [] \<Longrightarrow>
       \<exists>q' C'. mo_replay_added S i q wr_new = Some (q', tokens q) \<and> inv {} {} q' H C' \<and> prefix C C'
         \<and> settled q' \<and> tokens q' = Suc (tokens q)
         \<and> map_option writer_marks (mo_writer S q' (tokens q)) = Some (0, False)
         \<and> (\<forall>u. u \<noteq> tokens q \<longrightarrow>
              map_option writer_marks (mo_writer S q' u) = map_option writer_marks (mo_writer S q u))
         \<and> map_option mr_header (mo_get_merged_replay S q') = map_option mr_header (mo_get_merged_replay S q)"
    and replay_header_added:
      "inv {} {} q H C \<Longrightarrow> mo_writer S q t = Some w \<Longrightarrow> wr_header w = Some h \<Longrightarrow>
       \<exists>q'. mo_replay_header_added S q t = Some q' \<and> inv {} {} q' H C \<and> settled q' = settled q
         \<and> tokens q' = tokens q
         \<and> (\<forall>u. map_option writer_marks (mo_writer S q' u) = map_option writer_marks (mo_writer S q u))
         \<and> map_option mr_header (mo_get_merged_replay S q')
             = Some (case mr_header (the (mo_get_merged_replay S q)) of None \<Rightarrow> Some h | Some g \<Rightarrow> Some g)"
    and replay_data_updated:
      "inv {} {t} q H C \<Longrightarrow> choice_ok i \<Longrightarrow> t < tokens q \<Longrightarrow>
       \<exists>q' C'. mo_replay_data_updated S i q t = Some q' \<and> inv {} {} q' H C' \<and> prefix C C'
         \<and> settled q' \<and> tokens q' = tokens q
         \<and> (\<forall>u. map_option writer_marks (mo_writer S q' u) = map_option writer_marks (mo_writer S q u))
         \<and> map_option mr_header (mo_get_merged_replay S q') = map_option mr_header (mo_get_merged_replay S q)"
    and replay_removed:
      "inv {t} {} q H C \<Longrightarrow> choice_ok i \<Longrightarrow> t < tokens q \<Longrightarrow>
       \<exists>q' C'. mo_replay_removed S i q t = Some q' \<and> inv {} {} q' H C' \<and> prefix C C'
         \<and> settled q' \<and> tokens q' = tokens q
         \<and> (\<forall>u. map_option writer_marks (mo_writer S q' u) = map_option writer_marks (mo_writer S q u))
         \<and> map_option mr_header (mo_get_merged_replay S q') = map_option mr_header (mo_get_merged_replay S q)"
    and finish:
      "inv {} {} q H C \<Longrightarrow> settled q \<Longrightarrow>
       (\<forall>t < tokens q. map_option writer_marks (mo_writer S q t) = Some (length (H t), True)) \<Longrightarrow>
       \<exists>q' c. mo_finish S q = Some q' \<and> mo_get_merged_replay S q = Some c
         \<and> mo_get_merged_replay S q' = Some (mr_finish c)
         \<and> mr_delayed_data_len c = length C"
    and reader_waits:
      "inv F X q H C \<Longrightarrow>
       \<exists>q' c. mo_reader_waits S q r = Some q' \<and> inv F X q' H C \<and> mo_get_merged_replay S q = Some c
         \<and> mo_get_merged_replay S q' = Some (mr_wait_for_read_event c r)
         \<and> mo_writer S q' = mo_writer S q \<and> tokens q' = tokens q \<and> settled q' = settled q"

end
