(* ===== verification/Replay_Delay.thy ===== *)
theory Replay_Delay
  imports Writer_Replay
begin

text \<open>
  \<open>PositionHistory\<close> and \<open>StreamDelay\<close> of \<open>src/replay/receive/replay_delay.rs\<close>: how the
  delayed position of a connection follows the length of its data. A duration is a number
  of nanoseconds. The quotient of two durations is computed with floats; the rounded-up
  quotient is a parameter, \<open>ceil_quot\<close>, and the arithmetic that follows it is modelled.
\<close>

type_synonym duration = nat
type_synonym ceil_quotient = "duration \<Rightarrow> duration \<Rightarrow> usize"

record position_history =
  ph_sleep_s :: duration
  ph_history_size :: usize
  ph_queue :: "usize list"

text \<open>The addition panics on overflow: \<open>as usize\<close> saturates for an infinite quotient.\<close>

definition history_size :: "ceil_quotient \<Rightarrow> duration \<Rightarrow> duration \<Rightarrow> usize option" where
  "history_size ceil_quot delay_s sleep_s =
     do {
       let n = min (ceil_quot delay_s sleep_s) usize_max;
       assert_that (n + 1 \<le> usize_max);
       Some (n + 1)
     }"

definition ph_new :: "ceil_quotient \<Rightarrow> duration \<Rightarrow> duration \<Rightarrow> position_history option" where
  "ph_new ceil_quot delay_s sleep_s =
     do {
       n \<leftarrow> history_size ceil_quot delay_s sleep_s;
       Some \<lparr>ph_sleep_s = sleep_s, ph_history_size = n, ph_queue = []\<rparr>
     }"

definition push_and_get_delayed :: "position_history \<Rightarrow> usize \<Rightarrow> (usize \<times> position_history) option" where
  "push_and_get_delayed ph current_len =
     do {
       let q = ph_queue ph @ [current_len];
       let q = (if length q > ph_history_size ph then drop 1 q else q);
       front \<leftarrow> first_item q;
       Some (front, ph\<lparr>ph_queue := q\<rparr>)
     }"

record stream_delay =
  sd_delay_s :: duration
  sd_sleep_s :: duration

text \<open>
  The local variables of \<open>update_replay_timestamp\<close>, and one turn of its loop. The turn also
  says whether \<open>on_update\<close> has to be called. Between two turns the task sleeps.
\<close>

record delay_task =
  pos_queue :: position_history
  prev_current :: usize
  prev_delayed :: usize

definition delay_start :: "ceil_quotient \<Rightarrow> stream_delay \<Rightarrow> delay_task option" where
  "delay_start ceil_quot sd =
     do {
       ph \<leftarrow> ph_new ceil_quot (sd_delay_s sd) (sd_sleep_s sd);
       Some \<lparr>pos_queue = ph, prev_current = 0, prev_delayed = 0\<rparr>
     }"

definition delay_turn :: "delay_task \<Rightarrow> writer_replay \<Rightarrow> (delay_task \<times> writer_replay \<times> bool) option" where
  "delay_turn d replay =
     do {
       let current = wr_data_len replay;
       (delayed, ph) \<leftarrow> push_and_get_delayed (pos_queue d) current;
       replay \<leftarrow> wr_set_delayed_data_len replay delayed;
       let on_update = ((current, delayed) \<noteq> (prev_current d, prev_delayed d));
       Some (\<lparr>pos_queue = ph, prev_current = current, prev_delayed = delayed\<rparr>, replay, on_update)
     }"

definition set_final_replay_timestamp :: "writer_replay \<Rightarrow> writer_replay option" where
  "set_final_replay_timestamp replay =
     (let final_len = wr_data_len replay in wr_set_delayed_data_len replay final_len)"

subsection \<open>The queue is a window over everything that was pushed\<close>

definition tracks :: "position_history \<Rightarrow> usize list \<Rightarrow> bool" where
  "tracks ph vs \<longleftrightarrow> 0 < ph_history_size ph \<and>
     ph_queue ph = drop (length vs - ph_history_size ph) vs"

text \<open>The value that comes back after \<open>vs\<close> was pushed: \<open>history_size - 1\<close> turns old.\<close>

definition delayed_value :: "usize \<Rightarrow> usize list \<Rightarrow> usize" where
  "delayed_value hs vs = vs ! (length vs - min hs (length vs))"

lemma ph_new_tracks:
  assumes "ph_new cq d s = Some ph"
  shows "tracks ph []" "ph_history_size ph = cq d s + 1"
  using assms by (auto simp: ph_new_def history_size_def tracks_def Let_def min_def split: if_splits)

lemma push_tracks:
  assumes "tracks ph vs"
  shows "\<exists>ph'. push_and_get_delayed ph v = Some (delayed_value (ph_history_size ph) (vs @ [v]), ph')
    \<and> tracks ph' (vs @ [v]) \<and> ph_history_size ph' = ph_history_size ph"
proof -
  define hs where "hs = ph_history_size ph"
  have hs: "0 < hs" "ph_queue ph = drop (length vs - hs) vs"
    using assms by (auto simp: tracks_def hs_def)
  define q where "q = drop (length vs + 1 - hs) (vs @ [v])"
  have q: "(let q = ph_queue ph @ [v] in if length q > hs then drop 1 q else q) = q"
    using hs by (auto simp: q_def Let_def Suc_diff_le)
  have ne: "length vs + 1 - hs < length (vs @ [v])" using hs(1) by simp
  then have "first_item q = Some ((vs @ [v]) ! (length vs + 1 - hs))"
    unfolding q_def first_item_def by (subst Cons_nth_drop_Suc [symmetric]) simp_all
  moreover have "length vs + 1 - hs = length (vs @ [v]) - min hs (length (vs @ [v]))" by simp
  ultimately have "first_item q = Some (delayed_value hs (vs @ [v]))"
    by (simp only: delayed_value_def)
  then have "push_and_get_delayed ph v = Some (delayed_value hs (vs @ [v]), ph\<lparr>ph_queue := q\<rparr>)"
    using q by (simp add: push_and_get_delayed_def hs_def [symmetric] Let_def)
  then show ?thesis using hs(1) by (simp add: tracks_def hs_def q_def)
qed

text \<open>Pushing a list of measurements, as the loop of the task does turn by turn.\<close>

fun push_all :: "position_history \<Rightarrow> usize list \<Rightarrow> (usize list \<times> position_history) option" where
  "push_all ph [] = Some ([], ph)"
| "push_all ph (v # vs) =
     do {
       (d, ph) \<leftarrow> push_and_get_delayed ph v;
       (ds, ph) \<leftarrow> push_all ph vs;
       Some (d # ds, ph)
     }"

lemma push_all_tracks:
  assumes "tracks ph us"
  shows "\<exists>ph'. push_all ph vs =
    Some (map (\<lambda>k. delayed_value (ph_history_size ph) (us @ take (Suc k) vs)) [0..<length vs], ph')
    \<and> tracks ph' (us @ vs)"
  using assms
proof (induction vs arbitrary: ph us)
  case (Cons v vs)
  obtain ph1 where ph1: "push_and_get_delayed ph v = Some (delayed_value (ph_history_size ph) (us @ [v]), ph1)"
    "tracks ph1 (us @ [v])" "ph_history_size ph1 = ph_history_size ph"
    using push_tracks [OF Cons.prems] by blast
  obtain ph2 where "push_all ph1 vs = Some (map (\<lambda>k. delayed_value (ph_history_size ph1) ((us @ [v]) @ take (Suc k) vs))
      [0..<length vs], ph2)" "tracks ph2 ((us @ [v]) @ vs)"
    using Cons.IH [OF ph1(2)] by blast
  then show ?case using ph1 by (simp add: map_upt_Suc del: upt_Suc)
qed simp

subsection \<open>The task keeps the delayed position between its last value and the data\<close>

text \<open>
  Between two turns: the queue is ascending, its values lie between the delayed position
  of the replay and the length of the data, and the last reported delayed position is the
  replay's.
\<close>

definition delay_ok :: "delay_task \<Rightarrow> usize \<Rightarrow> usize \<Rightarrow> bool" where
  "delay_ok d delayed len \<longleftrightarrow> 0 < ph_history_size (pos_queue d) \<and>
     length (ph_queue (pos_queue d)) \<le> ph_history_size (pos_queue d) \<and>
     sorted (ph_queue (pos_queue d)) \<and> (\<forall>v \<in> set (ph_queue (pos_queue d)). delayed \<le> v \<and> v \<le> len) \<and>
     prev_delayed d = delayed \<and> delayed \<le> len"

lemma delay_start_ok:
  assumes "delay_start cq sd = Some d"
  shows "delay_ok d 0 n"
  using assms by (auto simp: delay_start_def delay_ok_def ph_new_def history_size_def Let_def)

lemma delay_ok_mono: "delay_ok d k n \<Longrightarrow> n \<le> m \<Longrightarrow> delay_ok d k m"
  by (auto simp: delay_ok_def)

lemma push_ok:
  assumes hs: "0 < ph_history_size ph" "length (ph_queue ph) \<le> ph_history_size ph"
    and srt: "sorted (ph_queue ph)" and bnd: "\<forall>v \<in> set (ph_queue ph). k \<le> v \<and> v \<le> n" and kn: "k \<le> n"
  shows "\<exists>v q. push_and_get_delayed ph n = Some (v, ph\<lparr>ph_queue := v # q\<rparr>) \<and> k \<le> v \<and> v \<le> n
    \<and> sorted (v # q) \<and> (\<forall>x \<in> set q. v \<le> x \<and> x \<le> n) \<and> length (v # q) \<le> ph_history_size ph"
proof -
  define q where "q = (let q = ph_queue ph @ [n] in if length q > ph_history_size ph then drop 1 q else q)"
  have s: "sorted (ph_queue ph @ [n])" using srt bnd by (auto simp: sorted_append)
  have "q \<noteq> []" using hs by (cases "ph_queue ph") (auto simp: q_def Let_def)
  then obtain v r where vr: "q = v # r" by (cases q) auto
  have sub: "set q \<subseteq> insert n (set (ph_queue ph))"
    using set_drop_subset [of 1 "ph_queue ph @ [n]"] by (auto simp: q_def Let_def)
  have sq: "sorted q" using s sorted_wrt_drop [of "(\<le>)" "ph_queue ph @ [n]" 1] by (simp add: q_def Let_def)
  have "length q \<le> ph_history_size ph" using hs by (auto simp: q_def Let_def)
  moreover have "push_and_get_delayed ph n = Some (v, ph\<lparr>ph_queue := q\<rparr>)"
    using vr by (simp add: push_and_get_delayed_def q_def Let_def first_item_def)
  ultimately show ?thesis using vr sub sq bnd kn by (intro exI [of _ v] exI [of _ r]) auto
qed

lemma delay_turn_ok:
  assumes ok: "delay_ok d (wr_delayed_data_len w) (wr_data_len w)"
  shows "\<exists>d' v u. delay_turn d w = Some (d', w\<lparr>wr_delayed_data_len := v\<rparr>, u)
    \<and> delay_ok d' v (wr_data_len w) \<and> wr_delayed_data_len w \<le> v \<and> v \<le> wr_data_len w
    \<and> (\<not> u \<longrightarrow> v = wr_delayed_data_len w)"
proof -
  let ?ph = "pos_queue d"
  obtain v q where v: "push_and_get_delayed ?ph (wr_data_len w) = Some (v, ?ph\<lparr>ph_queue := v # q\<rparr>)"
    "wr_delayed_data_len w \<le> v" "v \<le> wr_data_len w" "sorted (v # q)"
    "\<forall>x \<in> set q. v \<le> x \<and> x \<le> wr_data_len w" "length (v # q) \<le> ph_history_size ?ph"
    using push_ok [of ?ph "wr_delayed_data_len w" "wr_data_len w"] ok by (auto simp: delay_ok_def)
  have pd: "prev_delayed d = wr_delayed_data_len w" "0 < ph_history_size ?ph"
    using ok by (auto simp: delay_ok_def)
  show ?thesis using v pd
    by (auto simp: delay_turn_def wr_set_delayed_data_len_def delay_ok_def Let_def)
qed

lemma set_final_ok:
  assumes "wr_delayed_data_len w \<le> wr_data_len w"
  shows "set_final_replay_timestamp w = Some (w\<lparr>wr_delayed_data_len := wr_data_len w\<rparr>)"
  using assms by (simp add: set_final_replay_timestamp_def wr_set_delayed_data_len_def Let_def)

end
