(* ===== verification/Merger.thy ===== *)
theory Merger
  imports Merge_Trait Replay_Delay
begin

text \<open>
  \<open>ReplayMerger\<close> of \<open>src/replay/receive/merger.rs\<close>: one task per writer connection feeds its
  replay to the merge strategy. \<open>handle_connection\<close> is cut at its await points into the
  steps that run without interruption; the tasks of all connections take such steps in any
  order. The operations are written over the trait's record \<open>merge_ops\<close>.
\<close>

text \<open>
  Where the task of a connection waits: in \<open>read_header\<close>, or in the \<open>select!\<close> of reading
  data and updating the delayed position. The second one starts with its first turn.
\<close>

datatype conn_phase = ReadingHeader | ReadingData "delay_task option"

record 'q merger =
  mg_strategy :: 'q
  mg_stream_delay :: stream_delay
  mg_tasks :: "nat \<Rightarrow> conn_phase option"

definition merger_new :: "'q \<Rightarrow> stream_delay \<Rightarrow> 'q merger" where
  "merger_new q sd = \<lparr>mg_strategy = q, mg_stream_delay = sd, mg_tasks = Map.empty\<rparr>"

text \<open>A connection arrives: a fresh \<open>WriterReplay\<close> is handed to the strategy.\<close>

definition conn_start :: "('q, 'i) merge_ops \<Rightarrow> 'i \<Rightarrow> 'q merger \<Rightarrow> 'q merger option" where
  "conn_start S i m =
     do {
       (q, t) \<leftarrow> mo_replay_added S i (mg_strategy m) wr_new;
       Some (m\<lparr>mg_strategy := q, mg_tasks := (mg_tasks m)(t \<mapsto> ReadingHeader)\<rparr>)
     }"

text \<open>\<open>read_header\<close> has parsed a header.\<close>

definition conn_header :: "('q, 'i) merge_ops \<Rightarrow> 'q merger \<Rightarrow> nat \<Rightarrow> replay_header \<Rightarrow> 'q merger option" where
  "conn_header S m t h =
     do {
       q \<leftarrow> mo_with_writer S (mg_strategy m) t (\<lambda>w. Some (wr_add_header w h));
       q \<leftarrow> mo_replay_header_added S q t;
       Some (m\<lparr>mg_strategy := q, mg_tasks := (mg_tasks m)(t \<mapsto> ReadingData None)\<rparr>)
     }"

text \<open>\<open>read_data\<close> has read some bytes. The strategy is told later, by the delay loop.\<close>

definition conn_data :: "('q, 'i) merge_ops \<Rightarrow> 'q merger \<Rightarrow> nat \<Rightarrow> byte list \<Rightarrow> 'q merger option" where
  "conn_data S m t buf =
     do {
       q \<leftarrow> mo_with_writer S (mg_strategy m) t (\<lambda>w. wr_add_data w buf);
       Some (m\<lparr>mg_strategy := q\<rparr>)
     }"

text \<open>\<open>update_replay_timestamp\<close> takes a turn.\<close>

definition conn_tick ::
  "('q, 'i) merge_ops \<Rightarrow> ceil_quotient \<Rightarrow> 'i \<Rightarrow> 'q merger \<Rightarrow> nat \<Rightarrow> delay_task option \<Rightarrow> 'q merger option" where
  "conn_tick S cq i m t running =
     do {
       d \<leftarrow> (case running of None \<Rightarrow> delay_start cq (mg_stream_delay m) | Some d \<Rightarrow> Some d);
       replay \<leftarrow> mo_writer S (mg_strategy m) t;
       (d, replay, on_update) \<leftarrow> delay_turn d replay;
       q \<leftarrow> mo_with_writer S (mg_strategy m) t (\<lambda>_. Some replay);
       q \<leftarrow> (if on_update then mo_replay_data_updated S i q t else Some q);
       Some (m\<lparr>mg_strategy := q, mg_tasks := (mg_tasks m)(t \<mapsto> ReadingData (Some d))\<rparr>)
     }"

text \<open>
  The connection ended, failed or was cancelled, wherever its task was waiting: the four
  statements after \<open>cancellable\<close>.
\<close>

definition conn_end ::
  "('q, 'i) merge_ops \<Rightarrow> 'i \<Rightarrow> 'i \<Rightarrow> 'q merger \<Rightarrow> nat \<Rightarrow> 'q merger option" where
  "conn_end S i j m t =
     do {
       q \<leftarrow> mo_with_writer S (mg_strategy m) t set_final_replay_timestamp;
       q \<leftarrow> mo_replay_data_updated S i q t;
       q \<leftarrow> mo_with_writer S q t (\<lambda>w. Some (wr_finish w));
       q \<leftarrow> mo_replay_removed S j q t;
       Some (m\<lparr>mg_strategy := q, mg_tasks := (mg_tasks m)(t := None)\<rparr>)
     }"

text \<open>
  A reader of the merged replay found nothing to read and waits. Readers are tasks of
  \<open>ReplaySender\<close>; this is the only way in which one changes what the merger owns.
\<close>

definition reader_wait :: "('q, 'i) merge_ops \<Rightarrow> 'q merger \<Rightarrow> task \<Rightarrow> 'q merger option" where
  "reader_wait S m r =
     do {
       q \<leftarrow> mo_reader_waits S (mg_strategy m) r;
       Some (m\<lparr>mg_strategy := q\<rparr>)
     }"

definition merger_finalize :: "('q, 'i) merge_ops \<Rightarrow> 'q merger \<Rightarrow> 'q merger option" where
  "merger_finalize S m =
     do {
       q \<leftarrow> mo_finish S (mg_strategy m);
       Some (m\<lparr>mg_strategy := q\<rparr>)
     }"

definition merger_get_merged_replay :: "('q, 'i) merge_ops \<Rightarrow> 'q merger \<Rightarrow> merged_replay option" where
  "merger_get_merged_replay S m = mo_get_merged_replay S (mg_strategy m)"

subsection \<open>Schedules\<close>

text \<open>
  The steps of all tasks, with what arrives from outside. A step can only be taken where the
  task of the connection waits for it; a read never gives more than the 4096 bytes of its
  buffer.
\<close>

datatype conn_event =
    Connect
  | HeaderRead nat replay_header
  | DataRead nat "byte list"
  | DelayTurn nat
  | ConnEnd nat
  | ReaderWaits task

fun enabled :: "'q merger \<Rightarrow> conn_event \<Rightarrow> bool" where
  "enabled m Connect = True"
| "enabled m (HeaderRead t h) = (mg_tasks m t = Some ReadingHeader)"
| "enabled m (DataRead t buf) =
     (case mg_tasks m t of Some (ReadingData _) \<Rightarrow> buf \<noteq> [] \<and> length buf \<le> 4096 | _ \<Rightarrow> False)"
| "enabled m (DelayTurn t) = (case mg_tasks m t of Some (ReadingData _) \<Rightarrow> True | _ \<Rightarrow> False)"
| "enabled m (ConnEnd t) = (mg_tasks m t \<noteq> None)"
| "enabled m (ReaderWaits r) = True"

fun merger_step ::
  "('q, 'i) merge_ops \<Rightarrow> ceil_quotient \<Rightarrow> (nat \<Rightarrow> 'i) \<Rightarrow> 'q merger \<Rightarrow> conn_event \<Rightarrow> 'q merger option" where
  "merger_step S cq is m Connect = conn_start S (is 0) m"
| "merger_step S cq is m (HeaderRead t h) = conn_header S m t h"
| "merger_step S cq is m (DataRead t buf) = conn_data S m t buf"
| "merger_step S cq is m (DelayTurn t) =
     (case mg_tasks m t of
        Some (ReadingData running) \<Rightarrow> conn_tick S cq (is 0) m t running
      | _ \<Rightarrow> None)"
| "merger_step S cq is m (ConnEnd t) = conn_end S (is 0) (is 1) m t"
| "merger_step S cq is m (ReaderWaits r) = reader_wait S m r"

text \<open>What every connection has sent, after a step.\<close>

fun sent :: "conn_event \<Rightarrow> (nat \<Rightarrow> byte list) \<Rightarrow> (nat \<Rightarrow> byte list)" where
  "sent (DataRead t buf) H = H(t := H t @ buf)"
| "sent _ H = H"

text \<open>The states that a run from \<open>m0\<close> reaches, with the history of what was sent.\<close>

inductive reached ::
  "('q, 'i) merge_ops \<Rightarrow> ceil_quotient \<Rightarrow> ('i \<Rightarrow> bool) \<Rightarrow> 'q merger \<Rightarrow>
   'q merger \<Rightarrow> (nat \<Rightarrow> byte list) \<Rightarrow> bool"
  for S cq choice_ok m0 where
  reached_init: "reached S cq choice_ok m0 m0 (\<lambda>_. [])"
| reached_step: "reached S cq choice_ok m0 m H \<Longrightarrow> enabled m ev \<Longrightarrow> (\<forall>n. choice_ok (is n)) \<Longrightarrow>
    merger_step S cq is m ev = Some m' \<Longrightarrow> reached S cq choice_ok m0 m' (sent ev H)"

inductive_cases reached_elim: "reached S cq choice_ok m0 m H"

text \<open>
  A schedule as a list of events; one that is not possible when its turn comes does not
  happen. \<open>None\<close> is a panic.
\<close>

fun run_events ::
  "('q, 'i) merge_ops \<Rightarrow> ceil_quotient \<Rightarrow> (nat \<Rightarrow> nat \<Rightarrow> 'i) \<Rightarrow> conn_event list \<Rightarrow>
   'q merger \<Rightarrow> (nat \<Rightarrow> byte list) \<Rightarrow> ('q merger \<times> (nat \<Rightarrow> byte list)) option" where
  "run_events S cq iss [] m H = Some (m, H)"
| "run_events S cq iss (ev # evs) m H =
     (if enabled m ev
      then do {
        m' \<leftarrow> merger_step S cq (iss 0) m ev;
        run_events S cq (\<lambda>n. iss (Suc n)) evs m' (sent ev H)
      }
      else run_events S cq (\<lambda>n. iss (Suc n)) evs m H)"

lemma run_events_reached:
  assumes "run_events S cq iss evs m H = Some (m', H')" "\<And>k n. ok (iss k n)" "reached S cq ok m0 m H"
  shows "reached S cq ok m0 m' H'"
  using assms
proof (induction S cq iss evs m H rule: run_events.induct)
  case (2 S cq iss ev evs m H)
  show ?case
  proof (cases "enabled m ev")
    case True
    then obtain m1 where m1: "merger_step S cq (iss 0) m ev = Some m1"
      "run_events S cq (\<lambda>n. iss (Suc n)) evs m1 (sent ev H) = Some (m', H')"
      using "2.prems"(1) by (auto split: option.splits bind_splits)
    have "reached S cq ok m0 m1 (sent ev H)"
      using "2.prems" True m1(1) by (blast intro: reached_step)
    then show ?thesis using "2.IH"(1) [OF True m1] "2.prems"(2) by blast
  next
    case False
    then show ?thesis using "2.IH"(2) [OF False] "2.prems" by simp
  qed
qed simp

end
