(* ===== verification/Merger_Invariant.thy ===== *)
theory Merger_Invariant
  imports Merger
begin

text \<open>
  The merger as a client of the trait's contract: whatever the order of the steps of its
  tasks, it calls the strategy only where the contract allows it, no step panics, and the
  canonical data only grows.
\<close>

text \<open>
  What the delay loop of a connection and the marks of its replay say of each other:
  \<open>marks\<close> are the delayed position and the finished flag, \<open>n\<close> is the length of the data and
  \<open>hdr\<close> tells whether the canonical replay has a header.
\<close>

definition task_ok :: "conn_phase option \<Rightarrow> usize \<times> bool \<Rightarrow> usize \<Rightarrow> bool \<Rightarrow> bool" where
  "task_ok p marks n hdr \<longleftrightarrow>
     (case p of
        None \<Rightarrow> marks = (n, True)
      | Some ReadingHeader \<Rightarrow> marks = (0, False)
      | Some (ReadingData None) \<Rightarrow> marks = (0, False) \<and> hdr
      | Some (ReadingData (Some d)) \<Rightarrow> \<not> snd marks \<and> hdr \<and> delay_ok d (fst marks) n)"

lemma task_ok_simps [simp]:
  "task_ok None mk n hdr \<longleftrightarrow> mk = (n, True)"
  "task_ok (Some ReadingHeader) mk n hdr \<longleftrightarrow> mk = (0, False)"
  "task_ok (Some (ReadingData None)) mk n hdr \<longleftrightarrow> mk = (0, False) \<and> hdr"
  "task_ok (Some (ReadingData (Some d))) mk n hdr \<longleftrightarrow> \<not> snd mk \<and> hdr \<and> delay_ok d (fst mk) n"
  by (simp_all add: task_ok_def)

lemma task_ok_grow:
  "task_ok (Some p) mk n hdr \<Longrightarrow> n \<le> n' \<Longrightarrow> task_ok (Some p) mk n' hdr"
  by (cases p; simp; rename_tac x; case_tac x; auto intro: delay_ok_mono)

lemma task_ok_header: "task_ok p mk n hdr \<Longrightarrow> (hdr \<Longrightarrow> hdr') \<Longrightarrow> task_ok p mk n hdr'"
  by (auto simp: task_ok_def split: option.splits conn_phase.splits)

definition has_header :: "('q, 'i) merge_ops \<Rightarrow> 'q \<Rightarrow> bool" where
  "has_header S q \<longleftrightarrow> map_option mr_header (mo_get_merged_replay S q) \<noteq> Some None"

definition tasks_ok ::
  "('q, 'i) merge_ops \<Rightarrow> nat \<Rightarrow> 'q merger \<Rightarrow> (nat \<Rightarrow> byte list) \<Rightarrow> bool" where
  "tasks_ok S n m H \<longleftrightarrow>
     (\<forall>t \<ge> n. H t = [] \<and> mg_tasks m t = None) \<and>
     (\<forall>t < n. \<exists>mk. map_option writer_marks (mo_writer S (mg_strategy m) t) = Some mk
        \<and> task_ok (mg_tasks m t) mk (length (H t)) (has_header S (mg_strategy m)))"

context merge_contract
begin

text \<open>The invariant of the whole merger, over the one of the strategy.\<close>

abbreviation merger_inv :: "'q merger \<Rightarrow> (nat \<Rightarrow> byte list) \<Rightarrow> byte list \<Rightarrow> bool" where
  "merger_inv m H C \<equiv> inv {} {} (mg_strategy m) H C \<and> settled (mg_strategy m)
     \<and> tasks_ok S (tokens (mg_strategy m)) m H"

lemma merger_invD:
  assumes "merger_inv m H C"
  shows "inv {} {} (mg_strategy m) H C" "settled (mg_strategy m)" "tasks_ok S (tokens (mg_strategy m)) m H"
  using assms by auto

lemma task_running:
  assumes "tasks_ok S (tokens (mg_strategy m)) m H" "mg_tasks m t = Some p"
  shows "t < tokens (mg_strategy m)"
    "\<exists>w. mo_writer S (mg_strategy m) t = Some w
       \<and> task_ok (Some p) (writer_marks w) (length (H t)) (has_header S (mg_strategy m))"
proof -
  show *: "t < tokens (mg_strategy m)"
    using assms by (metis linorder_not_less option.distinct(1) tasks_ok_def)
  then show "\<exists>w. mo_writer S (mg_strategy m) t = Some w
       \<and> task_ok (Some p) (writer_marks w) (length (H t)) (has_header S (mg_strategy m))"
    using assms unfolding tasks_ok_def by fastforce
qed

text \<open>The tasks of the others, when only token \<open>t\<close> was touched.\<close>

lemma tasks_ok_update:
  assumes ok: "tasks_ok S (tokens (mg_strategy m)) m H" and t: "t < tokens (mg_strategy m)"
    and tok: "tokens q = tokens (mg_strategy m)"
    and marks: "\<And>u. u \<noteq> t \<Longrightarrow> map_option writer_marks (mo_writer S q u)
        = map_option writer_marks (mo_writer S (mg_strategy m) u)"
    and hist: "\<And>u. u \<noteq> t \<Longrightarrow> H' u = H u"
    and hdr: "has_header S (mg_strategy m) \<Longrightarrow> has_header S q"
    and new: "\<exists>mk. map_option writer_marks (mo_writer S q t) = Some mk \<and> task_ok p mk (length (H' t)) (has_header S q)"
  shows "tasks_ok S (tokens q) (m\<lparr>mg_strategy := q, mg_tasks := (mg_tasks m)(t := p)\<rparr>) H'"
  unfolding tasks_ok_def
proof (intro conjI allI impI)
  let ?m = "m\<lparr>mg_strategy := q, mg_tasks := (mg_tasks m)(t := p)\<rparr>"
  fix u assume "tokens q \<le> u"
  then show "H' u = []" "mg_tasks ?m u = None" using ok t tok hist [of u] by (auto simp: tasks_ok_def)
next
  let ?m = "m\<lparr>mg_strategy := q, mg_tasks := (mg_tasks m)(t := p)\<rparr>"
  fix u assume u: "u < tokens q"
  show "\<exists>mk. map_option writer_marks (mo_writer S (mg_strategy ?m) u) = Some mk
      \<and> task_ok (mg_tasks ?m u) mk (length (H' u)) (has_header S (mg_strategy ?m))"
  proof (cases "u = t")
    case True
    then show ?thesis using new by simp
  next
    case False
    obtain mk where "map_option writer_marks (mo_writer S (mg_strategy m) u) = Some mk"
      "task_ok (mg_tasks m u) mk (length (H u)) (has_header S (mg_strategy m))"
      using ok u tok unfolding tasks_ok_def by auto
    then show ?thesis using False marks [OF False] hist [OF False] hdr
      by (intro exI [of _ mk]) (simp add: task_ok_header)
  qed
qed

lemma conn_start_inv:
  assumes m: "merger_inv m H C" and i: "choice_ok i"
  shows "\<exists>m' C'. conn_start S i m = Some m' \<and> merger_inv m' H C' \<and> prefix C C'"
proof -
  let ?q = "mg_strategy m"
  note M = merger_invD [OF m]
  have Ht: "H (tokens ?q) = []" using M(3) by (simp add: tasks_ok_def)
  obtain q' C' where q': "mo_replay_added S i ?q wr_new = Some (q', tokens ?q)" "inv {} {} q' H C'"
    "prefix C C'" "settled q'" "tokens q' = Suc (tokens ?q)"
    "map_option writer_marks (mo_writer S q' (tokens ?q)) = Some (0, False)"
    "\<And>u. u \<noteq> tokens ?q \<Longrightarrow> map_option writer_marks (mo_writer S q' u) = map_option writer_marks (mo_writer S ?q u)"
    "map_option mr_header (mo_get_merged_replay S q') = map_option mr_header (mo_get_merged_replay S ?q)"
    using replay_added [OF M(1) i Ht] by blast
  let ?m = "m\<lparr>mg_strategy := q', mg_tasks := (mg_tasks m)(tokens ?q \<mapsto> ReadingHeader)\<rparr>"
  have hh: "has_header S q' = has_header S ?q" using q'(8) by (simp add: has_header_def)
  have "tasks_ok S (tokens q') ?m H"
    unfolding tasks_ok_def
  proof (intro conjI allI impI)
    fix u assume "tokens q' \<le> u"
    then show "H u = []" "mg_tasks ?m u = None" using M(3) q'(5) by (auto simp: tasks_ok_def)
  next
    fix u assume "u < tokens q'"
    then consider "u = tokens ?q" | "u \<noteq> tokens ?q" "u < tokens ?q" using q'(5) by fastforce
    then show "\<exists>mk. map_option writer_marks (mo_writer S (mg_strategy ?m) u) = Some mk
        \<and> task_ok (mg_tasks ?m u) mk (length (H u)) (has_header S (mg_strategy ?m))"
    proof cases
      case 2
      then show ?thesis using M(3) q'(7) hh by (simp add: tasks_ok_def)
    qed (use q'(6) in \<open>simp del: map_option_eq_Some\<close>)
  qed
  then have "merger_inv ?m H C'" using q' by (simp add: )
  then show ?thesis using q'(1,3) by (auto simp: conn_start_def)
qed

lemma conn_header_inv:
  assumes m: "merger_inv m H C" and p: "mg_tasks m t = Some ReadingHeader"
  shows "\<exists>m'. conn_header S m t h = Some m' \<and> merger_inv m' H C"
proof -
  let ?q = "mg_strategy m"
  note M = merger_invD [OF m]
  obtain w where w: "t < tokens ?q" "mo_writer S ?q t = Some w" "writer_marks w = (0, False)"
    using task_running [OF M(3) p] by auto
  let ?f = "\<lambda>w. Some (wr_add_header w h)"
  obtain q1 where q1: "mo_with_writer S ?q t ?f = Some q1"
    "mo_writer S q1 = (mo_writer S ?q)(t \<mapsto> wr_add_header w h)"
    "mo_get_merged_replay S q1 = mo_get_merged_replay S ?q" "tokens q1 = tokens ?q" "settled q1 = settled ?q"
    using with_writer [OF w(2), of ?f] by auto
  have "inv {} {} q1 H C"
    by (rule header_set [OF M(1) w(2) _ q1(1)]) (simp add: wr_add_header_def)
  moreover have "wr_header (wr_add_header w h) = Some h" by (simp add: stream_simps)
  ultimately obtain q2 where q2: "mo_replay_header_added S q1 t = Some q2" "inv {} {} q2 H C"
    "settled q2 = settled q1" "tokens q2 = tokens q1"
    "\<And>u. map_option writer_marks (mo_writer S q2 u) = map_option writer_marks (mo_writer S q1 u)"
    "map_option mr_header (mo_get_merged_replay S q2)
       = Some (case mr_header (the (mo_get_merged_replay S q1)) of None \<Rightarrow> Some h | Some g \<Rightarrow> Some g)"
    using replay_header_added [of q1 H C t "wr_add_header w h" h] q1(2) by auto
  have hh: "has_header S q2" using q2(6) by (auto simp: has_header_def split: option.splits)
  have marks: "map_option writer_marks (mo_writer S q2 u) = map_option writer_marks (mo_writer S ?q u)" for u
    using q2(5) q1(2) w by (auto simp: writer_marks_def stream_simps)
  let ?m = "m\<lparr>mg_strategy := q2, mg_tasks := (mg_tasks m)(t \<mapsto> ReadingData None)\<rparr>"
  have "tasks_ok S (tokens q2) ?m H"
    by (rule tasks_ok_update [OF M(3) w(1)]) (use q1(4) q2(4) marks hh w in auto)
  then have "merger_inv ?m H C" using M(2) q1(5) q2(2,3) by (simp add: )
  then show ?thesis using q1(1) q2(1) by (simp add: conn_header_def)
qed

lemma conn_data_inv:
  assumes m: "merger_inv m H C" and p: "mg_tasks m t = Some (ReadingData r)"
  shows "\<exists>m'. conn_data S m t buf = Some m' \<and> merger_inv m' (H(t := H t @ buf)) C"
proof -
  let ?q = "mg_strategy m"
  note M = merger_invD [OF m]
  obtain w where w: "t < tokens ?q" "mo_writer S ?q t = Some w"
    "task_ok (Some (ReadingData r)) (writer_marks w) (length (H t)) (has_header S ?q)"
    using task_running [OF M(3) p] by auto
  have nf: "\<not> wr_finished w" "has_header S ?q" using w(3) by (cases r; auto simp: writer_marks_def)+
  have "deque_rep (wr_data w) (H t)" using writer_known [OF M(1) w(1)] w(2) by auto
  then obtain d where d: "wr_add_data w buf = Some (w\<lparr>wr_data := d\<rparr>)" "deque_rep d (H t @ buf)"
    "window_start d = window_start (wr_data w)"
    using wr_add_data_rep by blast
  let ?f = "\<lambda>w. wr_add_data w buf"
  obtain q1 where q1: "mo_with_writer S ?q t ?f = Some q1"
    "mo_writer S q1 = (mo_writer S ?q)(t \<mapsto> w\<lparr>wr_data := d\<rparr>)"
    "mo_get_merged_replay S q1 = mo_get_merged_replay S ?q" "tokens q1 = tokens ?q" "settled q1 = settled ?q"
    using with_writer [of ?q t w ?f] w(2) d(1) by auto
  have i: "inv {} {} q1 (H(t := H t @ buf)) C"
    by (rule data_appended [OF M(1) w(2) nf(1) _ d(2,3,1) q1(1)]) (use nf(2) in \<open>simp add: has_header_def\<close>)
  have hh: "has_header S q1 = has_header S ?q" using q1(3) by (simp add: has_header_def)
  have "tasks_ok S (tokens q1) (m\<lparr>mg_strategy := q1, mg_tasks := (mg_tasks m)(t := Some (ReadingData r))\<rparr>) (H(t := H t @ buf))"
    by (rule tasks_ok_update [OF M(3) w(1)])
      (use q1(2,4) hh task_ok_grow [OF w(3)] in \<open>auto simp: writer_marks_def\<close>)
  moreover have "(mg_tasks m)(t := Some (ReadingData r)) = mg_tasks m" using p by auto
  ultimately have "tasks_ok S (tokens q1) (m\<lparr>mg_strategy := q1\<rparr>) (H(t := H t @ buf))" by (simp add: tasks_ok_def)
  then show ?thesis using M(2) q1(1,5) i by (simp add: conn_data_def )
qed

text \<open>Moving the delayed position and telling the strategy, as the delay loop and the end do.\<close>

lemma move_and_tell:
  assumes inv: "inv {} {} q H C" and st: "settled q" and i: "choice_ok i" and t: "t < tokens q"
    and w: "mo_writer S q t = Some w" and v: "wr_delayed_data_len w \<le> v" "v \<le> length (H t)"
    and f: "f w = Some (w\<lparr>wr_delayed_data_len := v\<rparr>)" and u: "\<not> u \<longrightarrow> v = wr_delayed_data_len w"
  shows "\<exists>q1 q2 C'. mo_with_writer S q t f = Some q1
    \<and> (if u then mo_replay_data_updated S i q1 t else Some q1) = Some q2
    \<and> inv {} {} q2 H C' \<and> prefix C C' \<and> settled q2 \<and> tokens q2 = tokens q
    \<and> (\<forall>x. map_option writer_marks (mo_writer S q2 x)
         = (if x = t then Some (v, wr_finished w) else map_option writer_marks (mo_writer S q x)))
    \<and> has_header S q2 = has_header S q"
proof -
  obtain q1 where q1: "mo_with_writer S q t f = Some q1"
    "mo_writer S q1 = (mo_writer S q)(t \<mapsto> w\<lparr>wr_delayed_data_len := v\<rparr>)"
    "mo_get_merged_replay S q1 = mo_get_merged_replay S q" "tokens q1 = tokens q" "settled q1 = settled q"
    using with_writer [of q t w f] w f by auto
  have i1: "inv {} (if v = wr_delayed_data_len w then {} else {t}) q1 H C"
    using delay_moved [OF inv w v f q1(1)] by simp
  have hh: "has_header S q1 = has_header S q" using q1(3) by (simp add: has_header_def)
  have mk: "map_option writer_marks (mo_writer S q1 x)
      = (if x = t then Some (v, wr_finished w) else map_option writer_marks (mo_writer S q x))" for x
    using q1(2) by (simp add: writer_marks_def)
  show ?thesis
  proof (cases u)
    case False
    then show ?thesis using q1 i1 u hh mk st
      by (intro exI [of _ q1] exI [of _ C]) auto
  next
    case True
    have "inv {} {t} q1 H C"
      using i1 untold_mono [of "{}" "{}" q1 H C "{}" "{t}"]
      by (auto split: if_splits)
    then obtain q2 C' where "mo_replay_data_updated S i q1 t = Some q2" "inv {} {} q2 H C'" "prefix C C'"
      "settled q2" "tokens q2 = tokens q1"
      "\<And>x. map_option writer_marks (mo_writer S q2 x) = map_option writer_marks (mo_writer S q1 x)"
      "map_option mr_header (mo_get_merged_replay S q2) = map_option mr_header (mo_get_merged_replay S q1)"
      using replay_data_updated [of t q1 H C i] i t q1(4) by auto
    then show ?thesis using q1 hh mk True
      by (intro exI [of _ q1] exI [of _ q2] exI [of _ C']) (simp add: has_header_def)
  qed
qed


lemma conn_tick_inv:
  assumes m: "merger_inv m H C" and i: "choice_ok i"
    and p: "mg_tasks m t = Some (ReadingData r)"
    and start: "delay_start cq (mg_stream_delay m) \<noteq> None"
  shows "\<exists>m' C'. conn_tick S cq i m t r = Some m' \<and> merger_inv m' H C' \<and> prefix C C'"
proof -
  let ?q = "mg_strategy m"
  have M: "inv {} {} ?q H C" "settled ?q" "tasks_ok S (tokens ?q) m H" using m by auto
  obtain w where w: "t < tokens ?q" "mo_writer S ?q t = Some w"
    "task_ok (Some (ReadingData r)) (writer_marks w) (length (H t)) (has_header S ?q)"
    using task_running [OF M(3) p] by auto
  have len: "wr_data_len w = length (H t)"
    using writer_known [OF M(1) w(1)] w(2) wr_data_len_rep by auto
  obtain d where d: "(case r of None \<Rightarrow> delay_start cq (mg_stream_delay m) | Some d \<Rightarrow> Some d) = Some d"
    "delay_ok d (wr_delayed_data_len w) (wr_data_len w)"
    using start w(3) len delay_start_ok [of cq "mg_stream_delay m"]
    by (cases r) (auto simp: writer_marks_def)
  have nf: "\<not> wr_finished w" "has_header S ?q" using w(3) by (cases r; auto simp: writer_marks_def)+
  obtain d' v u where d': "delay_turn d w = Some (d', w\<lparr>wr_delayed_data_len := v\<rparr>, u)"
    "delay_ok d' v (wr_data_len w)" "wr_delayed_data_len w \<le> v" "v \<le> wr_data_len w"
    "\<not> u \<longrightarrow> v = wr_delayed_data_len w"
    using delay_turn_ok [OF d(2)] by blast
  have v: "v \<le> length (H t)" using d'(4) len by simp
  let ?f = "\<lambda>_. Some (w\<lparr>wr_delayed_data_len := v\<rparr>)"
  obtain q1 q2 C' where q: "mo_with_writer S ?q t ?f = Some q1"
    "(if u then mo_replay_data_updated S i q1 t else Some q1) = Some q2"
    "inv {} {} q2 H C'" "prefix C C'" "settled q2" "tokens q2 = tokens ?q"
    "\<And>x. map_option writer_marks (mo_writer S q2 x)
       = (if x = t then Some (v, wr_finished w) else map_option writer_marks (mo_writer S ?q x))"
    "has_header S q2 = has_header S ?q"
    using move_and_tell [OF M(1,2) i w(1,2) d'(3) v, of ?f u] d'(5) by blast
  let ?m = "m\<lparr>mg_strategy := q2, mg_tasks := (mg_tasks m)(t \<mapsto> ReadingData (Some d'))\<rparr>"
  have "conn_tick S cq i m t r = Some ?m"
    using d(1) w(2) d'(1) q(1,2) by (simp add: conn_tick_def)
  moreover have "tasks_ok S (tokens q2) ?m H"
    by (rule tasks_ok_update [OF M(3) w(1)]) (use q(6,7,8) nf d'(2) len in simp_all)
  ultimately show ?thesis using q by auto
qed

lemma conn_end_inv:
  assumes m: "merger_inv m H C" and i: "choice_ok i" "choice_ok j"
    and p: "mg_tasks m t \<noteq> None"
  shows "\<exists>m' C'. conn_end S i j m t = Some m' \<and> merger_inv m' H C' \<and> prefix C C'"
proof -
  let ?q = "mg_strategy m"
  have M: "inv {} {} ?q H C" "settled ?q" "tasks_ok S (tokens ?q) m H" using m by auto
  obtain w where w: "t < tokens ?q" "mo_writer S ?q t = Some w"
    using task_running [OF M(3)] p by blast
  have len: "wr_data_len w = length (H t)" "wr_delayed_data_len w \<le> length (H t)"
    using writer_known [OF M(1) w(1)] w(2) wr_data_len_rep by auto
  let ?f = set_final_replay_timestamp
  have f: "?f w = Some (w\<lparr>wr_delayed_data_len := length (H t)\<rparr>)"
    using set_final_ok [of w] len by simp
  obtain q1 q2 C1 where q: "mo_with_writer S ?q t ?f = Some q1"
    "mo_replay_data_updated S i q1 t = Some q2"
    "inv {} {} q2 H C1" "prefix C C1" "settled q2" "tokens q2 = tokens ?q"
    "\<And>x. map_option writer_marks (mo_writer S q2 x)
       = (if x = t then Some (length (H t), wr_finished w) else map_option writer_marks (mo_writer S ?q x))"
    "has_header S q2 = has_header S ?q"
    using move_and_tell [where q = ?q and f = ?f and u = True and w = w and v = "length (H t)",
        OF M(1,2) i(1) w(1,2) len(2) _ f] by auto
  obtain w2 where w2: "mo_writer S q2 t = Some w2" "wr_delayed_data_len w2 = length (H t)"
    using q(7) [of t] by (auto simp: writer_marks_def)
  let ?g = "\<lambda>w. Some (wr_finish w)"
  obtain q3 where q3: "mo_with_writer S q2 t ?g = Some q3" "mo_writer S q3 = (mo_writer S q2)(t \<mapsto> wr_finish w2)"
    "mo_get_merged_replay S q3 = mo_get_merged_replay S q2" "tokens q3 = tokens q2"
    using with_writer [of q2 t w2 ?g] w2(1) by auto
  have "inv {t} {} q3 H C1" by (rule writer_finished [OF q(3) w2(1) _ q3(1)]) simp
  moreover have "t < tokens q3" using w(1) q(6) q3(4) by simp
  ultimately obtain q4 C2 where q4: "mo_replay_removed S j q3 t = Some q4" "inv {} {} q4 H C2" "prefix C1 C2"
    "settled q4" "tokens q4 = tokens q3"
    "\<And>u. map_option writer_marks (mo_writer S q4 u) = map_option writer_marks (mo_writer S q3 u)"
    "map_option mr_header (mo_get_merged_replay S q4) = map_option mr_header (mo_get_merged_replay S q3)"
    using replay_removed [OF _ i(2)] by blast
  let ?m = "m\<lparr>mg_strategy := q4, mg_tasks := (mg_tasks m)(t := None)\<rparr>"
  have "conn_end S i j m t = Some ?m" using q(1,2) q3(1) q4(1) by (simp add: conn_end_def)
  moreover have "tasks_ok S (tokens q4) ?m H"
  proof (rule tasks_ok_update [OF M(3) w(1)])
    show "tokens q4 = tokens ?q" using q(6) q3(4) q4(5) by simp
    show "map_option writer_marks (mo_writer S q4 u) = map_option writer_marks (mo_writer S ?q u)"
      if "u \<noteq> t" for u using that q(7) [of u] q3(2) q4(6) [of u] by simp
    show "has_header S q4" if "has_header S ?q"
      using that q(8) q3(3) q4(7) by (simp add: has_header_def)
    show "\<exists>mk. map_option writer_marks (mo_writer S q4 t) = Some mk
        \<and> task_ok None mk (length (H t)) (has_header S q4)"
      using q4(6) [of t] q3(2) w2 by (auto simp: writer_marks_def stream_simps)
  qed simp
  ultimately show ?thesis using q4 prefix_order.trans [OF q(4) q4(3)] by auto
qed

lemma reader_wait_inv:
  assumes m: "merger_inv m H C"
  shows "\<exists>m'. reader_wait S m r = Some m' \<and> merger_inv m' H C"
proof -
  note M = merger_invD [OF m]
  obtain q' c where q': "mo_reader_waits S (mg_strategy m) r = Some q'" "inv {} {} q' H C"
    "mo_get_merged_replay S (mg_strategy m) = Some c"
    "mo_get_merged_replay S q' = Some (mr_wait_for_read_event c r)"
    "mo_writer S q' = mo_writer S (mg_strategy m)" "tokens q' = tokens (mg_strategy m)"
    "settled q' = settled (mg_strategy m)"
    using reader_waits [OF M(1), of r] by blast
  have "has_header S q' = has_header S (mg_strategy m)"
    using q'(3,4) by (simp add: has_header_def stream_simps)
  then have "tasks_ok S (tokens q') (m\<lparr>mg_strategy := q'\<rparr>) H"
    using M(3) q'(5,6) by (simp add: tasks_ok_def)
  then show ?thesis using q' M(2) by (simp add: reader_wait_def)
qed

text \<open>No enabled step panics, whatever the order, and each one extends the canonical data.\<close>

lemma merger_step_inv:
  assumes m: "merger_inv m H C" and i: "\<forall>n. choice_ok (is n)" and en: "enabled m ev"
    and start: "delay_start cq (mg_stream_delay m) \<noteq> None"
  shows "\<exists>m' C'. merger_step S cq is m ev = Some m' \<and> merger_inv m' (sent ev H) C' \<and> prefix C C'
    \<and> mg_stream_delay m' = mg_stream_delay m"
proof -
  have "\<exists>m' C'. merger_step S cq is m ev = Some m' \<and> merger_inv m' (sent ev H) C' \<and> prefix C C'"
  proof (cases ev)
    case Connect
    then show ?thesis using conn_start_inv [OF m, of "is 0"] i by simp
  next
    case (HeaderRead t h)
    then show ?thesis using conn_header_inv [OF m, of t h] en by auto
  next
    case (DataRead t buf)
    then obtain r where "mg_tasks m t = Some (ReadingData r)"
      using en by (auto split: option.splits conn_phase.splits)
    then show ?thesis using conn_data_inv [OF m, of t r buf] DataRead by auto
  next
    case (DelayTurn t)
    then obtain r where "mg_tasks m t = Some (ReadingData r)"
      using en by (auto split: option.splits conn_phase.splits)
    then show ?thesis using conn_tick_inv [OF m, of "is 0" t r cq] i start DelayTurn by simp
  next
    case (ConnEnd t)
    then show ?thesis using conn_end_inv [OF m, of "is 0" "is 1" t] i en by simp
  next
    case (ReaderWaits r)
    then show ?thesis using reader_wait_inv [OF m, of r] by auto
  qed
  moreover have "mg_stream_delay m' = mg_stream_delay m" if "merger_step S cq is m ev = Some m'" for m'
    using that
    by (cases ev) (auto simp: conn_start_def conn_header_def conn_data_def conn_tick_def conn_end_def reader_wait_def
        split: option.splits conn_phase.splits bind_splits if_splits)
  ultimately show ?thesis by blast
qed

lemma merger_init_inv:
  assumes "inv {} {} q (\<lambda>_. []) C" "settled q" "tokens q = 0"
  shows "merger_inv (merger_new q sd) (\<lambda>_. []) C"
  using assms by (simp add: merger_new_def tasks_ok_def)

lemma reached_inv:
  assumes r: "reached S cq choice_ok m0 m H" and init: "merger_inv m0 (\<lambda>_. []) C0"
    and start: "delay_start cq (mg_stream_delay m0) \<noteq> None"
  shows "(\<exists>C. merger_inv m H C) \<and> mg_stream_delay m = mg_stream_delay m0"
  using r
proof (induction rule: reached.induct)
  case reached_init
  then show ?case using init by blast
next
  case (reached_step m H ev "is" m')
  then obtain C where C: "merger_inv m H C" "mg_stream_delay m = mg_stream_delay m0" by blast
  then have "\<exists>m1 C'. merger_step S cq is m ev = Some m1 \<and> merger_inv m1 (sent ev H) C' \<and> prefix C C'
    \<and> mg_stream_delay m1 = mg_stream_delay m"
    using start reached_step.hyps by (intro merger_step_inv) auto
  then show ?case using reached_step.hyps C(2) by auto
qed

lemma run_events_total:
  assumes "merger_inv m H C" "\<And>k n. choice_ok (iss k n)"
    and "delay_start cq (mg_stream_delay m) \<noteq> None"
  shows "\<exists>m' H' C'. run_events S cq iss evs m H = Some (m', H') \<and> merger_inv m' H' C' \<and> prefix C C'"
  using assms
proof (induction evs arbitrary: iss m H C)
  case (Cons ev evs)
  have i: "choice_ok (iss (Suc k) n)" for k n using Cons.prems(2) .
  show ?case
  proof (cases "enabled m ev")
    case True
    have i0: "\<forall>n. choice_ok (iss 0 n)" using Cons.prems(2) by blast
    obtain m1 C1 where m1: "merger_step S cq (iss 0) m ev = Some m1" "merger_inv m1 (sent ev H) C1"
      "prefix C C1" "mg_stream_delay m1 = mg_stream_delay m"
      using merger_step_inv [OF Cons.prems(1) i0 True Cons.prems(3)] by blast
    have "delay_start cq (mg_stream_delay m1) \<noteq> None" using m1(4) Cons.prems(3) by simp
    from Cons.IH [OF m1(2) i this] m1(1,3) True prefix_order.trans show ?thesis by fastforce
  next
    case False
    then show ?thesis using Cons.IH [OF Cons.prems(1) i Cons.prems(3)] by simp
  qed
qed auto

text \<open>Once every connection has ended, finishing does not panic.\<close>

lemma finalize_ok:
  assumes m: "merger_inv m H C" and over: "mg_tasks m = Map.empty"
  shows "\<exists>m' c. merger_finalize S m = Some m' \<and> merger_get_merged_replay S m = Some c
    \<and> merger_get_merged_replay S m' = Some (mr_finish c) \<and> mr_rep c C \<and> mr_delayed_data_len c = length C"
proof -
  have "map_option writer_marks (mo_writer S (mg_strategy m) t) = Some (length (H t), True)"
    if "t < tokens (mg_strategy m)" for t
    using m over that by (auto simp: tasks_ok_def)
  then obtain q' c where q': "mo_finish S (mg_strategy m) = Some q'"
    "mo_get_merged_replay S (mg_strategy m) = Some c" "mo_get_merged_replay S q' = Some (mr_finish c)"
    "mr_delayed_data_len c = length C"
    using finish [of "mg_strategy m" H C] m by blast
  moreover have "mr_rep c C" using canon_known m q'(2) by fastforce
  ultimately show ?thesis by (simp add: merger_finalize_def merger_get_merged_replay_def)
qed

end

end
