(* ===== verification/Merge_Contract.thy ===== *)
theory Merge_Contract
  imports Merge_Work Merger_Invariant
begin

text \<open>
  \<open>QuorumMergeStrategy\<close> keeps the contract of the trait \<open>MergeStrategy\<close>: every law of the
  locale \<open>merge_contract\<close> holds of the model of \<open>quorum_merge_strategy.rs\<close>, with the
  invariant \<open>strategy_inv\<close>.
\<close>

definition strategy_writer :: "strategy \<Rightarrow> nat \<Rightarrow> writer_replay option" where
  "strategy_writer q t =
     do {
       s \<leftarrow> shared_of q;
       replay \<leftarrow> get_replay s t;
       Some (rs_r replay)
     }"

definition strategy_tokens :: "strategy \<Rightarrow> nat" where
  "strategy_tokens q = (case shared_of q of None \<Rightarrow> 0 | Some s \<Rightarrow> token s)"

text \<open>The readers share the canonical stream with the strategy.\<close>

definition reader_registers :: "strategy \<Rightarrow> task \<Rightarrow> strategy option" where
  "reader_registers q r =
     do {
       s \<leftarrow> shared_of q;
       Some (set_shared q (s\<lparr>canonical_stream := mr_wait_for_read_event (canonical_stream s) r\<rparr>))
     }"

definition quorum_ops :: "(strategy, nat \<Rightarrow> iteration) merge_ops" where
  "quorum_ops = \<lparr>mo_replay_added = replay_added, mo_replay_removed = replay_removed,
     mo_replay_header_added = replay_header_added, mo_replay_data_updated = replay_data_updated,
     mo_finish = strategy_finish, mo_get_merged_replay = get_merged_replay,
     mo_reader_waits = reader_registers, mo_writer = strategy_writer, mo_with_writer = with_writer\<rparr>"

lemma shared_of_set_shared [merge_simps]:
  "q \<noteq> Swapping \<Longrightarrow> shared_of (set_shared q s) = Some s"
  by (cases q) auto

lemma shared_of_Swapping: "shared_of q = Some s \<Longrightarrow> q \<noteq> Swapping"
  by auto

lemma strategy_views:
  assumes "shared_of q = Some s"
  shows "strategy_writer q t = map_option rs_r (replays s t)" "strategy_tokens q = token s"
    "get_merged_replay q = Some (canonical_stream s)"
  using assms by (simp_all add: strategy_writer_def strategy_tokens_def get_merged_replay_def
      get_replay_def map_option_case split: option.split)

text \<open>A change of replays alone leaves a settled strategy settled.\<close>

lemma stable_set_replays:
  assumes "shared_of q = Some s" and "canonical_stream s' = canonical_stream s \<or>
      (mr_data_len (canonical_stream s') = mr_data_len (canonical_stream s) \<and>
       mr_delayed_data_len (canonical_stream s') = mr_delayed_data_len (canonical_stream s))"
    and "delayed_data_started s' = delayed_data_started s"
    and "target_quorum_size s' = target_quorum_size s"
  shows "stable (set_shared q s') = stable q"
  using assms
  by (cases q) (auto simp: stable_def has_to_enter_stalemate_def can_exit_stalemate_def
      canon_data_len_def canon_delayed_data_len_def)

subsection \<open>What a connection task does behind the strategy's back\<close>

text \<open>
  One writer's replay changes: its data grows, its delayed position moves on, it finishes.
  Everything the strategy relies on survives; what it has yet to be told is recorded.
\<close>

definition silent_change ::
  "shared_state \<Rightarrow> nat \<Rightarrow> replay_state \<Rightarrow> writer_replay \<Rightarrow> history \<Rightarrow> history \<Rightarrow> byte list \<Rightarrow> shared_state \<Rightarrow> bool" where
  "silent_change s t r w' H H' C s' \<longleftrightarrow>
     shared_inv s H C \<and> replays s t = Some r \<and>
     (\<forall>u. u \<noteq> t \<longrightarrow> H' u = H u) \<and> prefix (H t) (H' t) \<and>
     deque_rep (wr_data w') (H' t) \<and> window_start (wr_data w') = window_start (wr_data (rs_r r)) \<and>
     wr_delayed_data_len (rs_r r) \<le> wr_delayed_data_len w' \<and> wr_delayed_data_len w' \<le> length (H' t) \<and>
     (wr_finished (rs_r r) \<longrightarrow> wr_finished w' \<and> H' t = H t) \<and>
     (mr_header (canonical_stream s) = None \<longrightarrow> H' t = []) \<and>
     s' = s\<lparr>replays := (replays s)(t \<mapsto> r\<lparr>rs_r := w'\<rparr>)\<rparr>"

lemma silent_changeD:
  assumes "silent_change s t r w' H H' C s'"
  shows "shared_inv s H C" "replays s t = Some r" "\<And>u. u \<noteq> t \<Longrightarrow> H' u = H u" "prefix (H t) (H' t)"
    "deque_rep (wr_data w') (H' t)" "window_start (wr_data w') = window_start (wr_data (rs_r r))"
    "wr_delayed_data_len (rs_r r) \<le> wr_delayed_data_len w'" "wr_delayed_data_len w' \<le> length (H' t)"
    "wr_finished (rs_r r) \<longrightarrow> wr_finished w' \<and> H' t = H t"
    "mr_header (canonical_stream s) = None \<longrightarrow> H' t = []"
    "s' = s\<lparr>replays := (replays s)(t \<mapsto> r\<lparr>rs_r := w'\<rparr>)\<rparr>"
  using assms unfolding silent_change_def by blast+

lemma silent_history:
  assumes "silent_change s t r w' H H' C s'"
  shows "prefix (H u) (H' u)" "length (H u) \<le> length (H' u)" "p < length (H u) \<Longrightarrow> H' u ! p = H u ! p"
    "b \<le> length (H u) \<Longrightarrow> agree (H u) ys a b \<Longrightarrow> agree (H' u) ys a b"
proof -
  show p: "prefix (H u) (H' u)" using silent_changeD(3,4) [OF assms] by (cases "u = t") auto
  then show "length (H u) \<le> length (H' u)" by (rule prefix_length_le)
  show n: "H' u ! p = H u ! p" if "p < length (H u)" for p
    using p that by (auto simp: prefix_def nth_append)
  show "agree (H' u) ys a b" if "b \<le> length (H u)" "agree (H u) ys a b"
    using that n by (auto simp: agree_def)
qed

lemma silent_shared:
  assumes sc: "silent_change s t r w' H H' C s'"
  shows "shared_inv s' H' C"
proof -
  note D = silent_changeD [OF sc] and P = silent_history [OF sc]
  have ok: "replay_ok s H C u x" if "replays s u = Some x" for u x
    using D(1) that by (rule shared_inv_replay)
  have prov: "provenance s' H' C"
    unfolding provenance_def
  proof (intro allI impI)
    fix p assume "p < length C"
    then obtain u where "u < token s" "p < length (H u)" "H u ! p = C ! p"
      using D(1) unfolding shared_inv_def provenance_def by blast
    then show "\<exists>u<token s'. p < length (H' u) \<and> H' u ! p = C ! p"
      using P(2) [of u] P(3) [of p u] by (intro exI [of _ u]) (simp add: D(11))
  qed
  have "delay_bounded s" using D(1) by (simp add: shared_inv_def)
  then consider "mr_delayed_data_len (canonical_stream s) = 0"
    | u x where "replays s u = Some x"
        "mr_delayed_data_len (canonical_stream s) \<le> wr_delayed_data_len (rs_r x)"
    by (auto simp: delay_bounded_def)
  then have db: "delay_bounded s'"
  proof cases
    case 2
    then show ?thesis using D(2,7)
      by (auto simp: delay_bounded_def D(11)
          intro!: exI [of _ u] exI [of _ "if u = t then r\<lparr>rs_r := w'\<rparr> else x"])
  qed (simp add: delay_bounded_def D(11))
  have src: "has_source s' H' C"
    using D(1) P(1) prefix_order.trans unfolding shared_inv_def has_source_def D(11) by simp blast
  have oks: "replay_ok s' H' C u x" if "replays s' u = Some x" for u x
    using that ok [of t r] ok [of u x] D(2,3,5,8) by (auto simp: D(11) replay_ok_def split: if_splits)
  have "dom (replays s') = {..<token s'}" using D(1,2) by (auto simp: shared_inv_def D(11))
  moreover have "mr_header (canonical_stream s') = None \<longrightarrow> (\<forall>u. H' u = [])"
    using D(1,3,10) by (metis D(11) shared_inv_def shared_state.select_convs(6) shared_state.simps(12)
        shared_state.surjective shared_state.update_convs(5))
  ultimately show ?thesis using D(1) prov db src oks unfolding shared_inv_def by (simp add: D(11))
qed

lemma silent_live:
  assumes sc: "silent_change s t r w' H H' C s'"
  shows "live s H C u \<Longrightarrow> live s' H' C u" "matched s C u \<Longrightarrow> matched s' C u"
    "qmember s H C u \<Longrightarrow> qmember s' H' C u" "cand_ok s H C b u \<Longrightarrow> cand_ok s' H' C b u"
    "dead s H C u \<Longrightarrow> dead s' H' C u"
proof -
  note D = silent_changeD [OF sc] and P = silent_history [OF sc]
  show lv: "live s' H' C u" if "live s H C u"
    using that D(2,6) P(2) [of u] P(4) [of _ u] unfolding live_def D(11)
    by (cases "u = t") (auto intro: le_trans)
  show mt: "matched s' C u" if "matched s C u"
    using that D(2) unfolding matched_def D(11) by (cases "u = t") auto
  show "qmember s' H' C u" if "qmember s H C u"
    using that D(2,6) P(2) [of u] P(4) [of _ u] unfolding qmember_def D(11)
    by (cases "u = t") (auto intro: le_trans)
  show "cand_ok s' H' C b u" if "cand_ok s H C b u"
    using that lv mt P(2) [of u] P(3) [of "length C" u] by (auto simp: cand_ok_def)
  show "dead s' H' C u" if "dead s H C u"
    using that unfolding dead_def
  proof (elim disjE)
    assume "\<exists>p<min (length (H u)) (length C). H u ! p \<noteq> C ! p"
    then obtain p where "p < min (length (H u)) (length C)" "H u ! p \<noteq> C ! p" by blast
    then have "p < min (length (H' u)) (length C)" "H' u ! p \<noteq> C ! p"
      using P(2) [of u] P(3) [of p u] by auto
    then show "(\<exists>p<min (length (H' u)) (length C). H' u ! p \<noteq> C ! p) \<or>
        (\<exists>r. replays s' u = Some r \<and> wr_finished (rs_r r) \<and> length (H' u) \<le> length C)" by blast
  next
    assume "\<exists>r. replays s u = Some r \<and> wr_finished (rs_r r) \<and> length (H u) \<le> length C"
    then have "\<exists>r. replays s' u = Some r \<and> wr_finished (rs_r r) \<and> length (H' u) \<le> length C"
      using D(2,3,9) by (cases "u = t") (auto simp: D(11))
    then show "(\<exists>p<min (length (H' u)) (length C). H' u ! p \<noteq> C ! p) \<or>
        (\<exists>r. replays s' u = Some r \<and> wr_finished (rs_r r) \<and> length (H' u) \<le> length C)" ..
  qed
qed

lemma silent_quorum:
  assumes sc: "silent_change s t r w' H H' C s'" and m: "quorum_inv X m H C" "qs m = s"
    and X: "X \<subseteq> Y" "wr_delayed_data_len w' = wr_delayed_data_len (rs_r r) \<or> t \<in> Y"
  shows "quorum_inv Y (m\<lparr>qs := s'\<rparr>) H' C"
proof -
  note D = silent_changeD [OF sc] and L = silent_live [OF sc]
  have base: "quorum_base m H C" using m(1) by (simp add: quorum_inv_def)
  have "quorum_base (m\<lparr>qs := s'\<rparr>) H' C"
    using quorum_baseD [OF base] silent_shared [OF sc] L m(2)
    unfolding quorum_base_def by (simp add: D(11))
  moreover have "\<exists>u x. u \<in> quorum m \<and> replays s' u = Some x
      \<and> min (length C) (wr_delayed_data_len (rs_r x)) \<le> mr_delayed_data_len (canonical_stream s')"
    if "quorum m \<inter> Y = {}"
  proof -
    have "quorum m \<inter> X = {}" using that X(1) by blast
    then obtain u x where "u \<in> quorum m" "replays s u = Some x"
      "min (length C) (wr_delayed_data_len (rs_r x)) \<le> mr_delayed_data_len (canonical_stream s)"
      using m unfolding quorum_inv_def by blast
    then show ?thesis using D(2) X(2) that
      by (intro exI [of _ u] exI [of _ "if u = t then r\<lparr>rs_r := w'\<rparr> else x"]) (auto simp: D(11))
  qed
  ultimately show ?thesis using m L by (simp add: quorum_inv_def D(11))
qed

lemma silent_stalemate:
  assumes sc: "silent_change s t r w' H H' C s'" and m: "stalemate_inv F m H C" "ms m = s"
    and F: "F \<subseteq> G" "wr_finished w' \<longrightarrow> wr_finished (rs_r r) \<or> t \<in> G"
  shows "stalemate_inv G (m\<lparr>ms := s'\<rparr>) H' C"
proof -
  note D = silent_changeD [OF sc] and L = silent_live [OF sc]
  note I = stalemate_invD [OF m(1), unfolded m(2)]
  have ids: "candidate_ids (m\<lparr>ms := s'\<rparr>) = candidate_ids m" by (simp add: candidate_ids_def)
  show ?thesis
  proof (rule stalemate_invI, unfold ids)
    fix u x assume "u \<in> m_reserve (m\<lparr>ms := s'\<rparr>)" "u \<notin> G" "replays (ms (m\<lparr>ms := s'\<rparr>)) u = Some x"
    then show "\<not> wr_finished (rs_r x)" using I(6) [of u] F D(2) by (auto simp: D(11) split: if_splits)
  qed (use I silent_shared [OF sc] L in \<open>auto simp: D(11)\<close>)
qed

lemma silent_strategy:
  assumes sc: "silent_change s t r w' H H' C s'"
    and inv: "strategy_inv F X q H C" and q: "shared_of q = Some s"
    and F: "F \<subseteq> G" "wr_finished w' \<longrightarrow> wr_finished (rs_r r) \<or> t \<in> G"
    and X: "X \<subseteq> Y" "wr_delayed_data_len w' = wr_delayed_data_len (rs_r r) \<or> t \<in> Y"
  shows "strategy_inv G Y (set_shared q s') H' C"
proof (cases q)
  case (Quorum m)
  then show ?thesis using silent_quorum [OF sc _ _ X] inv q by simp
next
  case (Stalemate m)
  moreover have "delays_known Y s'"
    if "delays_known X s" using that X silent_changeD [OF sc] by (auto simp: delays_known_def)
  ultimately show ?thesis using silent_stalemate [OF sc _ _ F] inv q by simp
qed (use inv in simp)

text \<open>The same, stated over \<open>with_writer\<close>.\<close>

lemma with_writer_eq:
  assumes "shared_of q = Some s" "replays s t = Some r" "f (rs_r r) = Some w'"
  shows "with_writer q t f = Some (set_shared q (s\<lparr>replays := (replays s)(t \<mapsto> r\<lparr>rs_r := w'\<rparr>)\<rparr>))"
  using assms by (simp add: with_writer_def get_replay_def)

lemma strategy_writerD:
  assumes "strategy_writer q t = Some w"
  shows "\<exists>s r. shared_of q = Some s \<and> replays s t = Some r \<and> w = rs_r r"
  using assms by (auto simp: strategy_writer_def get_replay_def split: bind_splits)

lemma with_writer_silent:
  assumes inv: "strategy_inv F X q H C" and w: "strategy_writer q t = Some w" and f: "f w = Some w'"
    and run: "with_writer q t f = Some q'"
    and hist: "\<And>u. u \<noteq> t \<Longrightarrow> H' u = H u" "prefix (H t) (H' t)"
    and w': "deque_rep (wr_data w') (H' t)" "window_start (wr_data w') = window_start (wr_data w)"
      "wr_delayed_data_len w \<le> wr_delayed_data_len w'" "wr_delayed_data_len w' \<le> length (H' t)"
      "wr_finished w \<longrightarrow> wr_finished w' \<and> H' t = H t"
    and hdr: "map_option mr_header (get_merged_replay q) = Some None \<longrightarrow> H' t = []"
    and F: "F \<subseteq> G" "wr_finished w' \<longrightarrow> wr_finished w \<or> t \<in> G"
    and X: "X \<subseteq> Y" "wr_delayed_data_len w' = wr_delayed_data_len w \<or> t \<in> Y"
  shows "strategy_inv G Y q' H' C"
proof -
  obtain s r where s: "shared_of q = Some s" "replays s t = Some r" "w = rs_r r"
    using strategy_writerD [OF w] by blast
  let ?s = "s\<lparr>replays := (replays s)(t \<mapsto> r\<lparr>rs_r := w'\<rparr>)\<rparr>"
  have "shared_inv s H C" using strategy_inv_shared [OF inv] s(1) by auto
  moreover have "mr_header (canonical_stream s) = None \<longrightarrow> H' t = []"
    using hdr strategy_views(3) [OF s(1)] by simp
  ultimately have "silent_change s t r w' H H' C ?s"
    using s(2) hist w' unfolding silent_change_def s(3) by blast
  moreover have "q' = set_shared q ?s"
    using run with_writer_eq [of q s t r f w'] s f by simp
  ultimately show ?thesis using silent_strategy [OF _ inv s(1) F(1) _ X(1)] F(2) X(2) s(3) by blast
qed

lemma writer_rep:
  assumes "strategy_inv F X q H C" "strategy_writer q t = Some w"
  shows "deque_rep (wr_data w) (H t)" "wr_delayed_data_len w \<le> length (H t)"
    "map_option mr_header (get_merged_replay q) = Some None \<longrightarrow> H t = []"
proof -
  obtain s r where s: "shared_of q = Some s" "replays s t = Some r" "w = rs_r r"
    using strategy_writerD [OF assms(2)] by blast
  have inv: "shared_inv s H C" using strategy_inv_shared [OF assms(1)] s(1) by auto
  have "replay_ok s H C t r" by (rule shared_inv_replay [OF inv s(2)])
  then show "deque_rep (wr_data w) (H t)" "wr_delayed_data_len w \<le> length (H t)"
    by (auto simp: replay_ok_def s(3))
  show "map_option mr_header (get_merged_replay q) = Some None \<longrightarrow> H t = []"
    using inv strategy_views(3) [OF s(1)] by (simp add: shared_inv_def)
qed

subsection \<open>The operations of the trait\<close>

definition marks_same :: "strategy \<Rightarrow> strategy \<Rightarrow> bool" where
  "marks_same q q' \<longleftrightarrow> strategy_tokens q' = strategy_tokens q \<and>
     (\<forall>u. map_option writer_marks (strategy_writer q' u) = map_option writer_marks (strategy_writer q u)) \<and>
     map_option mr_header (get_merged_replay q') = map_option mr_header (get_merged_replay q)"

lemma same_frame_marks:
  assumes "shared_of q = Some s" "shared_of q' = Some s'" "same_frame s s'"
  shows "marks_same q q'"
proof -
  have "map_option writer_marks (map_option rs_r (replays s' u))
      = map_option writer_marks (map_option rs_r (replays s u))" for u
    using same_frame_SomeD [OF assms(3), of u] same_frame_SomeD [OF same_frame_sym [OF assms(3)], of u]
    by (cases "replays s u"; cases "replays s' u") (auto simp: writer_marks_def)
  then show ?thesis using assms(3)
    by (simp add: marks_same_def strategy_views [OF assms(1)] strategy_views [OF assms(2)] same_frame_def)
qed

text \<open>Every operation ends with the loop.\<close>

lemma work_marks:
  assumes its: "\<And>n. iteration_ok (its n)" and inv: "strategy_inv {} {} q H C"
  shows "\<exists>q' C'. work_state_until_stable (\<lambda>n. its (Suc n)) q = Some q' \<and> strategy_inv {} {} q' H C'
    \<and> prefix C C' \<and> stable q' \<and> marks_same q q'"
proof -
  obtain s where s: "shared_of q = Some s" using strategy_inv_shared [OF inv] by blast
  obtain q' C' s' where "work_state_until_stable (\<lambda>n. its (Suc n)) q = Some q'"
    "strategy_inv {} {} q' H C'" "stable q'" "prefix C C'" "shared_of q' = Some s'" "same_frame s s'"
    using work_until_stable_inv [where its = "\<lambda>n. its (Suc n)", OF its inv s] by blast
  then show ?thesis using same_frame_marks [OF s] by blast
qed

lemma live_new:
  assumes "shared_inv s H C" "H (token s) = []" "\<forall>u. u \<noteq> token s \<longrightarrow> replays s' u = replays s u"
    "replays s' (token s) = Some (rs_new wr_new (stream_cmp_distance s))"
    "stream_cmp_distance s' = stream_cmp_distance s" "target_quorum_size s' = target_quorum_size s"
  shows "live s' H C (token s)" "u \<noteq> token s \<Longrightarrow> live s H C u \<Longrightarrow> live s' H C u"
  using assms by (auto simp: live_def rs_new_def stream_simps deque_simps)

lemma add_replay_shared:
  assumes inv: "shared_inv s H C" and new: "H (token s) = []"
    and s': "s' = s\<lparr>replays := (replays s)(token s \<mapsto> rs_new wr_new (stream_cmp_distance s)), token := token s + 1\<rparr>"
  shows "shared_inv s' H C"
proof -
  have none: "replays s (token s) = None" using inv by (auto simp: shared_inv_def dom_def)
  have "provenance s' H C"
    using inv unfolding shared_inv_def provenance_def by (fastforce simp: s')
  moreover have "has_source s' H C"
    using inv unfolding shared_inv_def has_source_def by (fastforce simp: s')
  moreover have "delay_bounded s'"
  proof -
    have "delay_bounded s" using inv by (simp add: shared_inv_def)
    then consider "mr_delayed_data_len (canonical_stream s) = 0"
      | u x where "replays s u = Some x"
          "mr_delayed_data_len (canonical_stream s) \<le> wr_delayed_data_len (rs_r x)"
      by (auto simp: delay_bounded_def)
    then show ?thesis
    proof cases
      case 2
      then have "u \<noteq> token s" using none by auto
      then show ?thesis using 2 by (auto simp: delay_bounded_def s')
    qed (simp add: delay_bounded_def s')
  qed
  moreover have "replay_ok s' H C u x" if "replays s' u = Some x" for u x
    using that shared_inv_replay [OF inv, of u x] new
    by (auto simp: s' replay_ok_def rs_new_def stream_simps split: if_splits)
  moreover have "dom (replays s') = {..<token s'}" using inv by (auto simp: shared_inv_def s')
  ultimately show ?thesis using inv by (simp add: shared_inv_def s')
qed

text \<open>A new replay starts with a new token in the reserve of the running strategy.\<close>

lemma quorum_new_inv:
  assumes inv: "quorum_inv {} m H C"
    and s': "s' = (qs m)\<lparr>replays := (replays (qs m))(token (qs m) \<mapsto> x), token := token (qs m) + 1\<rparr>"
    and sh: "shared_inv s' H C"
    and lv: "live s' H C (token (qs m))" "\<And>u. u \<noteq> token (qs m) \<Longrightarrow> live (qs m) H C u \<Longrightarrow> live s' H C u"
  shows "quorum_inv {} (m\<lparr>qs := s', q_reserve := insert (token (qs m)) (q_reserve m)\<rparr>) H C"
proof -
  let ?m = "m\<lparr>qs := s', q_reserve := insert (token (qs m)) (q_reserve m)\<rparr>"
  have base: "quorum_base m H C" using inv by (simp add: quorum_inv_def)
  note B = quorum_baseD [OF base]
  have dd: "dead s' H C u" if "dead (qs m) H C u" "u \<noteq> token (qs m)" for u
    using that by (auto simp: dead_def s')
  have qm: "qmember s' H C u" if "u \<in> quorum m" for u
    using B(7) [OF that] B(4) that by (auto simp: qmember_def s')
  have "quorum_base ?m H C"
    unfolding quorum_base_def using B sh lv dd qm by (auto simp: s' less_Suc_eq)
  moreover have "live s' H C u \<and> matched s' C u" if "u \<in> quorum m" for u
    using inv that lv(2) [of u] B(4) unfolding quorum_inv_def by (auto simp: matched_def s')
  moreover have "\<exists>u r. u \<in> quorum m \<and> replays s' u = Some r
      \<and> min (length C) (wr_delayed_data_len (rs_r r)) \<le> mr_delayed_data_len (canonical_stream s')"
    using inv B(4) unfolding quorum_inv_def by (fastforce simp: s')
  ultimately show ?thesis using inv by (auto simp: quorum_inv_def s')
qed

lemma stalemate_new_inv:
  assumes inv: "stalemate_inv {} m H C"
    and s': "s' = (ms m)\<lparr>replays := (replays (ms m))(token (ms m) \<mapsto> x), token := token (ms m) + 1\<rparr>"
    and sh: "shared_inv s' H C" and x: "\<not> wr_finished (rs_r x)"
    and lv: "live s' H C (token (ms m))" "\<And>u. u \<noteq> token (ms m) \<Longrightarrow> live (ms m) H C u \<Longrightarrow> live s' H C u"
  shows "stalemate_inv {} (m\<lparr>ms := s', m_reserve := insert (token (ms m)) (m_reserve m)\<rparr>) H C"
proof -
  let ?t = "token (ms m)"
  let ?m = "m\<lparr>ms := s', m_reserve := insert ?t (m_reserve m)\<rparr>"
  note I = stalemate_invD [OF inv]
  have ids: "candidate_ids ?m = candidate_ids m" by (simp add: candidate_ids_def)
  have fresh: "?t \<notin> candidate_ids m" using I(4) by auto
  show ?thesis
  proof (rule stalemate_invI, unfold ids)
    show "live (ms ?m) H C u" if "u \<in> m_reserve ?m" for u
      using that lv I(5) [of u] by (cases "u = ?t") auto
    show "\<not> wr_finished (rs_r r)" if "u \<in> m_reserve ?m" "replays (ms ?m) u = Some r" for u r
      using that I(6) [of u r] x by (auto simp: s' split: if_splits)
    show "cand_ok (ms ?m) H C b u" if "(b, v) \<in> set (candidates ?m)" "u \<in> set v" for b v u
    proof -
      have "u \<noteq> ?t" using I(4) that by (force simp: candidate_ids_def)
      then show ?thesis using I(11) [of b v u] that lv(2) by (auto simp: cand_ok_def matched_def s')
    qed
    show "dead (ms ?m) H C u" if "u < token (ms ?m)" "u \<notin> m_reserve ?m" "u \<notin> candidate_ids m" for u
      using that I(12) [of u] by (auto simp: s' less_Suc_eq dead_def)
  qed (use sh I fresh in \<open>auto simp: s'\<close>)
qed

lemma both_add_replay_inv:
  assumes inv: "strategy_inv {} {} q H C" and new: "H (strategy_tokens q) = []"
  shows "\<exists>q'. both_add_replay q wr_new = Some (q', strategy_tokens q) \<and> strategy_inv {} {} q' H C
    \<and> strategy_tokens q' = Suc (strategy_tokens q)
    \<and> map_option writer_marks (strategy_writer q' (strategy_tokens q)) = Some (0, False)
    \<and> (\<forall>u. u \<noteq> strategy_tokens q \<longrightarrow> strategy_writer q' u = strategy_writer q u)
    \<and> get_merged_replay q' = get_merged_replay q"
proof -
  obtain s where s: "shared_of q = Some s" "shared_inv s H C"
    using strategy_inv_shared [OF inv] by blast
  have tok: "strategy_tokens q = token s" by (rule strategy_views(2) [OF s(1)])
  let ?r = "rs_new wr_new (stream_cmp_distance s)"
  define s' where "s' = s\<lparr>replays := (replays s)(token s \<mapsto> ?r), token := token s + 1\<rparr>"
  have sh: "shared_inv s' H C" using add_replay_shared [OF s(2) _ s'_def] new tok by simp
  have lv: "live s' H C (token s)" "\<And>u. u \<noteq> token s \<Longrightarrow> live s H C u \<Longrightarrow> live s' H C u"
    using live_new [OF s(2), of s'] new tok by (auto simp: s'_def)
  have views: "\<And>q'. shared_of q' = Some s' \<Longrightarrow> strategy_tokens q' = Suc (token s)
      \<and> map_option writer_marks (strategy_writer q' (token s)) = Some (0, False)
      \<and> (\<forall>u. u \<noteq> token s \<longrightarrow> strategy_writer q' u = strategy_writer q u)
      \<and> get_merged_replay q' = get_merged_replay q"
    using strategy_views [OF s(1)] by (simp add: strategy_views s'_def rs_new_def writer_marks_def stream_simps)
  have add: "shared_add_replay s wr_new = (s', token s)" by (simp add: shared_add_replay_def s'_def Let_def)
  show ?thesis
  proof (cases q)
    case (Quorum m)
    then have m: "qs m = s" "quorum_inv {} m H C" using s(1) inv by auto
    then have "quorum_inv {} (m\<lparr>qs := s', q_reserve := insert (token s) (q_reserve m)\<rparr>) H C"
      using quorum_new_inv [OF m(2), of s' ?r] sh lv by (simp add: s'_def)
    then show ?thesis using Quorum m(1) add views [of "Quorum (m\<lparr>qs := s', q_reserve := insert (token s) (q_reserve m)\<rparr>)"] tok
      by (simp add: quorum_add_replay_def)
  next
    case (Stalemate m)
    let ?m = "m\<lparr>ms := s', m_reserve := insert (token s) (m_reserve m)\<rparr>"
    have m: "ms m = s" "stalemate_inv {} m H C" "delays_known {} s" using Stalemate s(1) inv by auto
    then have "stalemate_inv {} ?m H C"
      using stalemate_new_inv [OF m(2), of s' ?r] sh lv by (simp add: s'_def rs_new_def stream_simps)
    moreover have "delays_known {} s'"
      using m(3) by (auto simp: delays_known_def s'_def rs_new_def stream_simps)
    ultimately have "strategy_inv {} {} (Stalemate ?m) H C" by simp
    then show ?thesis using Stalemate m(1) add views [of "Stalemate ?m"] tok
      by (simp add: stalemate_add_replay_def)
  qed (use inv in simp)
qed

lemma replay_added_contract:
  assumes inv: "strategy_inv {} {} q H C" and its: "\<forall>n. iteration_ok (its n)"
    and new: "H (strategy_tokens q) = []"
  shows "\<exists>q' C'. replay_added its q wr_new = Some (q', strategy_tokens q) \<and> strategy_inv {} {} q' H C'
    \<and> prefix C C' \<and> stable q' \<and> strategy_tokens q' = Suc (strategy_tokens q)
    \<and> map_option writer_marks (strategy_writer q' (strategy_tokens q)) = Some (0, False)
    \<and> (\<forall>u. u \<noteq> strategy_tokens q \<longrightarrow>
         map_option writer_marks (strategy_writer q' u) = map_option writer_marks (strategy_writer q u))
    \<and> map_option mr_header (get_merged_replay q') = map_option mr_header (get_merged_replay q)"
proof -
  obtain q1 where q1: "both_add_replay q wr_new = Some (q1, strategy_tokens q)" "strategy_inv {} {} q1 H C"
    "strategy_tokens q1 = Suc (strategy_tokens q)"
    "map_option writer_marks (strategy_writer q1 (strategy_tokens q)) = Some (0, False)"
    "\<forall>u. u \<noteq> strategy_tokens q \<longrightarrow> strategy_writer q1 u = strategy_writer q u"
    "get_merged_replay q1 = get_merged_replay q"
    using both_add_replay_inv [OF inv new] by blast
  obtain q2 C2 where q2: "work_state_until_stable (\<lambda>n. its (Suc n)) q1 = Some q2" "strategy_inv {} {} q2 H C2"
    "prefix C C2" "stable q2" "marks_same q1 q2"
    using work_marks [OF _ q1(2)] its by blast
  have "replay_added its q wr_new = Some (q2, strategy_tokens q)"
    using q1(1) q2(1) by (simp add: replay_added_def)
  then show ?thesis using q1(3-6) q2(2-5) by (auto simp: marks_same_def simp del: map_option_eq_Some)
qed

text \<open>Noting that a delayed position was seen touches nothing else.\<close>

lemma started_simps:
  "shared_inv (s\<lparr>delayed_data_started := b\<rparr>) H C = shared_inv s H C"
  "live (s\<lparr>delayed_data_started := b\<rparr>) H C t = live s H C t"
  "dead (s\<lparr>delayed_data_started := b\<rparr>) H C t = dead s H C t"
  "cand_ok (s\<lparr>delayed_data_started := b\<rparr>) H C k t = cand_ok s H C k t"
proof -
  show "shared_inv (s\<lparr>delayed_data_started := b\<rparr>) H C = shared_inv s H C"
    unfolding shared_inv_def replay_ok_def provenance_def delay_bounded_def has_source_def by simp
  show "live (s\<lparr>delayed_data_started := b\<rparr>) H C t = live s H C t" by (simp add: live_def)
  then show "cand_ok (s\<lparr>delayed_data_started := b\<rparr>) H C k t = cand_ok s H C k t"
    by (simp add: cand_ok_def matched_def)
  show "dead (s\<lparr>delayed_data_started := b\<rparr>) H C t = dead s H C t" by (simp add: dead_def)
qed

lemma both_data_updated_inv:
  assumes inv: "strategy_inv {} {t} q H C" and it: "iteration_ok it" and t: "t < strategy_tokens q"
  shows "\<exists>q'. both_replay_data_updated it q t = Some q' \<and> strategy_inv {} {} q' H C \<and> marks_same q q'"
proof (cases q)
  case (Quorum m)
  then have m: "quorum_inv {t} m H C" using inv by simp
  show ?thesis
  proof (cases "t \<in> quorum m")
    case True
    have "quorum_base m H C" "delayed_data_started (qs m)"
      "\<And>u. u \<in> quorum m \<Longrightarrow> live (qs m) H C u \<and> matched (qs m) C u"
      using m by (auto simp: quorum_inv_def)
    from update_delayed_position_inv [OF it this] obtain m' where
      "update_delayed_position it m = Some m'" "quorum_inv {} m' H C" "same_frame (qs m) (qs m')" by blast
    then show ?thesis using Quorum True same_frame_marks [of q "qs m" "Quorum m'" "qs m'"]
      by (simp add: quorum_replay_data_updated_def)
  next
    case False
    then have "quorum_inv {} m H C" using m by (simp add: quorum_inv_def)
    then show ?thesis using Quorum False same_frame_marks [of q "qs m" q "qs m"]
      by (simp add: quorum_replay_data_updated_def)
  qed
next
  case (Stalemate m)
  then have m: "stalemate_inv {} m H C" "delays_known {t} (ms m)" using inv by auto
  have "\<exists>m1. (if t \<in> m_reserve m then try_move_replay_to_candidates m t else Some m) = Some m1
      \<and> stalemate_inv {} m1 H C \<and> same_frame (ms m) (ms m1)"
    using try_move_inv [OF m(1), of t] m(1) by (auto simp: stalemate_frame_def)
  then obtain m1 where m1: "(if t \<in> m_reserve m then try_move_replay_to_candidates m t else Some m) = Some m1"
    "stalemate_inv {} m1 H C" "same_frame (ms m) (ms m1)" by blast
  have dk: "delays_known {t} (ms m1)" using m(2) m1(3) by (rule delays_known_frame)
  have "t < token (ms m1)" using t Stalemate m1(3) by (simp add: strategy_tokens_def same_frame_def)
  then obtain r where r: "replays (ms m1) t = Some r"
    using shared_inv_tokenD stalemate_invD(1) [OF m1(2)] by blast
  let ?m = "if \<not> delayed_data_started (ms m1) \<and> wr_delayed_data_len (rs_r r) > 0
      then m1\<lparr>ms := (ms m1)\<lparr>delayed_data_started := True\<rparr>\<rparr> else m1"
  have run: "stalemate_replay_data_updated m t = Some ?m"
    using m1(1) r by (simp add: stalemate_replay_data_updated_def get_replay_def)
  have "stalemate_inv {} (m1\<lparr>ms := (ms m1)\<lparr>delayed_data_started := True\<rparr>\<rparr>) H C"
    using m1(2) by (simp add: stalemate_inv_def candidate_ids_def started_simps)
  moreover have "delays_known {} (ms ?m)"
  proof (cases "delayed_data_started (ms m1) \<or> wr_delayed_data_len (rs_r r) > 0")
    case False
    have "wr_delayed_data_len (rs_r x) = 0" if "replays (ms m1) u = Some x" for u x
      using that dk r False by (cases "u = t") (auto simp: delays_known_def)
    then show ?thesis using False by (simp add: delays_known_def)
  qed (auto simp: delays_known_def)
  ultimately have "strategy_inv {} {} (Stalemate ?m) H C" using m1(2) by simp
  moreover have "marks_same q (Stalemate ?m)"
    using same_frame_marks [of q "ms m" "Stalemate m1" "ms m1"] Stalemate m1(3)
    by (auto simp: marks_same_def strategy_tokens_def strategy_writer_def get_merged_replay_def get_replay_def)
  ultimately show ?thesis using Stalemate run by simp
qed (use inv in simp)

lemma replay_data_updated_contract:
  assumes inv: "strategy_inv {} {t} q H C" and its: "\<forall>n. iteration_ok (its n)" and t: "t < strategy_tokens q"
  shows "\<exists>q' C'. replay_data_updated its q t = Some q' \<and> strategy_inv {} {} q' H C' \<and> prefix C C'
    \<and> stable q' \<and> marks_same q q'"
proof -
  obtain q1 where q1: "both_replay_data_updated (its 0) q t = Some q1" "strategy_inv {} {} q1 H C" "marks_same q q1"
    using both_data_updated_inv [OF inv _ t, of "its 0"] its by blast
  obtain q2 C2 where q2: "work_state_until_stable (\<lambda>n. its (Suc n)) q1 = Some q2" "strategy_inv {} {} q2 H C2"
    "prefix C C2" "stable q2" "marks_same q1 q2"
    using work_marks [OF _ q1(2)] its by blast
  then show ?thesis using q1(1,3) by (auto simp: replay_data_updated_def marks_same_def simp del: map_option_eq_Some)
qed

lemma both_ended_inv:
  assumes inv: "strategy_inv {t} {} q H C"
  shows "\<exists>q'. both_replay_ended q t = Some q' \<and> strategy_inv {} {} q' H C \<and> marks_same q q'"
proof (cases q)
  case (Quorum m)
  then show ?thesis using inv same_frame_marks [of q "qs m" q "qs m"]
    by (simp add: quorum_replay_ended_def)
next
  case (Stalemate m)
  then have m: "stalemate_inv {t} m H C" "delays_known {} (ms m)" using inv by auto
  show ?thesis
  proof (cases "t \<in> m_reserve m")
    case True
    obtain m1 where m1: "try_move_replay_to_candidates m t = Some m1" "stalemate_inv {} m1 H C"
      "stalemate_frame m m1"
      using try_move_inv [OF m(1) True] by auto
    have frame: "same_frame (ms m) (ms m1)" using m1(3) by (simp add: stalemate_frame_def)
    have "strategy_inv {} {} (Stalemate m1) H C"
      using m1(2) delays_known_frame [OF m(2) frame] by simp
    then show ?thesis using Stalemate True m1(1) same_frame_marks [of q "ms m" "Stalemate m1" "ms m1"] frame
      by (simp add: stalemate_replay_ended_def)
  next
    case False
    then have "stalemate_inv {} m H C" using m(1) unfolding stalemate_inv_def by blast
    then show ?thesis using Stalemate False m(2) same_frame_marks [of q "ms m" q "ms m"]
      by (simp add: stalemate_replay_ended_def)
  qed
qed (use inv in simp)

lemma replay_removed_contract:
  assumes inv: "strategy_inv {t} {} q H C" and its: "\<forall>n. iteration_ok (its n)"
  shows "\<exists>q' C'. replay_removed its q t = Some q' \<and> strategy_inv {} {} q' H C' \<and> prefix C C'
    \<and> stable q' \<and> marks_same q q'"
proof -
  obtain q1 where q1: "both_replay_ended q t = Some q1" "strategy_inv {} {} q1 H C" "marks_same q q1"
    using both_ended_inv [OF inv] by blast
  obtain q2 C2 where q2: "work_state_until_stable (\<lambda>n. its (Suc n)) q1 = Some q2" "strategy_inv {} {} q2 H C2"
    "prefix C C2" "stable q2" "marks_same q1 q2"
    using work_marks [OF _ q1(2)] its by blast
  then show ?thesis using q1(1,3) by (auto simp: replay_removed_def marks_same_def simp del: map_option_eq_Some)
qed

text \<open>A change of the canonical stream that leaves its data and its positions alone.\<close>

lemma canon_marks_inv:
  assumes inv: "strategy_inv F X q H C" and q: "shared_of q = Some s"
    and c: "mr_data c = mr_data (canonical_stream s)"
      "mr_delayed_data_len c = mr_delayed_data_len (canonical_stream s)"
      "mr_finished c = mr_finished (canonical_stream s)"
      "mr_header c = None \<Longrightarrow> mr_header (canonical_stream s) = None"
  shows "strategy_inv F X (set_shared q (s\<lparr>canonical_stream := c\<rparr>)) H C"
proof -
  have sh: "shared_inv s H C" using strategy_inv_shared [OF inv] q by auto
  let ?s = "s\<lparr>canonical_stream := c\<rparr>"
  have "mr_rep c C" using sh mr_rep_cong [OF c(1,2), of C] by (simp add: shared_inv_def)
  then have sh': "shared_inv ?s H C"
    using sh c by (auto simp: shared_inv_def replay_ok_def provenance_def delay_bounded_def has_source_def)
  note defs = live_def dead_def matched_def qmember_def cand_ok_def
  show ?thesis
  proof (cases q)
    case (Quorum m)
    then show ?thesis using inv q sh' c(2)
      by (auto simp: quorum_inv_def quorum_base_def defs)
  next
    case (Stalemate m)
    then show ?thesis using inv q sh' c(2)
      by (auto simp: stalemate_inv_def candidate_ids_def delays_known_def defs)
  qed (use inv in simp)
qed

lemma reader_registers_contract:
  assumes inv: "strategy_inv F X q H C"
  shows "\<exists>q' c. reader_registers q r = Some q' \<and> strategy_inv F X q' H C \<and> get_merged_replay q = Some c
    \<and> get_merged_replay q' = Some (mr_wait_for_read_event c r)
    \<and> strategy_writer q' = strategy_writer q \<and> strategy_tokens q' = strategy_tokens q \<and> stable q' = stable q"
proof -
  obtain s where s: "shared_of q = Some s" using strategy_inv_shared [OF inv] by blast
  let ?s = "s\<lparr>canonical_stream := mr_wait_for_read_event (canonical_stream s) r\<rparr>"
  have s': "shared_of (set_shared q ?s) = Some ?s" using s shared_of_Swapping [OF s] by (simp add: merge_simps)
  have "strategy_writer (set_shared q ?s) t = strategy_writer q t" for t
    by (simp add: strategy_views(1) [OF s] strategy_views(1) [OF s'])
  then have "strategy_writer (set_shared q ?s) = strategy_writer q" by (rule ext)
  moreover have "stable (set_shared q ?s) = stable q"
    by (rule stable_set_replays [OF s]) (simp_all add: stream_simps mr_data_len_def)
  moreover have "strategy_inv F X (set_shared q ?s) H C"
    by (rule canon_marks_inv [OF inv s]) (simp_all add: stream_simps)
  ultimately show ?thesis using s s' by (simp add: reader_registers_def strategy_views)
qed

text \<open>Before there is a header, no data has come, so the header is the first thing added.\<close>

lemma set_header_inv:
  assumes inv: "strategy_inv F X q H C" and q: "shared_of q = Some s"
    and none: "mr_header (canonical_stream s) = None"
  shows "\<exists>c. mr_add_header (canonical_stream s) h = Some c
    \<and> strategy_inv F X (set_shared q (s\<lparr>canonical_stream := c\<rparr>)) H C
    \<and> mr_header c = Some h \<and> mr_data c = mr_data (canonical_stream s)
    \<and> mr_delayed_data_len c = mr_delayed_data_len (canonical_stream s)"
proof -
  have sh: "shared_inv s H C" using strategy_inv_shared [OF inv] q by auto
  have empty: "C = []"
    using sh none unfolding shared_inv_def provenance_def by (cases C) force+
  let ?c = "mr_notify_read_event ((canonical_stream s)\<lparr>mr_header := Some h\<rparr>)"
  have "mr_add_header (canonical_stream s) h = Some ?c"
    using sh empty by (intro mr_add_header_rep) (auto simp: shared_inv_def)
  moreover have "strategy_inv F X (set_shared q (s\<lparr>canonical_stream := ?c\<rparr>)) H C"
    by (rule canon_marks_inv [OF inv q]) (simp_all add: stream_simps)
  ultimately show ?thesis by (simp add: stream_simps)
qed

lemma replay_header_added_contract:
  assumes inv: "strategy_inv {} {} q H C" and w: "strategy_writer q t = Some w" "wr_header w = Some h"
  shows "\<exists>q'. replay_header_added q t = Some q' \<and> strategy_inv {} {} q' H C \<and> stable q' = stable q
    \<and> strategy_tokens q' = strategy_tokens q
    \<and> (\<forall>u. map_option writer_marks (strategy_writer q' u) = map_option writer_marks (strategy_writer q u))
    \<and> map_option mr_header (get_merged_replay q')
        = Some (case mr_header (the (get_merged_replay q)) of None \<Rightarrow> Some h | Some g \<Rightarrow> Some g)"
proof -
  obtain s r where s: "shared_of q = Some s" "replays s t = Some r" "w = rs_r r"
    using strategy_writerD [OF w(1)] by blast
  let ?w = "(rs_r r)\<lparr>wr_header := None\<rparr>"
  let ?s1 = "s\<lparr>replays := (replays s)(t \<mapsto> r\<lparr>rs_r := ?w\<rparr>)\<rparr>"
  let ?q1 = "set_shared q ?s1"
  have take: "wr_take_header (rs_r r) = Some (h, ?w)" using w(2) s(3) by (simp add: wr_take_header_def)
  have "with_writer q t (\<lambda>w. Some (w\<lparr>wr_header := None\<rparr>)) = Some ?q1"
    using with_writer_eq [OF s(1,2)] by simp
  then have i1: "strategy_inv {} {} ?q1 H C"
    using with_writer_silent [OF inv w(1), of "\<lambda>w. Some (w\<lparr>wr_header := None\<rparr>)" "w\<lparr>wr_header := None\<rparr>" ?q1 H "{}" "{}"]
      writer_rep [OF inv w(1)] by simp
  have ns: "q \<noteq> Swapping" using s(1) by auto
  have sh1: "shared_of ?q1 = Some ?s1" using ns by (simp add: merge_simps)
  have idem: "set_shared ?q1 x = set_shared q x" for x by (cases q) simp_all
  have upd: "update_replay s t (\<lambda>x. x\<lparr>rs_r := ?w\<rparr>) = Some ?s1" using s(2) by (simp add: update_replay_def)
  have marks: "map_option writer_marks (map_option rs_r (replays ?s1 u)) = map_option writer_marks (map_option rs_r (replays s u))" for u
    using s(2) by (simp add: writer_marks_def)
  show ?thesis
  proof (cases "mr_header (canonical_stream s)")
    case (Some g)
    have "replay_header_added q t = Some ?q1"
      using s(1,2) take upd Some by (simp add: replay_header_added_def get_replay_def)
    moreover have "stable ?q1 = stable q" by (rule stable_set_replays [OF s(1)]) simp_all
    ultimately show ?thesis using i1 Some marks
      by (simp add: strategy_views [OF s(1)] strategy_views [OF sh1])
  next
    case None
    then have "mr_header (canonical_stream ?s1) = None" by simp
    from set_header_inv [OF i1 sh1 this, of h] obtain c where c:
      "mr_add_header (canonical_stream ?s1) h = Some c"
      "strategy_inv {} {} (set_shared ?q1 (?s1\<lparr>canonical_stream := c\<rparr>)) H C"
      "mr_header c = Some h" "mr_data c = mr_data (canonical_stream ?s1)"
      "mr_delayed_data_len c = mr_delayed_data_len (canonical_stream ?s1)" by blast
    let ?s2 = "?s1\<lparr>canonical_stream := c\<rparr>"
    have sh2: "shared_of (set_shared q ?s2) = Some ?s2" using ns by (simp add: merge_simps)
    have "replay_header_added q t = Some (set_shared q ?s2)"
      using s(1,2) take upd None c(1) by (simp add: replay_header_added_def get_replay_def)
    moreover have "stable (set_shared q ?s2) = stable q"
      by (rule stable_set_replays [OF s(1)]) (use c in \<open>simp_all add: mr_data_len_def\<close>)
    ultimately show ?thesis using c(2,3) None marks unfolding idem
      by (simp add: strategy_views [OF s(1)] strategy_views [OF sh2])
  qed
qed

text \<open>
  When every replay has ended and the strategy was told of everything, a settled strategy
  is in a stalemate with nobody left in it: a quorum would have caught up with its members
  and would have given up, and candidates or a reserve would have made it move on.
\<close>

lemma all_over:
  assumes inv: "strategy_inv {} {} q H C" and st: "stable q"
    and over: "\<And>t. t < strategy_tokens q \<Longrightarrow>
      map_option writer_marks (strategy_writer q t) = Some (length (H t), True)"
  shows "\<exists>m. q = Stalemate m \<and> m_reserve m = {} \<and> candidates m = []
    \<and> mr_delayed_data_len (canonical_stream (ms m)) = length C"
proof -
  obtain s where s: "shared_of q = Some s" "shared_inv s H C" "delays_known {} s"
    using strategy_inv_shared [OF inv] by blast
  have fin: "wr_finished (rs_r r) \<and> wr_delayed_data_len (rs_r r) = length (H t)"
    if "replays s t = Some r" for t r
    using over [of t] shared_inv_token [OF s(2) that] that
    by (simp add: strategy_views [OF s(1)] writer_marks_def)
  show ?thesis
  proof (cases q)
    case (Quorum m)
    then have m: "qs m = s" "quorum_inv {} m H C" using s(1) inv by auto
    then obtain t r where t: "t \<in> quorum m" "replays s t = Some r"
      "min (length C) (wr_delayed_data_len (rs_r r)) \<le> mr_delayed_data_len (canonical_stream s)"
      by (auto simp: quorum_inv_def)
    moreover have "quorum_base m H C" using m(2) by (simp add: quorum_inv_def)
    then have "length C \<le> length (H t)"
      using quorum_baseD(7) [of m H C t] t(1) by (auto simp: qmember_def)
    ultimately have "length C \<le> mr_delayed_data_len (canonical_stream s)" using fin [OF t(2)] by simp
    then have "has_to_enter_stalemate m"
      using m(1) shared_inv_canon_len [OF s(2)] by (simp add: has_to_enter_stalemate_def canon_delayed_data_len_def)
    then show ?thesis using st Quorum by (simp add: stable_def)
  next
    case (Stalemate m)
    then have m: "ms m = s" "stalemate_inv {} m H C" using s(1) inv by auto
    note I = stalemate_invD [OF m(2), unfolded m(1)]
    have res: "m_reserve m = {}"
    proof (rule ccontr)
      assume "m_reserve m \<noteq> {}"
      then obtain t where t: "t \<in> m_reserve m" by blast
      then obtain r where r: "replays s t = Some r" using shared_inv_tokenD [OF s(2)] I(3) by blast
      show False using I(6) [OF t _ r] fin [OF r] by simp
    qed
    have cand: "candidates m = []"
    proof (rule ccontr)
      assume ne: "candidates m \<noteq> []"
      then obtain b v where bv: "(b, v) \<in> set (candidates m)" by (cases "candidates m") auto
      obtain t where t: "t \<in> set v" using I(10) [OF bv] by (cases v) auto
      have co: "cand_ok s H C b t" by (rule I(11) [OF bv t])
      then obtain r where r: "replays s t = Some r" by (auto simp: cand_ok_def live_def)
      have "0 < wr_delayed_data_len (rs_r r)" using co fin [OF r] by (auto simp: cand_ok_def)
      then have "delayed_data_started s" using s(3) r by (auto simp: delays_known_def)
      then have "can_exit_stalemate m" using ne res m(1) by (simp add: can_exit_stalemate_def)
      then show False using st Stalemate by (simp add: stable_def)
    qed
    show ?thesis using Stalemate res cand I(2) m(1) by simp
  qed (use inv in simp)
qed

lemma strategy_finish_contract:
  assumes inv: "strategy_inv {} {} q H C" and st: "stable q"
    and over: "\<And>t. t < strategy_tokens q \<Longrightarrow>
      map_option writer_marks (strategy_writer q t) = Some (length (H t), True)"
  shows "\<exists>q' c. strategy_finish q = Some q' \<and> get_merged_replay q = Some c
    \<and> get_merged_replay q' = Some (mr_finish c) \<and> mr_delayed_data_len c = length C"
proof -
  obtain m where m: "q = Stalemate m" "m_reserve m = {}" "candidates m = []"
    "mr_delayed_data_len (canonical_stream (ms m)) = length C"
    using all_over [OF assms] by blast
  have "shared_inv (ms m) H C" using inv m(1) stalemate_invD(1) by auto
  then show ?thesis using m shared_inv_canon_len [of "ms m" H C]
    by (simp add: strategy_finish_def get_merged_replay_def canon_delayed_data_len_def)
qed

subsection \<open>The interpretation\<close>

text \<open>\<open>QuorumMergeStrategy\<close> starts in a stalemate with no replays.\<close>

lemma strategy_new_inv:
  assumes "0 < tq"
  shows "strategy_inv {} {} (strategy_new tq dist) (\<lambda>_. []) []" "stable (strategy_new tq dist)"
    "strategy_tokens (strategy_new tq dist) = 0"
proof -
  have "shared_inv (shared_new tq dist) (\<lambda>_. []) []"
    using assms mr_rep_new
    by (simp add: shared_inv_def shared_new_def provenance_def delay_bounded_def has_source_def stream_simps)
  then have "stalemate_inv {} (stalemate_new tq dist) (\<lambda>_. []) []"
    by (simp add: stalemate_inv_def stalemate_new_def candidate_ids_def shared_new_def stream_simps)
  then show "strategy_inv {} {} (strategy_new tq dist) (\<lambda>_. []) []"
    by (simp add: strategy_new_def delays_known_def stalemate_new_def shared_new_def)
  show "stable (strategy_new tq dist)" "strategy_tokens (strategy_new tq dist) = 0"
    by (simp_all add: stable_def strategy_new_def stalemate_new_def can_exit_stalemate_def
        shared_new_def strategy_tokens_def)
qed

lemma quorum_ops_simps [simp]:
  "mo_replay_added quorum_ops = replay_added" "mo_replay_removed quorum_ops = replay_removed"
  "mo_replay_header_added quorum_ops = replay_header_added"
  "mo_replay_data_updated quorum_ops = replay_data_updated" "mo_finish quorum_ops = strategy_finish"
  "mo_get_merged_replay quorum_ops = get_merged_replay" "mo_writer quorum_ops = strategy_writer"
  "mo_with_writer quorum_ops = with_writer" "mo_reader_waits quorum_ops = reader_registers"
  by (simp_all add: quorum_ops_def)

lemma with_writer_contract:
  assumes "strategy_writer q t = Some w" "f w = Some w'"
  shows "\<exists>q'. with_writer q t f = Some q' \<and> strategy_writer q' = (strategy_writer q)(t \<mapsto> w')
    \<and> get_merged_replay q' = get_merged_replay q \<and> strategy_tokens q' = strategy_tokens q
    \<and> stable q' = stable q"
proof -
  obtain s r where s: "shared_of q = Some s" "replays s t = Some r" "w = rs_r r"
    using strategy_writerD [OF assms(1)] by blast
  let ?s = "s\<lparr>replays := (replays s)(t \<mapsto> r\<lparr>rs_r := w'\<rparr>)\<rparr>"
  have run: "with_writer q t f = Some (set_shared q ?s)"
    using with_writer_eq [of q s t r f w'] s assms(2) by simp
  have sh: "shared_of (set_shared q ?s) = Some ?s" using s(1) by (intro shared_of_set_shared) auto
  have "stable (set_shared q ?s) = stable q" by (rule stable_set_replays [OF s(1)]) simp_all
  moreover have "strategy_writer (set_shared q ?s) = (strategy_writer q)(t \<mapsto> w')"
    by (rule ext) (simp add: strategy_views(1) [OF s(1)] strategy_views(1) [OF sh])
  ultimately show ?thesis using run by (simp add: strategy_views [OF s(1)] strategy_views [OF sh])
qed

definition orders_ok :: "(nat \<Rightarrow> iteration) \<Rightarrow> bool" where
  "orders_ok its \<longleftrightarrow> (\<forall>n. iteration_ok (its n))"

interpretation qms: merge_contract quorum_ops strategy_inv stable strategy_tokens orders_ok
proof (unfold_locales, unfold quorum_ops_simps orders_ok_def)
  fix F X q H C t
  assume inv: "strategy_inv F X q H C" and t: "t < strategy_tokens q"
  obtain s where s: "shared_of q = Some s" "shared_inv s H C" using strategy_inv_shared [OF inv] by blast
  then obtain r where "replays s t = Some r"
    using t shared_inv_tokenD [OF s(2)] by (auto simp: strategy_views(2) [OF s(1)])
  then have "strategy_writer q t = Some (rs_r r)" by (simp add: strategy_views(1) [OF s(1)])
  then show "\<exists>w. strategy_writer q t = Some w \<and> deque_rep (wr_data w) (H t) \<and> wr_delayed_data_len w \<le> length (H t)"
    using writer_rep [OF inv] by blast
next
  fix F X q H C
  assume inv: "strategy_inv F X q H C"
  then show "\<exists>c. get_merged_replay q = Some c \<and> mr_rep c C \<and> \<not> mr_finished c"
    using strategy_inv_shared [OF inv] strategy_views(3) by (fastforce simp: shared_inv_def)
next
  fix F X q H C t w d buf f q'
  assume *: "strategy_inv F X q H C" "strategy_writer q t = Some w" "\<not> wr_finished w"
    "map_option mr_header (get_merged_replay q) \<noteq> Some None" "deque_rep d (H t @ buf)"
    "window_start d = window_start (wr_data w)" "f w = Some (w\<lparr>wr_data := d\<rparr>)" "with_writer q t f = Some q'"
  show "strategy_inv F X q' (H(t := H t @ buf)) C"
    by (rule with_writer_silent [OF *(1,2,7,8)]) (use * writer_rep [OF *(1,2)] in auto)
next
  fix F X q H C t w v f q'
  assume *: "strategy_inv F X q H C" "strategy_writer q t = Some w" "wr_delayed_data_len w \<le> v"
    "v \<le> length (H t)" "f w = Some (w\<lparr>wr_delayed_data_len := v\<rparr>)" "with_writer q t f = Some q'"
  show "strategy_inv F (if v = wr_delayed_data_len w then X else insert t X) q' H C"
    by (rule with_writer_silent [OF *(1,2,5,6)]) (use * writer_rep [OF *(1,2)] in auto)
next
  fix F X q H C t w f q'
  assume *: "strategy_inv F X q H C" "strategy_writer q t = Some w" "f w = Some (wr_finish w)" "with_writer q t f = Some q'"
  show "strategy_inv (insert t F) X q' H C"
    by (rule with_writer_silent [OF *]) (use writer_rep [OF *(1,2)] in \<open>auto simp: stream_simps\<close>)
next
  fix F X q H C t w oh f q'
  assume *: "strategy_inv F X q H C" "strategy_writer q t = Some w" "f w = Some (w\<lparr>wr_header := oh\<rparr>)"
    "with_writer q t f = Some q'"
  show "strategy_inv F X q' H C"
    by (rule with_writer_silent [OF *]) (use writer_rep [OF *(1,2)] in auto)
qed (rule strategy_inv_mono with_writer_contract replay_added_contract replay_header_added_contract
  replay_data_updated_contract [unfolded marks_same_def] replay_removed_contract [unfolded marks_same_def]
  strategy_finish_contract reader_registers_contract; (assumption | blast))+

end
