(* ===== verification/Merge_Growth.thy ===== *)
theory Merge_Growth
  imports Merge_Contract
begin

text \<open>
  What every operation of the strategy does to the canonical replay as its readers see it,
  whatever the state it starts from: the header stays once it is there, the delayed position
  never moves back, and a change of what readers may see wakes every reader that waits.
  The settings of the strategy never change.
\<close>

definition reader_view :: "merged_replay \<Rightarrow> replay_header option \<times> usize \<times> bool" where
  "reader_view c = (mr_header c, mr_delayed_data_len c, mr_finished c)"

definition view_evolves :: "merged_replay \<Rightarrow> merged_replay \<Rightarrow> bool" where
  "view_evolves c c' \<longleftrightarrow>
     mr_delayed_data_len c \<le> mr_delayed_data_len c' \<and>
     (\<forall>h. mr_header c = Some h \<longrightarrow> mr_header c' = Some h) \<and>
     (mr_finished c \<longrightarrow> mr_finished c') \<and>
     (reader_view c' = reader_view c \<and> mr_read_event c' = mr_read_event c \<or>
      wakers (mr_read_event c') = [] \<and>
      woken (mr_read_event c') = woken (mr_read_event c) @ wakers (mr_read_event c))"

definition evolves :: "shared_state \<Rightarrow> shared_state \<Rightarrow> bool" where
  "evolves s s' \<longleftrightarrow>
     target_quorum_size s' = target_quorum_size s \<and> stream_cmp_distance s' = stream_cmp_distance s \<and>
     view_evolves (canonical_stream s) (canonical_stream s')"

lemma view_evolves_refl [simp, intro]: "view_evolves c c"
  by (simp add: view_evolves_def)

lemma view_evolves_trans: "view_evolves a b \<Longrightarrow> view_evolves b c \<Longrightarrow> view_evolves a c"
  unfolding view_evolves_def by (auto intro: le_trans)

lemma evolves_refl [simp, intro]: "evolves s s"
  by (simp add: evolves_def)

lemma evolves_trans: "evolves a b \<Longrightarrow> evolves b c \<Longrightarrow> evolves a c"
  unfolding evolves_def by (auto intro: view_evolves_trans)

lemma foldM_evolves:
  assumes "foldM f xs s = Some s'" "\<And>x s s'. f x s = Some s' \<Longrightarrow> evolves (g s) (g s')"
  shows "evolves (g s) (g s')"
  using assms(1)
proof (induction xs arbitrary: s)
  case (Cons x xs)
  then obtain u where u: "f x s = Some u" "foldM f xs u = Some s'" by (auto split: bind_splits)
  then show ?case using assms(2) Cons.IH evolves_trans by blast
qed simp

subsection \<open>Operations on the shared state\<close>

lemma update_replay_evolves: "update_replay s t f = Some s' \<Longrightarrow> evolves s s'"
  by (auto simp: update_replay_def evolves_def split: option.splits)

lemma append_canon_evolves:
  assumes "append_canon_data s t n = Some s'" shows "evolves s s'"
proof -
  obtain c where c: "s' = s\<lparr>canonical_stream := c\<rparr>" "\<exists>d. c = (canonical_stream s)\<lparr>mr_data := d\<rparr>"
    using assms by (auto simp: append_canon_data_def mr_add_data_def split: bind_splits)
  then show ?thesis by (auto simp: evolves_def view_evolves_def reader_view_def)
qed

lemma update_canon_delayed_evolves:
  assumes "update_canon_delayed_data_len s n = Some s'" shows "evolves s s'"
proof (cases "s' = s")
  case False
  define k where "k = min n (canon_data_len s)"
  have "canon_delayed_data_len s < k"
    "s' = s\<lparr>canonical_stream := mr_notify_read_event ((canonical_stream s)\<lparr>mr_delayed_data_len := k\<rparr>)\<rparr>"
    using assms False unfolding k_def
    by (auto simp: update_canon_delayed_data_len_def mr_advance_delayed_data_def Let_def
        split: if_splits bind_splits)
  then show ?thesis
    by (simp add: evolves_def view_evolves_def stream_simps canon_delayed_data_len_def)
qed simp

lemma add_header_evolves:
  assumes "mr_add_header c h = Some c'" "mr_header c = None" shows "view_evolves c c'"
  using assms
  by (auto simp: mr_add_header_def view_evolves_def stream_simps split: bind_splits)

lemma finish_evolves: "view_evolves c (mr_finish c)"
  by (simp add: view_evolves_def mr_finish_def stream_simps)

subsection \<open>Operations on the two states\<close>

lemma update_delayed_position_evolves:
  "update_delayed_position it m = Some m' \<Longrightarrow> evolves (qs m) (qs m')"
  by (auto simp: update_delayed_position_def split: bind_splits dest!: update_canon_delayed_evolves)

lemma discard_after_merging_evolves:
  assumes "discard_data_after_merging it m = Some m'" shows "evolves (qs m) (qs m')"
proof -
  obtain f g xs ys s s' where f: "foldM (\<lambda>t s. update_replay s t f) xs (qs m) = Some s"
    "foldM (\<lambda>t s. update_replay s t g) ys s = Some s'" "m' = m\<lparr>qs := s'\<rparr>"
    using assms by (auto simp: discard_data_after_merging_def Let_def split: bind_splits)
  have "evolves (qs m) s" using f(1) by (rule foldM_evolves [where g = "\<lambda>s. s"]) (rule update_replay_evolves)
  moreover have "evolves s s'" using f(2) by (rule foldM_evolves [where g = "\<lambda>s. s"]) (rule update_replay_evolves)
  ultimately show ?thesis using f(3) evolves_trans by simp
qed

lemma merge_more_data_evolves:
  assumes "merge_more_data it m = Some m'" shows "evolves (qs m) (qs m')"
proof -
  obtain t n s m1 where s: "append_canon_data (qs m) t n = Some s"
    "discard_data_after_merging it (m\<lparr>qs := s\<rparr>) = Some m1" "update_delayed_position it m1 = Some m'"
    using assms by (auto simp: merge_more_data_def split: bind_splits)
  have "evolves s (qs m1)" using discard_after_merging_evolves [OF s(2)] by simp
  then show ?thesis
    using append_canon_evolves [OF s(1)] update_delayed_position_evolves [OF s(3)] evolves_trans by blast
qed

lemma try_move_evolves:
  "try_move_replay_to_candidates m t = Some m' \<Longrightarrow> evolves (ms m) (ms m')"
  by (auto simp: try_move_replay_to_candidates_def insert_candidate_def Let_def
      split: if_splits bind_splits dest!: update_replay_evolves)

lemma enter_stalemate_evolves:
  assumes "enter_stalemate it m = Some m'" shows "evolves (qs m) (ms m')"
proof -
  have "evolves (ms \<lparr>ms = qs m, candidates = [], m_reserve = q_reserve m \<union> quorum m\<rparr>) (ms m')"
    using assms unfolding enter_stalemate_def from_quorum_def
    by (rule foldM_evolves) (rule try_move_evolves)
  then show ?thesis by simp
qed

lemma exit_stalemate_evolves:
  assumes "exit_stalemate it m = Some m'" shows "evolves (ms m) (qs m')"
proof -
  define diverge where "diverge = (\<lambda>(k :: byte, v) s. foldM (\<lambda>t s. update_replay s t set_diverged) v s)"
  obtain t n s1 s2 cs g where s: "append_canon_data (ms m) t n = Some s1"
    "foldM diverge cs s1 = Some s2" "from_stalemate it s2 g (m_reserve m) = Some m'"
    using assms unfolding diverge_def by (auto simp: exit_stalemate_def Let_def split: bind_splits)
  have "evolves s1 s2"
    using s(2) by (rule foldM_evolves [where g = "\<lambda>s. s"])
      (use foldM_evolves [where g = "\<lambda>s. s" and f = "\<lambda>t s. update_replay s t set_diverged"]
        update_replay_evolves in \<open>fastforce simp: diverge_def\<close>)
  moreover have "evolves s2 (qs m')"
    using s(3) by (auto simp: from_stalemate_def Let_def split: bind_splits dest!: merge_more_data_evolves)
  ultimately show ?thesis using append_canon_evolves [OF s(1)] evolves_trans by blast
qed

subsection \<open>The operations of the trait\<close>

text \<open>\<open>q'\<close> comes from \<open>q\<close> by an operation.\<close>

definition q_evolves :: "strategy \<Rightarrow> strategy \<Rightarrow> bool" where
  "q_evolves q q' \<longleftrightarrow> (\<exists>s s'. shared_of q = Some s \<and> shared_of q' = Some s' \<and> evolves s s')"

lemma q_evolves_trans: "q_evolves a b \<Longrightarrow> q_evolves b c \<Longrightarrow> q_evolves a c"
  unfolding q_evolves_def by (auto intro: evolves_trans)

lemma swap_state_evolves: "swap_state it q = Some q' \<Longrightarrow> q_evolves q q'"
  by (cases q) (auto simp: q_evolves_def dest: enter_stalemate_evolves exit_stalemate_evolves)

lemma work_evolves:
  assumes "work_state_until_stable its q = Some q'" shows "q_evolves q q'"
proof (rule work_state_until_stable.raw_induct [OF _ assms])
  fix work its q q'
  assume IH: "\<And>its q q'. work its q = Some q' \<Longrightarrow> q_evolves q q'"
    and run: "should_change_state q \<bind> (\<lambda>change. if change
        then swap_state (its 0) q \<bind> work (\<lambda>n. its (Suc n)) else Some q) = Some q'"
  obtain ch where ch: "should_change_state q = Some ch" using run by (auto split: bind_splits)
  show "q_evolves q q'"
  proof (cases ch)
    case True
    then obtain q1 where "swap_state (its 0) q = Some q1" "work (\<lambda>n. its (Suc n)) q1 = Some q'"
      using run ch by (auto split: bind_splits)
    then show ?thesis using IH swap_state_evolves q_evolves_trans by blast
  next
    case False
    then show ?thesis using run ch by (cases q) (auto simp: q_evolves_def)
  qed
qed

lemma replay_added_evolves:
  assumes "replay_added its q r = Some (q', t)" shows "q_evolves q q'"
proof -
  obtain q1 u where q1: "both_add_replay q r = Some (q1, u)" "work_state_until_stable (\<lambda>n. its (Suc n)) q1 = Some q'"
    using assms by (auto simp: replay_added_def split: bind_splits)
  have "q_evolves q q1"
    using q1(1) by (cases q) (auto simp: q_evolves_def quorum_add_replay_def stalemate_add_replay_def
        shared_add_replay_def evolves_def Let_def)
  then show ?thesis using work_evolves [OF q1(2)] q_evolves_trans by blast
qed

lemma both_data_updated_evolves:
  assumes "both_replay_data_updated it q t = Some q'" shows "q_evolves q q'"
proof (cases q)
  case (Quorum m)
  then show ?thesis using assms
    by (auto simp: q_evolves_def quorum_replay_data_updated_def split: if_splits
        dest: update_delayed_position_evolves)
next
  case (Stalemate m)
  then obtain m' where m': "stalemate_replay_data_updated m t = Some m'" "q' = Stalemate m'"
    using assms by auto
  then obtain m1 where m1: "(if t \<in> m_reserve m then try_move_replay_to_candidates m t else Some m) = Some m1"
    "canonical_stream (ms m') = canonical_stream (ms m1)"
    "target_quorum_size (ms m') = target_quorum_size (ms m1)"
    "stream_cmp_distance (ms m') = stream_cmp_distance (ms m1)"
    by (auto simp: stalemate_replay_data_updated_def split: bind_splits if_splits)
  have "evolves (ms m) (ms m1)" using m1(1) by (auto split: if_splits dest: try_move_evolves)
  then show ?thesis using Stalemate m'(2) m1(2-) by (simp add: q_evolves_def evolves_def)
qed (use assms in simp)

lemma replay_data_updated_evolves: "replay_data_updated its q t = Some q' \<Longrightarrow> q_evolves q q'"
  by (auto simp: replay_data_updated_def split: bind_splits
      dest!: both_data_updated_evolves work_evolves intro: q_evolves_trans)

lemma both_ended_evolves: "both_replay_ended q t = Some q' \<Longrightarrow> q_evolves q q'"
  by (cases q) (auto simp: q_evolves_def quorum_replay_ended_def stalemate_replay_ended_def
      split: if_splits dest: try_move_evolves)

lemma replay_removed_evolves: "replay_removed its q t = Some q' \<Longrightarrow> q_evolves q q'"
  by (auto simp: replay_removed_def split: bind_splits
      dest!: both_ended_evolves work_evolves intro: q_evolves_trans)

lemma set_shared_evolves:
  "shared_of q = Some s \<Longrightarrow> evolves s s' \<Longrightarrow> q_evolves q (set_shared q s')"
  by (cases q) (auto simp: q_evolves_def)

lemma with_writer_evolves: "with_writer q t f = Some q' \<Longrightarrow> q_evolves q q'"
  by (auto simp: with_writer_def split: bind_splits intro!: set_shared_evolves) (simp add: evolves_def)

lemma replay_header_added_evolves:
  assumes "replay_header_added q t = Some q'" shows "q_evolves q q'"
proof -
  obtain s replay h r s1 where s0: "shared_of q = Some s" "get_replay s t = Some replay"
    "wr_take_header (rs_r replay) = Some (h, r)" "update_replay s t (\<lambda>x. x\<lparr>rs_r := r\<rparr>) = Some s1"
    using assms by (auto simp: replay_header_added_def bind_eq_Some_conv)
  have s: "shared_of q = Some s" "evolves s s1"
    "(case mr_header (canonical_stream s1) of
        None \<Rightarrow> mr_add_header (canonical_stream s1) h
          \<bind> (\<lambda>c. Some (set_shared q (s1\<lparr>canonical_stream := c\<rparr>)))
      | Some _ \<Rightarrow> Some (set_shared q s1)) = Some q'"
    using assms s0 update_replay_evolves [OF s0(4)] by (simp_all add: replay_header_added_def)
  show ?thesis
  proof (cases "mr_header (canonical_stream s1)")
    case None
    then obtain c where "mr_add_header (canonical_stream s1) h = Some c" "q' = set_shared q (s1\<lparr>canonical_stream := c\<rparr>)"
      using s(3) by (auto split: bind_splits)
    then have "evolves s1 (s1\<lparr>canonical_stream := c\<rparr>)"
      using add_header_evolves None by (simp add: evolves_def)
    then show ?thesis using set_shared_evolves [OF s(1)] evolves_trans s(2)
      \<open>q' = set_shared q (s1\<lparr>canonical_stream := c\<rparr>)\<close> by blast
  next
    case (Some g)
    then show ?thesis using s set_shared_evolves by auto
  qed
qed

lemma strategy_finish_evolves:
  "strategy_finish q = Some q' \<Longrightarrow> q_evolves q q'"
  by (auto simp: strategy_finish_def split: bind_splits intro!: set_shared_evolves)
    (simp add: evolves_def finish_evolves)

lemma merger_step_evolves:
  assumes "merger_step quorum_ops cq is m ev = Some m'" "\<nexists>r. ev = ReaderWaits r"
  shows "q_evolves (mg_strategy m) (mg_strategy m')"
  using assms
proof (cases ev)
  case (ConnEnd t)
  then show ?thesis using assms
    by (auto simp: conn_end_def bind_eq_Some_conv)
      (metis with_writer_evolves replay_data_updated_evolves replay_removed_evolves q_evolves_trans)
next
  case (DelayTurn t)
  then show ?thesis using assms
    by (auto simp: conn_tick_def bind_eq_Some_conv split: option.splits conn_phase.splits if_splits)
      (metis with_writer_evolves replay_data_updated_evolves q_evolves_trans)+
qed (auto simp: conn_start_def conn_header_def conn_data_def split: bind_splits
  dest!: replay_added_evolves with_writer_evolves replay_header_added_evolves intro: q_evolves_trans)

text \<open>A reader that begins to wait only registers itself.\<close>

definition only_waits :: "merged_replay \<Rightarrow> merged_replay \<Rightarrow> bool" where
  "only_waits c c' \<longleftrightarrow> (\<exists>r. c' = mr_wait_for_read_event c r)"

lemma merger_step_views:
  assumes "merger_step quorum_ops cq is m ev = Some m'"
  shows "\<exists>s s'. shared_of (mg_strategy m) = Some s \<and> shared_of (mg_strategy m') = Some s'
    \<and> target_quorum_size s' = target_quorum_size s \<and> stream_cmp_distance s' = stream_cmp_distance s
    \<and> (view_evolves (canonical_stream s) (canonical_stream s') \<or> only_waits (canonical_stream s) (canonical_stream s'))"
proof (cases "\<exists>r. ev = ReaderWaits r")
  case True
  then obtain r q where "reader_registers (mg_strategy m) r = Some q" "m' = m\<lparr>mg_strategy := q\<rparr>"
    using assms by (auto simp: reader_wait_def split: bind_splits)
  then obtain s where s: "shared_of (mg_strategy m) = Some s"
    "mg_strategy m' = set_shared (mg_strategy m) (s\<lparr>canonical_stream := mr_wait_for_read_event (canonical_stream s) r\<rparr>)"
    by (auto simp: reader_registers_def split: bind_splits)
  then show ?thesis using shared_of_Swapping [OF s(1)] by (auto simp: only_waits_def merge_simps)
next
  case False
  then show ?thesis using merger_step_evolves [OF assms] by (auto simp: q_evolves_def evolves_def)
qed

end
