(* ===== verification/Merge_Run.thy ===== *)
theory Merge_Run
  imports Merge_Growth
begin

text \<open>
  \<open>ReplayMerger::new\<close> with the strategy of the code, and what holds of every state that a
  schedule of connections reaches from it.
\<close>

definition replay_merger_new :: "usize \<Rightarrow> usize \<Rightarrow> duration \<Rightarrow> duration \<Rightarrow> strategy merger" where
  "replay_merger_new merge_quorum_size stream_comparison_distance_b delay_s update_interval_s =
     merger_new (strategy_new merge_quorum_size stream_comparison_distance_b)
       \<lparr>sd_delay_s = delay_s, sd_sleep_s = update_interval_s\<rparr>"

text \<open>
  What \<open>Settings\<close> has to give: a positive quorum size, and an update interval for which the
  size of the position history does not overflow.
\<close>

definition settings_ok :: "ceil_quotient \<Rightarrow> usize \<Rightarrow> duration \<Rightarrow> duration \<Rightarrow> bool" where
  "settings_ok cq tq delay_s sleep_s \<longleftrightarrow> 0 < tq \<and> cq delay_s sleep_s < usize_max"

abbreviation merging ::
  "ceil_quotient \<Rightarrow> usize \<Rightarrow> usize \<Rightarrow> duration \<Rightarrow> duration \<Rightarrow> strategy merger \<Rightarrow> history \<Rightarrow> bool" where
  "merging cq tq dist ds ss m H \<equiv> reached quorum_ops cq orders_ok (replay_merger_new tq dist ds ss) m H"

abbreviation canonical :: "strategy merger \<Rightarrow> merged_replay option" where
  "canonical m \<equiv> merger_get_merged_replay quorum_ops m"

lemma settings_okD:
  assumes "settings_ok cq tq ds ss"
  shows "0 < tq" "delay_start cq \<lparr>sd_delay_s = ds, sd_sleep_s = ss\<rparr> \<noteq> None"
  using assms by (auto simp: settings_ok_def delay_start_def ph_new_def history_size_def Let_def)

lemma merging_settings:
  assumes "reached quorum_ops cq ok m0 m H" "shared_of (mg_strategy m0) = Some s0"
  shows "\<exists>s. shared_of (mg_strategy m) = Some s \<and> target_quorum_size s = target_quorum_size s0
    \<and> stream_cmp_distance s = stream_cmp_distance s0"
  using assms(1)
proof (induction rule: reached.induct)
  case (reached_step m H ev "is" m')
  then show ?case using merger_step_views [OF reached_step.hyps(4)] by auto
qed (use assms(2) in simp)

lemma merging_inv:
  assumes ok: "settings_ok cq tq ds ss" and run: "merging cq tq dist ds ss m H"
  shows "\<exists>C s. strategy_inv {} {} (mg_strategy m) H C \<and> stable (mg_strategy m)
    \<and> tasks_ok quorum_ops (strategy_tokens (mg_strategy m)) m H
    \<and> shared_of (mg_strategy m) = Some s \<and> shared_inv s H C
    \<and> canonical m = Some (canonical_stream s) \<and> merged_bytes (canonical_stream s) = C
    \<and> target_quorum_size s = tq \<and> stream_cmp_distance s = dist
    \<and> delay_start cq (mg_stream_delay m) \<noteq> None"
proof -
  let ?m0 = "replay_merger_new tq dist ds ss"
  note S = settings_okD [OF ok]
  have init: "strategy_inv {} {} (mg_strategy ?m0) (\<lambda>_. []) [] \<and> stable (mg_strategy ?m0)
    \<and> tasks_ok quorum_ops (strategy_tokens (mg_strategy ?m0)) ?m0 (\<lambda>_. [])"
    using qms.merger_init_inv [OF strategy_new_inv [OF S(1)]] by (simp add: replay_merger_new_def)
  have start: "delay_start cq (mg_stream_delay ?m0) \<noteq> None"
    using S(2) by (simp add: replay_merger_new_def merger_new_def)
  obtain C where C: "strategy_inv {} {} (mg_strategy m) H C" "stable (mg_strategy m)"
    "tasks_ok quorum_ops (strategy_tokens (mg_strategy m)) m H" "mg_stream_delay m = mg_stream_delay ?m0"
    using qms.reached_inv [OF run init start] by blast
  obtain s where s: "shared_of (mg_strategy m) = Some s" "shared_inv s H C"
    using strategy_inv_shared [OF C(1)] by blast
  have "target_quorum_size s = tq \<and> stream_cmp_distance s = dist"
    using merging_settings [OF run] s(1)
    by (auto simp: replay_merger_new_def merger_new_def strategy_new_def stalemate_new_def shared_new_def)
  moreover have "merged_bytes (canonical_stream s) = C"
    using s(2) by (simp add: shared_inv_def merged_bytes_rep)
  ultimately show ?thesis using C s start
    by (auto simp: merger_get_merged_replay_def strategy_views(3) [OF s(1)])
qed

text \<open>One more step: it does not panic, and the canonical data only grows.\<close>

lemma merging_step:
  assumes ok: "settings_ok cq tq ds ss" and run: "merging cq tq dist ds ss m H"
    and en: "enabled m ev" and ords: "\<forall>n. orders_ok (its n)"
  shows "\<exists>m' c c'. merger_step quorum_ops cq its m ev = Some m' \<and> merging cq tq dist ds ss m' (sent ev H)
    \<and> canonical m = Some c \<and> canonical m' = Some c'
    \<and> mr_rep c (merged_bytes c) \<and> mr_rep c' (merged_bytes c')
    \<and> (mr_header c = None \<longrightarrow> merged_bytes c = [])
    \<and> prefix (merged_bytes c) (merged_bytes c') \<and> (view_evolves c c' \<or> only_waits c c')"
proof -
  obtain C s where C: "strategy_inv {} {} (mg_strategy m) H C" "stable (mg_strategy m)"
    "tasks_ok quorum_ops (strategy_tokens (mg_strategy m)) m H"
    "shared_of (mg_strategy m) = Some s" "shared_inv s H C" "canonical m = Some (canonical_stream s)"
    "merged_bytes (canonical_stream s) = C" "delay_start cq (mg_stream_delay m) \<noteq> None"
    using merging_inv [OF ok run] by blast
  obtain m' C' where m': "merger_step quorum_ops cq its m ev = Some m'"
    "strategy_inv {} {} (mg_strategy m') (sent ev H) C'" "prefix C C'"
    using qms.merger_step_inv [OF _ ords en C(8)] C(1-3) by blast
  obtain s' where s': "shared_of (mg_strategy m') = Some s'" "shared_inv s' (sent ev H) C'"
    using strategy_inv_shared [OF m'(2)] by blast
  have rep: "mr_rep (canonical_stream s) C" "mr_rep (canonical_stream s') C'"
    using C(5) s'(2) by (auto simp: shared_inv_def)
  have "view_evolves (canonical_stream s) (canonical_stream s') \<or> only_waits (canonical_stream s) (canonical_stream s')"
    using merger_step_views [OF m'(1)] C(4) s'(1) by auto
  moreover have "C = []" if "mr_header (canonical_stream s) = None"
    using C(5) that unfolding shared_inv_def provenance_def by (cases C) force+
  moreover have "merging cq tq dist ds ss m' (sent ev H)"
    by (rule reached_step [OF run en ords m'(1)])
  moreover have "canonical m' = Some (canonical_stream s')"
    by (simp add: merger_get_merged_replay_def strategy_views(3) [OF s'(1)])
  moreover have "merged_bytes (canonical_stream s') = C'" using rep(2) by (rule merged_bytes_rep)
  ultimately show ?thesis using m' rep C(6,7) by auto
qed

lemma visible_grows:
  assumes "mr_rep c cs" "mr_rep c' cs'" "prefix cs cs'" "view_evolves c c' \<or> only_waits c c'"
    and "mr_header c = None \<longrightarrow> cs = []"
  shows "prefix (mr_stream c cs) (mr_stream c' cs')"
proof (cases "mr_header c")
  case None
  then show ?thesis using assms(5) by (simp add: mr_stream_def header_bytes_def)
next
  case (Some h)
  then have "mr_header c' = Some h" "mr_delayed_data_len c \<le> mr_delayed_data_len c'"
    using assms(4) by (auto simp: view_evolves_def only_waits_def stream_simps)
  moreover have "mr_delayed_data_len c \<le> length cs" using assms(1) by (simp add: mr_rep_def)
  then have "take (mr_delayed_data_len c) cs = take (mr_delayed_data_len c) cs'"
    using assms(3) by (auto simp: prefix_def)
  ultimately show ?thesis using Some by (simp add: mr_stream_def header_bytes_def take_is_prefix min_absorb1
        prefix_order.trans [OF _ take_is_prefix] prefix_def) (metis append_take_drop_id take_take min_absorb1)
qed

text \<open>The merger is finalized after every connection has ended.\<close>

lemma finalize_all_ended:
  assumes "settings_ok cq tq ds ss" and "merging cq tq dist ds ss m H" and "mg_tasks m = Map.empty"
  shows "\<exists>m' c. merger_finalize quorum_ops m = Some m' \<and> canonical m = Some c
    \<and> canonical m' = Some (mr_finish c) \<and> visible_bytes (mr_finish c) = header_bytes c @ merged_bytes c
    \<and> (\<forall>t. length (H t) \<le> length (merged_bytes c) \<or>
        (\<exists>p < min (length (H t)) (length (merged_bytes c)). H t ! p \<noteq> merged_bytes c ! p))"
proof -
  obtain s where s: "strategy_inv {} {} (mg_strategy m) H (merged_bytes (canonical_stream s))"
    "stable (mg_strategy m)" "tasks_ok quorum_ops (strategy_tokens (mg_strategy m)) m H"
    "shared_of (mg_strategy m) = Some s" "canonical m = Some (canonical_stream s)"
    using merging_inv [OF assms(1,2)] by blast
  let ?C = "merged_bytes (canonical_stream s)"
  obtain m' where m': "merger_finalize quorum_ops m = Some m'"
    "canonical m' = Some (mr_finish (canonical_stream s))" "mr_delayed_data_len (canonical_stream s) = length ?C"
    using qms.finalize_ok [OF _ assms(3)] s by fastforce
  have over: "map_option writer_marks (strategy_writer (mg_strategy m) t) = Some (length (H t), True)"
    if "t < strategy_tokens (mg_strategy m)" for t
    using s(3) assms(3) that by (auto simp: tasks_ok_def)
  obtain sm where sm: "mg_strategy m = Stalemate sm" "m_reserve sm = {}" "candidates sm = []"
    using all_over [OF s(1,2) over] by blast
  have "dead s H ?C t" if "t < token s" for t
    using s(1,4) sm that stalemate_invD(12) [of "{}" sm H ?C t] by (auto simp: candidate_ids_def)
  moreover have "H t = []" if "\<not> t < token s" for t
    using s(3) that strategy_views(2) [OF s(4)] by (auto simp: tasks_ok_def)
  ultimately have "length (H t) \<le> length ?C \<or> (\<exists>p < min (length (H t)) (length ?C). H t ! p \<noteq> ?C ! p)" for t
    by (cases "t < token s") (auto simp: dead_def)
  moreover have "visible_bytes (mr_finish (canonical_stream s)) = header_bytes (canonical_stream s) @ ?C"
    using m'(3) by (simp add: visible_bytes_def mr_stream_def header_bytes_def merged_bytes_def stream_simps)
  ultimately show ?thesis using m' s(5) by blast
qed

end
