(* ===== verification/Evaluation.thy ===== *)
theory Evaluation
  imports Merge_Run
begin

text \<open>
  Rewrite rules that evaluate the model on concrete inputs. With \<open>bind_weak\<close> the
  simplifier looks at what comes after a step only when the step is a value, so that the
  recursive equations can be used as they are. The schedule at the end is a concrete
  instance for the statements about schedules: two connections, a quorum of two.
\<close>

named_theorems eval_simps \<open>definitions and equations for concrete evaluation\<close>

lemma bind_weak: "m = m' \<Longrightarrow> Option.bind m f = Option.bind m' f"
  by simp

lemmas [eval_simps] =
  Let_def CHUNK_SIZE_def usize_max_def iter_max_def iter_min_def iter_min_by_key_def first_item_def
  common_prefix_loop.simps common_prefix_from_to_def common_prefix_from_def buf_at_def
  iter_chunks_def iter_next_def
  bd_new_def window_start_def window_size_def no_space_in_last_chunk_def get_last_chunk_def
  bd_discard_def append_some_def write_all.simps bd_get_chunk_def bd_ops_def

lemmas [eval_simps] =
  wr_new_def wr_data_len_def wr_add_header_def wr_take_header_def wr_add_data_def
  wr_set_delayed_data_len_def wr_discard_def wr_discard_all_def wr_finish_def
  event_new_def event_notify_def event_wait_def
  mr_new_def mr_data_len_def mr_notify_read_event_def mr_add_header_def write_chunks.simps
  mr_add_data_def mr_advance_delayed_data_def mr_finish_def

lemmas [eval_simps] =
  rs_new_def rs_data_len_def rs_common_prefix_from_to_def match_start_optimization_def
  diverges_at_stalemate_def set_diverged_def set_matching_def
  discard_if_not_needed_for_checking_divergence_def shared_new_def shared_add_replay_def
  get_replay_def update_replay_def canon_data_len_def canon_delayed_data_len_def
  append_canon_data_def update_canon_delayed_data_len_def quorum_delayed_position_def
  update_delayed_position_def discard_data_after_merging_def data_len_of_def
  calculate_quorum_prefix_def merge_more_data_def from_stalemate_def quorum_add_replay_def
  quorum_replay_data_updated_def quorum_replay_ended_def has_to_enter_stalemate_def

lemmas [eval_simps] =
  stalemate_new_def insert_candidate_def try_move_replay_to_candidates_def from_quorum_def
  enter_stalemate_def stalemate_add_replay_def stalemate_replay_data_updated_def
  stalemate_replay_ended_def can_exit_stalemate_def best_candidate_def exit_stalemate_def
  strategy_new_def work_state_until_stable.simps replay_added_def replay_removed_def
  replay_header_added_def replay_data_updated_def get_merged_replay_def strategy_finish_def
  with_writer_def strategy_writer_def

lemmas [eval_simps] =
  history_size_def ph_new_def push_and_get_delayed_def delay_start_def delay_turn_def
  set_final_replay_timestamp_def merger_new_def conn_start_def conn_header_def conn_data_def
  conn_tick_def conn_end_def merger_finalize_def merger_get_merged_replay_def insert_Diff_if
  reader_wait_def reader_registers_def mr_wait_for_read_event_def visible_bytes_def mr_stream_def header_bytes_def

subsection \<open>A concrete choice of what the code leaves open\<close>

text \<open>Hash sets are iterated in ascending order, the sort is stable.\<close>

definition ascending :: iteration where
  "ascending = \<lparr>set_iter = sorted_list_of_set, sort_unstable = (\<lambda>f xs. sort_key f xs)\<rparr>"

lemma ascending_simps [eval_simps]:
  "set_iter ascending = sorted_list_of_set" "sort_unstable ascending f xs = sort_key f xs"
  by (simp_all add: ascending_def)

lemma ascending_ok: "iteration_ok ascending"
  by (simp add: iteration_ok_def ascending_simps)

definition exact_quotient :: ceil_quotient where
  "exact_quotient d s = (d + s - 1) div s"

declare exact_quotient_def [eval_simps]

declare deque_data_def [eval_simps] merged_bytes_def [eval_simps]

lemma ascending_orders: "orders_ok (\<lambda>_. ascending)"
  by (simp add: orders_ok_def ascending_ok)

subsection \<open>Concrete schedules\<close>

text \<open>
  A quorum of two, a comparison distance of ten bytes, a delay of two turns. In the first
  schedule both connections come to their end; they differ in their last byte. In the
  second one they are still sending, and the delayed position lags behind.
\<close>

definition demo_merger :: "strategy merger" where
  "demo_merger = replay_merger_new 2 10 2 1"

declare replay_merger_new_def [eval_simps] demo_merger_def [eval_simps]

definition demo_events :: "conn_event list" where
  "demo_events =
     [Connect, Connect, HeaderRead 0 [1], DataRead 0 [7, 8, 9], HeaderRead 1 [2],
      DataRead 1 [7, 8, 5], DelayTurn 0, DelayTurn 1, ConnEnd 0, ConnEnd 1]"

definition demo_open_events :: "conn_event list" where
  "demo_open_events =
     [Connect, Connect, HeaderRead 0 [1], DataRead 0 [7, 8], HeaderRead 1 [2],
      DataRead 1 [7, 8], DelayTurn 0, DelayTurn 1, DataRead 0 [9], DataRead 1 [9], DelayTurn 0, DelayTurn 1]"

text \<open>A reader waits, and the next turn of the delay loop shows it more.\<close>

definition demo_waiting_events :: "conn_event list" where
  "demo_waiting_events =
     [Connect, Connect, HeaderRead 0 [1], DataRead 0 [7, 8], HeaderRead 1 [2],
      DataRead 1 [7, 8], DelayTurn 0, ReaderWaits 5]"

abbreviation demo_run :: "conn_event list \<Rightarrow> (strategy merger \<times> history) option" where
  "demo_run evs \<equiv> run_events quorum_ops exact_quotient (\<lambda>_ _ _. ascending) evs demo_merger (\<lambda>_. [])"

lemma demo_settings: "settings_ok exact_quotient 2 2 1"
  by (simp add: settings_ok_def exact_quotient_def usize_max_def)

lemma demo_reached:
  "demo_run evs = Some (m, H) \<Longrightarrow> merging exact_quotient 2 10 2 1 m H"
  unfolding demo_merger_def
  by (rule run_events_reached) (auto simp: ascending_orders intro: reached_init)

lemma demo_end:
  "\<exists>m c. demo_run demo_events = Some (m, (\<lambda>_. [])(0 := [7, 8, 9], 1 := [7, 8, 5]))
     \<and> mg_tasks m = Map.empty \<and> canonical m = Some c \<and> merged_bytes c = [7, 8, 9]"
  unfolding demo_events_def by (simp add: eval_simps cong: bind_weak option.case_cong_weak)

lemma demo_open:
  "\<exists>m q c. demo_run demo_open_events = Some (m, (\<lambda>_. [])(0 := [7, 8, 9], 1 := [7, 8, 9]))
     \<and> mg_strategy m = Quorum q \<and> quorum q = {0, 1} \<and> canonical m = Some c
     \<and> merged_bytes c = [7, 8, 9] \<and> mr_delayed_data_len c = 2 \<and> mr_header c = Some [1]"
  unfolding demo_open_events_def by (simp add: eval_simps cong: bind_weak option.case_cong_weak) auto

lemma demo_waiting:
  "\<exists>m H m' c c'. demo_run demo_waiting_events = Some (m, H) \<and> enabled m (DelayTurn 1)
     \<and> merger_step quorum_ops exact_quotient (\<lambda>_ _. ascending) m (DelayTurn 1) = Some m'
     \<and> canonical m = Some c \<and> canonical m' = Some c' \<and> visible_bytes c' \<noteq> visible_bytes c
     \<and> wakers (mr_read_event c) = [5] \<and> woken (mr_read_event c) = []"
  unfolding demo_waiting_events_def by (simp add: eval_simps cong: bind_weak option.case_cong_weak)

end
