(* ===== verification/Connection.thy ===== *)
theory Connection
  imports Prelude
begin

text \<open>
  Errors (\<open>src/error.rs\<close>), what the program needs of an asynchronous buffered reader,
  \<open>read_until_exact\<close> and \<open>Connection\<close> (\<open>src/server/connection.rs\<close>), with the gauge of
  active connections (\<open>src/metrics.rs\<close>).

  Reading is done by tokio: the operations are a parameter, the record \<open>reader_ops\<close>, and what
  the program relies on is the predicate \<open>reader_laws\<close>.
\<close>

subsection \<open>Results\<close>

datatype io_error = UnexpectedEof | OtherIo nat

datatype connection_error = NoData | BadData string | IO io_error | CannotAssignToReplay

type_synonym 'a io_result = "io_error + 'a"
type_synonym 'a conn_result = "connection_error + 'a"

text \<open>The operator \<open>?\<close>.\<close>

definition and_then :: "'e + 'a \<Rightarrow> ('a \<Rightarrow> 'e + 'b) \<Rightarrow> 'e + 'b" where
  "and_then r f = (case r of Inl e \<Rightarrow> Inl e | Inr x \<Rightarrow> f x)"

definition map_err :: "('e \<Rightarrow> 'f) \<Rightarrow> 'e + 'a \<Rightarrow> 'f + 'a" where
  "map_err g r = (case r of Inl e \<Rightarrow> Inl (g e) | Inr x \<Rightarrow> Inr x)"

lemma and_then_simps [simp]: "and_then (Inl e) f = Inl e" "and_then (Inr x) f = f x"
  by (simp_all add: and_then_def)

lemma map_err_simps [simp]: "map_err g (Inl e) = Inl (g e)" "map_err g (Inr x) = Inr x"
  by (simp_all add: map_err_def)

lemma and_then_Inr: "and_then r f = Inr y \<longleftrightarrow> (\<exists>x. r = Inr x \<and> f x = Inr y)"
  by (cases r) simp_all

lemma and_then_Inl: "and_then r f = Inl e \<longleftrightarrow> r = Inl e \<or> (\<exists>x. r = Inr x \<and> f x = Inl e)"
  by (cases r) simp_all

lemma map_err_Inr [simp]: "map_err g r = Inr y \<longleftrightarrow> r = Inr y"
  by (cases r) simp_all

fun is_eof :: "connection_error \<Rightarrow> bool" where
  "is_eof (IO e) = (e = UnexpectedEof)"
| "is_eof _ = False"

fun is_no_data :: "connection_error \<Rightarrow> bool" where
  "is_no_data NoData = True"
| "is_no_data _ = False"

definition bad_data :: "string \<Rightarrow> connection_error" where
  "bad_data what = BadData what"

subsection \<open>Readers\<close>

text \<open>
  The reads the program makes, each through an optional \<open>take(limit)\<close>. A result has the bytes
  and the reader after them. \<open>read_u8\<close> and \<open>read_u32_le\<close> are exact reads of one and of
  four bytes.
\<close>

record 'r reader_ops =
  ro_read_until :: "'r \<Rightarrow> nat option \<Rightarrow> byte \<Rightarrow> (byte list \<times> 'r) io_result"
  ro_read_to_end :: "'r \<Rightarrow> nat option \<Rightarrow> (byte list \<times> 'r) io_result"
  ro_read_exact :: "'r \<Rightarrow> nat option \<Rightarrow> nat \<Rightarrow> (byte list \<times> 'r) io_result"

definition clip :: "nat option \<Rightarrow> 'a list \<Rightarrow> 'a list" where
  "clip lim xs = (case lim of None \<Rightarrow> xs | Some n \<Rightarrow> take n xs)"

definition upto :: "byte \<Rightarrow> byte list \<Rightarrow> byte list" where
  "upto b xs = (if b \<in> set xs then takeWhile (\<lambda>x. x \<noteq> b) xs @ [b] else xs)"

text \<open>
  What tokio documents: a reader has bytes to come, \<open>rest r\<close>, after which it ends, or fails
  with \<open>fate r\<close>. Reading until a byte gives the bytes up to and including it, or all that is
  left; reading exactly \<open>n\<close> bytes fails with \<open>UnexpectedEof\<close> where the reader ends before;
  a limit cuts the reader off as its end would.
\<close>

definition fails_at :: "('r \<Rightarrow> byte list) \<Rightarrow> ('r \<Rightarrow> io_error option) \<Rightarrow> 'r \<Rightarrow> nat option \<Rightarrow> io_error option" where
  "fails_at rest fate r lim =
     (case lim of None \<Rightarrow> fate r | Some n \<Rightarrow> if n \<le> length (rest r) then None else fate r)"

definition reader_laws :: "'r reader_ops \<Rightarrow> ('r \<Rightarrow> byte list) \<Rightarrow> ('r \<Rightarrow> io_error option) \<Rightarrow> bool" where
  "reader_laws R rest fate \<longleftrightarrow>
     (\<forall>r lim b. let avail = clip lim (rest r) in
        if b \<in> set avail \<or> fails_at rest fate r lim = None
        then \<exists>r'. ro_read_until R r lim b = Inr (upto b avail, r')
               \<and> rest r' = drop (length (upto b avail)) (rest r) \<and> fate r' = fate r
        else ro_read_until R r lim b = Inl (the (fails_at rest fate r lim))) \<and>
     (\<forall>r lim. let avail = clip lim (rest r) in
        if fails_at rest fate r lim = None
        then \<exists>r'. ro_read_to_end R r lim = Inr (avail, r')
               \<and> rest r' = drop (length avail) (rest r) \<and> fate r' = fate r
        else ro_read_to_end R r lim = Inl (the (fails_at rest fate r lim))) \<and>
     (\<forall>r lim n. let avail = clip lim (rest r) in
        if n \<le> length avail
        then \<exists>r'. ro_read_exact R r lim n = Inr (take n avail, r')
               \<and> rest r' = drop n (rest r) \<and> fate r' = fate r
        else ro_read_exact R r lim n =
               Inl (case fails_at rest fate r lim of None \<Rightarrow> UnexpectedEof | Some e \<Rightarrow> e))"

text \<open>\<open>read_until_exact\<close> appends to \<open>buf\<close>; the number of bytes read is part of its result.\<close>

definition read_until_exact ::
  "'r reader_ops \<Rightarrow> 'r \<Rightarrow> nat option \<Rightarrow> byte \<Rightarrow> byte list \<Rightarrow> (nat \<times> byte list \<times> 'r) io_result" where
  "read_until_exact R r lim b buf =
     and_then (ro_read_until R r lim b) (\<lambda>(xs, r).
       let result = length xs; buf = buf @ xs
       in if result = 0 \<or> last buf \<noteq> b then Inl UnexpectedEof else Inr (result, buf, r))"

subsection \<open>A reader over what is to come\<close>

text \<open>
  A reader that satisfies the laws: the bytes to come and the error after them. It shows that
  the laws can hold, and it is the reader of the concrete instances.
\<close>

type_synonym list_reader = "byte list \<times> io_error option"

definition list_rest :: "list_reader \<Rightarrow> byte list" where
  "list_rest r = fst r"

definition list_fate :: "list_reader \<Rightarrow> io_error option" where
  "list_fate r = snd r"

definition list_reader_ops :: "list_reader reader_ops" where
  "list_reader_ops =
     \<lparr>ro_read_until = (\<lambda>(xs, e) lim b.
        let avail = clip lim xs; out = upto b avail
        in case fails_at list_rest list_fate (xs, e) lim of
             Some err \<Rightarrow> if b \<in> set avail then Inr (out, (drop (length out) xs, e)) else Inl err
           | None \<Rightarrow> Inr (out, (drop (length out) xs, e))),
      ro_read_to_end = (\<lambda>(xs, e) lim.
        let avail = clip lim xs
        in case fails_at list_rest list_fate (xs, e) lim of
             Some err \<Rightarrow> Inl err
           | None \<Rightarrow> Inr (avail, (drop (length avail) xs, e))),
      ro_read_exact = (\<lambda>(xs, e) lim n.
        let avail = clip lim xs
        in if n \<le> length avail then Inr (take n avail, (drop n xs, e))
           else Inl (case fails_at list_rest list_fate (xs, e) lim of None \<Rightarrow> UnexpectedEof | Some e \<Rightarrow> e))\<rparr>"

lemma list_reader_laws: "reader_laws list_reader_ops list_rest list_fate"
  by (auto simp: reader_laws_def list_reader_ops_def list_rest_def list_fate_def Let_def split: option.split)

subsection \<open>Facts\<close>

lemma upto_prefix: "prefix (upto b xs) xs"
proof (cases "b \<in> set xs")
  case True
  then obtain ys zs where xs: "xs = ys @ b # zs" "b \<notin> set ys" by (meson split_list_first)
  then have "takeWhile (\<lambda>x. x \<noteq> b) ys = ys" by (auto simp: takeWhile_eq_all_conv)
  then have "upto b xs = ys @ [b]" using xs by (simp add: upto_def takeWhile_tail)
  then show ?thesis using xs by (simp add: prefix_def)
qed (simp add: upto_def)

lemma clip_prefix: "prefix (clip lim xs) xs"
  by (auto simp: clip_def take_is_prefix split: option.split)

lemma upto_last: "b \<in> set xs \<Longrightarrow> last (upto b xs) = b" "b \<in> set xs \<Longrightarrow> upto b xs \<noteq> []"
  by (simp_all add: upto_def)

text \<open>What \<open>read_until_exact\<close> does with a reader: it takes the bytes up to \<open>b\<close>, or it fails.\<close>

lemma read_until_exact_spec:
  assumes laws: "reader_laws R rest fate"
  shows "(if b \<in> set (clip lim (rest r))
      then \<exists>r'. read_until_exact R r lim b buf
          = Inr (length (upto b (clip lim (rest r))), buf @ upto b (clip lim (rest r)), r')
        \<and> rest r' = drop (length (upto b (clip lim (rest r)))) (rest r) \<and> fate r' = fate r
      else read_until_exact R r lim b buf
          = Inl (case fails_at rest fate r lim of None \<Rightarrow> UnexpectedEof | Some e \<Rightarrow> e))"
proof -
  let ?a = "clip lim (rest r)"
  have law: "if b \<in> set ?a \<or> fails_at rest fate r lim = None
        then \<exists>r'. ro_read_until R r lim b = Inr (upto b ?a, r')
               \<and> rest r' = drop (length (upto b ?a)) (rest r) \<and> fate r' = fate r
        else ro_read_until R r lim b = Inl (the (fails_at rest fate r lim))"
    using laws unfolding reader_laws_def Let_def by blast
  show ?thesis
  proof (cases "b \<in> set ?a")
    case True
    then show ?thesis using law upto_last [OF True]
      by (auto simp: read_until_exact_def Let_def)
  next
    case False
    then have "upto b ?a = ?a" by (simp add: upto_def)
    then have "?a \<noteq> [] \<longrightarrow> last (buf @ ?a) \<noteq> b" using False last_in_set [of ?a] by auto
    then show ?thesis using False law \<open>upto b ?a = ?a\<close>
      by (auto simp: read_until_exact_def Let_def split: option.splits)
  qed
qed

end
