(* ===== verification/Replay_Header.thy ===== *)
theory Replay_Header
  imports Connection
begin

text \<open>
  \<open>ReplayHeader\<close> of \<open>src/replay/streams/header.rs\<close>: reading the header of a replay from a
  connection. The parser keeps every byte it takes; a theorem below says that it keeps
  exactly those, and others that a header delimits itself.

  \<open>from_connection\<close> reads through \<open>take(MAX_SIZE)\<close>. The state of the parser is the reader
  with what is left of that limit, and the \<open>data\<close> collected so far.
\<close>

definition MAX_SIZE :: nat where
  "MAX_SIZE = 1024 * 1024"

type_synonym 'r limited = "'r \<times> nat"
type_synonym ('r, 'a) parser = "'r limited \<Rightarrow> byte list \<Rightarrow> ('a \<times> byte list \<times> 'r limited) io_result"

definition p_return :: "'a \<Rightarrow> ('r, 'a) parser" where
  "p_return a r data = Inr (a, data, r)"

definition p_then :: "('r, 'a) parser \<Rightarrow> ('a \<Rightarrow> ('r, 'b) parser) \<Rightarrow> ('r, 'b) parser" where
  "p_then p f r data = and_then (p r data) (\<lambda>(a, data, r). f a r data)"

text \<open>The loop \<open>for _ in 0..n\<close>.\<close>

fun p_repeat :: "nat \<Rightarrow> ('r, unit) parser \<Rightarrow> ('r, unit) parser" where
  "p_repeat 0 p = p_return ()"
| "p_repeat (Suc n) p = p_then p (\<lambda>_. p_repeat n p)"

subsection \<open>Little-endian numbers\<close>

fun nat_of_le :: "byte list \<Rightarrow> nat" where
  "nat_of_le [] = 0"
| "nat_of_le (b # bs) = unat b + 256 * nat_of_le bs"

fun nat_to_le :: "nat \<Rightarrow> nat \<Rightarrow> byte list" where
  "nat_to_le 0 n = []"
| "nat_to_le (Suc k) n = word_of_nat (n mod 256) # nat_to_le k (n div 256)"

definition u32_from_le :: "byte list \<Rightarrow> 32 word" where
  "u32_from_le bs = word_of_nat (nat_of_le bs)"

definition u32_to_le :: "32 word \<Rightarrow> byte list" where
  "u32_to_le w = nat_to_le 4 (unat w)"

lemma length_nat_to_le [simp]: "length (nat_to_le k n) = k"
  by (induction k arbitrary: n) auto

lemma unat_byte: "unat (b :: byte) < 256"
  using unsigned_less [of b] by simp

lemma nat_of_le_less: "nat_of_le bs < 256 ^ length bs"
proof (induction bs)
  case (Cons b bs)
  then show ?case using unat_byte [of b] by simp
qed simp

lemma nat_of_to_le: "n < 256 ^ k \<Longrightarrow> nat_of_le (nat_to_le k n) = n"
proof (induction k arbitrary: n)
  case (Suc k)
  then have "n div 256 < 256 ^ k" by (simp add: less_mult_imp_div_less mult.commute)
  moreover have "unat (word_of_nat (n mod 256) :: byte) = n mod 256"
    by (simp add: unsigned_of_nat take_bit_eq_mod)
  ultimately show ?case using Suc.IH by simp
qed simp

lemma nat_to_of_le: "nat_to_le (length bs) (nat_of_le bs) = bs"
proof (induction bs)
  case (Cons b bs)
  have "(unat b + 256 * nat_of_le bs) mod 256 = unat b" "(unat b + 256 * nat_of_le bs) div 256 = nat_of_le bs"
    using unat_byte [of b] by simp_all
  then show ?case using Cons by simp
qed simp

lemma length_u32_to_le [simp]: "length (u32_to_le w) = 4"
  by (simp add: u32_to_le_def)

lemma u32_from_to_le [simp]: "u32_from_le (u32_to_le w) = w"
proof -
  have "unat w < 2 ^ LENGTH(32)" by (rule unsigned_less)
  then have "unat w < 256 ^ 4" by simp
  then show ?thesis by (simp add: u32_from_le_def u32_to_le_def nat_of_to_le)
qed

lemma u32_to_from_le: "length bs = 4 \<Longrightarrow> u32_to_le (u32_from_le bs) = bs"
  using nat_of_le_less [of bs] nat_to_of_le [of bs]
  by (simp add: u32_from_le_def u32_to_le_def unsigned_of_nat take_bit_eq_mod)

subsection \<open>The parser\<close>

text \<open>\<open>read_until_exact\<close> through the limit.\<close>

definition p_until :: "'r reader_ops \<Rightarrow> byte \<Rightarrow> ('r, unit) parser" where
  "p_until R b r data =
     and_then (read_until_exact R (fst r) (Some (snd r)) b data)
       (\<lambda>(n, data, r'). Inr ((), data, (r', snd r - n)))"

definition skip :: "'r reader_ops \<Rightarrow> nat \<Rightarrow> ('r, unit) parser" where
  "skip R cnt r buf =
     and_then (ro_read_to_end R (fst r) (Some (min (snd r) cnt)))
       (\<lambda>(xs, r'). if length xs < cnt then Inl UnexpectedEof
                   else Inr ((), buf @ xs, (r', snd r - length xs)))"

text \<open>The macro \<open>read_value!\<close> with \<open>read_u32_le\<close> and with \<open>read_u8\<close>.\<close>

definition read_value_u32 :: "'r reader_ops \<Rightarrow> ('r, 32 word) parser" where
  "read_value_u32 R r data =
     and_then (ro_read_exact R (fst r) (Some (snd r)) 4)
       (\<lambda>(xs, r'). let i = u32_from_le xs in Inr (i, data @ u32_to_le i, (r', snd r - 4)))"

definition read_value_u8 :: "'r reader_ops \<Rightarrow> ('r, byte) parser" where
  "read_value_u8 R r data =
     and_then (ro_read_exact R (fst r) (Some (snd r)) 1)
       (\<lambda>(xs, r'). let i = hd xs in Inr (i, data @ [i], (r', snd r - 1)))"

definition read_player :: "'r reader_ops \<Rightarrow> ('r, unit) parser" where
  "read_player R = p_then (p_until R 0) (\<lambda>_. p_then (read_value_u32 R) (\<lambda>_. p_return ()))"

definition read_army :: "'r reader_ops \<Rightarrow> ('r, unit) parser" where
  "read_army R =
     p_then (read_value_u32 R) (\<lambda>army_size.
     p_then (skip R (unat army_size)) (\<lambda>_.
     p_then (read_value_u8 R) (\<lambda>player_id.
     if player_id \<noteq> 255 then skip R 1 else p_return ())))"

definition do_from_connection :: "'r reader_ops \<Rightarrow> ('r, unit) parser" where
  "do_from_connection R =
     p_then (p_until R 0) (\<lambda>_.
     p_then (skip R 3) (\<lambda>_.
     p_then (p_until R 0) (\<lambda>_.
     p_then (skip R 4) (\<lambda>_.
     p_then (read_value_u32 R) (\<lambda>mod_data_size.
     p_then (skip R (unat mod_data_size)) (\<lambda>_.
     p_then (read_value_u32 R) (\<lambda>scenario_info_size.
     p_then (skip R (unat scenario_info_size)) (\<lambda>_.
     p_then (read_value_u8 R) (\<lambda>player_count.
     p_then (p_repeat (unat player_count) (read_player R)) (\<lambda>_.
     p_then (read_value_u8 R) (\<lambda>cheats_enabled.
     p_then (read_value_u8 R) (\<lambda>army_count.
     p_then (p_repeat (unat army_count) (read_army R)) (\<lambda>_.
     p_then (read_value_u32 R) (\<lambda>random_seed.
     p_return ()))))))))))))))"

definition from_connection :: "'r reader_ops \<Rightarrow> 'r \<Rightarrow> (byte list \<times> 'r) conn_result" where
  "from_connection R c =
     map_err IO (and_then (do_from_connection R (c, MAX_SIZE) [])
       (\<lambda>(_, data, r). Inr (data, fst r)))"

subsection \<open>Self-delimiting parsers\<close>

definition eof_error :: "('r \<Rightarrow> byte list) \<Rightarrow> ('r \<Rightarrow> io_error option) \<Rightarrow> 'r \<Rightarrow> nat \<Rightarrow> io_error" where
  "eof_error rest fate s n = (case fails_at rest fate s (Some n) of None \<Rightarrow> UnexpectedEof | Some e \<Rightarrow> e)"

text \<open>
  \<open>takes p a xs\<close>: wherever the bytes \<open>xs\<close> come next and are within the limit, \<open>p\<close> takes
  exactly them and gives \<open>a\<close>; where they are cut short, it fails for want of data.
\<close>

definition takes ::
  "('r \<Rightarrow> byte list) \<Rightarrow> ('r \<Rightarrow> io_error option) \<Rightarrow> ('r, 'a) parser \<Rightarrow> 'a \<Rightarrow> byte list \<Rightarrow> bool" where
  "takes rest fate p a xs \<longleftrightarrow>
     (\<forall>s m out. prefix xs (take m (rest s)) \<longrightarrow>
        (\<exists>s'. p (s, m) out = Inr (a, out @ xs, (s', m - length xs))
           \<and> rest s' = drop (length xs) (rest s) \<and> fate s' = fate s)) \<and>
     (\<forall>s m out. strict_prefix (take m (rest s)) xs \<longrightarrow> p (s, m) out = Inl (eof_error rest fate s m))"

definition delimited :: "('r \<Rightarrow> byte list) \<Rightarrow> ('r \<Rightarrow> io_error option) \<Rightarrow> ('r, 'a) parser \<Rightarrow> bool" where
  "delimited rest fate p \<longleftrightarrow>
     (\<forall>s m out a data s'. p (s, m) out = Inr (a, data, s') \<longrightarrow>
        (\<exists>xs. takes rest fate p a xs \<and> prefix xs (take m (rest s))))"

lemma eof_error_shift:
  assumes "rest s' = drop k (rest s)" "fate s' = fate s" "k \<le> m" "k \<le> length (rest s)"
  shows "eof_error rest fate s' (m - k) = eof_error rest fate s m"
proof -
  have "m - k \<le> length (rest s) - k \<longleftrightarrow> m \<le> length (rest s)" using assms(3,4) by linarith
  then show ?thesis using assms(1,2) by (simp add: eof_error_def fails_at_def)
qed

lemma takes_return: "takes rest fate (p_return a) a []"
  by (simp add: takes_def p_return_def)

lemma takes_then:
  assumes p: "takes rest fate p a xs" and f: "takes rest fate (f a) b ys"
  shows "takes rest fate (p_then p f) b (xs @ ys)"
  unfolding takes_def
proof (intro conjI allI impI)
  fix s m out assume pre: "prefix (xs @ ys) (take m (rest s))"
  then have px: "prefix xs (take m (rest s))" by (auto simp: prefix_def)
  then obtain s1 where s1: "p (s, m) out = Inr (a, out @ xs, (s1, m - length xs))"
    "rest s1 = drop (length xs) (rest s)" "fate s1 = fate s"
    using p unfolding takes_def by blast
  obtain zs where "take m (rest s) = xs @ ys @ zs" using pre by (auto simp: prefix_def)
  then have "take (m - length xs) (rest s1) = ys @ zs"
    by (metis append_eq_conv_conj drop_take s1(2))
  then have "prefix ys (take (m - length xs) (rest s1))" by simp
  then obtain s2 where "f a (s1, m - length xs) (out @ xs)
      = Inr (b, (out @ xs) @ ys, (s2, m - length xs - length ys))"
    "rest s2 = drop (length ys) (rest s1)" "fate s2 = fate s1"
    using f unfolding takes_def by blast
  then show "\<exists>s'. p_then p f (s, m) out = Inr (b, out @ xs @ ys, (s', m - length (xs @ ys)))
      \<and> rest s' = drop (length (xs @ ys)) (rest s) \<and> fate s' = fate s"
    using s1 by (simp add: p_then_def add.commute)
next
  fix s m out assume cut: "strict_prefix (take m (rest s)) (xs @ ys)"
  show "p_then p f (s, m) out = Inl (eof_error rest fate s m)"
  proof (cases "prefix xs (take m (rest s))")
    case True
    then obtain s1 where s1: "p (s, m) out = Inr (a, out @ xs, (s1, m - length xs))"
      "rest s1 = drop (length xs) (rest s)" "fate s1 = fate s"
      using p unfolding takes_def by blast
    obtain zs where zs: "take m (rest s) = xs @ zs" using True by (auto simp: prefix_def)
    then have "take (m - length xs) (rest s1) = zs"
      by (metis append_eq_conv_conj drop_take s1(2))
    then have "strict_prefix (take (m - length xs) (rest s1)) ys" using cut zs by (simp add: strict_prefix_def)
    then have "f a (s1, m - length xs) (out @ xs) = Inl (eof_error rest fate s1 (m - length xs))"
      using f unfolding takes_def by blast
    moreover have "length xs \<le> m" "length xs \<le> length (rest s)"
      using prefix_length_le [OF True] by auto
    ultimately show ?thesis using s1 eof_error_shift [of rest s1 "length xs" s fate m]
      by (simp add: p_then_def)
  next
    case False
    then have "strict_prefix (take m (rest s)) xs"
      using cut prefix_same_cases [of "take m (rest s)" "xs @ ys" xs] by (auto simp: strict_prefix_def)
    then show ?thesis using p by (simp add: takes_def p_then_def)
  qed
qed

lemma delimited_return: "delimited rest fate (p_return a)"
  unfolding delimited_def using takes_return by (fastforce simp: p_return_def)

lemma delimited_then:
  assumes p: "delimited rest fate p" and f: "\<And>a. delimited rest fate (f a)"
  shows "delimited rest fate (p_then p f)"
  unfolding delimited_def
proof (intro allI impI)
  fix s m out b data s'
  assume run: "p_then p f (s, m) out = Inr (b, data, s')"
  then obtain a d1 s1 m1 where p1: "p (s, m) out = Inr (a, d1, (s1, m1))" "f a (s1, m1) d1 = Inr (b, data, s')"
    by (auto simp: p_then_def and_then_Inr)
  obtain xs where xs: "takes rest fate p a xs" "prefix xs (take m (rest s))"
    using p p1(1) unfolding delimited_def by blast
  then have s1: "rest s1 = drop (length xs) (rest s)" "m1 = m - length xs"
    using p1(1) unfolding takes_def by (metis Inr_inject Pair_inject)+
  obtain ys where ys: "takes rest fate (f a) b ys" "prefix ys (take m1 (rest s1))"
    using f p1(2) unfolding delimited_def by blast
  have "take m (rest s) = xs @ take m1 (rest s1)"
    using xs(2) s1 by (metis append_eq_conv_conj drop_take prefix_def)
  then have "prefix (xs @ ys) (take m (rest s))" using ys(2) by simp
  then show "\<exists>xs. takes rest fate (p_then p f) b xs \<and> prefix xs (take m (rest s))"
    using takes_then [where f = f, OF xs(1) ys(1)] by blast
qed

lemma delimited_repeat: "delimited rest fate p \<Longrightarrow> delimited rest fate (p_repeat n p)"
  by (induction n) (auto intro: delimited_return delimited_then)

subsection \<open>The steps of the parser\<close>

lemma upto_append: "b \<in> set xs \<Longrightarrow> upto b (xs @ ys) = upto b xs"
  by (simp add: upto_def)

lemma takes_until:
  assumes laws: "reader_laws R rest fate" and b: "b \<notin> set ys"
  shows "takes rest fate (p_until R b) () (ys @ [b])"
  unfolding takes_def
proof (intro conjI allI impI)
  fix s m out assume pre: "prefix (ys @ [b]) (take m (rest s))"
  then obtain zs where zs: "take m (rest s) = (ys @ [b]) @ zs" by (auto simp: prefix_def)
  have "takeWhile (\<lambda>x. x \<noteq> b) ys = ys" using b by (auto simp: takeWhile_eq_all_conv)
  then have up: "upto b (take m (rest s)) = ys @ [b]" "b \<in> set (take m (rest s))"
    unfolding zs by (simp_all add: upto_def takeWhile_append2)
  then show "\<exists>s'. p_until R b (s, m) out = Inr ((), out @ ys @ [b], (s', m - length (ys @ [b])))
      \<and> rest s' = drop (length (ys @ [b])) (rest s) \<and> fate s' = fate s"
    using read_until_exact_spec [OF laws, of b "Some m" s out] by (auto simp: clip_def p_until_def)
next
  fix s m out assume cut: "strict_prefix (take m (rest s)) (ys @ [b])"
  then have "prefix (take m (rest s)) ys"
    by (metis prefix_snoc strict_prefix_def)
  then have "b \<notin> set (take m (rest s))" using b set_mono_prefix by blast
  then show "p_until R b (s, m) out = Inl (eof_error rest fate s m)"
    using read_until_exact_spec [OF laws, of b "Some m" s out] by (simp add: clip_def p_until_def eof_error_def)
qed

lemma delimited_until:
  assumes laws: "reader_laws R rest fate"
  shows "delimited rest fate (p_until R b)"
  unfolding delimited_def
proof (intro allI impI)
  fix s m out a data s'
  assume run: "p_until R b (s, m) out = Inr (a, data, s')"
  have "b \<in> set (take m (rest s))"
  proof (rule ccontr)
    assume "b \<notin> set (take m (rest s))"
    then show False using run read_until_exact_spec [OF laws, of b "Some m" s out]
      by (simp add: clip_def p_until_def)
  qed
  then obtain ys zs where "take m (rest s) = ys @ b # zs" "b \<notin> set ys" by (meson split_list_first)
  then show "\<exists>xs. takes rest fate (p_until R b) a xs \<and> prefix xs (take m (rest s))"
    using takes_until [OF laws, of b ys] by (intro exI [of _ "ys @ [b]"]) simp
qed

lemma takes_skip:
  assumes laws: "reader_laws R rest fate"
  shows "takes rest fate (skip R (length xs)) () xs"
proof -
  have law: "\<And>r lim. let avail = clip lim (rest r) in
        if fails_at rest fate r lim = None
        then \<exists>r'. ro_read_to_end R r lim = Inr (avail, r')
               \<and> rest r' = drop (length avail) (rest r) \<and> fate r' = fate r
        else ro_read_to_end R r lim = Inl (the (fails_at rest fate r lim))"
    using laws unfolding reader_laws_def by blast
  show ?thesis
    unfolding takes_def
  proof (intro conjI allI impI)
    fix s m out assume pre: "prefix xs (take m (rest s))"
    then have len: "length xs \<le> m" "length xs \<le> length (rest s)" using prefix_length_le [OF pre] by auto
    have "take (length xs) (rest s) = xs" using pre len(1) by (auto simp: prefix_def min_def dest: arg_cong [where f = "take (length xs)"])
    then show "\<exists>s'. skip R (length xs) (s, m) out = Inr ((), out @ xs, (s', m - length xs))
        \<and> rest s' = drop (length xs) (rest s) \<and> fate s' = fate s"
      using law [of "Some (min m (length xs))" s] len
      by (auto simp: skip_def clip_def fails_at_def Let_def min_absorb2)
  next
    fix s m out assume cut: "strict_prefix (take m (rest s)) xs"
    then have len: "min m (length (rest s)) < length xs" using prefix_length_less [OF cut] by simp
    show "skip R (length xs) (s, m) out = Inl (eof_error rest fate s m)"
    proof (cases "m \<le> length (rest s)")
      case True
      then show ?thesis using law [of "Some (min m (length xs))" s] len
        by (auto simp: skip_def clip_def fails_at_def Let_def eof_error_def)
    next
      case False
      then show ?thesis using law [of "Some (min m (length xs))" s] len
        by (auto simp: skip_def clip_def fails_at_def Let_def eof_error_def split: option.splits)
    qed
  qed
qed

lemma delimited_skip:
  assumes laws: "reader_laws R rest fate"
  shows "delimited rest fate (skip R n)"
  unfolding delimited_def
proof (intro allI impI)
  fix s m out a data s'
  assume run: "skip R n (s, m) out = Inr (a, data, s')"
  have law: "let avail = clip (Some (min m n)) (rest s) in
        if fails_at rest fate s (Some (min m n)) = None
        then \<exists>r'. ro_read_to_end R s (Some (min m n)) = Inr (avail, r')
               \<and> rest r' = drop (length avail) (rest s) \<and> fate r' = fate s
        else ro_read_to_end R s (Some (min m n)) = Inl (the (fails_at rest fate s (Some (min m n))))"
    using laws unfolding reader_laws_def by blast
  have len: "n \<le> m" "n \<le> length (rest s)"
    using run law by (auto simp: skip_def clip_def Let_def split: if_splits)
  then have "takes rest fate (skip R n) () (take n (rest s))"
    using takes_skip [OF laws, of "take n (rest s)"] by (simp add: min_absorb2)
  moreover have "prefix (take n (rest s)) (take m (rest s))"
    using len by (metis min_absorb1 take_is_prefix take_take)
  ultimately show "\<exists>xs. takes rest fate (skip R n) a xs \<and> prefix xs (take m (rest s))" by auto
qed

text \<open>An exact read of as many bytes as there are in \<open>xs\<close>.\<close>

lemma read_exact_cases:
  assumes laws: "reader_laws R rest fate"
  shows "prefix xs (take m (rest s)) \<Longrightarrow> \<exists>s'. ro_read_exact R s (Some m) (length xs) = Inr (xs, s')
      \<and> rest s' = drop (length xs) (rest s) \<and> fate s' = fate s"
    and "min m (length (rest s)) < n \<Longrightarrow> ro_read_exact R s (Some m) n = Inl (eof_error rest fate s m)"
proof -
  have law: "\<And>r lim n. let avail = clip lim (rest r) in
        if n \<le> length avail
        then \<exists>r'. ro_read_exact R r lim n = Inr (take n avail, r')
               \<and> rest r' = drop n (rest r) \<and> fate r' = fate r
        else ro_read_exact R r lim n =
               Inl (case fails_at rest fate r lim of None \<Rightarrow> UnexpectedEof | Some e \<Rightarrow> e)"
    using laws unfolding reader_laws_def by blast
  show "\<exists>s'. ro_read_exact R s (Some m) (length xs) = Inr (xs, s')
      \<and> rest s' = drop (length xs) (rest s) \<and> fate s' = fate s" if pre: "prefix xs (take m (rest s))"
  proof -
    obtain zs where "take m (rest s) = xs @ zs" using pre by (auto simp: prefix_def)
    then have "take (length xs) (take m (rest s)) = xs" by (simp del: take_take)
    moreover have "length xs \<le> length (take m (rest s))" using pre by (rule prefix_length_le)
    ultimately show ?thesis using law [of "Some m" s "length xs"] by (simp add: clip_def Let_def)
  qed
  show "ro_read_exact R s (Some m) n = Inl (eof_error rest fate s m)" if "min m (length (rest s)) < n"
    using law [of "Some m" s n] that by (auto simp: clip_def Let_def eof_error_def split: if_splits)
qed

lemma takes_u32:
  assumes laws: "reader_laws R rest fate"
  shows "takes rest fate (read_value_u32 R) w (u32_to_le w)"
  unfolding takes_def
proof (intro conjI allI impI)
  fix s m out assume "prefix (u32_to_le w) (take m (rest s))"
  from read_exact_cases(1) [OF laws this] show "\<exists>s'. read_value_u32 R (s, m) out
      = Inr (w, out @ u32_to_le w, (s', m - length (u32_to_le w)))
      \<and> rest s' = drop (length (u32_to_le w)) (rest s) \<and> fate s' = fate s"
    by (auto simp: read_value_u32_def Let_def)
next
  fix s m out assume "strict_prefix (take m (rest s)) (u32_to_le w)"
  then have "min m (length (rest s)) < 4" using prefix_length_less by fastforce
  from read_exact_cases(2) [OF laws this] show "read_value_u32 R (s, m) out = Inl (eof_error rest fate s m)"
    by (simp add: read_value_u32_def)
qed

lemma takes_u8:
  assumes laws: "reader_laws R rest fate"
  shows "takes rest fate (read_value_u8 R) b [b]"
  unfolding takes_def
proof (intro conjI allI impI)
  fix s m out assume "prefix [b] (take m (rest s))"
  from read_exact_cases(1) [OF laws this] show "\<exists>s'. read_value_u8 R (s, m) out
      = Inr (b, out @ [b], (s', m - length [b])) \<and> rest s' = drop (length [b]) (rest s) \<and> fate s' = fate s"
    by (auto simp: read_value_u8_def Let_def)
next
  fix s m out assume "strict_prefix (take m (rest s)) [b]"
  then have "min m (length (rest s)) < 1" using prefix_length_less by fastforce
  from read_exact_cases(2) [OF laws this] show "read_value_u8 R (s, m) out = Inl (eof_error rest fate s m)"
    by (simp add: read_value_u8_def)
qed

lemma delimited_u32:
  assumes laws: "reader_laws R rest fate"
  shows "delimited rest fate (read_value_u32 R)"
  unfolding delimited_def
proof (intro allI impI)
  fix s m out a data s'
  assume run: "read_value_u32 R (s, m) out = Inr (a, data, s')"
  have "\<not> min m (length (rest s)) < 4"
    using run read_exact_cases(2) [OF laws, of m s 4] by (auto simp: read_value_u32_def)
  then have ge: "4 \<le> m" "4 \<le> length (rest s)" by auto
  then have len: "length (take 4 (rest s)) = 4" by simp
  have "take 4 (take m (rest s)) = take 4 (rest s)" using ge by (simp add: min_absorb1)
  then have pre: "prefix (take 4 (rest s)) (take m (rest s))" by (metis take_is_prefix)
  from read_exact_cases(1) [OF laws pre] run len have "a = u32_from_le (take 4 (rest s))"
    by (auto simp: read_value_u32_def Let_def)
  then have "u32_to_le a = take 4 (rest s)" using u32_to_from_le [OF len] by simp
  then show "\<exists>xs. takes rest fate (read_value_u32 R) a xs \<and> prefix xs (take m (rest s))"
    using takes_u32 [OF laws, of a] pre by auto
qed

lemma delimited_u8:
  assumes laws: "reader_laws R rest fate"
  shows "delimited rest fate (read_value_u8 R)"
  unfolding delimited_def
proof (intro allI impI)
  fix s m out a data s'
  assume run: "read_value_u8 R (s, m) out = Inr (a, data, s')"
  have "\<not> min m (length (rest s)) < 1"
  proof
    assume "min m (length (rest s)) < 1"
    from read_exact_cases(2) [OF laws this] run show False by (simp add: read_value_u8_def)
  qed
  then obtain b zs where b: "take m (rest s) = b # zs" by (cases "take m (rest s)") auto
  then have pre: "prefix [b] (take m (rest s))" by simp
  from read_exact_cases(1) [OF laws pre] run have "a = b" by (auto simp: read_value_u8_def Let_def)
  then show "\<exists>xs. takes rest fate (read_value_u8 R) a xs \<and> prefix xs (take m (rest s))"
    using takes_u8 [OF laws, of b] pre by auto
qed

lemma delimited_header:
  assumes "reader_laws R rest fate"
  shows "delimited rest fate (do_from_connection R)"
  unfolding do_from_connection_def read_player_def read_army_def
  by (intro delimited_then delimited_repeat delimited_until [OF assms] delimited_skip [OF assms]
      delimited_u32 [OF assms] delimited_u8 [OF assms] delimited_return)
    (simp_all add: delimited_skip [OF assms] delimited_return)

text \<open>One element after the other.\<close>

lemma takes_repeat:
  "list_all (takes rest fate p ()) xss \<Longrightarrow> takes rest fate (p_repeat (length xss) p) () (concat xss)"
proof (induction xss)
  case Nil
  then show ?case by (simp add: takes_return)
next
  case (Cons xs xss)
  then show ?case
    using takes_then [where p = p and f = "\<lambda>_. p_repeat (length xss) p" and a = "()"] by simp
qed

subsection \<open>Headers as data\<close>

text \<open>What a header of a replay consists of, and how it is written down.\<close>

record army =
  ar_data :: "byte list"
  ar_player_id :: byte
  ar_extra :: byte

record header_fields =
  hf_version :: "byte list"
  hf_skipped :: "byte list"
  hf_replay_version_and_map :: "byte list"
  hf_skipped2 :: "byte list"
  hf_mod_data :: "byte list"
  hf_scenario_info :: "byte list"
  hf_players :: "(byte list \<times> 32 word) list"
  hf_cheats_enabled :: byte
  hf_armies :: "army list"
  hf_random_seed :: "32 word"

definition encode_player :: "byte list \<times> 32 word \<Rightarrow> byte list" where
  "encode_player p = fst p @ [0] @ u32_to_le (snd p)"

definition encode_army :: "army \<Rightarrow> byte list" where
  "encode_army a = u32_to_le (word_of_nat (length (ar_data a))) @ ar_data a @ [ar_player_id a]
     @ (if ar_player_id a \<noteq> 255 then [ar_extra a] else [])"

definition encode_header :: "header_fields \<Rightarrow> byte list" where
  "encode_header h =
     hf_version h @ [0] @ hf_skipped h @ hf_replay_version_and_map h @ [0] @ hf_skipped2 h
     @ u32_to_le (word_of_nat (length (hf_mod_data h))) @ hf_mod_data h
     @ u32_to_le (word_of_nat (length (hf_scenario_info h))) @ hf_scenario_info h
     @ [word_of_nat (length (hf_players h))] @ concat (map encode_player (hf_players h))
     @ [hf_cheats_enabled h]
     @ [word_of_nat (length (hf_armies h))] @ concat (map encode_army (hf_armies h))
     @ u32_to_le (hf_random_seed h)"

text \<open>No zero byte in a string, sizes and counts that fit their fields.\<close>

definition header_wf :: "header_fields \<Rightarrow> bool" where
  "header_wf h \<longleftrightarrow>
     0 \<notin> set (hf_version h) \<and> length (hf_skipped h) = 3 \<and>
     0 \<notin> set (hf_replay_version_and_map h) \<and> length (hf_skipped2 h) = 4 \<and>
     length (hf_mod_data h) < 2 ^ 32 \<and> length (hf_scenario_info h) < 2 ^ 32 \<and>
     length (hf_players h) < 256 \<and> (\<forall>p \<in> set (hf_players h). 0 \<notin> set (fst p)) \<and>
     length (hf_armies h) < 256 \<and> (\<forall>a \<in> set (hf_armies h). length (ar_data a) < 2 ^ 32)"

lemma unat_of_nat_small: "n < 2 ^ LENGTH('a) \<Longrightarrow> unat (word_of_nat n :: 'a::len word) = n"
  by (simp add: unsigned_of_nat take_bit_nat_eq_self)

lemma takes_player:
  assumes laws: "reader_laws R rest fate" and "0 \<notin> set (fst p)"
  shows "takes rest fate (read_player R) () (encode_player p)"
proof -
  have "takes rest fate (read_player R) () ((fst p @ [0]) @ u32_to_le (snd p) @ [])"
    unfolding read_player_def
    by (rule takes_then, rule takes_until [OF laws assms(2)], rule takes_then,
        rule takes_u32 [OF laws], rule takes_return)
  then show ?thesis by (simp add: encode_player_def)
qed

lemma takes_army:
  assumes laws: "reader_laws R rest fate" and "length (ar_data a) < 2 ^ 32"
  shows "takes rest fate (read_army R) () (encode_army a)"
proof -
  have n: "unat (word_of_nat (length (ar_data a)) :: 32 word) = length (ar_data a)"
    using assms(2) by (intro unat_of_nat_small) simp
  have "takes rest fate (if ar_player_id a \<noteq> 255 then skip R 1 else p_return ()) ()
      (if ar_player_id a \<noteq> 255 then [ar_extra a] else [])"
    using takes_skip [OF laws, of "[ar_extra a]"] takes_return [of rest fate "()"] by simp
  note extra = this
  show ?thesis
    unfolding read_army_def encode_army_def
    by (rule takes_then, rule takes_u32 [OF laws], unfold n, rule takes_then, rule takes_skip [OF laws],
        rule takes_then, rule takes_u8 [OF laws], rule extra)
qed

lemma takes_header:
  assumes laws: "reader_laws R rest fate" and wf: "header_wf h"
  shows "takes rest fate (do_from_connection R) () (encode_header h)"
proof -
  note W = wf [unfolded header_wf_def]
  have n: "unat (word_of_nat (length (hf_mod_data h)) :: 32 word) = length (hf_mod_data h)"
    "unat (word_of_nat (length (hf_scenario_info h)) :: 32 word) = length (hf_scenario_info h)"
    "unat (word_of_nat (length (hf_players h)) :: byte) = length (map encode_player (hf_players h))"
    "unat (word_of_nat (length (hf_armies h)) :: byte) = length (map encode_army (hf_armies h))"
    using W by (simp_all add: unat_of_nat_small)
  have players: "takes rest fate (p_repeat (length (map encode_player (hf_players h))) (read_player R)) ()
      (concat (map encode_player (hf_players h)))"
    using W takes_player [OF laws] by (intro takes_repeat) (auto simp: list_all_iff)
  have armies: "takes rest fate (p_repeat (length (map encode_army (hf_armies h))) (read_army R)) ()
      (concat (map encode_army (hf_armies h)))"
    using W takes_army [OF laws] by (intro takes_repeat) (auto simp: list_all_iff)
  have skips: "takes rest fate (skip R 3) () (hf_skipped h)" "takes rest fate (skip R 4) () (hf_skipped2 h)"
    using W takes_skip [OF laws, of "hf_skipped h"] takes_skip [OF laws, of "hf_skipped2 h"] by simp_all
  have strings: "takes rest fate (p_until R 0) () (hf_version h @ [0])"
    "takes rest fate (p_until R 0) () (hf_replay_version_and_map h @ [0])"
    using W takes_until [OF laws] by blast+
  have tail: "takes rest fate (p_then (read_value_u32 R) (\<lambda>_. p_return ())) () (u32_to_le (hf_random_seed h))"
  proof -
    have "takes rest fate (p_then (read_value_u32 R) (\<lambda>_. p_return ())) () (u32_to_le (hf_random_seed h) @ [])"
      by (rule takes_then, rule takes_u32 [OF laws], rule takes_return)
    then show ?thesis by simp
  qed
  have "takes rest fate (do_from_connection R) ()
    ((hf_version h @ [0]) @ hf_skipped h @ (hf_replay_version_and_map h @ [0]) @ hf_skipped2 h
     @ u32_to_le (word_of_nat (length (hf_mod_data h))) @ hf_mod_data h
     @ u32_to_le (word_of_nat (length (hf_scenario_info h))) @ hf_scenario_info h
     @ [word_of_nat (length (hf_players h))] @ concat (map encode_player (hf_players h))
     @ [hf_cheats_enabled h]
     @ [word_of_nat (length (hf_armies h))] @ concat (map encode_army (hf_armies h))
     @ u32_to_le (hf_random_seed h))"
    unfolding do_from_connection_def
    by (rule takes_then, rule strings(1), rule takes_then, rule skips(1), rule takes_then, rule strings(2),
        rule takes_then, rule skips(2), rule takes_then, rule takes_u32 [OF laws], unfold n,
        rule takes_then, rule takes_skip [OF laws], rule takes_then, rule takes_u32 [OF laws], unfold n,
        rule takes_then, rule takes_skip [OF laws], rule takes_then, rule takes_u8 [OF laws], unfold n,
        rule takes_then, rule players, rule takes_then, rule takes_u8 [OF laws],
        rule takes_then, rule takes_u8 [OF laws], unfold n, rule takes_then, rule armies, rule tail)
  then show ?thesis by (simp add: encode_header_def)
qed

end
