(* ===== verification/Replay_Header_Facts.thy ===== *)
theory Replay_Header_Facts
  imports Replay_Header
begin

text \<open>
  What the header parser of \<open>src/replay/streams/header.rs\<close> promises: the bytes it keeps are the
  bytes it took off the connection, they delimit themselves, and every well-formed header of at
  most \<open>MAX_SIZE\<close> bytes is accepted unchanged.
\<close>

lemma take_strict_prefix:
  assumes "n < length xs"
  shows "strict_prefix (take n xs) xs"
proof -
  have "length (take n xs) \<noteq> length xs" using assms by simp
  then have "take n xs \<noteq> xs" by metis
  then show ?thesis using take_is_prefix [of n xs] by (simp add: strict_prefix_def)
qed

lemma from_connection_takes:
  assumes "takes rest fate (do_from_connection R) () xs"
  shows "prefix xs (take MAX_SIZE (rest c)) \<Longrightarrow>
      \<exists>c'. from_connection R c = Inr (xs, c') \<and> rest c' = drop (length xs) (rest c) \<and> fate c' = fate c"
    and "strict_prefix (take MAX_SIZE (rest c)) xs \<Longrightarrow>
      from_connection R c = Inl (IO (eof_error rest fate c MAX_SIZE))"
proof -
  show "\<exists>c'. from_connection R c = Inr (xs, c') \<and> rest c' = drop (length xs) (rest c) \<and> fate c' = fate c"
    if pre: "prefix xs (take MAX_SIZE (rest c))"
  proof -
    obtain c' where "do_from_connection R (c, MAX_SIZE) [] = Inr ((), [] @ xs, (c', MAX_SIZE - length xs))"
      "rest c' = drop (length xs) (rest c)" "fate c' = fate c"
      using assms pre unfolding takes_def by blast
    then show ?thesis by (simp add: from_connection_def)
  qed
  show "from_connection R c = Inl (IO (eof_error rest fate c MAX_SIZE))"
    if "strict_prefix (take MAX_SIZE (rest c)) xs"
    using assms that by (simp add: takes_def from_connection_def)
qed

subsection \<open>Properties\<close>

definition demo_header :: header_fields where
  "demo_header = \<lparr>hf_version = [86], hf_skipped = [1, 2, 3], hf_replay_version_and_map = [109, 97, 112],
     hf_skipped2 = [4, 5, 6, 7], hf_mod_data = [8, 9], hf_scenario_info = [0],
     hf_players = [([110], 1)], hf_cheats_enabled = 0,
     hf_armies = [\<lparr>ar_data = [10], ar_player_id = 0, ar_extra = 11\<rparr>, \<lparr>ar_data = [], ar_player_id = 255, ar_extra = 0\<rparr>],
     hf_random_seed = 42\<rparr>"

lemma demo_header_wf: "header_wf demo_header"
  by (simp add: header_wf_def demo_header_def)

lemma demo_header_length: "length (encode_header demo_header) = 49"
  by (simp add: encode_header_def demo_header_def encode_player_def encode_army_def)

text \<open>
  C25: the header that is kept is exactly what was taken off the connection, at most \<open>MAX_SIZE\<close>
  bytes of it. Those bytes delimit themselves: any connection that starts with them yields
  them again and goes on right after, and a connection that ends within them yields an error.
\<close>

theorem replay_header_lossless:
  assumes "reader_laws R rest fate" and "from_connection R c = Inr (data, c')"
  shows "rest c = data @ rest c' \<and> length data \<le> MAX_SIZE
    \<and> (\<forall>d. prefix data (rest d) \<longrightarrow>
        (\<exists>d'. from_connection R d = Inr (data, d') \<and> rest d = data @ rest d'))
    \<and> (\<forall>d. strict_prefix (rest d) data \<longrightarrow>
        from_connection R d = Inl (IO (case fate d of None \<Rightarrow> UnexpectedEof | Some e \<Rightarrow> e)))"
proof -
  obtain u n where run: "do_from_connection R (c, MAX_SIZE) [] = Inr (u, data, (c', n))"
    using assms(2) by (auto simp: from_connection_def and_then_Inr)
  obtain xs where xs: "takes rest fate (do_from_connection R) () xs" "prefix xs (take MAX_SIZE (rest c))"
    using run delimited_header [OF assms(1)] unfolding delimited_def by fastforce
  have c: "xs = data" "rest c' = drop (length xs) (rest c)"
    using from_connection_takes(1) [OF xs] assms(2) by auto
  have split: "ys = take (length xs) ys @ drop (length xs) ys" for ys :: "byte list" by simp
  have len: "length xs \<le> MAX_SIZE" using prefix_length_le [OF xs(2)] by simp
  have recompose: "ys = xs @ drop (length xs) ys" if "prefix xs ys" for ys
    using that by (auto simp: prefix_def)
  have "prefix xs (rest c)" using xs(2) take_is_prefix prefix_order.trans by blast
  then have "rest c = data @ rest c'" using recompose c by simp
  moreover have "\<exists>d'. from_connection R d = Inr (data, d') \<and> rest d = data @ rest d'"
    if pre: "prefix data (rest d)" for d
  proof -
    have "prefix xs (take MAX_SIZE (rest d))"
      using pre c(1) len by (auto simp: prefix_def take_append)
    then show ?thesis using from_connection_takes(1) [OF xs(1)] recompose [of "rest d"] pre c(1) by fastforce
  qed
  moreover have "from_connection R d = Inl (IO (case fate d of None \<Rightarrow> UnexpectedEof | Some e \<Rightarrow> e))"
    if cut: "strict_prefix (rest d) data" for d
  proof -
    have "length (rest d) < MAX_SIZE" using prefix_length_less [OF cut] len c(1) by simp
    then show ?thesis using from_connection_takes(2) [OF xs(1), of d] cut c(1)
      by (simp add: eof_error_def fails_at_def)
  qed
  ultimately show ?thesis using len c(1) by blast
qed

theorem replay_header_lossless_witness:
  "\<exists>c'. from_connection list_reader_ops (encode_header demo_header @ [1, 2], None) = Inr (encode_header demo_header, c')
     \<and> list_rest c' = [1, 2]
     \<and> from_connection list_reader_ops (take 48 (encode_header demo_header), None) = Inl (IO UnexpectedEof)"
proof -
  let ?c = "(encode_header demo_header @ [1, 2], None) :: list_reader"
  have "prefix (encode_header demo_header) (take MAX_SIZE (list_rest ?c))"
    by (simp add: list_rest_def demo_header_length MAX_SIZE_def)
  then obtain c' where run: "from_connection list_reader_ops ?c = Inr (encode_header demo_header, c')"
    using from_connection_takes(1) [OF takes_header [OF list_reader_laws demo_header_wf]] by blast
  note * = replay_header_lossless [OF list_reader_laws run]
  have "strict_prefix (take 48 (encode_header demo_header)) (encode_header demo_header)"
    by (rule take_strict_prefix) (simp add: demo_header_length)
  then show ?thesis using * run by (auto simp: list_rest_def list_fate_def)
qed

text \<open>
  C24: every well-formed header is accepted, whatever follows it, and kept byte for byte; one
  that is longer than \<open>MAX_SIZE\<close> is refused.
\<close>

theorem replay_header_roundtrip:
  assumes "reader_laws R rest fate" and "header_wf h" and "prefix (encode_header h) (rest c)"
  shows "if length (encode_header h) \<le> MAX_SIZE
    then \<exists>c'. from_connection R c = Inr (encode_header h, c') \<and> rest c = encode_header h @ rest c'
    else from_connection R c = Inl (IO UnexpectedEof)"
proof (cases "length (encode_header h) \<le> MAX_SIZE")
  case True
  then have "prefix (encode_header h) (take MAX_SIZE (rest c))"
    using assms(3) by (auto simp: prefix_def take_append)
  from from_connection_takes(1) [OF takes_header [OF assms(1,2)] this] True assms(3) show ?thesis
    by (auto simp: prefix_def)
next
  case False
  obtain zs where zs: "rest c = encode_header h @ zs" using assms(3) by (auto simp: prefix_def)
  have "take MAX_SIZE (rest c) = take MAX_SIZE (encode_header h)" using False zs by simp
  then have "strict_prefix (take MAX_SIZE (rest c)) (encode_header h)"
    using False by (simp add: take_strict_prefix)
  from from_connection_takes(2) [OF takes_header [OF assms(1,2)] this] False zs show ?thesis
    by (simp add: eof_error_def fails_at_def)
qed

theorem replay_header_roundtrip_witness:
  "\<exists>c'. from_connection list_reader_ops (encode_header demo_header @ [7], Some (OtherIo 1))
      = Inr (encode_header demo_header, c') \<and> encode_header demo_header \<noteq> []"
  using replay_header_roundtrip [OF list_reader_laws demo_header_wf,
      of "(encode_header demo_header @ [7], Some (OtherIo 1))"] demo_header_length
  by (auto simp: list_rest_def MAX_SIZE_def)

end
