(* ===== verification/Replay_Stream.thy ===== *)
theory Replay_Stream
  imports Merged_Replay
begin

text \<open>
  The trait \<open>ReplayStream\<close> of \<open>src/replay/streams/mod.rs\<close>: what \<open>WriterReplay\<close> and \<open>MergedReplay\<close> have in
  common. \<open>ReplayStreamRef\<close> forwards the same four methods through a \<open>RefCell\<close>, so that it is the same
  record. Its contract is a locale, which both implementations are shown to keep.
\<close>

record 's replay_stream =
  st_data_len :: "'s \<Rightarrow> usize"
  st_delayed_data_len :: "'s \<Rightarrow> usize"
  st_get_data :: "'s \<Rightarrow> buf_deque"
  st_is_finished :: "'s \<Rightarrow> bool"

definition writer_stream :: "writer_replay replay_stream" where
  "writer_stream =
     \<lparr>st_data_len = wr_data_len, st_delayed_data_len = wr_delayed_data_len, st_get_data = wr_data,
      st_is_finished = wr_finished\<rparr>"

definition merged_stream :: "merged_replay replay_stream" where
  "merged_stream =
     \<lparr>st_data_len = mr_data_len, st_delayed_data_len = mr_delayed_data_len, st_get_data = mr_data,
      st_is_finished = mr_finished\<rparr>"

text \<open>
  A stream stands for the bytes \<open>xs\<close>: its data are those bytes, and what is delayed is no more than
  that. \<open>grows\<close> are the operations that are allowed on it: they only add data, never move the
  delayed position back, and add nothing to a finished stream.
\<close>

locale stream_contract =
  fixes R :: "'s replay_stream"
    and rep :: "'s \<Rightarrow> byte list \<Rightarrow> bool"
    and grows :: "'s \<Rightarrow> 's \<Rightarrow> bool"
  assumes data_rep: "rep s xs \<Longrightarrow> deque_rep (st_get_data R s) xs"
    and len_rep: "rep s xs \<Longrightarrow> st_data_len R s = length xs"
    and delayed_le: "rep s xs \<Longrightarrow> st_delayed_data_len R s \<le> length xs"
    and grows_rep: "rep s xs \<Longrightarrow> grows s s' \<Longrightarrow> \<exists>ys. rep s' (xs @ ys) \<and> (st_is_finished R s \<longrightarrow> ys = [])
      \<and> st_delayed_data_len R s \<le> st_delayed_data_len R s' \<and> (st_is_finished R s \<longrightarrow> st_is_finished R s')"
begin

text \<open>The delayed part of a stream.\<close>

definition delayed :: "'s \<Rightarrow> byte list \<Rightarrow> byte list" where
  "delayed s xs = take (st_delayed_data_len R s) xs"

lemma delayed_prefix: "prefix (delayed s xs) xs"
  by (simp add: delayed_def take_is_prefix)

text \<open>After any number of operations what was delayed is there still, and a finished stream is what it was.\<close>

lemma grows_many:
  assumes "rtranclp grows s s'" "rep s xs"
  shows "\<exists>ys. rep s' (xs @ ys) \<and> prefix (delayed s xs) (delayed s' (xs @ ys))
    \<and> (st_is_finished R s \<longrightarrow> ys = [] \<and> st_is_finished R s')"
  using assms
proof (induction rule: rtranclp_induct)
  case base
  then show ?case by (intro exI [of _ "[]"]) simp
next
  case (step t u)
  obtain ys where ys: "rep t (xs @ ys)" "prefix (delayed s xs) (delayed t (xs @ ys))"
    "st_is_finished R s \<longrightarrow> ys = [] \<and> st_is_finished R t"
    using step.IH [OF step.prems] by blast
  obtain zs where zs: "rep u ((xs @ ys) @ zs)" "st_is_finished R t \<longrightarrow> zs = []"
    "st_delayed_data_len R t \<le> st_delayed_data_len R u" "st_is_finished R t \<longrightarrow> st_is_finished R u"
    using grows_rep [OF ys(1) step.hyps(2)] by blast
  have "st_delayed_data_len R t \<le> length (xs @ ys)" by (rule delayed_le [OF ys(1)])
  then have "delayed t (xs @ ys) = take (st_delayed_data_len R t) (delayed u ((xs @ ys) @ zs))"
    using zs(3) by (simp add: delayed_def min_def)
  then have "prefix (delayed t (xs @ ys)) (delayed u ((xs @ ys) @ zs))" by (simp add: take_is_prefix)
  then show ?case using ys zs prefix_order.trans by (intro exI [of _ "ys @ zs"]) auto
qed

end

subsection \<open>The two implementations\<close>

text \<open>
  The operations of \<open>WriterReplay\<close>, as its users call them: data are added before it is finished, and the
  delayed position is set within the data.
\<close>

inductive writer_grows :: "writer_replay \<Rightarrow> writer_replay \<Rightarrow> bool" where
  writer_header: "writer_grows w (wr_add_header w h)"
| writer_take: "wr_take_header w = Some (h, w') \<Longrightarrow> writer_grows w w'"
| writer_data: "\<not> wr_finished w \<Longrightarrow> wr_add_data w buf = Some w' \<Longrightarrow> writer_grows w w'"
| writer_delayed: "n \<le> wr_data_len w \<Longrightarrow> wr_set_delayed_data_len w n = Some w' \<Longrightarrow> writer_grows w w'"
| writer_discard: "writer_grows w (wr_discard w n)"
| writer_discard_all: "writer_grows w (wr_discard_all w)"
| writer_finish: "writer_grows w (wr_finish w)"

text \<open>Those of \<open>MergedReplay\<close>, which asserts most of this itself.\<close>

inductive merged_grows :: "merged_replay \<Rightarrow> merged_replay \<Rightarrow> bool" where
  merged_header: "mr_add_header c h = Some c' \<Longrightarrow> merged_grows c c'"
| merged_data: "deque_rep (wr_data w) xs \<Longrightarrow> window_start (wr_data w) \<le> mr_data_len c \<Longrightarrow> mr_data_len c \<le> until \<Longrightarrow>
    mr_add_data c w until = Some c' \<Longrightarrow> merged_grows c c'"
| merged_delayed: "mr_delayed_data_len c \<le> n \<Longrightarrow> mr_advance_delayed_data c n = Some c' \<Longrightarrow> merged_grows c c'"
| merged_wait: "merged_grows c (mr_wait_for_read_event c t)"
| merged_finish: "merged_grows c (mr_finish c)"

definition writer_rep :: "writer_replay \<Rightarrow> byte list \<Rightarrow> bool" where
  "writer_rep w xs \<longleftrightarrow> deque_rep (wr_data w) xs \<and> wr_delayed_data_len w \<le> length xs"

lemma writer_grows_rep:
  assumes "writer_rep w xs" "writer_grows w w'"
  shows "\<exists>ys. writer_rep w' (xs @ ys) \<and> (wr_finished w \<longrightarrow> ys = []) \<and> wr_delayed_data_len w \<le> wr_delayed_data_len w'
    \<and> (wr_finished w \<longrightarrow> wr_finished w')"
  using assms(2)
proof cases
  case (writer_data buf)
  obtain w1 where "wr_add_data w buf = Some w1" "deque_rep (wr_data w1) (xs @ buf)" "wr_delayed_data_len w1 = wr_delayed_data_len w"
    using wr_add_data_rep [of w xs buf] assms(1) by (auto simp: writer_rep_def wr_add_data_def bind_eq_Some_conv)
  then show ?thesis using writer_data assms(1) by (intro exI [of _ buf]) (simp add: writer_rep_def)
qed (use assms(1) in \<open>auto simp: writer_rep_def wr_take_header_def wr_set_delayed_data_len_def wr_data_len_rep stream_simps
  bd_discard_rep intro!: exI [of _ "[]"] split: option.splits bind_splits if_splits\<close>)

interpretation wrs: stream_contract writer_stream writer_rep writer_grows
proof
  fix s s' xs assume "writer_rep s xs" "writer_grows s s'"
  from writer_grows_rep [OF this] show "\<exists>ys. writer_rep s' (xs @ ys)
      \<and> (st_is_finished writer_stream s \<longrightarrow> ys = [])
      \<and> st_delayed_data_len writer_stream s \<le> st_delayed_data_len writer_stream s'
      \<and> (st_is_finished writer_stream s \<longrightarrow> st_is_finished writer_stream s')"
    by (simp add: writer_stream_def)
qed (simp_all add: writer_stream_def writer_rep_def wr_data_len_rep)

lemma merged_grows_rep:
  assumes "mr_rep c xs" "merged_grows c c'"
  shows "\<exists>ys. mr_rep c' (xs @ ys) \<and> (mr_finished c \<longrightarrow> ys = []) \<and> mr_delayed_data_len c \<le> mr_delayed_data_len c'
    \<and> (mr_finished c \<longrightarrow> mr_finished c')"
  using assms(2)
proof cases
  case (merged_data w zs until)
  have nf: "\<not> mr_finished c" "until \<le> length zs"
    using merged_data(4) bd.len_rep [OF merged_data(1)] by (auto simp: mr_add_data_def bind_eq_Some_conv assert_that_def split: if_splits)
  have "mr_data_len c = length xs" by (rule mr_rep_len [OF assms(1)])
  then obtain d where "mr_add_data c w until = Some (c\<lparr>mr_data := d\<rparr>)"
    "mr_rep (c\<lparr>mr_data := d\<rparr>) (xs @ take (until - length xs) (drop (length xs) zs))"
    using mr_add_data_rep [OF assms(1) merged_data(1) nf(1)] merged_data(2,3) nf(2) by auto
  then show ?thesis using merged_data(4) nf(1) by auto
qed (use assms(1) in \<open>auto simp: mr_rep_def mr_add_header_def mr_advance_delayed_data_def stream_simps bd.len_rep
  assert_that_def bind_eq_Some_conv intro!: exI [of _ "[]"] split: if_splits\<close>)

interpretation mrs: stream_contract merged_stream mr_rep merged_grows
proof
  fix s s' xs assume "mr_rep s xs" "merged_grows s s'"
  from merged_grows_rep [OF this] show "\<exists>ys. mr_rep s' (xs @ ys)
      \<and> (st_is_finished merged_stream s \<longrightarrow> ys = [])
      \<and> st_delayed_data_len merged_stream s \<le> st_delayed_data_len merged_stream s'
      \<and> (st_is_finished merged_stream s \<longrightarrow> st_is_finished merged_stream s')"
    by (simp add: merged_stream_def)
qed (simp_all add: merged_stream_def mr_rep_len, simp_all add: mr_rep_def)

end
