(* ===== verification/Writer_Input.thy ===== *)
theory Writer_Input
  imports Replay_Header_Facts Replay_Stream
begin

text \<open>
  What a connection of a writer goes through: \<open>read_header\<close> of \<open>src/replay/streams/writer_replay.rs\<close>, and
  then \<open>read_data\<close> of the theory \<open>Writer_Replay\<close>, on a \<open>WriterReplay\<close> of its own.
\<close>

definition read_header :: "'r reader_ops \<Rightarrow> writer_replay \<Rightarrow> 'r \<Rightarrow> (writer_replay \<times> 'r) conn_result" where
  "read_header R me c =
     and_then (from_connection R c) (\<lambda>(header, c). Inr (wr_add_header me header, c))"

text \<open>A header that cannot be read leaves the replay of the connection as it was: the error is all there is.\<close>

lemma read_header_error: "read_header R me c = Inl e \<longleftrightarrow> from_connection R c = Inl e"
  by (auto simp: read_header_def and_then_def split: sum.splits)

lemma from_connection_whole:
  assumes "reader_laws R rest fate" "header_wf h" "length (encode_header h) \<le> MAX_SIZE"
    "rest c = encode_header h @ body"
  shows "\<exists>c'. from_connection R c = Inr (encode_header h, c') \<and> rest c' = body"
proof -
  have "prefix (encode_header h) (take MAX_SIZE (rest c))" using assms(3,4) by (simp add: take_append)
  from from_connection_takes(1) [OF takes_header [OF assms(1,2)] this] assms(4) show ?thesis by auto
qed

text \<open>
  All that a client sends arrives: the header is the one that it sent, the data are what the reads gave
  after it, in order, whatever the sizes of the reads; and what has been received once stays through
  everything that the merge does with the replay.
\<close>

lemma writer_receives:
  assumes "reader_laws R rest fate" "header_wf h" "length (encode_header h) \<le> MAX_SIZE"
    "rest c = encode_header h @ body"
  shows "\<exists>w c' d out. read_header R wr_new c = Inr (w, c') \<and> rest c' = body \<and> wr_header w = Some (encode_header h)
    \<and> read_data w reads = Some (w\<lparr>wr_data := d\<rparr>, out)
    \<and> (\<forall>w'. writer_grows\<^sup>*\<^sup>* (w\<lparr>wr_data := d\<rparr>) w' \<longrightarrow> (\<exists>ys. writer_rep w' (received reads @ ys)))"
proof -
  obtain c' where c': "from_connection R c = Inr (encode_header h, c')" "rest c' = body"
    using from_connection_whole [OF assms] by blast
  let ?w = "wr_add_header wr_new (encode_header h)"
  have "deque_rep (wr_data ?w) []" by (simp add: stream_simps deque_rep_new)
  from read_data_rep [OF this, of reads] obtain d out where d:
    "read_data ?w reads = Some (?w\<lparr>wr_data := d\<rparr>, out)" "deque_rep d (received reads)" by auto
  have "writer_rep (?w\<lparr>wr_data := d\<rparr>) (received reads)"
    using d(2) by (simp add: writer_rep_def stream_simps)
  then have "\<exists>ys. writer_rep w' (received reads @ ys)" if "writer_grows\<^sup>*\<^sup>* (?w\<lparr>wr_data := d\<rparr>) w'" for w'
    using wrs.grows_many [OF that] by blast
  then show ?thesis using c' d(1)
    by (intro exI [of _ ?w] exI [of _ c'] exI [of _ d] exI [of _ out])
      (simp add: read_header_def and_then_def stream_simps)
qed

end
