(* ===== verification/Connection_Header.thy ===== *)
theory Connection_Header
  imports Connection
begin

text \<open>
  \<open>ConnectionHeader\<close> of \<open>src/accept/header.rs\<close>: the first bytes of a connection say whether
  it reads or writes a replay, and which. The std functions it parses with, \<open>from_utf8\<close> and
  \<open>parse::<u64>\<close>, are written out.
\<close>

datatype connection_type = Reader | Writer

record connection_header =
  ch_type :: connection_type
  ch_id :: nat
  ch_name :: "byte list"

subsection \<open>UTF-8\<close>

definition continuation :: "byte \<Rightarrow> bool" where
  "continuation b \<longleftrightarrow> 128 \<le> unat b \<and> unat b \<le> 191"

text \<open>
  The sequences of \<open>from_utf8\<close>: no overlong form, no surrogate, nothing above U+10FFFF.
\<close>

definition utf8_two :: "byte \<Rightarrow> byte \<Rightarrow> bool" where
  "utf8_two a b \<longleftrightarrow> 194 \<le> unat a \<and> unat a \<le> 223 \<and> continuation b"

definition utf8_three :: "byte \<Rightarrow> byte \<Rightarrow> byte \<Rightarrow> bool" where
  "utf8_three a b c \<longleftrightarrow> 224 \<le> unat a \<and> unat a \<le> 239 \<and> continuation b \<and> continuation c \<and>
     (unat a = 224 \<longrightarrow> 160 \<le> unat b) \<and> (unat a = 237 \<longrightarrow> unat b \<le> 159)"

definition utf8_four :: "byte \<Rightarrow> byte \<Rightarrow> byte \<Rightarrow> byte \<Rightarrow> bool" where
  "utf8_four a b c d \<longleftrightarrow> 240 \<le> unat a \<and> unat a \<le> 244 \<and> continuation b \<and> continuation c \<and>
     continuation d \<and> (unat a = 240 \<longrightarrow> 144 \<le> unat b) \<and> (unat a = 244 \<longrightarrow> unat b \<le> 143)"

fun valid_utf8 :: "byte list \<Rightarrow> bool" where
  "valid_utf8 [] = True"
| "valid_utf8 (a # bs) =
     (if unat a < 128 then valid_utf8 bs
      else case bs of
        [] \<Rightarrow> False
      | b # bs2 \<Rightarrow>
          (if utf8_two a b then valid_utf8 bs2
           else case bs2 of
             [] \<Rightarrow> False
           | c # bs3 \<Rightarrow>
               (if utf8_three a b c then valid_utf8 bs3
                else case bs3 of
                  [] \<Rightarrow> False
                | d # bs4 \<Rightarrow> utf8_four a b c d \<and> valid_utf8 bs4)))"

definition from_utf8 :: "byte list \<Rightarrow> byte list option" where
  "from_utf8 bs = (if valid_utf8 bs then Some bs else None)"

subsection \<open>Numbers\<close>

definition digit :: "byte \<Rightarrow> nat option" where
  "digit b = (if 48 \<le> unat b \<and> unat b \<le> 57 then Some (unat b - 48) else None)"

fun parse_digits :: "nat \<Rightarrow> byte list \<Rightarrow> nat option" where
  "parse_digits acc [] = Some acc"
| "parse_digits acc (b # bs) =
     (case digit b of
        None \<Rightarrow> None
      | Some d \<Rightarrow> if acc * 10 + d < 2 ^ 64 then parse_digits (acc * 10 + d) bs else None)"

text \<open>\<open>parse::<u64>\<close>: a plus sign may come first, and there must be a digit.\<close>

definition parse_u64 :: "byte list \<Rightarrow> nat option" where
  "parse_u64 bs =
     (case bs of
        [] \<Rightarrow> None
      | b # bs' \<Rightarrow>
          if b = 43 then (if bs' = [] then None else parse_digits 0 bs') else parse_digits 0 bs)"

subsection \<open>Reading the header\<close>

text \<open>\<open>pretty_bytes\<close> of \<open>src/util/mod.rs\<close>, over the std \<open>escape_default\<close>.\<close>

definition hex_digit :: "nat \<Rightarrow> char" where
  "hex_digit n = ''0123456789abcdef'' ! n"

definition escape_default :: "byte \<Rightarrow> string" where
  "escape_default b =
     (let n = unat b; backslash = CHR 0x5C
      in if n = 9 then [backslash, CHR ''t'']
         else if n = 13 then [backslash, CHR ''r'']
         else if n = 10 then [backslash, CHR ''n'']
         else if n = 39 \<or> n = 34 \<or> n = 92 then [backslash, char_of n]
         else if 32 \<le> n \<and> n \<le> 126 then [char_of n]
         else [backslash, CHR ''x'', hex_digit (n div 16), hex_digit (n mod 16)])"

definition pretty_bytes :: "byte list \<Rightarrow> string" where
  "pretty_bytes bytes = concat (map escape_default bytes)"

definition read_type :: "'r reader_ops \<Rightarrow> 'r \<Rightarrow> (connection_type \<times> 'r) conn_result" where
  "read_type R conn =
     and_then (map_err IO (ro_read_exact R conn None 2)) (\<lambda>(buf, conn).
       if buf = [80, 47] then Inr (Writer, conn)
       else if buf = [71, 47] then Inr (Reader, conn)
       else Inl (bad_data (''Invalid connection type: '' @ [CHR 0x27] @ pretty_bytes buf @ [CHR 0x27])))"

text \<open>\<open>splitn(2, |c| c == b'/')\<close>: two pieces if there is a slash, one if there is none.\<close>

definition split_slash :: "byte list \<Rightarrow> byte list list" where
  "split_slash line =
     (if (47 :: byte) \<in> set line
      then [takeWhile (\<lambda>x. x \<noteq> 47) line, tl (dropWhile (\<lambda>x. x \<noteq> 47) line)]
      else [line])"

text \<open>The macro \<open>some_error!\<close> turns any error into one that carries nothing.\<close>

definition ok_or :: "'a option \<Rightarrow> 'e \<Rightarrow> 'e + 'a" where
  "ok_or x e = (case x of None \<Rightarrow> Inl e | Some y \<Rightarrow> Inr y)"

definition read_game_data :: "'r reader_ops \<Rightarrow> 'r \<Rightarrow> ((nat \<times> byte list) \<times> 'r) conn_result" where
  "read_game_data R conn =
     and_then (map_err (\<lambda>_. bad_data ''Connection header is incomplete'') (read_until_exact R conn (Some 1024) 0 []))
       (\<lambda>(_, line, conn).
         let line = butlast line;
             pieces = split_slash line
         in if length pieces < 2 then Inl (bad_data ''No slash between game ID and name'')
            else
              let id_bytes = pieces ! 0;
                  name_bytes = pieces ! 1
              in and_then (ok_or (Option.bind (from_utf8 id_bytes) parse_u64) (bad_data ''Failed to parse replay ID''))
                   (\<lambda>id. and_then (ok_or (from_utf8 name_bytes) (bad_data ''Failed to decode connection string id''))
                     (\<lambda>name. Inr ((id, name), conn))))"

definition read_connection_header :: "'r reader_ops \<Rightarrow> 'r \<Rightarrow> (connection_header \<times> 'r) conn_result" where
  "read_connection_header R conn =
     and_then (map_err (\<lambda>e. if is_eof e then NoData else e) (read_type R conn))
       (\<lambda>(typ, conn).
         and_then (read_game_data R conn)
           (\<lambda>((id, name), conn). Inr (\<lparr>ch_type = typ, ch_id = id, ch_name = name\<rparr>, conn)))"

subsection \<open>Facts\<close>

text \<open>The decimal digits of a number, as they are sent.\<close>

definition digit_byte :: "nat \<Rightarrow> byte" where
  "digit_byte d = word_of_nat (48 + d)"

lemma unat_digit_byte: "d < 10 \<Longrightarrow> unat (digit_byte d) = 48 + d"
  unfolding digit_byte_def by (subst unsigned_of_nat) (simp add: take_bit_nat_eq_self)

fun decimal :: "nat \<Rightarrow> byte list" where
  "decimal n = (if n < 10 then [digit_byte n] else decimal (n div 10) @ [digit_byte (n mod 10)])"

declare decimal.simps [simp del]

lemma digit_of [simp]: "d < 10 \<Longrightarrow> digit (digit_byte d) = Some d"
  by (simp add: digit_def unat_digit_byte)

lemma parse_digits_append:
  "parse_digits a (xs @ ys) = Option.bind (parse_digits a xs) (\<lambda>b. parse_digits b ys)"
  by (induction a xs rule: parse_digits.induct) (auto split: option.splits)

lemma parse_digits_decimal: "n < 2 ^ 64 \<Longrightarrow> parse_digits 0 (decimal n) = Some n"
proof (induction n rule: decimal.induct)
  case (1 n)
  show ?case
  proof (cases "n < 10")
    case True
    then show ?thesis using "1.prems" by (subst decimal.simps) simp
  next
    case False
    then have "parse_digits 0 (decimal (n div 10)) = Some (n div 10)" using 1 by simp
    moreover have "n div 10 * 10 + n mod 10 = n" by simp
    ultimately show ?thesis using False "1.prems"
      by (subst decimal.simps) (simp add: parse_digits_append)
  qed
qed

lemma decimal_bytes: "b \<in> set (decimal n) \<Longrightarrow> 48 \<le> unat b \<and> unat b \<le> 57"
proof (induction n rule: decimal.induct)
  case (1 n)
  have *: "48 \<le> unat (digit_byte d) \<and> unat (digit_byte d) \<le> 57" if "d < 10" for d
    using that by (simp add: unat_digit_byte)
  show ?case
  proof (cases "n < 10")
    case True
    then show ?thesis using "1.prems" * by (subst (asm) decimal.simps) simp
  next
    case False
    then have "b \<in> set (decimal (n div 10)) \<or> b = digit_byte (n mod 10)"
      using "1.prems" by (subst (asm) decimal.simps) auto
    then show ?thesis using "1.IH" [OF False] * [of "n mod 10"] by auto
  qed
qed

lemma decimal_nonempty: "decimal n \<noteq> []"
  by (subst decimal.simps) simp

lemma parse_u64_decimal:
  assumes "n < 2 ^ 64" shows "parse_u64 (decimal n) = Some n"
proof -
  obtain b bs where b: "decimal n = b # bs" using decimal_nonempty by (cases "decimal n") auto
  then have "48 \<le> unat b" using decimal_bytes [of b n] by simp
  then have "b \<noteq> 43" by auto
  then show ?thesis using b parse_digits_decimal [OF assms] by (simp add: parse_u64_def)
qed

lemma valid_utf8_ascii: "(\<And>b. b \<in> set bs \<Longrightarrow> unat b < 128) \<Longrightarrow> valid_utf8 bs"
  by (induction bs) auto

lemma split_slash_at: "47 \<notin> set xs \<Longrightarrow> split_slash (xs @ 47 # ys) = [xs, ys]"
proof -
  assume x: "47 \<notin> set xs"
  then have "takeWhile (\<lambda>x. x \<noteq> 47) xs = xs" "\<forall>x \<in> set xs. x \<noteq> 47"
    by (auto simp: takeWhile_eq_all_conv)
  then show ?thesis by (simp add: split_slash_def)
qed

lemma split_slash_cases:
  "47 \<in> set line \<Longrightarrow> \<exists>xs ys. line = xs @ 47 # ys \<and> 47 \<notin> set xs \<and> split_slash line = [xs, ys]"
  using split_slash_at by (auto dest!: split_list_first)

definition type_bytes :: "connection_type \<Rightarrow> byte list" where
  "type_bytes t = (case t of Writer \<Rightarrow> [80, 47] | Reader \<Rightarrow> [71, 47])"

text \<open>Reading the two bytes of the type.\<close>

lemma read_type_spec:
  assumes laws: "reader_laws R rest fate"
  shows "if length (rest c) < 2
      then read_type R c = Inl (IO (case fate c of None \<Rightarrow> UnexpectedEof | Some e \<Rightarrow> e))
      else \<exists>c'. rest c' = drop 2 (rest c) \<and> fate c' = fate c \<and>
        ((\<exists>t. take 2 (rest c) = type_bytes t \<and> read_type R c = Inr (t, c')) \<or>
         (\<forall>t. take 2 (rest c) \<noteq> type_bytes t) \<and> (\<exists>msg. read_type R c = Inl (BadData msg)))"
proof -
  have "let avail = clip None (rest c) in
      if 2 \<le> length avail
      then \<exists>r'. ro_read_exact R c None 2 = Inr (take 2 avail, r') \<and> rest r' = drop 2 (rest c) \<and> fate r' = fate c
      else ro_read_exact R c None 2 =
             Inl (case fails_at rest fate c None of None \<Rightarrow> UnexpectedEof | Some e \<Rightarrow> e)"
    using laws unfolding reader_laws_def by blast
  then have law: "if 2 \<le> length (rest c)
        then \<exists>r'. ro_read_exact R c None 2 = Inr (take 2 (rest c), r') \<and> rest r' = drop 2 (rest c) \<and> fate r' = fate c
        else ro_read_exact R c None 2 = Inl (case fate c of None \<Rightarrow> UnexpectedEof | Some e \<Rightarrow> e)"
    by (simp add: clip_def fails_at_def Let_def)
  show ?thesis
  proof (cases "length (rest c) < 2")
    case True
    then show ?thesis using law by (simp add: read_type_def)
  next
    case False
    then obtain c' where c': "ro_read_exact R c None 2 = Inr (take 2 (rest c), c')" "rest c' = drop 2 (rest c)" "fate c' = fate c"
      using law by auto
    have "(\<exists>t. take 2 (rest c) = type_bytes t \<and> read_type R c = Inr (t, c')) \<or>
        (\<forall>t. take 2 (rest c) \<noteq> type_bytes t) \<and> (\<exists>msg. read_type R c = Inl (BadData msg))"
    proof (cases "\<exists>t. take 2 (rest c) = type_bytes t")
      case True
      then obtain t where "take 2 (rest c) = type_bytes t" by blast
      moreover from this have "read_type R c = Inr (t, c')"
        using c'(1) by (cases t) (simp_all add: read_type_def type_bytes_def)
      ultimately show ?thesis by blast
    next
      case None: False
      then have "take 2 (rest c) \<noteq> [80, 47]" "take 2 (rest c) \<noteq> [71, 47]"
        by (force simp: type_bytes_def split: connection_type.splits)+
      then show ?thesis using None c'(1) by (simp add: read_type_def bad_data_def)
    qed
    then show ?thesis using False c' by auto
  qed
qed

lemma type_bytes_simps [simp]:
  "length (type_bytes t) = 2" "type_bytes t = type_bytes u \<longleftrightarrow> t = u"
  by (cases t; cases u; simp add: type_bytes_def)+

lemma read_type_Inr:
  assumes laws: "reader_laws R rest fate"
  shows "read_type R c = Inr (t, c') \<Longrightarrow> rest c = type_bytes t @ rest c' \<and> fate c' = fate c"
    and "rest c = type_bytes t @ xs \<Longrightarrow> \<exists>c'. read_type R c = Inr (t, c') \<and> rest c' = xs \<and> fate c' = fate c"
proof -
  show "rest c = type_bytes t @ rest c' \<and> fate c' = fate c" if "read_type R c = Inr (t, c')"
    using that read_type_spec [OF laws, of c] by (auto split: if_splits) (metis append_take_drop_id)
  show "\<exists>c'. read_type R c = Inr (t, c') \<and> rest c' = xs \<and> fate c' = fate c" if "rest c = type_bytes t @ xs"
    using that read_type_spec [OF laws, of c] by auto
qed

lemma read_line_spec:
  assumes laws: "reader_laws R rest fate"
  shows "if (0 :: byte) \<in> set (take 1024 (rest c))
    then \<exists>line tail_bytes c'. rest c = line @ 0 # tail_bytes \<and> 0 \<notin> set line \<and> length line < 1024
      \<and> read_until_exact R c (Some 1024) 0 [] = Inr (length line + 1, line @ [0], c')
      \<and> rest c' = tail_bytes \<and> fate c' = fate c
    else \<exists>e. read_until_exact R c (Some 1024) 0 [] = Inl e"
proof (cases "(0 :: byte) \<in> set (take 1024 (rest c))")
  case True
  then obtain line zs where z: "take 1024 (rest c) = line @ 0 # zs" "0 \<notin> set line" by (meson split_list_first)
  have up: "upto 0 (take 1024 (rest c)) = line @ [0]"
  proof -
    have "takeWhile (\<lambda>x. x \<noteq> 0) (line @ 0 # zs) = line"
      using z(2) by (subst takeWhile_append2) auto
    then show ?thesis using z(1) True by (simp add: upto_def)
  qed
  have "length (line @ 0 # zs) \<le> 1024" unfolding z(1) [symmetric] by simp
  then have "length line < 1024" by simp
  moreover have "rest c = line @ 0 # (zs @ drop 1024 (rest c))"
    using z(1) by (metis append_Cons append_assoc append_take_drop_id)
  moreover obtain c' where "read_until_exact R c (Some 1024) 0 [] = Inr (length line + 1, line @ [0], c')"
    "rest c' = drop (length (line @ [0])) (rest c)" "fate c' = fate c"
    using read_until_exact_spec [OF laws, of 0 "Some 1024" c "[]"] True up by (auto simp: clip_def)
  moreover have "drop (length (line @ [0])) (rest c) = zs @ drop 1024 (rest c)"
    by (subst \<open>rest c = line @ 0 # (zs @ drop 1024 (rest c))\<close>) simp
  ultimately show ?thesis using True z(2) by auto
next
  case False
  then show ?thesis using read_until_exact_spec [OF laws, of 0 "Some 1024" c "[]"] by (auto simp: clip_def)
qed

lemma parse_u64_bound: "parse_u64 bs = Some n \<Longrightarrow> n < 2 ^ 64"
proof -
  have *: "parse_digits a xs = Some n \<Longrightarrow> a < 2 ^ 64 \<Longrightarrow> n < 2 ^ 64" for a xs
  proof (induction xs arbitrary: a)
    case (Cons b bs)
    then show ?case by (auto split: option.splits if_splits simp del: power_numeral)
  qed simp
  show "parse_u64 bs = Some n \<Longrightarrow> n < 2 ^ 64"
    using * [of 0] by (auto simp: parse_u64_def simp del: parse_digits.simps split: list.splits if_splits)
qed

lemma split_unique: "x \<notin> set xs \<Longrightarrow> x \<notin> set ys \<Longrightarrow> xs @ x # us = ys @ x # vs \<Longrightarrow> xs = ys \<and> us = vs"
proof (induction xs arbitrary: ys)
  case Nil
  then show ?case by (cases ys) auto
next
  case (Cons z zs)
  then show ?case by (cases ys) auto
qed

text \<open>What the line after the type gives.\<close>

lemma read_game_data_spec:
  assumes laws: "reader_laws R rest fate"
  shows "read_game_data R c = Inr ((gid, name), c') \<Longrightarrow>
      \<exists>id_bytes. rest c = id_bytes @ 47 # name @ 0 # rest c' \<and> 47 \<notin> set id_bytes
        \<and> 0 \<notin> set (id_bytes @ 47 # name) \<and> length (id_bytes @ 47 # name) < 1024
        \<and> valid_utf8 id_bytes \<and> parse_u64 id_bytes = Some gid \<and> valid_utf8 name"
    and "rest c = id_bytes @ 47 # name @ 0 # tail_bytes \<Longrightarrow> 47 \<notin> set id_bytes \<Longrightarrow>
      0 \<notin> set (id_bytes @ 47 # name) \<Longrightarrow> length (id_bytes @ 47 # name) < 1024 \<Longrightarrow>
      valid_utf8 id_bytes \<Longrightarrow> parse_u64 id_bytes = Some gid \<Longrightarrow> valid_utf8 name \<Longrightarrow>
      \<exists>c'. read_game_data R c = Inr ((gid, name), c') \<and> rest c' = tail_bytes"
    and "read_game_data R c = Inl e \<Longrightarrow> \<exists>msg. e = BadData msg"
proof -
  let ?go = "0 \<in> set (take 1024 (rest c))"
  show "\<exists>id_bytes. rest c = id_bytes @ 47 # name @ 0 # rest c' \<and> 47 \<notin> set id_bytes
        \<and> 0 \<notin> set (id_bytes @ 47 # name) \<and> length (id_bytes @ 47 # name) < 1024
        \<and> valid_utf8 id_bytes \<and> parse_u64 id_bytes = Some gid \<and> valid_utf8 name"
    if run: "read_game_data R c = Inr ((gid, name), c')"
  proof -
    have ?go
    proof (rule ccontr)
      assume "\<not> ?go"
      then obtain e where "read_until_exact R c (Some 1024) 0 [] = Inl e"
        using read_line_spec [OF laws, of c] by auto
      then show False using run by (simp add: read_game_data_def)
    qed
    then obtain line tail_bytes d where l: "rest c = line @ 0 # tail_bytes" "0 \<notin> set line" "length line < 1024"
      "read_until_exact R c (Some 1024) 0 [] = Inr (length line + 1, line @ [0], d)" "rest d = tail_bytes"
      using read_line_spec [OF laws, of c] by auto
    have "47 \<in> set line" using run l(4) by (auto simp: read_game_data_def split_slash_def split: if_splits)
    then obtain xs ys where xy: "line = xs @ 47 # ys" "47 \<notin> set xs" "split_slash line = [xs, ys]"
      using split_slash_cases by blast
    have "d = c'" "valid_utf8 xs" "parse_u64 xs = Some gid" "valid_utf8 ys" "ys = name"
      using run l(4) xy(3) by (auto simp: read_game_data_def ok_or_def from_utf8_def Let_def
          split: option.splits if_splits)
    then show ?thesis using l xy by auto
  qed
  show "\<exists>c'. read_game_data R c = Inr ((gid, name), c') \<and> rest c' = tail_bytes"
    if r: "rest c = id_bytes @ 47 # name @ 0 # tail_bytes" and sl: "47 \<notin> set id_bytes"
      and z: "0 \<notin> set (id_bytes @ 47 # name)" and len: "length (id_bytes @ 47 # name) < 1024"
      and ok: "valid_utf8 id_bytes" "parse_u64 id_bytes = Some gid" "valid_utf8 name"
  proof -
    let ?line = "id_bytes @ 47 # name"
    have rl: "rest c = ?line @ 0 # tail_bytes" using r by simp
    have "take 1024 (rest c) = ?line @ 0 # take (1023 - length ?line) tail_bytes"
      unfolding rl using len by (simp add: take_Cons')
    then have ?go by simp
    then obtain line tail_bytes' d where l: "rest c = line @ 0 # tail_bytes'" "0 \<notin> set line"
      "read_until_exact R c (Some 1024) 0 [] = Inr (length line + 1, line @ [0], d)" "rest d = tail_bytes'"
      using read_line_spec [OF laws, of c] by auto
    have eq: "line = ?line" "tail_bytes' = tail_bytes"
      using split_unique [OF l(2) z, of tail_bytes' tail_bytes] l(1) rl by auto
    have "split_slash line = [id_bytes, name]" using split_slash_at [OF sl, of name] eq(1) by simp
    then show ?thesis using l(3,4) ok eq(2)
      by (simp add: read_game_data_def ok_or_def from_utf8_def Let_def)
  qed
  show "\<exists>msg. e = BadData msg" if run: "read_game_data R c = Inl e"
  proof (cases "read_until_exact R c (Some 1024) 0 []")
    case (Inl x)
    then show ?thesis using run by (auto simp: read_game_data_def bad_data_def)
  next
    case (Inr x)
    then show ?thesis using run
      by (cases x) (auto simp: read_game_data_def ok_or_def bad_data_def Let_def split: if_splits option.splits)
  qed
qed

subsection \<open>Properties\<close>

text \<open>
  C26: a connection that announces itself in the protocol's format is understood: type, replay
  and player name are read back, and the connection continues right after the zero byte.
\<close>

theorem connection_header_roundtrip:
  assumes "reader_laws R rest fate"
    and "rest c = type_bytes t @ decimal gid @ 47 # name @ 0 # tail_bytes"
    and "gid < 2 ^ 64" and "valid_utf8 name" and "0 \<notin> set name"
    and "length (decimal gid) + length name < 1023"
  shows "\<exists>c'. read_connection_header R c = Inr (\<lparr>ch_type = t, ch_id = gid, ch_name = name\<rparr>, c') \<and> rest c' = tail_bytes"
proof -
  obtain c1 where c1: "read_type R c = Inr (t, c1)" "rest c1 = decimal gid @ 47 # name @ 0 # tail_bytes"
    using read_type_Inr(2) [OF assms(1,2)] by blast
  have d: "47 \<notin> set (decimal gid)" "0 \<notin> set (decimal gid)" "valid_utf8 (decimal gid)"
    using decimal_bytes [of _ gid] by (force intro: valid_utf8_ascii)+
  obtain c2 where "read_game_data R c1 = Inr ((gid, name), c2)" "rest c2 = tail_bytes"
    using read_game_data_spec(2) [OF assms(1) c1(2) d(1) _ _ d(3) parse_u64_decimal [OF assms(3)] assms(4)]
      assms(5,6) d(2) by auto
  then show ?thesis using c1(1) by (simp add: read_connection_header_def)
qed

theorem connection_header_roundtrip_witness:
  "\<exists>c'. read_connection_header list_reader_ops (type_bytes Writer @ decimal 17 @ 47 # [102, 111, 111] @ 0 # [1, 2], None)
     = Inr (\<lparr>ch_type = Writer, ch_id = 17, ch_name = [102, 111, 111]\<rparr>, c') \<and> list_rest c' = [1, 2]"
proof -
  have "length (decimal 17) = 2" by (simp add: decimal.simps [of 17] decimal.simps [of "Suc 0"])
  then show ?thesis
    by (intro connection_header_roundtrip [OF list_reader_laws])
      (simp_all add: list_rest_def valid_utf8_ascii)
qed

text \<open>
  C27: nothing else is taken for a header. What is accepted is a type, a decimal number below
  \<open>2^64\<close>, a slash and a valid UTF-8 name, ended by a zero byte within 1024 bytes, and exactly
  these bytes are taken from the connection.
\<close>

theorem connection_header_sound:
  assumes "reader_laws R rest fate" and "read_connection_header R c = Inr (h, c')"
  shows "\<exists>id_bytes. rest c = type_bytes (ch_type h) @ id_bytes @ 47 # ch_name h @ 0 # rest c'
    \<and> parse_u64 id_bytes = Some (ch_id h) \<and> ch_id h < 2 ^ 64 \<and> valid_utf8 (ch_name h)
    \<and> 0 \<notin> set (ch_name h) \<and> length id_bytes + length (ch_name h) < 1023"
proof -
  obtain c1 where c1: "read_type R c = Inr (ch_type h, c1)" "read_game_data R c1 = Inr ((ch_id h, ch_name h), c')"
    using assms(2) by (auto simp: read_connection_header_def and_then_Inr)
  obtain id_bytes where "rest c1 = id_bytes @ 47 # ch_name h @ 0 # rest c'" "0 \<notin> set (id_bytes @ 47 # ch_name h)"
    "length (id_bytes @ 47 # ch_name h) < 1024" "parse_u64 id_bytes = Some (ch_id h)" "valid_utf8 (ch_name h)"
    using read_game_data_spec(1) [OF assms(1) c1(2)] by blast
  then show ?thesis using read_type_Inr(1) [OF assms(1) c1(1)] parse_u64_bound
    by (intro exI [of _ id_bytes]) auto
qed

theorem connection_header_sound_witness:
  "\<exists>h c' id_bytes. read_connection_header list_reader_ops ([71, 47, 50, 47, 97, 0, 5], None) = Inr (h, c')
     \<and> ch_id h = 2 \<and> parse_u64 id_bytes = Some (ch_id h)"
proof -
  have run: "read_connection_header list_reader_ops ([71, 47, 50, 47, 97, 0, 5], None)
      = Inr (\<lparr>ch_type = Reader, ch_id = 2, ch_name = [97]\<rparr>, ([5], None))"
    by (simp add: read_connection_header_def read_type_def list_reader_ops_def clip_def read_game_data_def
        read_until_exact_def upto_def fails_at_def list_rest_def list_fate_def Let_def split_slash_def
        ok_or_def from_utf8_def parse_u64_def digit_def)
  from connection_header_sound [OF list_reader_laws run] run show ?thesis by auto
qed

text \<open>
  C28: the errors tell the cases apart. A connection that ends before the two bytes of the type is an
  empty connection, or an input error when the reader failed with another error than the end of
  its input; where those bytes came, any defect, a reader that fails then included, is bad data.
\<close>

theorem connection_header_errors:
  assumes "reader_laws R rest fate" and "read_connection_header R c = Inl e"
  shows "(length (rest c) < 2 \<longrightarrow> e = (case fate c of Some (OtherIo k) \<Rightarrow> IO (OtherIo k) | _ \<Rightarrow> NoData))
    \<and> (2 \<le> length (rest c) \<longrightarrow> (\<exists>msg. e = BadData msg))"
proof (cases "length (rest c) < 2")
  case True
  then have "read_type R c = Inl (IO (case fate c of None \<Rightarrow> UnexpectedEof | Some e \<Rightarrow> e))"
    using read_type_spec [OF assms(1), of c] by simp
  then show ?thesis using assms(2) True
    by (auto simp: read_connection_header_def split: option.splits io_error.splits)
next
  case False
  have "\<exists>msg. e = BadData msg"
  proof (cases "read_type R c")
    case (Inl x)
    then have "\<exists>msg. x = BadData msg" using False read_type_spec [OF assms(1), of c] by auto
    then show ?thesis using assms(2) Inl by (auto simp: read_connection_header_def)
  next
    case (Inr x)
    then show ?thesis using assms(2) read_game_data_spec(3) [OF assms(1)]
      by (cases x) (auto simp: read_connection_header_def and_then_Inl)
  qed
  then show ?thesis using False by simp
qed

theorem connection_header_errors_witness:
  "read_connection_header list_reader_ops ([71], None) = Inl NoData \<and>
   (\<exists>msg. read_connection_header list_reader_ops ([71, 47, 50], None) = Inl (BadData msg))"
proof -
  obtain e1 where e1: "read_connection_header list_reader_ops ([71], None) = Inl e1"
    by (simp add: read_connection_header_def read_type_def list_reader_ops_def clip_def fails_at_def
        list_rest_def list_fate_def Let_def)
  obtain e2 where e2: "read_connection_header list_reader_ops ([71, 47, 50], None) = Inl e2"
    by (simp add: read_connection_header_def read_type_def list_reader_ops_def clip_def read_game_data_def
        read_until_exact_def upto_def fails_at_def list_rest_def list_fate_def Let_def)
  from connection_header_errors [OF list_reader_laws e1] connection_header_errors [OF list_reader_laws e2] e1 e2
  show ?thesis by (auto simp: list_rest_def list_fate_def)
qed

end
