(* ===== verification/Config.thy ===== *)
theory Config
  imports Connection_Header Replay_Delay Complex_Main
begin

text \<open>
  \<open>src/config.rs\<close>: the settings and how they are loaded. The crate \<open>config\<close> finds and parses
  the file and looks up and converts single values; it is a parameter. What the program adds is
  here: which fields there are, which may be absent, how a duration is read, the password that
  comes from the environment, and the check of the ports.
\<close>

subsection \<open>Durations\<close>

text \<open>A 64-bit float: a rational number (zero of either sign is \<open>0\<close>), an infinity, or not a number.\<close>

datatype f64 = Finite rat | Infinity | NegInfinity | NaN

text \<open>The comparison \<open>x <= 0f64\<close>, which is false for \<open>NaN\<close>.\<close>

fun not_positive :: "f64 \<Rightarrow> bool" where
  "not_positive (Finite x) = (x \<le> 0)"
| "not_positive Infinity = False"
| "not_positive NegInfinity = True"
| "not_positive NaN = False"

text \<open>
  \<open>Duration::from_secs_f64\<close> rounds to the nearest nanosecond, halves to even, and panics if the
  result is negative, is no number, or has more than \<open>u64::MAX\<close> seconds.
\<close>

definition round_even :: "rat \<Rightarrow> int" where
  "round_even x =
     (let n = floor x; d = x - of_int n
      in if d < 1 / 2 then n else if 1 / 2 < d then n + 1 else if even n then n else n + 1)"

definition NANOS :: nat where
  "NANOS = 1000000000"

fun from_secs_f64 :: "f64 \<Rightarrow> duration option" where
  "from_secs_f64 (Finite x) =
     (let n = round_even (x * of_nat NANOS)
      in do { assert_that (0 \<le> n \<and> n < 2 ^ 64 * int NANOS); Some (nat n) })"
| "from_secs_f64 _ = None"

text \<open>The errors of the crate, as far as the program makes them or passes them on.\<close>

datatype config_error = Message string | NotFound string | InvalidValue f64 string | CrateError nat

type_synonym 'a config_result = "config_error + 'a"

text \<open>\<open>float_to_duration::deserialize\<close>; the outer \<open>None\<close> is a panic.\<close>

definition float_to_duration :: "f64 config_result \<Rightarrow> duration config_result option" where
  "float_to_duration field =
     (case field of
        Inl e \<Rightarrow> Some (Inl e)
      | Inr d \<Rightarrow>
          if not_positive d then Some (Inl (InvalidValue d ''Positive number''))
          else map_option Inr (from_secs_f64 d))"

subsection \<open>Settings\<close>

record ServerSettings =
  port :: "nat option"
  websocket_port :: "nat option"
  prometheus_port :: nat
  worker_threads :: nat
  connection_accept_timeout_s :: duration

record DatabaseSettings =
  pool_size :: nat
  db_host :: string
  db_port :: nat
  db_user :: string
  db_password :: string
  db_name :: string

record StorageSettings =
  vault_path :: string
  compression_level :: nat

record ReplaySettings =
  forced_timeout_s :: duration
  time_with_zero_writers_to_end_replay_s :: duration
  delay_s :: duration
  update_interval_s :: duration
  merge_quorum_size :: usize
  stream_comparison_distance_b :: usize

record InnerSettings =
  server :: ServerSettings
  database :: DatabaseSettings
  storage :: StorageSettings
  replay :: ReplaySettings

subsection \<open>Loading\<close>

text \<open>
  The crate: building a configuration from the overrides and the file, and reading a field of it
  at a type, by its dotted name. A field that an \<open>Option\<close> may leave out has its own reader.
\<close>

record 'c config_ops =
  cfg_build :: "(string \<times> string) list \<Rightarrow> string \<Rightarrow> 'c config_result"
  cfg_u16 :: "'c \<Rightarrow> string \<Rightarrow> nat config_result"
  cfg_u16_option :: "'c \<Rightarrow> string \<Rightarrow> nat option config_result"
  cfg_u32 :: "'c \<Rightarrow> string \<Rightarrow> nat config_result"
  cfg_usize :: "'c \<Rightarrow> string \<Rightarrow> nat config_result"
  cfg_f64 :: "'c \<Rightarrow> string \<Rightarrow> f64 config_result"
  cfg_string :: "'c \<Rightarrow> string \<Rightarrow> string config_result"

text \<open>\<open>?\<close> on a result that may also be a panic.\<close>

definition then_try :: "'a config_result option \<Rightarrow> ('a \<Rightarrow> 'b config_result option) \<Rightarrow> 'b config_result option" where
  "then_try r f = (case r of None \<Rightarrow> None | Some (Inl e) \<Rightarrow> Some (Inl e) | Some (Inr x) \<Rightarrow> f x)"

text \<open>
  The derived \<open>Deserialize\<close>: every field is read, and the first failure is the result. (Which of
  several failures comes first depends on the order of the fields in the file.)
\<close>

definition de_server :: "'c config_ops \<Rightarrow> 'c \<Rightarrow> ServerSettings config_result option" where
  "de_server K c =
     then_try (Some (cfg_u16_option K c ''server.port'')) (\<lambda>p.
     then_try (Some (cfg_u16_option K c ''server.websocket_port'')) (\<lambda>w.
     then_try (Some (cfg_u16 K c ''server.prometheus_port'')) (\<lambda>m.
     then_try (Some (cfg_u32 K c ''server.worker_threads'')) (\<lambda>n.
     then_try (float_to_duration (cfg_f64 K c ''server.connection_accept_timeout_s'')) (\<lambda>t.
     Some (Inr \<lparr>port = p, websocket_port = w, prometheus_port = m, worker_threads = n,
       connection_accept_timeout_s = t\<rparr>))))))"

definition de_database :: "'c config_ops \<Rightarrow> 'c \<Rightarrow> DatabaseSettings config_result option" where
  "de_database K c =
     then_try (Some (cfg_u32 K c ''database.pool_size'')) (\<lambda>p.
     then_try (Some (cfg_string K c ''database.host'')) (\<lambda>h.
     then_try (Some (cfg_u16 K c ''database.port'')) (\<lambda>q.
     then_try (Some (cfg_string K c ''database.user'')) (\<lambda>u.
     then_try (Some (cfg_string K c ''database.password'')) (\<lambda>s.
     then_try (Some (cfg_string K c ''database.name'')) (\<lambda>n.
     Some (Inr \<lparr>pool_size = p, db_host = h, db_port = q, db_user = u, db_password = s, db_name = n\<rparr>)))))))"

definition de_storage :: "'c config_ops \<Rightarrow> 'c \<Rightarrow> StorageSettings config_result option" where
  "de_storage K c =
     then_try (Some (cfg_string K c ''storage.vault_path'')) (\<lambda>v.
     then_try (Some (cfg_u32 K c ''storage.compression_level'')) (\<lambda>l.
     Some (Inr \<lparr>vault_path = v, compression_level = l\<rparr>)))"

definition de_replay :: "'c config_ops \<Rightarrow> 'c \<Rightarrow> ReplaySettings config_result option" where
  "de_replay K c =
     then_try (float_to_duration (cfg_f64 K c ''replay.forced_timeout_s'')) (\<lambda>f.
     then_try (float_to_duration (cfg_f64 K c ''replay.time_with_zero_writers_to_end_replay_s'')) (\<lambda>z.
     then_try (float_to_duration (cfg_f64 K c ''replay.delay_s'')) (\<lambda>d.
     then_try (float_to_duration (cfg_f64 K c ''replay.update_interval_s'')) (\<lambda>u.
     then_try (Some (cfg_usize K c ''replay.merge_quorum_size'')) (\<lambda>q.
     then_try (Some (cfg_usize K c ''replay.stream_comparison_distance_b'')) (\<lambda>s.
     Some (Inr \<lparr>forced_timeout_s = f, time_with_zero_writers_to_end_replay_s = z, delay_s = d,
       update_interval_s = u, merge_quorum_size = q, stream_comparison_distance_b = s\<rparr>)))))))"

definition de_settings :: "'c config_ops \<Rightarrow> 'c \<Rightarrow> InnerSettings config_result option" where
  "de_settings K c =
     then_try (de_server K c) (\<lambda>sv.
     then_try (de_database K c) (\<lambda>db.
     then_try (de_storage K c) (\<lambda>st.
     then_try (de_replay K c) (\<lambda>rp.
     Some (Inr \<lparr>server = sv, database = db, storage = st, replay = rp\<rparr>)))))"

definition do_from_env ::
  "'c config_ops \<Rightarrow> string option \<Rightarrow> string option \<Rightarrow> InnerSettings config_result option" where
  "do_from_env K conf_var db_pass_var =
     then_try (Some (ok_or conf_var
       (Message ''RS_CONFIG_FILE env var not set, place the path to the config file there.''))) (\<lambda>config_file.
     then_try (Some (ok_or db_pass_var (NotFound ''Database password was not provided''))) (\<lambda>pass.
     then_try (Some (cfg_build K [(''database.password'', pass)] config_file)) (\<lambda>c.
     then_try (de_settings K c) (\<lambda>ret.
     if port (server ret) = None \<and> websocket_port (server ret) = None
     then Some (Inl (Message ''At least one of port, websocket_port must be set in server configuration.''))
     else Some (Inr ret)))))"

definition from_env :: "'c config_ops \<Rightarrow> (string \<Rightarrow> string option) \<Rightarrow> InnerSettings config_result option" where
  "from_env K env = do_from_env K (env ''RS_CONFIG_FILE'') (env ''RS_DB_PASSWORD'')"

subsection \<open>Facts\<close>

lemma then_try_simps [simp]:
  "then_try None f = None" "then_try (Some (Inl e)) f = Some (Inl e)" "then_try (Some (Inr x)) f = f x"
  by (simp_all add: then_try_def)

lemma then_try_Inr: "then_try r f = Some (Inr y) \<longleftrightarrow> (\<exists>x. r = Some (Inr x) \<and> f x = Some (Inr y))"
  by (auto simp: then_try_def split: option.splits sum.splits)

text \<open>What rounding to the nearest whole number means, ties to the even one.\<close>

definition nearest_even :: "rat \<Rightarrow> int \<Rightarrow> bool" where
  "nearest_even x n \<longleftrightarrow> \<bar>of_int n - x\<bar> \<le> 1 / 2 \<and> (\<bar>of_int n - x\<bar> = 1 / 2 \<longrightarrow> even n)"

lemma round_even_near: "nearest_even x (round_even x)"
proof -
  obtain n d where n: "floor x = n" "x = of_int n + d" "0 \<le> d" "d < 1"
    by (metis add.commute diff_add_cancel floor_correct frac_def frac_ge_0 frac_lt_1)
  have dist: "\<bar>of_int n - x\<bar> = d" "\<bar>of_int (n + 1) - x\<bar> = 1 - d" using n(2-4) by simp_all
  have "x - of_int n = d" using n(2) by simp
  then have "round_even x = (if d < 1 / 2 then n else if 1 / 2 < d then n + 1 else if even n then n else n + 1)"
    unfolding round_even_def Let_def n(1) by simp
  then consider "round_even x = n" "d < 1 / 2 \<or> d = 1 / 2 \<and> even n"
    | "round_even x = n + 1" "1 / 2 < d \<or> d = 1 / 2 \<and> odd n" by (auto split: if_splits)
  then show ?thesis using dist by cases (auto simp: nearest_even_def simp del: of_int_add)
qed

lemma nearest_even_unique:
  assumes "nearest_even x m" "nearest_even x n"
  shows "m = n"
proof (rule ccontr)
  assume "m \<noteq> n"
  have "\<bar>of_int m - of_int n :: rat\<bar> \<le> 1" using assms by (auto simp: nearest_even_def abs_if split: if_splits)
  then have "\<bar>m - n\<bar> \<le> 1" by (metis of_int_1_le_iff of_int_abs of_int_diff of_int_le_1_iff)
  then have near: "m = n + 1 \<or> n = m + 1" using \<open>m \<noteq> n\<close> by arith
  then have "\<bar>of_int m - x\<bar> = 1 / 2" "\<bar>of_int n - x\<bar> = 1 / 2"
    using assms by (auto simp: nearest_even_def abs_if split: if_splits)
  then show False using assms near by (auto simp: nearest_even_def)
qed

lemma round_even_iff: "round_even x = n \<longleftrightarrow> nearest_even x n"
  using round_even_near nearest_even_unique by blast

lemma round_even_ge:
  assumes "even n"
  shows "n \<le> round_even x \<longleftrightarrow> of_int n - 1 / 2 \<le> x"
proof
  assume "n \<le> round_even x"
  then have "of_int n \<le> (of_int (round_even x) :: rat)" by simp
  then show "of_int n - 1 / 2 \<le> x" using round_even_near [of x] unfolding nearest_even_def by linarith
next
  assume x: "of_int n - 1 / 2 \<le> x"
  show "n \<le> round_even x"
  proof (rule ccontr)
    assume "\<not> n \<le> round_even x"
    then have le: "round_even x + 1 \<le> n" by simp
    then have "of_int (round_even x) + 1 \<le> (of_int n :: rat)" by (metis of_int_1 of_int_add of_int_le_iff)
    then have half: "\<bar>of_int (round_even x) - x\<bar> = 1 / 2" "of_int n = (of_int (round_even x + 1) :: rat)"
      using round_even_near [of x] x unfolding nearest_even_def by (simp, linarith)+
    then have "n = round_even x + 1" using of_int_eq_iff by blast
    then show False using half(1) round_even_near [of x] assms by (simp add: nearest_even_def)
  qed
qed

lemma round_even_nonneg: "0 \<le> x \<Longrightarrow> 0 \<le> round_even x"
  by (simp add: round_even_def Let_def)

text \<open>
  \<open>t\<close> is the duration of \<open>x\<close> seconds: a positive number, rounded to a whole number of nanoseconds, with
  the seconds in a \<open>u64\<close>. A number has at most one duration.
\<close>

definition duration_of :: "rat \<Rightarrow> duration \<Rightarrow> bool" where
  "duration_of x t \<longleftrightarrow> 0 < x \<and> nearest_even (x * of_nat NANOS) (int t) \<and> t < 2 ^ 64 * NANOS"

lemma duration_of_unique: "duration_of x t \<Longrightarrow> duration_of x u \<Longrightarrow> t = u"
  using nearest_even_unique [of "x * of_nat NANOS" "int t" "int u"] by (simp add: duration_of_def)

lemma too_many_nanos:
  "2 ^ 64 * int NANOS \<le> round_even (x * of_nat NANOS) \<longleftrightarrow> 2 ^ 64 * of_nat NANOS - 1 / 2 \<le> x * of_nat NANOS"
  by (subst round_even_ge) simp_all

lemma from_secs_f64_iff:
  assumes "0 < x"
  shows "from_secs_f64 (Finite x) = Some t \<longleftrightarrow> duration_of x t"
proof -
  let ?n = "round_even (x * of_nat NANOS)"
  have "0 \<le> ?n" using assms by (intro round_even_nonneg) simp
  then have "from_secs_f64 (Finite x) = Some t \<longleftrightarrow> ?n = int t \<and> ?n < 2 ^ 64 * int NANOS"
    by (auto simp: Let_def assert_that_def)
  moreover have "int t < 2 ^ 64 * int NANOS \<longleftrightarrow> t < 2 ^ 64 * NANOS"
    by (metis of_nat_less_iff of_nat_mult of_nat_numeral of_nat_power)
  ultimately show ?thesis using assms by (auto simp: duration_of_def round_even_iff [symmetric])
qed

lemma float_to_duration_loads:
  "float_to_duration field = Some (Inr t) \<longleftrightarrow> (\<exists>x. field = Inr (Finite x) \<and> duration_of x t)"
proof (cases field)
  case (Inr d)
  then show ?thesis using from_secs_f64_iff
    by (cases d) (auto simp: float_to_duration_def duration_of_def simp del: from_secs_f64.simps(1))
qed (simp add: float_to_duration_def)

subsection \<open>A concrete crate\<close>

text \<open>
  A document is a map from names to values; the overrides come first. It is the instance for the
  statements below, with the values of \<open>test/resources/example_config.yml\<close>.
\<close>

datatype config_value = IntValue nat | FloatValue f64 | StringValue string

definition document_ops :: "string \<Rightarrow> (string \<rightharpoonup> config_value) \<Rightarrow> (string \<rightharpoonup> config_value) config_ops" where
  "document_ops file D =
     \<lparr>cfg_build = (\<lambda>os f. if f = file then Inr (D ++ map_of (map (\<lambda>(k, v). (k, StringValue v)) os))
        else Inl (CrateError 0)),
      cfg_u16 = (\<lambda>c k. case c k of Some (IntValue n) \<Rightarrow> if n < 2 ^ 16 then Inr n else Inl (CrateError 1) | _ \<Rightarrow> Inl (CrateError 2)),
      cfg_u16_option = (\<lambda>c k. case c k of None \<Rightarrow> Inr None | Some (IntValue n) \<Rightarrow>
         if n < 2 ^ 16 then Inr (Some n) else Inl (CrateError 1) | _ \<Rightarrow> Inl (CrateError 2)),
      cfg_u32 = (\<lambda>c k. case c k of Some (IntValue n) \<Rightarrow> if n < 2 ^ 32 then Inr n else Inl (CrateError 1) | _ \<Rightarrow> Inl (CrateError 2)),
      cfg_usize = (\<lambda>c k. case c k of Some (IntValue n) \<Rightarrow> if n < 2 ^ 64 then Inr n else Inl (CrateError 1) | _ \<Rightarrow> Inl (CrateError 2)),
      cfg_f64 = (\<lambda>c k. case c k of Some (FloatValue x) \<Rightarrow> Inr x | _ \<Rightarrow> Inl (CrateError 2)),
      cfg_string = (\<lambda>c k. case c k of Some (StringValue v) \<Rightarrow> Inr v | _ \<Rightarrow> Inl (CrateError 2))\<rparr>"

definition example_config :: "nat \<Rightarrow> nat \<Rightarrow> f64 \<Rightarrow> string \<rightharpoonup> config_value" where
  "example_config threads quorum_size interval = map_of
     [(''server.port'', IntValue 15000), (''server.websocket_port'', IntValue 15001),
      (''server.prometheus_port'', IntValue 8001), (''server.worker_threads'', IntValue threads),
      (''server.connection_accept_timeout_s'', FloatValue (Finite 7200)),
      (''database.pool_size'', IntValue 8), (''database.host'', StringValue ''localhost''),
      (''database.port'', IntValue 3306), (''database.user'', StringValue ''root''),
      (''database.name'', StringValue ''faf''), (''storage.vault_path'', StringValue ''/tmp/foo''),
      (''storage.compression_level'', IntValue 10),
      (''replay.forced_timeout_s'', FloatValue (Finite 21600)),
      (''replay.time_with_zero_writers_to_end_replay_s'', FloatValue (Finite 10)),
      (''replay.delay_s'', FloatValue (Finite 300)),
      (''replay.update_interval_s'', FloatValue interval),
      (''replay.merge_quorum_size'', IntValue quorum_size),
      (''replay.stream_comparison_distance_b'', IntValue 4096)]"

definition example_settings :: "nat \<Rightarrow> nat \<Rightarrow> duration \<Rightarrow> InnerSettings" where
  "example_settings threads quorum_size interval =
     \<lparr>server = \<lparr>port = Some 15000, websocket_port = Some 15001, prometheus_port = 8001,
        worker_threads = threads, connection_accept_timeout_s = 7200 * NANOS\<rparr>,
      database = \<lparr>pool_size = 8, db_host = ''localhost'', db_port = 3306, db_user = ''root'',
        db_password = ''banana'', db_name = ''faf''\<rparr>,
      storage = \<lparr>vault_path = ''/tmp/foo'', compression_level = 10\<rparr>,
      replay = \<lparr>forced_timeout_s = 21600 * NANOS, time_with_zero_writers_to_end_replay_s = 10 * NANOS,
        delay_s = 300 * NANOS, update_interval_s = interval, merge_quorum_size = quorum_size,
        stream_comparison_distance_b = 4096\<rparr>\<rparr>"

lemmas config_eval =
  do_from_env_def de_settings_def de_server_def de_database_def de_storage_def de_replay_def ok_or_def
  document_ops_def example_config_def example_settings_def

text \<open>Whole seconds.\<close>

lemma float_to_duration_seconds:
  assumes "(numeral k :: nat) < 2 ^ 64"
  shows "float_to_duration (Inr (Finite (numeral k))) = Some (Inr (numeral k * NANOS))"
proof -
  have "numeral k * of_nat NANOS = (of_int (numeral k * int NANOS) :: rat)" by simp
  then have n: "round_even (numeral k * of_nat NANOS) = numeral k * int NANOS"
    unfolding round_even_def Let_def by (simp only: floor_of_int) simp
  have "(numeral k :: int) < 2 ^ 64" using assms by simp
  then have "numeral k * int NANOS < 2 ^ 64 * int NANOS"
    by (rule mult_strict_right_mono) (simp add: NANOS_def)
  moreover have "nat (numeral k * int NANOS) = numeral k * NANOS" by (simp add: nat_mult_distrib)
  ultimately show ?thesis using n by (simp add: float_to_duration_def Let_def del: mult_less_cancel_right)
qed

lemma example_config_load:
  assumes "threads < 2 ^ 32" "quorum_size < 2 ^ 64" "from_secs_f64 (Finite x) = Some t" "0 < x"
  shows "do_from_env (document_ops ''c'' (example_config threads quorum_size (Finite x))) (Some ''c'') (Some ''banana'')
    = Some (Inr (example_settings threads quorum_size t))"
proof -
  have "float_to_duration (Inr (Finite x)) = Some (Inr t)"
    using assms(3,4) by (simp add: float_to_duration_def del: from_secs_f64.simps)
  then show ?thesis using assms(1,2) float_to_duration_seconds by (simp add: config_eval)
qed

subsection \<open>Properties\<close>

text \<open>
  The settings that a configuration \<open>c\<close> holds: each is the value under its name, and the five
  durations are those of numbers of seconds.
\<close>

definition seconds_under :: "'c config_ops \<Rightarrow> 'c \<Rightarrow> string \<Rightarrow> duration \<Rightarrow> bool" where
  "seconds_under K c k t \<longleftrightarrow> (\<exists>x. cfg_f64 K c k = Inr (Finite x) \<and> duration_of x t)"

definition holds_server :: "'c config_ops \<Rightarrow> 'c \<Rightarrow> ServerSettings \<Rightarrow> bool" where
  "holds_server K c sv \<longleftrightarrow>
     cfg_u16_option K c ''server.port'' = Inr (port sv)
     \<and> cfg_u16_option K c ''server.websocket_port'' = Inr (websocket_port sv)
     \<and> cfg_u16 K c ''server.prometheus_port'' = Inr (prometheus_port sv)
     \<and> cfg_u32 K c ''server.worker_threads'' = Inr (worker_threads sv)
     \<and> seconds_under K c ''server.connection_accept_timeout_s'' (connection_accept_timeout_s sv)"

definition holds_database :: "'c config_ops \<Rightarrow> 'c \<Rightarrow> DatabaseSettings \<Rightarrow> bool" where
  "holds_database K c db \<longleftrightarrow>
     cfg_u32 K c ''database.pool_size'' = Inr (pool_size db)
     \<and> cfg_string K c ''database.host'' = Inr (db_host db)
     \<and> cfg_u16 K c ''database.port'' = Inr (db_port db)
     \<and> cfg_string K c ''database.user'' = Inr (db_user db)
     \<and> cfg_string K c ''database.password'' = Inr (db_password db)
     \<and> cfg_string K c ''database.name'' = Inr (db_name db)"

definition holds_storage :: "'c config_ops \<Rightarrow> 'c \<Rightarrow> StorageSettings \<Rightarrow> bool" where
  "holds_storage K c st \<longleftrightarrow>
     cfg_string K c ''storage.vault_path'' = Inr (vault_path st)
     \<and> cfg_u32 K c ''storage.compression_level'' = Inr (compression_level st)"

definition holds_replay :: "'c config_ops \<Rightarrow> 'c \<Rightarrow> ReplaySettings \<Rightarrow> bool" where
  "holds_replay K c rp \<longleftrightarrow>
     seconds_under K c ''replay.forced_timeout_s'' (forced_timeout_s rp)
     \<and> seconds_under K c ''replay.time_with_zero_writers_to_end_replay_s'' (time_with_zero_writers_to_end_replay_s rp)
     \<and> seconds_under K c ''replay.delay_s'' (delay_s rp)
     \<and> seconds_under K c ''replay.update_interval_s'' (update_interval_s rp)
     \<and> cfg_usize K c ''replay.merge_quorum_size'' = Inr (merge_quorum_size rp)
     \<and> cfg_usize K c ''replay.stream_comparison_distance_b'' = Inr (stream_comparison_distance_b rp)"

lemma de_server_iff: "de_server K c = Some (Inr sv) \<longleftrightarrow> holds_server K c sv"
  by (cases sv) (auto simp: de_server_def holds_server_def then_try_Inr float_to_duration_loads seconds_under_def)

lemma de_database_iff: "de_database K c = Some (Inr db) \<longleftrightarrow> holds_database K c db"
  by (cases db) (auto simp: de_database_def holds_database_def then_try_Inr)

lemma de_storage_iff: "de_storage K c = Some (Inr st) \<longleftrightarrow> holds_storage K c st"
  by (cases st) (auto simp: de_storage_def holds_storage_def then_try_Inr)

lemma de_replay_iff: "de_replay K c = Some (Inr rp) \<longleftrightarrow> holds_replay K c rp"
  by (cases rp) (auto simp: de_replay_def holds_replay_def then_try_Inr float_to_duration_loads seconds_under_def)

lemma de_settings_iff:
  "de_settings K c = Some (Inr s) \<longleftrightarrow> holds_server K c (server s) \<and> holds_database K c (database s)
     \<and> holds_storage K c (storage s) \<and> holds_replay K c (replay s)"
  by (cases s) (auto simp: de_settings_def then_try_Inr de_server_iff de_database_iff de_storage_iff de_replay_iff)

lemma do_from_env_iff:
  "do_from_env K conf pass = Some (Inr s) \<longleftrightarrow>
     (\<exists>f p c. conf = Some f \<and> pass = Some p \<and> cfg_build K [(''database.password'', p)] f = Inr c
       \<and> de_settings K c = Some (Inr s) \<and> (port (server s) \<noteq> None \<or> websocket_port (server s) \<noteq> None))"
  by (auto simp: do_from_env_def then_try_Inr ok_or_def split: option.splits if_splits)

lemma do_from_env_Inr:
  assumes "do_from_env K conf pass = Some (Inr s)"
  shows "\<exists>f p c. conf = Some f \<and> pass = Some p \<and> cfg_build K [(''database.password'', p)] f = Inr c
    \<and> de_server K c = Some (Inr (server s)) \<and> de_database K c = Some (Inr (database s))
    \<and> de_replay K c = Some (Inr (replay s))
    \<and> (port (server s) \<noteq> None \<or> websocket_port (server s) \<noteq> None)"
  using assms unfolding do_from_env_iff de_settings_iff de_server_iff de_database_iff de_replay_iff by blast

text \<open>
  C37: which settings are loaded: exactly those that the configuration built from the file holds,
  every field under its own name, each duration the number of seconds under its name, positive and
  rounded to nanoseconds; with the password of the environment; and with a port to listen on. This
  needs of the crate that an override wins over the file.
\<close>

theorem config_sound:
  assumes "\<forall>f c k v. cfg_build K [(k, v)] f = Inr c \<longrightarrow> cfg_string K c k = Inr v"
  shows "from_env K env = Some (Inr s) \<longleftrightarrow>
    (\<exists>f c. env ''RS_CONFIG_FILE'' = Some f \<and> env ''RS_DB_PASSWORD'' = Some (db_password (database s))
      \<and> cfg_build K [(''database.password'', db_password (database s))] f = Inr c
      \<and> holds_server K c (server s) \<and> holds_database K c (database s)
      \<and> holds_storage K c (storage s) \<and> holds_replay K c (replay s)
      \<and> (port (server s) \<noteq> None \<or> websocket_port (server s) \<noteq> None))"
proof -
  have "p = db_password (database s)"
    if "cfg_build K [(''database.password'', p)] f = Inr c" "holds_database K c (database s)" for f p c
    using assms that by (simp add: holds_database_def)
  then show ?thesis unfolding from_env_def do_from_env_iff de_settings_iff by blast
qed

theorem config_sound_witness:
  "let K = document_ops ''c'' (example_config 8 2 (Finite 1)); s = example_settings 8 2 NANOS
   in \<exists>c. cfg_build K [(''database.password'', ''banana'')] ''c'' = Inr c \<and> holds_replay K c (replay s)
     \<and> cfg_f64 K c ''replay.delay_s'' = Inr (Finite 300) \<and> duration_of 300 (300 * NANOS)"
proof -
  let ?K = "document_ops ''c'' (example_config 8 2 (Finite 1))"
  let ?env = "[''RS_CONFIG_FILE'' \<mapsto> ''c'', ''RS_DB_PASSWORD'' \<mapsto> ''banana'']"
  have run: "from_env ?K ?env = Some (Inr (example_settings 8 2 NANOS))"
    using example_config_load [of 8 2 1 NANOS] by (simp add: from_env_def NANOS_def round_even_def Let_def)
  have law: "\<forall>f c k v. cfg_build (document_ops g D) [(k, v)] f = Inr c \<longrightarrow> cfg_string (document_ops g D) c k = Inr v"
    for g D by (simp add: document_ops_def)
  obtain c where c: "cfg_build ?K [(''database.password'', ''banana'')] ''c'' = Inr c"
    "holds_replay ?K c (replay (example_settings 8 2 NANOS))"
    using run [unfolded config_sound [OF law]] by (auto simp: example_settings_def)
  have "cfg_f64 ?K c ''replay.delay_s'' = Inr (Finite 300)"
    using c(1) by (auto simp: document_ops_def example_config_def)
  moreover from this have "duration_of 300 (300 * NANOS)"
    using c(2) by (auto simp: holds_replay_def seconds_under_def example_settings_def)
  ultimately show ?thesis using c by (auto simp: Let_def)
qed

text \<open>
  C38: how a field loads as a duration. A positive number gives the duration of that many seconds,
  to the nearest nanosecond; zero, a negative number and the negative infinity are the error for
  a number that is not positive; what is no number at all, the infinity, and a number that rounds
  to more seconds than a \<open>u64\<close> holds get past that check, and loading them panics; a field
  that the crate cannot read is its error.
\<close>

theorem config_duration_panics:
  "(float_to_duration (Inr d) = Some (Inr t) \<longleftrightarrow> (\<exists>x. d = Finite x \<and> duration_of x t))
   \<and> (float_to_duration (Inr d) = Some (Inl e) \<longleftrightarrow>
        e = InvalidValue d ''Positive number'' \<and> (d = NegInfinity \<or> (\<exists>x. d = Finite x \<and> x \<le> 0)))
   \<and> (float_to_duration (Inr d) = None \<longleftrightarrow>
        d = NaN \<or> d = Infinity \<or> (\<exists>x. d = Finite x \<and> 2 ^ 64 * of_nat NANOS - 1 / 2 \<le> x * of_nat NANOS))
   \<and> float_to_duration (Inl e) = Some (Inl e)"
proof (intro conjI)
  show "float_to_duration (Inr d) = Some (Inr t) \<longleftrightarrow> (\<exists>x. d = Finite x \<and> duration_of x t)"
    by (simp add: float_to_duration_loads)
  show "float_to_duration (Inr d) = Some (Inl e) \<longleftrightarrow>
      e = InvalidValue d ''Positive number'' \<and> (d = NegInfinity \<or> (\<exists>x. d = Finite x \<and> x \<le> 0))"
    by (cases d) (auto simp: float_to_duration_def simp del: from_secs_f64.simps(1))
  show "float_to_duration (Inr d) = None \<longleftrightarrow>
      d = NaN \<or> d = Infinity \<or> (\<exists>x. d = Finite x \<and> 2 ^ 64 * of_nat NANOS - 1 / 2 \<le> x * of_nat NANOS)"
  proof (cases d)
    case (Finite x)
    have "0 < x" if "2 ^ 64 * of_nat NANOS - 1 / 2 \<le> x * of_nat NANOS"
      using that by (simp add: NANOS_def)
    moreover have "0 \<le> round_even (x * of_nat NANOS)" if "0 < x" using that by (intro round_even_nonneg) simp
    ultimately show ?thesis using Finite unfolding too_many_nanos [symmetric]
      by (auto simp: float_to_duration_def Let_def assert_that_def not_less split: if_splits)
  qed (simp_all add: float_to_duration_def)
qed (simp add: float_to_duration_def)

text \<open>
  Settings that the server cannot run with are accepted: no worker thread, a quorum of nobody,
  and an update interval that is positive but rounds to nothing.
\<close>

theorem config_accepts_unusable:
  "do_from_env (document_ops ''c'' (example_config 0 0 (Finite (1 / 10000000000)))) (Some ''c'') (Some ''banana'')
     = Some (Inr (example_settings 0 0 0))"
  by (rule example_config_load) (simp_all add: NANOS_def round_even_def Let_def)

end
