(* ===== verification/Live_Connection.thy ===== *)
theory Live_Connection
  imports Connection_Header
begin

text \<open>
  \<open>Connection\<close> of \<open>src/server/connection.rs\<close>, the counters of \<open>src/metrics.rs\<close>, the races of
  \<open>src/util/timeout.rs\<close> and \<open>read_initial_header\<close> of \<open>src/accept/header.rs\<close>.

  A connection owns a reader and a writer, which are opaque here, and reports itself in the
  gauge of active connections for as long as it lives.
\<close>

subsection \<open>Metrics\<close>

record metrics =
  ACTIVE_CONNS :: "string \<Rightarrow> int"
  SERVED_CONNS :: "string \<Rightarrow> nat"
  RUNNING_REPLAYS :: int
  FINISHED_REPLAYS :: nat
  SAVED_REPLAYS :: nat

definition metrics_new :: metrics where
  "metrics_new = \<lparr>ACTIVE_CONNS = (\<lambda>_. 0), SERVED_CONNS = (\<lambda>_. 0), RUNNING_REPLAYS = 0,
     FINISHED_REPLAYS = 0, SAVED_REPLAYS = 0\<rparr>"

fun served_label :: "connection_error option \<Rightarrow> string" where
  "served_label None = ''Success''"
| "served_label (Some NoData) = ''Empty connection''"
| "served_label (Some (BadData _)) = ''Bad data''"
| "served_label (Some (IO _)) = ''I/O error''"
| "served_label (Some CannotAssignToReplay) = ''No replay matched''"

definition inc_served_conns :: "connection_error option \<Rightarrow> metrics \<Rightarrow> metrics" where
  "inc_served_conns res M =
     (let label = served_label res
      in M\<lparr>SERVED_CONNS := (SERVED_CONNS M)(label := SERVED_CONNS M label + 1)\<rparr>)"

subsection \<open>Connections\<close>

record ('r, 'w) connection =
  cn_reader :: 'r
  cn_writer :: 'w
  cn_header :: "connection_header option"
  cn_id :: string

definition type_name :: "connection_type \<Rightarrow> string" where
  "type_name t = (case t of Reader \<Rightarrow> ''reader'' | Writer \<Rightarrow> ''writer'')"

definition header2label :: "('r, 'w) connection \<Rightarrow> string" where
  "header2label c =
     (case cn_header c of None \<Rightarrow> ''initial'' | Some h \<Rightarrow> type_name (ch_type h))"

definition set_metric :: "('r, 'w) connection \<Rightarrow> metrics \<Rightarrow> metrics" where
  "set_metric c M =
     M\<lparr>ACTIVE_CONNS := (ACTIVE_CONNS M)(header2label c := ACTIVE_CONNS M (header2label c) + 1)\<rparr>"

definition reset_metric :: "('r, 'w) connection \<Rightarrow> metrics \<Rightarrow> metrics" where
  "reset_metric c M =
     M\<lparr>ACTIVE_CONNS := (ACTIVE_CONNS M)(header2label c := ACTIVE_CONNS M (header2label c) - 1)\<rparr>"

text \<open>The twelve random letters of the name are an argument.\<close>

definition new_from :: "(nat \<Rightarrow> char) \<Rightarrow> 'r \<Rightarrow> 'w \<Rightarrow> metrics \<Rightarrow> ('r, 'w) connection \<times> metrics" where
  "new_from random r w M =
     (let s = \<lparr>cn_reader = r, cn_writer = w, cn_header = None, cn_id = map random [0..<12]\<rparr>
      in (s, set_metric s M))"

definition set_header ::
  "('r, 'w) connection \<Rightarrow> connection_header \<Rightarrow> metrics \<Rightarrow> ('r, 'w) connection \<times> metrics" where
  "set_header c h M =
     (let M = reset_metric c M;
          c = c\<lparr>cn_header := Some h\<rparr>;
          M = set_metric c M
      in (c, M))"

text \<open>\<open>get_header\<close> unwraps: a connection without a header panics.\<close>

definition get_header :: "('r, 'w) connection \<Rightarrow> connection_header option" where
  "get_header c = cn_header c"

definition conn_drop :: "('r, 'w) connection \<Rightarrow> metrics \<Rightarrow> metrics" where
  "conn_drop c M = reset_metric c M"

text \<open>
  \<open>Display\<close>, with the decimal digits of a number. The name is kept as the bytes of its UTF-8
  encoding; they are shown as they are.
\<close>

definition show_nat :: "nat \<Rightarrow> string" where
  "show_nat n = map (\<lambda>b. char_of (unat b)) (decimal n)"

definition conn_fmt :: "('r, 'w) connection \<Rightarrow> string" where
  "conn_fmt c =
     (case cn_header c of
        None \<Rightarrow> ''Connection '' @ cn_id c
      | Some h \<Rightarrow> ''Connection '' @ cn_id c @ '', '' @ type_name (ch_type h) @ '' '' @ [CHR 0x27]
          @ map (\<lambda>b. char_of (unat b)) (ch_name h) @ [CHR 0x27] @ '' for replay '' @ show_nat (ch_id h))"

subsection \<open>Races\<close>

text \<open>
  A future completes at some time with some value, or never. \<open>select!\<close> takes the one that
  completes first; when both are ready in the same instant it picks one at random, which is
  the argument \<open>first\<close>. The outer \<open>None\<close> is a race that never ends.
\<close>

type_synonym 'a future = "(nat \<times> 'a) option"

definition until :: "bool \<Rightarrow> 'a future \<Rightarrow> 'b future \<Rightarrow> 'a option future" where
  "until first f1 f2 =
     (case (f1, f2) of
        (None, None) \<Rightarrow> None
      | (Some (t1, x), None) \<Rightarrow> Some (t1, Some x)
      | (None, Some (t2, _)) \<Rightarrow> Some (t2, None)
      | (Some (t1, x), Some (t2, _)) \<Rightarrow>
          if t1 < t2 \<or> t1 = t2 \<and> first then Some (t1, Some x) else Some (t2, None))"

text \<open>\<open>timeout\<close> races against a sleep that starts now, \<open>cancellable\<close> against a token.\<close>

definition timeout :: "bool \<Rightarrow> nat \<Rightarrow> 'a future \<Rightarrow> nat \<Rightarrow> 'a option future" where
  "timeout first now f time = until first f (Some (now + time, ()))"

definition cancellable :: "bool \<Rightarrow> 'a future \<Rightarrow> nat option \<Rightarrow> 'a option future" where
  "cancellable first f token = until first f (map_option (\<lambda>t. (t, ())) token)"

subsection \<open>Reading the initial header\<close>

definition read_and_set_connection_header ::
  "'r reader_ops \<Rightarrow> ('r, 'w) connection \<Rightarrow> metrics \<Rightarrow> unit conn_result \<times> ('r, 'w) connection \<times> metrics" where
  "read_and_set_connection_header R conn M =
     (case read_connection_header R (cn_reader conn) of
        Inl e \<Rightarrow> (Inl e, conn, M)
      | Inr (header, r) \<Rightarrow> (Inr (), set_header (conn\<lparr>cn_reader := r\<rparr>) header M))"

text \<open>
  The reads wait for bytes to arrive: \<open>arrival\<close> is when the last of them is there, \<open>None\<close> if
  the client keeps the connection open without sending enough. The result has the time at
  which it is known. A timeout drops the reading future; it has not set a header, because that
  is the last thing it does.
\<close>

definition read_initial_header ::
  "'r reader_ops \<Rightarrow> bool \<Rightarrow> nat \<Rightarrow> nat option \<Rightarrow> nat \<Rightarrow> ('r, 'w) connection \<Rightarrow> metrics \<Rightarrow>
   (unit conn_result \<times> ('r, 'w) connection \<times> metrics) future" where
  "read_initial_header R first now arrival until_time conn M =
     map_option (\<lambda>(t, res).
         case res of
           Some out \<Rightarrow> (t, out)
         | None \<Rightarrow> (t, (Inl (bad_data ''Timed out while accepting connection''), conn, M)))
       (timeout first now (map_option (\<lambda>t. (t, read_and_set_connection_header R conn M)) arrival) until_time)"

subsection \<open>Facts\<close>

lemma header2label_simps [simp]:
  "header2label (c\<lparr>cn_reader := r\<rparr>) = header2label c"
  "header2label (c\<lparr>cn_header := Some h\<rparr>) = type_name (ch_type h)"
  by (simp_all add: header2label_def)

lemma header2label_cases: "header2label c \<in> {''initial'', ''reader'', ''writer''}"
  by (auto simp: header2label_def type_name_def split: option.splits connection_type.splits)

lemma metric_fields [simp]:
  "SERVED_CONNS (set_metric c M) = SERVED_CONNS M" "SERVED_CONNS (reset_metric c M) = SERVED_CONNS M"
  "RUNNING_REPLAYS (set_metric c M) = RUNNING_REPLAYS M" "RUNNING_REPLAYS (reset_metric c M) = RUNNING_REPLAYS M"
  "FINISHED_REPLAYS (set_metric c M) = FINISHED_REPLAYS M" "FINISHED_REPLAYS (reset_metric c M) = FINISHED_REPLAYS M"
  "SAVED_REPLAYS (set_metric c M) = SAVED_REPLAYS M" "SAVED_REPLAYS (reset_metric c M) = SAVED_REPLAYS M"
  by (simp_all add: set_metric_def reset_metric_def)

text \<open>The gauge counts the connections of a pool, each under its label.\<close>

definition gauge_counts :: "metrics \<Rightarrow> ('k \<rightharpoonup> ('r, 'w) connection) \<Rightarrow> bool" where
  "gauge_counts M live \<longleftrightarrow> finite (dom live) \<and>
     (\<forall>label. ACTIVE_CONNS M label = int (card {k. \<exists>c. live k = Some c \<and> header2label c = label}))"

lemma gauge_counts_empty: "gauge_counts metrics_new Map.empty"
  by (simp add: gauge_counts_def metrics_new_def)

lemma gauge_finite: "finite (dom live) \<Longrightarrow> finite {k. \<exists>c. live k = Some c \<and> P c}"
  by (rule finite_subset [of _ "dom live"]) auto

text \<open>A connection that joins the pool, and one that leaves it.\<close>

lemma gauge_counts_add:
  assumes "gauge_counts M live" and "live k = None"
  shows "gauge_counts (set_metric c M) (live(k \<mapsto> c))"
proof -
  have fin: "finite (dom live)" using assms(1) by (simp add: gauge_counts_def)
  have "{j. \<exists>d. (live(k \<mapsto> c)) j = Some d \<and> header2label d = label} =
      (if header2label c = label then insert k else (\<lambda>x. x)) {j. \<exists>d. live j = Some d \<and> header2label d = label}"
    for label using assms(2) by auto
  moreover have "k \<notin> {j. \<exists>d. live j = Some d \<and> header2label d = label}" for label
    using assms(2) by simp
  ultimately show ?thesis using assms(1) gauge_finite [OF fin]
    by (simp add: gauge_counts_def set_metric_def)
qed

lemma gauge_counts_remove:
  assumes "gauge_counts M live" and "live k = Some c"
  shows "gauge_counts (reset_metric c M) (live(k := None))"
proof -
  have fin: "finite (dom live)" using assms(1) by (simp add: gauge_counts_def)
  let ?S = "\<lambda>m label. {j. \<exists>d. m j = Some d \<and> header2label d = label}"
  have S: "?S live label = (if header2label c = label then insert k else (\<lambda>x. x)) (?S (live(k := None)) label)"
    for label using assms(2) by auto
  moreover have "k \<notin> ?S (live(k := None)) label" "finite (?S (live(k := None)) label)" for label
    using gauge_finite [of "live(k := None)"] fin by auto
  ultimately have "card (?S live label) = card (?S (live(k := None)) label) + (if header2label c = label then 1 else 0)"
    for label by simp
  then show ?thesis using assms(1) fin by (simp add: gauge_counts_def reset_metric_def)
qed

lemma gauge_counts_set_header:
  assumes "gauge_counts M live" and "live k = Some c" and "set_header c h M = (c', M')"
  shows "gauge_counts M' (live(k \<mapsto> c'))"
  using gauge_counts_add [OF gauge_counts_remove [OF assms(1,2)], of k c'] assms(3)
  by (auto simp: set_header_def Let_def)

lemma gauge_counts_reader:
  assumes "gauge_counts M live" and "live k = Some c"
  shows "gauge_counts M (live(k \<mapsto> c\<lparr>cn_reader := r\<rparr>))"
proof -
  have "{j. \<exists>d. (live(k \<mapsto> c\<lparr>cn_reader := r\<rparr>)) j = Some d \<and> header2label d = label} =
      {j. \<exists>d. live j = Some d \<and> header2label d = label}" for label
    using assms(2) by auto
  then show ?thesis using assms(1) by (auto simp: gauge_counts_def)
qed

lemma gauge_counts_served: "gauge_counts (inc_served_conns e M) live = gauge_counts M live"
  by (simp add: gauge_counts_def inc_served_conns_def Let_def)

end
