(* ===== verification/Std_Text.thy ===== *)
theory Std_Text
  imports Live_Connection "HOL-Library.List_Lexorder" "HOL-Library.Char_ord"
begin

text \<open>
  The parts of the Rust standard library on text, paths and sorted maps that saving a replay
  uses: numbers as decimal text and back, slices of a string, \<open>PathBuf::push\<close>, \<open>rsplitn\<close>, and
  \<open>BTreeMap\<close> as the list of its entries in the order of the keys.

  A \<open>String\<close> is the list of the bytes of its UTF-8 encoding.
\<close>

subsection \<open>Numbers as text\<close>

definition digit_char :: "nat \<Rightarrow> char" where
  "digit_char d = char_of (48 + d)"

lemma show_nat_rec:
  "show_nat n = (if n < 10 then [digit_char n] else show_nat (n div 10) @ [digit_char (n mod 10)])"
proof -
  have *: "char_of (unat (digit_byte d)) = digit_char d" if "d < 10" for d
    using that by (simp add: unat_digit_byte digit_char_def)
  show ?thesis
    by (cases "n < 10") (simp_all add: show_nat_def decimal.simps [of n] *)
qed

definition digit_value :: "char \<Rightarrow> nat" where
  "digit_value c = of_char c - 48"

definition is_digit :: "char \<Rightarrow> bool" where
  "is_digit c \<longleftrightarrow> 48 \<le> (of_char c :: nat) \<and> (of_char c :: nat) \<le> 57"

definition nat_value :: "string \<Rightarrow> nat" where
  "nat_value s = foldl (\<lambda>a c. a * 10 + digit_value c) 0 s"

lemma of_digit_char [simp]: "d < 10 \<Longrightarrow> of_char (digit_char d) = 48 + d"
  by (simp add: digit_char_def)

lemma digit_char_simps [simp]:
  assumes "d < 10"
  shows "digit_value (digit_char d) = d" "is_digit (digit_char d)"
  using assms by (simp_all add: digit_value_def is_digit_def)

lemma show_nat_small: "n < 10 \<Longrightarrow> show_nat n = [digit_char n]"
  by (subst show_nat_rec) simp

lemma show_nat_large: "10 \<le> n \<Longrightarrow> show_nat n = show_nat (n div 10) @ [digit_char (n mod 10)]"
  by (subst show_nat_rec) simp

lemma digit_chars:
  "digit_char 0 = CHR ''0''" "digit_char (Suc 0) = CHR ''1''" "digit_char 2 = CHR ''2''" "digit_char 3 = CHR ''3''"
  "digit_char 4 = CHR ''4''" "digit_char 5 = CHR ''5''" "digit_char 6 = CHR ''6''" "digit_char 7 = CHR ''7''"
  "digit_char 8 = CHR ''8''" "digit_char 9 = CHR ''9''"
  by (simp_all add: digit_char_def char_of_def bit_0 bit_numeral_rec)

text \<open>These evaluate the decimal text of a number.\<close>

lemmas show_nat_eval = show_nat_small show_nat_large digit_chars

lemma nat_value_show [simp]: "nat_value (show_nat n) = n"
proof (induction n rule: less_induct)
  case (less n)
  show ?case
  proof (cases "n < 10")
    case False
    then have "nat_value (show_nat (n div 10)) = n div 10" using less.IH [of "n div 10"] by simp
    then show ?thesis using False by (subst show_nat_rec) (simp add: nat_value_def)
  qed (subst show_nat_rec, simp add: nat_value_def)
qed

lemma show_nat_inject [simp]: "show_nat m = show_nat n \<longleftrightarrow> m = n"
  by (metis nat_value_show)

lemma show_nat_digits: "c \<in> set (show_nat n) \<Longrightarrow> is_digit c"
proof (induction n rule: less_induct)
  case (less n)
  show ?case
  proof (cases "n < 10")
    case True
    then show ?thesis using less.prems by (subst (asm) show_nat_rec) auto
  next
    case False
    then have "c \<in> set (show_nat (n div 10)) \<or> c = digit_char (n mod 10)"
      using less.prems by (subst (asm) show_nat_rec) auto
    then show ?thesis using less.IH [of "n div 10"] False by auto
  qed
qed

lemma show_nat_nonempty [simp]: "show_nat n \<noteq> []"
  by (subst show_nat_rec) simp

lemma digit_not: "is_digit c \<Longrightarrow> c \<noteq> CHR ''/'' \<and> c \<noteq> CHR ''-'' \<and> c \<noteq> CHR ''+'' \<and> c \<noteq> CHR ''.''"
  by (auto simp: is_digit_def)

definition show_int :: "int \<Rightarrow> string" where
  "show_int i = (if i < 0 then CHR ''-'' # show_nat (nat (- i)) else show_nat (nat i))"

lemma show_nat_head: "show_nat n \<noteq> CHR ''-'' # s"
  using show_nat_digits [of "CHR ''-''" n] by (auto simp: is_digit_def)

lemma show_int_inject [simp]: "show_int i = show_int j \<longleftrightarrow> i = j"
  using show_nat_head by (auto simp: show_int_def) metis+

lemma show_int_of_nat [simp]: "show_int (int n) = show_nat n"
  by (simp add: show_int_def)

text \<open>\<open>parse::<i32>\<close>: an optional sign and at least one digit, within the range of the type.\<close>

definition parse_i32 :: "string \<Rightarrow> int option" where
  "parse_i32 s =
     (let negative = (s \<noteq> [] \<and> hd s = CHR ''-'');
          digits = (if s \<noteq> [] \<and> hd s \<in> {CHR ''-'', CHR ''+''} then tl s else s);
          value = (if negative then - int (nat_value digits) else int (nat_value digits))
      in if digits \<noteq> [] \<and> list_all is_digit digits \<and> - (2 ^ 31) \<le> value \<and> value < 2 ^ 31
         then Some value else None)"

lemma parse_i32_two_digits:
  assumes "a < 10" "b < 10"
  shows "parse_i32 [digit_char a, digit_char b] = Some (int (a * 10 + b))"
proof -
  have "digit_char a \<noteq> CHR ''-''" "digit_char a \<noteq> CHR ''+''"
    using digit_not [OF digit_char_simps(2) [OF assms(1)]] by auto
  then show ?thesis using assms by (simp add: parse_i32_def nat_value_def)
qed

subsection \<open>Slices, padding and splitting\<close>

text \<open>\<open>&s[a..b]\<close> panics unless \<open>a\<close> and \<open>b\<close> are in order and in range.\<close>

definition slice :: "nat \<Rightarrow> nat \<Rightarrow> string \<Rightarrow> string option" where
  "slice a b s = (if a \<le> b \<and> b \<le> length s then Some (take (b - a) (drop a s)) else None)"

text \<open>The format \<open>{:0>width}\<close>.\<close>

definition pad_zeros :: "nat \<Rightarrow> string \<Rightarrow> string" where
  "pad_zeros width s = replicate (width - length s) CHR ''0'' @ s"

text \<open>The last \<open>k\<close> digits of a number, those that it does not have being zero.\<close>

fun last_digits :: "nat \<Rightarrow> nat \<Rightarrow> string" where
  "last_digits 0 n = []"
| "last_digits (Suc k) n = last_digits k (n div 10) @ [digit_char (n mod 10)]"

lemma length_last_digits [simp]: "length (last_digits k n) = k"
  by (induction k arbitrary: n) simp_all

lemma length_pad [simp]: "length (pad_zeros k s) = max k (length s)"
  by (simp add: pad_zeros_def)

lemma last_digits_0: "last_digits k 0 = replicate k (CHR ''0'')"
  by (induction k) (simp_all add: digit_chars replicate_append_same)

lemma pad_zeros_digits: "drop (max k (length (show_nat n)) - k) (pad_zeros k (show_nat n)) = last_digits k n"
proof (induction k arbitrary: n)
  case 0
  then show ?case by (simp add: pad_zeros_def)
next
  case (Suc k)
  show ?case
  proof (cases "n < 10")
    case True
    then have "show_nat n = [digit_char n]" by (subst show_nat_rec) simp
    then show ?thesis using True by (simp add: pad_zeros_def last_digits_0)
  next
    case False
    then have s: "show_nat n = show_nat (n div 10) @ [digit_char (n mod 10)]"
      by (subst show_nat_rec) simp
    then have "pad_zeros (Suc k) (show_nat n) = pad_zeros k (show_nat (n div 10)) @ [digit_char (n mod 10)]"
      by (simp add: pad_zeros_def)
    moreover have "max (Suc k) (length (show_nat n)) - Suc k = max k (length (show_nat (n div 10))) - k"
      using s by simp
    ultimately show ?thesis using Suc.IH [of "n div 10"] by simp
  qed
qed

text \<open>
  \<open>rsplitn(2, c)\<close>: what comes after the last \<open>c\<close>, and then what comes before it; without a \<open>c\<close> the
  whole string.
\<close>

definition rsplit2 :: "char \<Rightarrow> string \<Rightarrow> string list" where
  "rsplit2 c s =
     (if c \<in> set s
      then [rev (takeWhile (\<lambda>x. x \<noteq> c) (rev s)), rev (tl (dropWhile (\<lambda>x. x \<noteq> c) (rev s)))]
      else [s])"

lemma rsplit2_at:
  assumes "c \<notin> set t"
  shows "rsplit2 c (s @ c # t) = [t, s]"
proof -
  have "\<forall>x \<in> set (rev t). x \<noteq> c" using assms by auto
  then have "takeWhile (\<lambda>x. x \<noteq> c) (rev t @ c # rev s) = rev t"
    "dropWhile (\<lambda>x. x \<noteq> c) (rev t @ c # rev s) = c # rev s"
    by (auto simp: takeWhile_eq_all_conv dropWhile_eq_Nil_conv takeWhile_append dropWhile_append)
  then show ?thesis by (simp add: rsplit2_def)
qed

lemma rsplit2_without: "c \<notin> set s \<Longrightarrow> rsplit2 c s = [s]"
  by (simp add: rsplit2_def)

subsection \<open>Paths\<close>

text \<open>\<open>PathBuf::push\<close>: an absolute path replaces, a relative one is appended after a separator.\<close>

definition path_push :: "string \<Rightarrow> string \<Rightarrow> string" where
  "path_push p s =
     (if s \<noteq> [] \<and> hd s = CHR ''/'' then s
      else if p = [] \<or> last p = CHR ''/'' then p @ s
      else p @ CHR ''/'' # s)"

subsection \<open>Sorted maps\<close>

text \<open>The entries of a \<open>BTreeMap\<close>, and its operations.\<close>

type_synonym ('k, 'v) btree = "('k \<times> 'v) list"

fun bt_insert :: "'k::linorder \<Rightarrow> 'v \<Rightarrow> ('k, 'v) btree \<Rightarrow> ('k, 'v) btree" where
  "bt_insert k v [] = [(k, v)]"
| "bt_insert k v ((l, w) # m) =
     (if k < l then (k, v) # (l, w) # m
      else if k = l then (k, v) # m
      else (l, w) # bt_insert k v m)"

definition bt_get :: "('k, 'v) btree \<Rightarrow> 'k \<Rightarrow> 'v option" where
  "bt_get m k = map_of m k"

definition bt_pop_first :: "('k, 'v) btree \<Rightarrow> (('k \<times> 'v) \<times> ('k, 'v) btree) option" where
  "bt_pop_first m = (case m of [] \<Rightarrow> None | e # m \<Rightarrow> Some (e, m))"

definition bt_ok :: "('k::linorder, 'v) btree \<Rightarrow> bool" where
  "bt_ok m \<longleftrightarrow> sorted_wrt (<) (map fst m)"

lemma bt_get_insert [simp]: "bt_get (bt_insert k v m) l = (if l = k then Some v else bt_get m l)"
  by (induction k v m rule: bt_insert.induct) (auto simp: bt_get_def)

lemma bt_insert_keys: "fst ` set (bt_insert k v m) = insert k (fst ` set m)"
  by (induction k v m rule: bt_insert.induct) auto

lemma bt_insert_ok: "bt_ok m \<Longrightarrow> bt_ok (bt_insert k v m)"
proof (induction k v m rule: bt_insert.induct)
  case (2 k v l w m)
  have "\<forall>x \<in> fst ` set (bt_insert k v m). l < x" if "l < k"
    using that 2 unfolding bt_insert_keys by (auto simp: bt_ok_def)
  then show ?case using 2 by (auto simp: bt_ok_def)
qed (simp add: bt_ok_def)

lemma bt_empty [simp]: "bt_get [] k = None" "bt_ok []"
  by (simp_all add: bt_get_def bt_ok_def)

lemma bt_ok_distinct: "bt_ok m \<Longrightarrow> distinct (map fst m)"
  by (simp add: bt_ok_def strict_sorted_iff flip: sorted_wrt_map)

end
