(* ===== verification/Websocket.thy ===== *)
theory Websocket
  imports Std_Text
begin

text \<open>
  A websocket as a stream of bytes, \<open>src/server/websocket_stream.rs\<close>. The crates that do the
  protocol are left out: what the program sees of them are messages and errors, of the kinds that it
  tells apart.
\<close>

subsection \<open>Messages and errors\<close>

datatype ws_error =
    AlreadyClosed
  | CannotResolveHost
  | Protocol string
  | PayloadTooLong nat nat
  | WsIo io_error
  | Upgrade string
  | OtherWsError

text \<open>An error of the reading: one of the system, or one of kind \<open>Other\<close> with a text.\<close>

datatype ws_io_error = SystemError io_error | OtherError string

fun map_message_error_to_io_error :: "ws_error \<Rightarrow> ws_io_error" where
  "map_message_error_to_io_error AlreadyClosed = OtherError ''Websocket already closed''"
| "map_message_error_to_io_error CannotResolveHost = OtherError ''Websocket cannot resolve host''"
| "map_message_error_to_io_error (Protocol protocol_error) =
     OtherError (''Websocket protocol error: '' @ protocol_error)"
| "map_message_error_to_io_error (PayloadTooLong len max_len) =
     OtherError (''Websocket payload too long: '' @ show_nat len @ '' > '' @ show_nat max_len)"
| "map_message_error_to_io_error (WsIo error) = SystemError error"
| "map_message_error_to_io_error (Upgrade error) = OtherError (''Websocket upgrade error: '' @ error)"
| "map_message_error_to_io_error OtherWsError = OtherError ''Websocket unknown error''"

datatype message = CloseMessage nat string | PingMessage "byte list" | PongMessage "byte list" | DataMessage "byte list"

definition as_close :: "message \<Rightarrow> (nat \<times> string) option" where
  "as_close m = (case m of CloseMessage code reason \<Rightarrow> Some (code, reason) | _ \<Rightarrow> None)"

definition is_ping :: "message \<Rightarrow> bool" where
  "is_ping m = (case m of PingMessage _ \<Rightarrow> True | _ \<Rightarrow> False)"

definition is_pong :: "message \<Rightarrow> bool" where
  "is_pong m = (case m of PongMessage _ \<Rightarrow> True | _ \<Rightarrow> False)"

definition into_payload :: "message \<Rightarrow> byte list" where
  "into_payload m = (case m of CloseMessage _ _ \<Rightarrow> [] | PingMessage bs \<Rightarrow> bs | PongMessage bs \<Rightarrow> bs | DataMessage bs \<Rightarrow> bs)"

definition NORMAL_CLOSURE :: nat where
  "NORMAL_CLOSURE = 1000"

subsection \<open>The two directions\<close>

text \<open>Every write is a message; every message is a piece of what is read.\<close>

definition sink_message :: "byte list \<Rightarrow> message" where
  "sink_message b = DataMessage b"

definition map_message_to_bytes :: "ws_error + message \<Rightarrow> ws_io_error + byte list" where
  "map_message_to_bytes i =
     and_then (map_err map_message_error_to_io_error i) (\<lambda>mes.
       case as_close mes of
         Some (code, reason) \<Rightarrow> if code \<noteq> NORMAL_CLOSURE then Inl (OtherError reason) else Inr []
       | None \<Rightarrow> if is_ping mes \<or> is_pong mes then Inr [] else Inr (into_payload mes))"

text \<open>
  \<open>StreamReader\<close> gives the pieces one after the other, passing over the empty ones, up to the first
  error: here as all the bytes and the error after them.
\<close>

fun stream_reader :: "(ws_io_error + byte list) list \<Rightarrow> byte list \<times> ws_io_error option" where
  "stream_reader [] = ([], None)"
| "stream_reader (Inl e # items) = ([], Some e)"
| "stream_reader (Inr b # items) = (let (bs, e) = stream_reader items in (b @ bs, e))"

definition websocket_reader :: "(ws_error + message) list \<Rightarrow> byte list \<times> ws_io_error option" where
  "websocket_reader items = stream_reader (map map_message_to_bytes items)"

subsection \<open>Properties\<close>

definition payload_of :: "message \<Rightarrow> byte list" where
  "payload_of m = (case m of DataMessage bs \<Rightarrow> bs | _ \<Rightarrow> [])"

definition orderly :: "message \<Rightarrow> bool" where
  "orderly m = (case m of CloseMessage code reason \<Rightarrow> code = NORMAL_CLOSURE | _ \<Rightarrow> True)"

lemma map_message_orderly: "orderly m \<Longrightarrow> map_message_to_bytes (Inr m) = Inr (payload_of m)"
  by (cases m) (simp_all add: map_message_to_bytes_def orderly_def payload_of_def as_close_def is_ping_def is_pong_def into_payload_def)

lemma websocket_reader_append:
  "list_all orderly ms \<Longrightarrow>
    websocket_reader (map Inr ms @ items) =
      (concat (map payload_of ms) @ fst (websocket_reader items), snd (websocket_reader items))"
  by (induction ms) (auto simp: websocket_reader_def map_message_orderly split: prod.splits)

text \<open>
  C40: a websocket is a stream of bytes. However the data is cut into messages, and whatever pings and
  pongs are between them, what is read are the bytes of the data; a normal close ends it without an
  error, any other close with its reason, and an error of the protocol with its text. What one
  side writes is what the other side reads.
\<close>

theorem websocket_transparent:
  assumes "list_all orderly ms" and "code \<noteq> NORMAL_CLOSURE"
  shows "websocket_reader (map Inr ms) = (concat (map payload_of ms), None)
    \<and> websocket_reader (map Inr ms @ Inr (CloseMessage code reason) # later) = (concat (map payload_of ms), Some (OtherError reason))
    \<and> websocket_reader (map Inr ms @ Inl e # later) = (concat (map payload_of ms), Some (map_message_error_to_io_error e))
    \<and> websocket_reader (map (Inr \<circ> sink_message) chunks) = (concat chunks, None)"
proof (intro conjI)
  show "websocket_reader (map Inr ms) = (concat (map payload_of ms), None)"
    using websocket_reader_append [OF assms(1), of "[]"] by (simp add: websocket_reader_def)
  show "websocket_reader (map Inr ms @ Inr (CloseMessage code reason) # later) = (concat (map payload_of ms), Some (OtherError reason))"
    using websocket_reader_append [OF assms(1), of "Inr (CloseMessage code reason) # later"] assms(2)
    by (simp add: websocket_reader_def map_message_to_bytes_def as_close_def)
  show "websocket_reader (map Inr ms @ Inl e # later) = (concat (map payload_of ms), Some (map_message_error_to_io_error e))"
    using websocket_reader_append [OF assms(1), of "Inl e # later"]
    by (simp add: websocket_reader_def map_message_to_bytes_def)
  have "list_all orderly (map sink_message chunks)" "map payload_of (map sink_message chunks) = chunks"
    by (simp_all add: list_all_iff sink_message_def orderly_def payload_of_def comp_def)
  then show "websocket_reader (map (Inr \<circ> sink_message) chunks) = (concat chunks, None)"
    using websocket_reader_append [of "map sink_message chunks" "[]"] by (simp add: websocket_reader_def)
qed

theorem websocket_transparent_witness:
  "websocket_reader (map Inr [DataMessage [80, 47], PingMessage [1], DataMessage [], DataMessage [53], CloseMessage 1000 ''bye''])
    = ([80, 47, 53], None)"
proof -
  have "list_all orderly [DataMessage [80, 47], PingMessage [1], DataMessage [], DataMessage [53], CloseMessage 1000 ''bye'']"
    by (simp add: orderly_def NORMAL_CLOSURE_def)
  from conjunct1 [OF websocket_transparent [OF this, of 1001]] show ?thesis
    by (simp add: payload_of_def NORMAL_CLOSURE_def)
qed

end
