(* ===== verification/Database.thy ===== *)
theory Database
  imports Std_Text Config
begin

text \<open>
  \<open>Database\<close> of \<open>src/database/database.rs\<close>: the queries that the server makes. The crate \<open>sqlx\<close>
  is a parameter, the record \<open>sqlx\<close>: a query is its text and the values that are bound to its
  placeholders, and what it gives is whatever the database says. The program's part is here:
  the texts, the bound values, the rows, and what is done about errors.
\<close>

subsection \<open>Rows\<close>

text \<open>The type \<open>'t\<close> is \<open>OffsetDateTime\<close>; \<open>'e\<close> is \<open>sqlx::Error\<close>.\<close>

record team_player_row =
  login :: string
  team :: int

record 't game_stat_row =
  start_time :: 't
  end_time :: "'t option"
  game_type :: string
  host :: string
  game_name :: string
  game_mod :: "string option"
  file_name :: "string option"

record mod_version_row =
  file_id :: nat
  version :: int

datatype 'e save_error = DatabaseError 'e

datatype bound = BindU64 nat | BindOptU32 "nat option" | BindBool bool

subsection \<open>The pool\<close>

record pool_options =
  po_host :: string
  po_port :: nat
  po_username :: string
  po_password :: string
  po_database :: string
  po_ssl_disabled :: bool
  po_max_connections :: nat
  po_max_lifetime_s :: "nat option"

text \<open>\<open>'p\<close> is a pool, with what the database behind it holds; every query gives its new state.\<close>

record ('p, 't, 'e) sqlx =
  connect_lazy_with :: "pool_options \<Rightarrow> 'p"
  fetch_team_players :: "string \<Rightarrow> bound list \<Rightarrow> 'p \<Rightarrow> ('e + team_player_row list) \<times> 'p"
  fetch_game_stats :: "string \<Rightarrow> bound list \<Rightarrow> 'p \<Rightarrow> ('e + 't game_stat_row) \<times> 'p"
  fetch_player_count :: "string \<Rightarrow> bound list \<Rightarrow> 'p \<Rightarrow> ('e + int) \<times> 'p"
  fetch_mod_versions :: "string \<Rightarrow> bound list \<Rightarrow> 'p \<Rightarrow> ('e + mod_version_row list) \<times> 'p"
  execute_query :: "string \<Rightarrow> bound list \<Rightarrow> 'p \<Rightarrow> ('e + unit) \<times> 'p"

definition database_new :: "('p, 't, 'e) sqlx \<Rightarrow> DatabaseSettings \<Rightarrow> 'p" where
  "database_new X dbc = connect_lazy_with X
     \<lparr>po_host = db_host dbc, po_port = db_port dbc, po_username = db_user dbc,
      po_password = db_password dbc, po_database = db_name dbc, po_ssl_disabled = True,
      po_max_connections = pool_size dbc, po_max_lifetime_s = Some (24 * 60 * 60)\<rparr>"

subsection \<open>The queries\<close>

definition query_text :: "string list \<Rightarrow> string" where
  "query_text ls = concat (map (\<lambda>l. CHR 0x0A # l) ls)"

definition team_players_query :: string where
  "team_players_query = query_text [
    ''            SELECT'',
    ''                `login`.`login` AS login,'',
    ''                `game_player_stats`.`team` AS team'',
    ''            FROM `game_stats`'',
    ''            INNER JOIN `game_player_stats`'',
    ''              ON `game_player_stats`.`gameId` = `game_stats`.`id`'',
    ''            INNER JOIN `login`'',
    ''              ON `login`.id = `game_player_stats`.`playerId`'',
    ''            WHERE `game_stats`.`id` = ? AND `game_player_stats`.`AI` = 0'',
    ''            '']"

definition get_team_players ::
  "('p, 't, 'e) sqlx \<Rightarrow> nat \<Rightarrow> 'p \<Rightarrow> ('e save_error + team_player_row list) \<times> 'p" where
  "get_team_players X i p =
     (let (r, p) = fetch_team_players X team_players_query [BindU64 i] p in (map_err DatabaseError r, p))"

definition game_stat_query :: string where
  "game_stat_query = query_text [
    ''            SELECT'',
    ''                `game_stats`.`startTime` AS start_time,'',
    ''                `game_stats`.`endTime` AS end_time,'',
    ''                `game_stats`.`gameType` AS game_type,'',
    ''                `login`.`login` AS host,'',
    ''                `game_stats`.`gameName` AS game_name,'',
    ''                `game_featuredMods`.`gamemod` AS game_mod,'',
    ''                `map_version`.`filename` AS file_name'',
    ''            FROM `game_stats`'',
    ''            INNER JOIN `login`'',
    ''              ON `login`.id = `game_stats`.`host`'',
    ''            INNER JOIN  `game_featuredMods`'',
    ''              ON `game_stats`.`gameMod` = `game_featuredMods`.`id`'',
    ''            LEFT JOIN `map_version`'',
    ''              ON `game_stats`.`mapId` = `map_version`.`id`'',
    ''            WHERE `game_stats`.`id` = ?'',
    ''            '']"

definition get_game_stat_row ::
  "('p, 't, 'e) sqlx \<Rightarrow> nat \<Rightarrow> 'p \<Rightarrow> ('e save_error + 't game_stat_row) \<times> 'p" where
  "get_game_stat_row X i p =
     (let (r, p) = fetch_game_stats X game_stat_query [BindU64 i] p in (map_err DatabaseError r, p))"

definition player_count_query :: string where
  "player_count_query = query_text [
    ''           SELECT COUNT(*) AS count FROM `game_player_stats`'',
    ''           WHERE `game_player_stats`.`gameId` = ?'',
    ''           '']"

definition get_player_count ::
  "('p, 't, 'e) sqlx \<Rightarrow> nat \<Rightarrow> 'p \<Rightarrow> ('e save_error + int) \<times> 'p" where
  "get_player_count X i p =
     (let (r, p) = fetch_player_count X player_count_query [BindU64 i] p in (map_err DatabaseError r, p))"

text \<open>
  The versions of a mod are in tables that are named after it, so that the name becomes a part
  of the text. The check goes over the characters; on the bytes of their encoding it is the
  same, as those of a character that is not ASCII are above 127.
\<close>

definition mod_char :: "char \<Rightarrow> bool" where
  "mod_char c \<longleftrightarrow>
     CHR ''a'' \<le> c \<and> c \<le> CHR ''z'' \<or> CHR ''A'' \<le> c \<and> c \<le> CHR ''Z'' \<or> CHR ''0'' \<le> c \<and> c \<le> CHR ''9''
     \<or> c \<in> set ''_-''"

definition mod_versions_query :: "string \<Rightarrow> string" where
  "mod_versions_query m = query_text [
    ''            SELECT'',
    ''                `updates_'' @ m @ ''_files`.`fileId` AS file_id,'',
    ''                MAX(`updates_'' @ m @ ''_files`.`version`) AS version'',
    ''            FROM `updates_'' @ m @ ''`'',
    ''            INNER JOIN `updates_'' @ m @ ''_files` ON `fileId` = `updates_'' @ m @ ''`.`id`'',
    ''            GROUP BY `updates_'' @ m @ ''_files`.`fileId`'',
    ''        '']"

definition get_mod_version_list ::
  "('p, 't, 'e) sqlx \<Rightarrow> string \<Rightarrow> 'p \<Rightarrow> ('e save_error + mod_version_row list) \<times> 'p" where
  "get_mod_version_list X m p =
     (if \<not> list_all mod_char m then (Inr [], p)
      else if m = ''ladder1v1'' then (Inr [], p)
      else (case fetch_mod_versions X (mod_versions_query m) [] p of
              (Inl e, p) \<Rightarrow> (Inr [], p)
            | (Inr v, p) \<Rightarrow> (Inr v, p)))"

definition update_query :: string where
  "update_query = query_text [
    ''            UPDATE `game_stats` SET'',
    ''                `game_stats`.`replay_ticks` = ?,'',
    ''                `game_stats`.`replay_available` = ?'',
    ''            WHERE `game_stats`.`id` = ?'',
    ''        '']"

definition update_game_stats ::
  "('p, 't, 'e) sqlx \<Rightarrow> nat \<Rightarrow> nat option \<Rightarrow> bool \<Rightarrow> 'p \<Rightarrow> ('e save_error + unit) \<times> 'p" where
  "update_game_stats X i replay_ticks replay_available p =
     (let (res, p) = execute_query X update_query
            [BindOptU32 replay_ticks, BindBool replay_available, BindU64 i] p
      in (map_err DatabaseError res, p))"

subsection \<open>The text of the query with a name in it\<close>

text \<open>A text cut at its backticks: the pieces outside and inside of quoted names alternate.\<close>

fun pieces_from :: "string \<Rightarrow> string \<Rightarrow> string list" where
  "pieces_from piece [] = [rev piece]"
| "pieces_from piece (c # s) = (if c = CHR 0x60 then rev piece # pieces_from [] s else pieces_from (c # piece) s)"

definition pieces :: "string \<Rightarrow> string list" where
  "pieces s = pieces_from [] s"

fun outside :: "'a list \<Rightarrow> 'a list" where
  "outside (x # y # xs) = x # outside xs"
| "outside xs = xs"

fun inside :: "'a list \<Rightarrow> 'a list" where
  "inside (x # y # xs) = y # inside xs"
| "inside xs = []"

lemma pieces_from_append: "CHR 0x60 \<notin> set s \<Longrightarrow> pieces_from piece (s @ t) = pieces_from (rev s @ piece) t"
  by (induction s arbitrary: piece) auto

lemma mod_char_no_quote: "list_all mod_char m \<Longrightarrow> CHR 0x60 \<notin> set m"
  by (auto simp: list_all_iff mod_char_def less_eq_char_def)

lemma mod_query_pieces:
  assumes "CHR 0x60 \<notin> set m"
  shows "inside (pieces (mod_versions_query m)) =
      [''updates_'' @ m @ ''_files'', ''fileId'', ''updates_'' @ m @ ''_files'', ''version'', ''updates_'' @ m,
       ''updates_'' @ m @ ''_files'', ''fileId'', ''updates_'' @ m, ''id'', ''updates_'' @ m @ ''_files'', ''fileId'']"
    and "outside (pieces (mod_versions_query m)) = outside (pieces (mod_versions_query []))"
  using pieces_from_append [OF assms] by (simp_all add: mod_versions_query_def query_text_def pieces_def)

text \<open>
  C35: the name of a mod cannot change what the query does. The query is made only of letters,
  digits, underscores and dashes; it then has the names that it should have between the
  backticks, and outside of them the same text for every mod. Any other name, and the mod that
  has no tables of its own, gives no versions and no query. A failed query gives no versions
  either; there is never an error.
\<close>

theorem mod_query_safe:
  "if list_all mod_char m \<and> m \<noteq> ''ladder1v1''
   then \<exists>q. get_mod_version_list X m p =
          (Inr (case fst (fetch_mod_versions X q [] p) of Inl _ \<Rightarrow> [] | Inr v \<Rightarrow> v), snd (fetch_mod_versions X q [] p)) \<and>
        outside (pieces q) = outside (pieces (mod_versions_query [])) \<and>
        inside (pieces q) =
          [''updates_'' @ m @ ''_files'', ''fileId'', ''updates_'' @ m @ ''_files'', ''version'', ''updates_'' @ m,
           ''updates_'' @ m @ ''_files'', ''fileId'', ''updates_'' @ m, ''id'', ''updates_'' @ m @ ''_files'', ''fileId'']
   else get_mod_version_list X m p = (Inr [], p)"
proof (cases "list_all mod_char m \<and> m \<noteq> ''ladder1v1''")
  case True
  then have "get_mod_version_list X m p =
      (let q = mod_versions_query m
       in (Inr (case fst (fetch_mod_versions X q [] p) of Inl _ \<Rightarrow> [] | Inr v \<Rightarrow> v), snd (fetch_mod_versions X q [] p)))"
    by (auto simp: get_mod_version_list_def Let_def split: prod.splits sum.splits)
  then show ?thesis using True mod_query_pieces [OF mod_char_no_quote [of m]] by (auto simp: Let_def)
qed (auto simp: get_mod_version_list_def)

end
