(* ===== verification/Queries.thy ===== *)
theory Queries
  imports Database
begin

text \<open>
  \<open>Queries\<close> of \<open>src/database/queries.rs\<close>: what the saver asks the database, put into the form in
  which it is needed.
\<close>

type_synonym game_teams = "(int, string list) btree"

record game_stats =
  gs_featured_mod :: "string option"
  gs_game_type :: string
  gs_host :: string
  gs_launched_at :: int
  gs_game_end :: int
  gs_title :: string
  gs_mapname :: string
  gs_num_players :: int

type_synonym mod_versions = "(string, int) btree"

subsection \<open>The operations\<close>

text \<open>One iteration of the loop over the players, and the loop.\<close>

definition add_player :: "team_player_row \<Rightarrow> game_teams \<Rightarrow> game_teams" where
  "add_player p res =
     (let plist = (case bt_get res (team p) of None \<Rightarrow> [] | Some l \<Rightarrow> l)
      in bt_insert (team p) (plist @ [login p]) res)"

definition get_teams_in_game ::
  "('p, 't, 'e) sqlx \<Rightarrow> nat \<Rightarrow> 'p \<Rightarrow> ('e save_error + game_teams) \<times> 'p" where
  "get_teams_in_game X i p =
     (case get_team_players X i p of
        (Inl e, p) \<Rightarrow> (Inl e, p)
      | (Inr players, p) \<Rightarrow> (Inr (fold add_player players []), p))"

text \<open>\<open>last\<close> and \<open>next\<close> of the iterator of \<open>rsplitn\<close>, which always has an item.\<close>

definition unmangle_map_name :: "string option \<Rightarrow> string" where
  "unmangle_map_name name =
     (case Option.bind (Option.bind name
              (\<lambda>f. Some (last (rsplit2 CHR ''.'' f))))
              (\<lambda>f. Some (hd (rsplit2 CHR ''/'' f))) of
        None \<Rightarrow> ''None''
      | Some f \<Rightarrow> f)"

text \<open>The clock and the conversion of a time are those of the crate \<open>time\<close>.\<close>

definition get_game_stats ::
  "('p, 't, 'e) sqlx \<Rightarrow> ('t \<Rightarrow> int) \<Rightarrow> 't \<Rightarrow> nat \<Rightarrow> 'p \<Rightarrow> ('e save_error + game_stats) \<times> 'p" where
  "get_game_stats X unix_timestamp now_utc i p =
     (case get_game_stat_row X i p of
        (Inl e, p) \<Rightarrow> (Inl e, p)
      | (Inr stats, p) \<Rightarrow>
          (case get_player_count X i p of
             (Inl e, p) \<Rightarrow> (Inl e, p)
           | (Inr player_count, p) \<Rightarrow>
               let mapname = unmangle_map_name (file_name stats)
               in (Inr \<lparr>gs_featured_mod = game_mod stats, gs_game_type = game_type stats, gs_host = host stats,
                    gs_launched_at = unix_timestamp (start_time stats),
                    gs_game_end = unix_timestamp (case end_time stats of None \<Rightarrow> now_utc | Some t \<Rightarrow> t),
                    gs_title = game_name stats, gs_mapname = mapname, gs_num_players = player_count\<rparr>, p)))"

definition add_version :: "mod_version_row \<Rightarrow> mod_versions \<Rightarrow> mod_versions" where
  "add_version m ret = bt_insert (show_nat (file_id m)) (version m) ret"

definition get_mod_versions ::
  "('p, 't, 'e) sqlx \<Rightarrow> string \<Rightarrow> 'p \<Rightarrow> ('e save_error + mod_versions) \<times> 'p" where
  "get_mod_versions X m p =
     (case get_mod_version_list X m p of
        (Inl e, p) \<Rightarrow> (Inl e, p)
      | (Inr mods, p) \<Rightarrow> (Inr (fold add_version mods []), p))"

definition queries_update_game_stats ::
  "('p, 't, 'e) sqlx \<Rightarrow> nat \<Rightarrow> nat option \<Rightarrow> bool \<Rightarrow> 'p \<Rightarrow> ('e save_error + unit) \<times> 'p" where
  "queries_update_game_stats X i replay_ticks replay_available p =
     update_game_stats X i replay_ticks replay_available p"

subsection \<open>Facts\<close>

lemma teams_fold:
  "bt_ok m \<Longrightarrow> bt_ok (fold add_player rows m) \<and>
    bt_get (fold add_player rows m) t =
      (let old = bt_get m t; new = map login (filter (\<lambda>p. team p = t) rows)
       in if old = None \<and> new = [] then None else Some ((case old of None \<Rightarrow> [] | Some l \<Rightarrow> l) @ new))"
proof (induction rows arbitrary: m)
  case (Cons p rows)
  then have "bt_ok (add_player p m)" by (simp add: add_player_def Let_def bt_insert_ok)
  then show ?case using Cons.IH [of "add_player p m"]
    by (auto simp: add_player_def Let_def split: option.splits)
qed (auto simp: Let_def split: option.splits)

lemma versions_fold:
  "bt_ok m \<Longrightarrow> bt_ok (fold add_version rows m) \<and>
    bt_get (fold add_version rows m) (show_nat k) =
      (case filter (\<lambda>r. file_id r = k) rows of [] \<Rightarrow> bt_get m (show_nat k) | r # rs \<Rightarrow> Some (version (last (r # rs))))"
proof (induction rows arbitrary: m)
  case (Cons r rows)
  then have "bt_ok (add_version r m)" by (simp add: add_version_def bt_insert_ok)
  then show ?case using Cons.IH [of "add_version r m"]
    by (auto simp: add_version_def split: list.splits)
qed simp

text \<open>
  C36: the name of a map. A path to an archive gives the name of the file without its directory and
  without its last extension, however many dots and slashes there are before; the name need not
  have either. A map that is not known is called \<open>None\<close>. But a dot in the name of a directory
  above a file without extension is taken for one of the file, and a file whose name begins with
  its only dot has the empty name (\<open>splitext\<close> keeps such a name whole): \<open>stem\<close> may be empty.
\<close>

theorem map_name_roundtrip:
  assumes "CHR ''/'' \<notin> set stem" and "CHR ''.'' \<notin> set ext" and "CHR ''.'' \<notin> set bare" and "CHR ''/'' \<notin> set bare"
  shows "unmangle_map_name (Some (dir @ ''/'' @ stem @ ''.'' @ ext)) = stem
    \<and> unmangle_map_name (Some (stem @ ''.'' @ ext)) = stem
    \<and> unmangle_map_name (Some bare) = bare
    \<and> unmangle_map_name None = ''None''
    \<and> unmangle_map_name (Some (stem @ ''./'' @ bare)) = stem"
proof -
  have 1: "rsplit2 CHR ''.'' (dir @ ''/'' @ stem @ ''.'' @ ext) = [ext, dir @ ''/'' @ stem]"
    using rsplit2_at [OF assms(2), of "dir @ ''/'' @ stem"] by simp
  have 2: "rsplit2 CHR ''/'' (dir @ ''/'' @ stem) = [stem, dir]"
    using rsplit2_at [OF assms(1), of dir] by simp
  have 3: "rsplit2 CHR ''.'' (stem @ ''.'' @ ext) = [ext, stem]" using rsplit2_at [OF assms(2), of stem] by simp
  have 4: "rsplit2 CHR ''.'' (stem @ ''./'' @ bare) = [''/'' @ bare, stem]"
    using rsplit2_at [of "CHR ''.''" "''/'' @ bare" stem] assms(3) by simp
  show ?thesis using 1 2 3 4 rsplit2_without [OF assms(1)] rsplit2_without [OF assms(3)] rsplit2_without [OF assms(4)]
    by (simp add: unmangle_map_name_def)
qed

theorem map_name_roundtrip_witness:
  "unmangle_map_name (Some (''maps'' @ ''/'' @ ''adaptive_syrtis_major.v0001'' @ ''.'' @ ''zip'')) = ''adaptive_syrtis_major.v0001''"
  using map_name_roundtrip [of "''adaptive_syrtis_major.v0001''" "''zip''" "''x''" "''maps''"] by simp

text \<open>
  The teams of a game, in the order of their numbers: each has the players that the database
  gives for it, in the same order, and there are no others. The versions of a mod are those that
  the database gives, under the number of the file as text, and the last one where it gives a file
  twice.
\<close>

theorem teams_and_versions:
  assumes "get_team_players X i p = (Inr rows, p')" and "get_mod_version_list X m q = (Inr mods, q')"
  shows "\<exists>teams versions. get_teams_in_game X i p = (Inr teams, p') \<and> get_mod_versions X m q = (Inr versions, q') \<and>
    bt_ok teams \<and> bt_ok versions \<and>
    (\<forall>t. bt_get teams t =
      (case map login (filter (\<lambda>r. team r = t) rows) of [] \<Rightarrow> None | l # ls \<Rightarrow> Some (l # ls))) \<and>
    (\<forall>k. bt_get versions (show_nat k) =
      (case filter (\<lambda>r. file_id r = k) mods of [] \<Rightarrow> None | r # rs \<Rightarrow> Some (version (last (r # rs)))))"
proof -
  have "bt_get (fold add_player rows []) t =
      (case map login (filter (\<lambda>r. team r = t) rows) of [] \<Rightarrow> None | l # ls \<Rightarrow> Some (l # ls))" for t
    using teams_fold [of "[]" rows t] by (auto simp: Let_def split: list.splits)
  moreover have "bt_get (fold add_version mods []) (show_nat k) =
      (case filter (\<lambda>r. file_id r = k) mods of [] \<Rightarrow> None | r # rs \<Rightarrow> Some (version (last (r # rs))))" for k
    using versions_fold [of "[]" mods k] by (auto split: list.splits)
  moreover have "bt_ok (fold add_player rows [])" "bt_ok (fold add_version mods [])"
    using teams_fold [of "[]" rows] versions_fold [of "[]" mods] by simp_all
  ultimately show ?thesis using assms by (simp add: get_teams_in_game_def get_mod_versions_def)
qed

text \<open>A database that holds one game.\<close>

definition demo_sqlx :: "(unit, int, nat) sqlx" where
  "demo_sqlx =
     \<lparr>connect_lazy_with = (\<lambda>_. ()),
      fetch_team_players = (\<lambda>q b p. (Inr (if b = [BindU64 1]
        then [\<lparr>login = ''a'', team = 2\<rparr>, \<lparr>login = ''b'', team = -1\<rparr>, \<lparr>login = ''c'', team = 2\<rparr>] else []), p)),
      fetch_game_stats = (\<lambda>q b p. if b = [BindU64 1]
        then (Inr \<lparr>start_time = 9, end_time = None, game_type = ''FFA'', host = ''a'', game_name = ''x'',
               game_mod = Some ''faf'', file_name = Some ''maps/m.v1.zip''\<rparr>, p)
        else (Inl 1, p)),
      fetch_player_count = (\<lambda>q b p. (Inr (if b = [BindU64 1] then 3 else 0), p)),
      fetch_mod_versions = (\<lambda>q b p. (Inr [\<lparr>file_id = 10, version = 3718\<rparr>, \<lparr>file_id = 9, version = 5\<rparr>], p)),
      execute_query = (\<lambda>q b p. (Inr (), p))\<rparr>"

theorem teams_and_versions_witness:
  "\<exists>teams versions. get_teams_in_game demo_sqlx 1 () = (Inr teams, ()) \<and> get_mod_versions demo_sqlx ''faf'' () = (Inr versions, ())
     \<and> bt_get teams 2 = Some [''a'', ''c''] \<and> bt_get versions (show_nat 10) = Some 3718"
proof -
  have r: "get_team_players demo_sqlx 1 () =
      (Inr [\<lparr>login = ''a'', team = 2\<rparr>, \<lparr>login = ''b'', team = -1\<rparr>, \<lparr>login = ''c'', team = 2\<rparr>], ())"
    "get_mod_version_list demo_sqlx ''faf'' () = (Inr [\<lparr>file_id = 10, version = 3718\<rparr>, \<lparr>file_id = 9, version = 5\<rparr>], ())"
    by (simp_all add: get_team_players_def get_mod_version_list_def demo_sqlx_def mod_char_def less_eq_char_def)
  from teams_and_versions [OF r] obtain teams versions where
    "get_teams_in_game demo_sqlx 1 () = (Inr teams, ())" "get_mod_versions demo_sqlx ''faf'' () = (Inr versions, ())"
    "bt_get teams 2 = Some [''a'', ''c'']" "bt_get versions (show_nat 10) = Some 3718"
    by auto
  then show ?thesis by blast
qed

end
