(* ===== verification/Saved_Path.thy ===== *)
theory Saved_Path
  imports Std_Text
begin

text \<open>
  \<open>SavedReplayDirectory\<close> of \<open>src/replay/save/directory.rs\<close>: where the replay of a game is kept.
  The file system is a parameter, the record \<open>disk\<close>; what is relied on of it is \<open>disk_laws\<close>.
\<close>

subsection \<open>The file system\<close>

text \<open>
  Every operation acts on a world \<open>'d\<close>. \<open>open_new\<close> is \<open>OpenOptions\<close> with \<open>write\<close> and
  \<open>create_new\<close>, \<open>write_all\<close> that of the opened file.
\<close>

record ('d, 'f) disk =
  create_dir_all :: "string \<Rightarrow> 'd \<Rightarrow> unit io_result \<times> 'd"
  open_new :: "string \<Rightarrow> 'd \<Rightarrow> 'f io_result \<times> 'd"
  write_all :: "'f \<Rightarrow> byte list \<Rightarrow> 'd \<Rightarrow> unit io_result \<times> 'd"

text \<open>
  With \<open>files d\<close> the contents of the files and \<open>path_of f\<close> the path of an opened one:
  making directories leaves files alone; \<open>create_new\<close> succeeds only where there is no file
  yet and leaves an empty one; writing appends, and touches no other file even where it fails.
\<close>

definition disk_laws ::
  "('d, 'f) disk \<Rightarrow> ('d \<Rightarrow> string \<rightharpoonup> byte list) \<Rightarrow> ('f \<Rightarrow> string) \<Rightarrow> bool" where
  "disk_laws D files path_of \<longleftrightarrow>
     (\<forall>p d res d'. create_dir_all D p d = (res, d') \<longrightarrow> files d' = files d) \<and>
     (\<forall>p d f d'. open_new D p d = (Inr f, d') \<longrightarrow>
        files d p = None \<and> files d' = (files d)(p \<mapsto> []) \<and> path_of f = p) \<and>
     (\<forall>p d e d'. open_new D p d = (Inl e, d') \<longrightarrow> files d' = files d) \<and>
     (\<forall>f xs d d' c. write_all D f xs d = (Inr (), d') \<longrightarrow> files d (path_of f) = Some c \<longrightarrow>
        files d' = (files d)(path_of f \<mapsto> c @ xs)) \<and>
     (\<forall>f xs d e d' p. write_all D f xs d = (Inl e, d') \<longrightarrow> p \<noteq> path_of f \<longrightarrow> files d' p = files d p)"

lemmas disk_lawsD =
  iffD1 [OF disk_laws_def, THEN conjunct1, rule_format]
  iffD1 [OF disk_laws_def, THEN conjunct2, THEN conjunct1, rule_format]
  iffD1 [OF disk_laws_def, THEN conjunct2, THEN conjunct2, THEN conjunct1, rule_format]
  iffD1 [OF disk_laws_def, THEN conjunct2, THEN conjunct2, THEN conjunct2, THEN conjunct1, rule_format]
  iffD1 [OF disk_laws_def, THEN conjunct2, THEN conjunct2, THEN conjunct2, THEN conjunct2, rule_format]

subsection \<open>The directory\<close>

record saved_replay_directory =
  root :: string

definition directory_new :: "string \<Rightarrow> saved_replay_directory" where
  "directory_new r = \<lparr>root = r\<rparr>"

definition replay_path :: "saved_replay_directory \<Rightarrow> nat \<Rightarrow> string option" where
  "replay_path self replay_id =
     do {
       let padded_id = pad_zeros 10 (show_nat replay_id);
       digits \<leftarrow> slice (length padded_id - 10) (length padded_id - 2) padded_id;
       groups \<leftarrow> mapM (\<lambda>(a, b). slice a b digits) [(0, 2), (2, 4), (4, 6), (6, 8)];
       dirs \<leftarrow> mapM (\<lambda>x. map_option show_int (parse_i32 x)) groups;
       Some (foldl path_push (root self) dirs)
     }"

text \<open>The outer option is the panic; the path of the file comes with the file.\<close>

definition touch_and_return_file ::
  "('d, 'f) disk \<Rightarrow> saved_replay_directory \<Rightarrow> nat \<Rightarrow> 'd \<Rightarrow> (('f \<times> string) io_result \<times> 'd) option" where
  "touch_and_return_file D self replay_id d =
     do {
       target \<leftarrow> replay_path self replay_id;
       Some (case create_dir_all D target d of
           (Inl e, d) \<Rightarrow> (Inl e, d)
         | (Inr _, d) \<Rightarrow>
             (let basename = show_nat replay_id @ ''.fafreplay'';
                  target = path_push target basename
              in case open_new D target d of
                   (Inl e, d) \<Rightarrow> (Inl e, d)
                 | (Inr f, d) \<Rightarrow> (Inr (f, target), d)))
     }"

subsection \<open>What the path is\<close>

text \<open>The four directories: two digits each, from the tenth to the third from the right.\<close>

definition replay_dirs :: "nat \<Rightarrow> string list" where
  "replay_dirs n = map (\<lambda>k. show_nat (n div 10 ^ k mod 100)) [8, 6, 4, 2]"

lemma last_digits_map: "last_digits k n = map (\<lambda>i. digit_char (n div 10 ^ i mod 10)) (rev [0..<k])"
proof (induction k arbitrary: n)
  case (Suc k)
  have r: "map f (rev [0..<Suc k]) = map (\<lambda>i. f (Suc i)) (rev [0..<k]) @ [f 0]" for f :: "nat \<Rightarrow> char"
    by (induction k) simp_all
  show ?case unfolding r last_digits.simps Suc.IH by (simp add: div_mult2_eq)
qed simp

lemma replay_digits:
  "slice (length (pad_zeros 10 (show_nat n)) - 10) (length (pad_zeros 10 (show_nat n)) - 2)
     (pad_zeros 10 (show_nat n)) = Some (map (\<lambda>k. digit_char (n div 10 ^ k mod 10)) [9, 8, 7, 6, 5, 4, 3, 2])"
proof -
  let ?p = "pad_zeros 10 (show_nat n)"
  have "drop (length ?p - 10) ?p = last_digits 10 n"
    using pad_zeros_digits [of 10 n] by (simp only: length_pad)
  also have "\<dots> = map (\<lambda>k. digit_char (n div 10 ^ k mod 10)) [9, 8, 7, 6, 5, 4, 3, 2, 1, 0]"
    unfolding last_digits_map by (rule arg_cong [where f = "map _"]) (simp add: upt_rec)
  finally have "take 8 (drop (length ?p - 10) ?p) = map (\<lambda>k. digit_char (n div 10 ^ k mod 10)) [9, 8, 7, 6, 5, 4, 3, 2]"
    by simp
  moreover have "length ?p - 2 - (length ?p - 10) = 8" by simp
  ultimately show ?thesis by (simp add: slice_def)
qed

lemma two_digits: "(n::nat) div 10 ^ Suc k mod 10 * 10 + n div 10 ^ k mod 10 = n div 10 ^ k mod 100"
proof -
  have "n div 10 ^ Suc k = n div 10 ^ k div 10" by (simp add: div_mult2_eq [symmetric] mult.commute)
  then show ?thesis using mod_mult2_eq [of "n div 10 ^ k" 10 10] by simp
qed

lemma two_digits_at:
  "(n::nat) div 10 ^ 9 mod 10 * 10 + n div 10 ^ 8 mod 10 = n div 10 ^ 8 mod 100"
  "n div 10 ^ 7 mod 10 * 10 + n div 10 ^ 6 mod 10 = n div 10 ^ 6 mod 100"
  "n div 10 ^ 5 mod 10 * 10 + n div 10 ^ 4 mod 10 = n div 10 ^ 4 mod 100"
  "n div 10 ^ 3 mod 10 * 10 + n div 10 ^ 2 mod 10 = n div 10 ^ 2 mod 100"
  using two_digits [of n 8] two_digits [of n 6] two_digits [of n 4] two_digits [of n 2]
  by (simp_all only: Suc_numeral add_num_simps)

lemma dir_name:
  assumes "a < 10" "b < 10" "a * 10 + b = m"
  shows "map_option show_int (parse_i32 [digit_char a, digit_char b]) = Some (show_nat m)"
  unfolding parse_i32_two_digits [OF assms(1,2)] assms(3) by simp

lemma replay_path_dirs: "replay_path self n = Some (foldl path_push (root self) (replay_dirs n))"
proof -
  let ?c = "\<lambda>k. digit_char (n div 10 ^ k mod 10)"
  have g: "mapM (\<lambda>(a, b). slice a b (map ?c [9, 8, 7, 6, 5, 4, 3, 2])) [(0, 2), (2, 4), (4, 6), (6, 8)]
      = Some [[?c 9, ?c 8], [?c 7, ?c 6], [?c 5, ?c 4], [?c 3, ?c 2]]"
    by (simp add: slice_def)
  have d: "mapM (\<lambda>x. map_option show_int (parse_i32 x)) [[?c 9, ?c 8], [?c 7, ?c 6], [?c 5, ?c 4], [?c 3, ?c 2]]
      = Some (replay_dirs n)"
    unfolding mapM.simps replay_dirs_def list.map
    by (simp only: dir_name [OF mod_less_divisor mod_less_divisor two_digits_at(1)] dir_name [OF mod_less_divisor mod_less_divisor two_digits_at(2)]
       dir_name [OF mod_less_divisor mod_less_divisor two_digits_at(3)] dir_name [OF mod_less_divisor mod_less_divisor two_digits_at(4)]
       bind.bind_lunit zero_less_numeral)
  show ?thesis unfolding replay_path_def Let_def replay_digits bind.bind_lunit g d by simp
qed

subsection \<open>One file for every game\<close>

lemma path_push_sep:
  assumes "q \<noteq> []" "s \<noteq> []" "hd s \<noteq> CHR ''/''"
  shows "\<exists>X. path_push q s = X @ CHR ''/'' # s"
proof (cases "last q = CHR ''/''")
  case True
  then have "q = butlast q @ [CHR ''/'']" using assms(1) by (metis append_butlast_last_id)
  then show ?thesis using True assms by (simp add: path_push_def) (metis append.assoc append_Cons append_Nil)
next
  case False
  then show ?thesis using assms by (auto simp: path_push_def)
qed

lemma no_slash: "CHR ''/'' \<notin> set (show_nat n)"
  using show_nat_digits digit_not by blast

lemma hd_show_nat: "hd (show_nat n) \<noteq> CHR ''/''"
  using no_slash by (metis hd_in_set show_nat_nonempty)

lemma replay_dir_nonempty: "foldl path_push r (replay_dirs n) \<noteq> []"
proof -
  have "path_push p s \<noteq> []" if "s \<noteq> []" for p s using that by (simp add: path_push_def)
  then show ?thesis by (simp add: replay_dirs_def)
qed

definition file_name_of :: "nat \<Rightarrow> string" where
  "file_name_of n = show_nat n @ ''.fafreplay''"

lemma file_name_of_facts:
  "file_name_of n \<noteq> []" "hd (file_name_of n) \<noteq> CHR ''/''" "CHR ''/'' \<notin> set (file_name_of n)"
  "file_name_of m = file_name_of n \<longleftrightarrow> m = n"
  using no_slash hd_show_nat by (auto simp: file_name_of_def hd_append)

definition replay_file :: "saved_replay_directory \<Rightarrow> nat \<Rightarrow> string" where
  "replay_file self n = path_push (foldl path_push (root self) (replay_dirs n)) (file_name_of n)"

lemma replay_file_inject: "replay_file S m = replay_file T n \<longleftrightarrow> S = T \<and> m = n" if "S = T"
proof -
  have split: "\<exists>X. replay_file S k = X @ CHR ''/'' # file_name_of k" for S k
    unfolding replay_file_def by (rule path_push_sep [OF replay_dir_nonempty file_name_of_facts(1,2)])
  obtain X Y where "replay_file S m = X @ CHR ''/'' # file_name_of m" "replay_file T n = Y @ CHR ''/'' # file_name_of n"
    using split by metis
  then have "file_name_of m = file_name_of n" if "replay_file S m = replay_file T n"
    using that rsplit2_at [OF file_name_of_facts(3)] by (metis list.inject)
  then show ?thesis using that file_name_of_facts(4) by auto
qed

lemma touch_eq:
  "touch_and_return_file D self n d =
     Some (case create_dir_all D (foldl path_push (root self) (replay_dirs n)) d of
         (Inl e, d) \<Rightarrow> (Inl e, d)
       | (Inr _, d) \<Rightarrow>
           (case open_new D (replay_file self n) d of
              (Inl e, d) \<Rightarrow> (Inl e, d)
            | (Inr f, d) \<Rightarrow> (Inr (f, replay_file self n), d)))"
  by (auto simp: touch_and_return_file_def replay_path_dirs replay_file_def file_name_of_def Let_def
      split: sum.splits prod.splits)

lemma touch_laws:
  assumes "disk_laws D files path_of" and "touch_and_return_file D self n d = Some (res, d')"
  shows "case res of Inl _ \<Rightarrow> files d' = files d
    | Inr (f, p) \<Rightarrow> p = replay_file self n \<and> path_of f = p \<and> files d p = None \<and> files d' = (files d)(p \<mapsto> [])"
proof -
  obtain r1 d1 where c: "create_dir_all D (foldl path_push (root self) (replay_dirs n)) d = (r1, d1)" by fastforce
  then have f1: "files d1 = files d" by (rule disk_lawsD(1) [OF assms(1)])
  obtain r2 d2 where o: "open_new D (replay_file self n) d1 = (r2, d2)" by fastforce
  show ?thesis
  proof (cases r1)
    case (Inl e)
    then show ?thesis using assms(2) c f1 unfolding touch_eq by auto
  next
    case r1: (Inr u)
    show ?thesis
    proof (cases r2)
      case (Inl e)
      then have "files d2 = files d1" using o disk_lawsD(3) [OF assms(1)] by blast
      then show ?thesis using assms(2) c o r1 Inl f1 unfolding touch_eq by auto
    next
      case (Inr f)
      then have "files d1 (replay_file self n) = None \<and> files d2 = (files d1)(replay_file self n \<mapsto> []) \<and> path_of f = replay_file self n"
        using o disk_lawsD(2) [OF assms(1)] by blast
      then show ?thesis using assms(2) c o r1 Inr f1 unfolding touch_eq by auto
    qed
  qed
qed

text \<open>A disk in memory, on which the laws hold.\<close>

type_synonym mem_disk = "string \<rightharpoonup> byte list"

definition mem_disk_ops :: "(mem_disk, string) disk" where
  "mem_disk_ops =
     \<lparr>create_dir_all = (\<lambda>p d. (Inr (), d)),
      open_new = (\<lambda>p d. case d p of None \<Rightarrow> (Inr p, d(p \<mapsto> [])) | Some _ \<Rightarrow> (Inl (OtherIo 17), d)),
      write_all = (\<lambda>p xs d. case d p of None \<Rightarrow> (Inl (OtherIo 2), d) | Some c \<Rightarrow> (Inr (), d(p \<mapsto> c @ xs)))\<rparr>"

lemma mem_disk_laws: "disk_laws mem_disk_ops (\<lambda>d. d) (\<lambda>p. p)"
  unfolding disk_laws_def mem_disk_ops_def by (auto split: option.splits)

text \<open>
  The directory of a game. Computing it never panics, whatever the number of the game: the
  slices are in range and the pieces are numbers. Below the root it is the four pairs of digits
  from the tenth to the third from the right, without leading zeros, and the games of a hundred
  consecutive numbers share it.
\<close>

theorem replay_path_spec:
  "replay_path self n = Some (foldl path_push (root self) (map (\<lambda>k. show_nat (n div 10 ^ k mod 100)) [8, 6, 4, 2]))
   \<and> replay_path self (100 * (n div 100)) = replay_path self n
   \<and> replay_path \<lparr>root = ''./''\<rparr> 1234567 = Some ''./0/1/23/45''
   \<and> replay_path \<lparr>root = ''/tmp/foo''\<rparr> 5500550055 = Some ''/tmp/foo/55/0/55/0''"
proof (intro conjI)
  show "replay_path self n = Some (foldl path_push (root self) (map (\<lambda>k. show_nat (n div 10 ^ k mod 100)) [8, 6, 4, 2]))"
    by (simp only: replay_path_dirs replay_dirs_def)
  have *: "100 * (n div 100) div 10 ^ k = n div 10 ^ k" if "2 \<le> k" for k
  proof -
    have "(10::nat) ^ k = 10 ^ 2 * 10 ^ (k - 2)" using that by (metis le_add_diff_inverse power_add)
    then have "(10::nat) ^ k = 100 * 10 ^ (k - 2)" by simp
    then show ?thesis by (simp only: div_mult2_eq) simp
  qed
  have "replay_dirs (100 * (n div 100)) = replay_dirs n"
    unfolding replay_dirs_def
  proof (rule map_cong [OF refl])
    fix k :: nat assume "k \<in> set [8, 6, 4, 2]"
    then have "2 \<le> k" by auto
    then show "show_nat (100 * (n div 100) div 10 ^ k mod 100) = show_nat (n div 10 ^ k mod 100)"
      by (simp only: *)
  qed
  then show "replay_path self (100 * (n div 100)) = replay_path self n"
    by (simp only: replay_path_dirs)
  show "replay_path \<lparr>root = ''./''\<rparr> 1234567 = Some ''./0/1/23/45''"
    "replay_path \<lparr>root = ''/tmp/foo''\<rparr> 5500550055 = Some ''/tmp/foo/55/0/55/0''"
    by (simp_all add: replay_path_dirs replay_dirs_def path_push_def show_nat_eval)
qed

text \<open>
  C34: a replay has a file of its own. Opening it never panics; on success the file is new and empty,
  its name tells the number of the game, and no other file is touched; on an error nothing is.
\<close>

theorem saved_file_is_new:
  assumes "disk_laws D files path_of"
  shows "\<exists>res d'. touch_and_return_file D self n d = Some (res, d') \<and>
    (case res of Inl _ \<Rightarrow> files d' = files d
     | Inr (f, p) \<Rightarrow> path_of f = p \<and> files d p = None \<and> files d' = (files d)(p \<mapsto> []) \<and>
         (\<forall>m e e' g. touch_and_return_file D self m e = Some (Inr (g, p), e') \<longrightarrow> m = n))"
proof -
  obtain x where "touch_and_return_file D self n d = Some x" by (simp add: touch_eq)
  then obtain res d' where t: "touch_and_return_file D self n d = Some (res, d')" by (cases x) simp
  have "m = n" if "touch_and_return_file D self m e = Some (Inr (g, replay_file self n), e')" for m e e' g
    using touch_laws [OF assms that] replay_file_inject by auto
  then show ?thesis using t touch_laws [OF assms t] by (auto split: sum.splits)
qed

theorem saved_file_is_new_witness:
  "\<exists>res d'. touch_and_return_file mem_disk_ops \<lparr>root = ''/vault''\<rparr> 7 Map.empty = Some (res, d') \<and>
    (case res of Inl _ \<Rightarrow> d' = Map.empty | Inr (f, p) \<Rightarrow> f = p \<and> d' = Map.empty(p \<mapsto> []))"
proof -
  have weaker: "\<exists>res d'. t = Some (res, d') \<and> (case res of Inl _ \<Rightarrow> d' = d | Inr (f, p) \<Rightarrow> f = p \<and> d' = d(p \<mapsto> []))"
    if "\<exists>res d'. t = Some (res, d') \<and> (case res of Inl _ \<Rightarrow> d' = d
        | Inr (f, p) \<Rightarrow> f = p \<and> d p = None \<and> d' = d(p \<mapsto> []) \<and> Q p)"
    for t :: "((string \<times> string) io_result \<times> mem_disk) option" and d Q
    using that by (elim exE conjE) (auto split: sum.splits)
  show ?thesis by (rule weaker [OF saved_file_is_new [OF mem_disk_laws]])
qed

end
