(* ===== verification/Startup.thy ===== *)
theory Startup
  imports Config Websocket Queries Saved_Path
begin

text \<open>
  How the program starts: the listeners of \<open>src/accept/producer.rs\<close>, the construction of the server
  in \<open>src/server/server.rs\<close>, and \<open>src/main.rs\<close>.
\<close>

subsection \<open>Listening\<close>

text \<open>
  A listener gives the results of its accepts. Those that fail, and the websockets whose handshake
  fails, are left out; the others become connections.
\<close>

definition tcp_item :: "'e + 's \<Rightarrow> 's option" where
  "tcp_item c = (case c of Inl e \<Rightarrow> None | Inr s \<Rightarrow> Some s)"

definition websocket_item :: "('s \<Rightarrow> 'h + 'r \<times> 'w) \<Rightarrow> 'e + 's \<Rightarrow> ('r \<times> 'w) option" where
  "websocket_item make_split c =
     (case c of
        Inl e \<Rightarrow> None
      | Inr s \<Rightarrow> (case make_split s of Inl e \<Rightarrow> None | Inr (r, w) \<Rightarrow> Some (r, w)))"

text \<open>\<open>bind\<close> gives a listener and its port, or the server panics.\<close>

record ('s, 'e) network =
  nw_bind :: "string \<Rightarrow> (('e + 's) list \<times> nat) option"

definition tcp_listen ::
  "('s, 'e) network \<Rightarrow> ('s \<Rightarrow> 'r \<times> 'w) \<Rightarrow> string \<Rightarrow> (('r \<times> 'w) list \<times> nat) option" where
  "tcp_listen N split addr =
     do {
       (listener, port) \<leftarrow> nw_bind N addr;
       Some (map split (List.map_filter tcp_item listener), port)
     }"

definition websocket_listen ::
  "('s, 'e) network \<Rightarrow> ('s \<Rightarrow> 'h + 'r \<times> 'w) \<Rightarrow> string \<Rightarrow> (('r \<times> 'w) list \<times> nat) option" where
  "websocket_listen N make_split addr =
     do {
       (listener, port) \<leftarrow> nw_bind N addr;
       Some (List.map_filter (websocket_item make_split) listener, port)
     }"

subsection \<open>The server\<close>

record port_info =
  pi_tcp :: "nat option"
  pi_websocket :: "nat option"

text \<open>The streams of all listeners, each under its number; the server takes from any of them.\<close>

definition collect_server_connections ::
  "('s, 'e) network \<Rightarrow> ('s \<Rightarrow> 'r \<times> 'w) \<Rightarrow> ('s \<Rightarrow> 'h + 'r \<times> 'w) \<Rightarrow> ServerSettings \<Rightarrow>
   ((nat \<times> ('r \<times> 'w) list) list \<times> port_info) option" where
  "collect_server_connections N split make_split config =
     do {
       let all_connections = [];
       let port_info = \<lparr>pi_tcp = None, pi_websocket = None\<rparr>;
       (all_connections, port_info) \<leftarrow>
         (case port config of
            None \<Rightarrow> Some (all_connections, port_info)
          | Some p \<Rightarrow> map_option (\<lambda>(stream, port). (all_connections @ [(0, stream)], port_info\<lparr>pi_tcp := Some port\<rparr>))
              (tcp_listen N split (''0.0.0.0:'' @ show_nat p)));
       (case websocket_port config of
          None \<Rightarrow> Some (all_connections, port_info)
        | Some p \<Rightarrow> map_option (\<lambda>(stream, port). (all_connections @ [(1, stream)], port_info\<lparr>pi_websocket := Some port\<rparr>))
            (websocket_listen N make_split (''0.0.0.0:'' @ show_nat p)))
     }"

record ('r, 'w, 'p) server_parts =
  sp_config :: InnerSettings
  sp_connections :: "(nat \<times> ('r \<times> 'w) list) list"
  sp_db :: 'p
  sp_dir :: saved_replay_directory

definition server_with_real_deps ::
  "('s, 'e) network \<Rightarrow> ('s \<Rightarrow> 'r \<times> 'w) \<Rightarrow> ('s \<Rightarrow> 'h + 'r \<times> 'w) \<Rightarrow> ('p, 't, 'q) sqlx \<Rightarrow> InnerSettings \<Rightarrow>
   (('r, 'w, 'p) server_parts \<times> port_info) option" where
  "server_with_real_deps N split make_split X config =
     do {
       (all_connections, port_info) \<leftarrow> collect_server_connections N split make_split (server config);
       let db = database_new X (database config);
       let dir = directory_new (vault_path (storage config));
       Some (\<lparr>sp_config = config, sp_connections = all_connections, sp_db = db, sp_dir = dir\<rparr>, port_info)
     }"

subsection \<open>The process\<close>

text \<open>\<open>port_str\<close>, the address for the metrics, and the steps of \<open>do_run_server\<close> up to the run.\<close>

definition port_str :: "nat option \<Rightarrow> string" where
  "port_str v = (case v of None \<Rightarrow> ''None'' | Some e \<Rightarrow> show_nat e)"

definition start_prometheus_server :: "(string \<Rightarrow> 'a option) \<Rightarrow> ('a \<Rightarrow> bool) \<Rightarrow> InnerSettings \<Rightarrow> bool" where
  "start_prometheus_server parse_addr start config =
     (let addr = ''0.0.0.0:'' @ show_nat (prometheus_port (server config))
      in case parse_addr addr of None \<Rightarrow> False | Some parsed_addr \<Rightarrow> start parsed_addr)"

text \<open>\<open>join!\<close> of two futures ends with the later of them.\<close>

definition join_futures :: "'a future \<Rightarrow> 'b future \<Rightarrow> ('a \<times> 'b) future" where
  "join_futures f1 f2 =
     (case (f1, f2) of
        (Some (t1, x), Some (t2, y)) \<Rightarrow> Some (max t1 t2, (x, y))
      | _ \<Rightarrow> None)"

datatype 'o run_outcome = NoConfig | NoPrometheus | Runs "'o future"

text \<open>
  The server runs with a token that is cancelled when a signal arrives; the process goes on until the
  server has ended and a signal has arrived. Loading the settings may panic.
\<close>

definition do_run_server ::
  "('e + InnerSettings) option \<Rightarrow> (string \<Rightarrow> 'a option) \<Rightarrow> ('a \<Rightarrow> bool) \<Rightarrow> unit future \<Rightarrow>
   (InnerSettings \<Rightarrow> nat option \<Rightarrow> 'o future) \<Rightarrow> ('o \<times> unit) run_outcome option" where
  "do_run_server loaded parse_addr start signals run_server =
     map_option (\<lambda>config.
       case config of
         Inl e \<Rightarrow> NoConfig
       | Inr config \<Rightarrow>
           if \<not> start_prometheus_server parse_addr start config then NoPrometheus
           else
             let shutdown_token = map_option fst signals;
                 f1 = run_server config shutdown_token;
                 f2 = signals
             in Runs (join_futures f1 f2)) loaded"

subsection \<open>Property\<close>

text \<open>
  A server that starts listens somewhere. With settings that were accepted, and with addresses that
  can be bound, it is made; it has a listener for exactly the ports that are set, and there is one.
\<close>

theorem server_listens:
  assumes "from_env K env = Some (Inr config)" and "\<And>addr. nw_bind N addr \<noteq> None"
  shows "\<exists>parts ports. server_with_real_deps N split make_split X config = Some (parts, ports)
    \<and> (pi_tcp ports = None \<longleftrightarrow> port (server config) = None)
    \<and> (pi_websocket ports = None \<longleftrightarrow> websocket_port (server config) = None)
    \<and> map fst (sp_connections parts) =
        (if port (server config) = None then [] else [0]) @ (if websocket_port (server config) = None then [] else [1])
    \<and> sp_connections parts \<noteq> []"
proof -
  have some_port: "port (server config) \<noteq> None \<or> websocket_port (server config) \<noteq> None"
    using do_from_env_Inr [OF assms(1) [unfolded from_env_def]] by blast
  have tcp: "\<exists>stream n. tcp_listen N split addr = Some (stream, n)" for addr
    using assms(2) [of addr] by (auto simp: tcp_listen_def)
  have ws: "\<exists>stream n. websocket_listen N make_split addr = Some (stream, n)" for addr
    using assms(2) [of addr] by (auto simp: websocket_listen_def)
  obtain t1 n1 where t1: "tcp_listen N split (''0.0.0.0:'' @ show_nat (the (port (server config)))) = Some (t1, n1)"
    using tcp by blast
  obtain t2 n2 where t2: "websocket_listen N make_split (''0.0.0.0:'' @ show_nat (the (websocket_port (server config)))) = Some (t2, n2)"
    using ws by blast
  show ?thesis using some_port t1 t2
    by (cases "port (server config)"; cases "websocket_port (server config)")
      (simp_all add: server_with_real_deps_def collect_server_connections_def Let_def)
qed

definition demo_network :: "(unit, nat) network" where
  "demo_network = \<lparr>nw_bind = (\<lambda>addr. Some ([Inr (), Inl 3, Inr ()], 15000))\<rparr>"

theorem server_listens_witness:
  "\<exists>parts ports. server_with_real_deps demo_network (\<lambda>_. ((), ())) (\<lambda>_. Inr ((), ()) :: nat + unit \<times> unit) demo_sqlx
      (example_settings 8 2 NANOS) = Some (parts, ports) \<and> map fst (sp_connections parts) = [0, 1]"
proof -
  have run: "from_env (document_ops ''c'' (example_config 8 2 (Finite 1)))
      (\<lambda>v. if v = ''RS_CONFIG_FILE'' then Some ''c'' else Some ''banana'') = Some (Inr (example_settings 8 2 NANOS))"
    unfolding from_env_def
    using example_config_load [of 8 2 1 NANOS] by (simp add: NANOS_def round_even_def Let_def)
  have "nw_bind demo_network addr \<noteq> None" for addr by (simp add: demo_network_def)
  from server_listens [OF run this] show ?thesis by (fastforce simp: example_settings_def)
qed

end
