(* ===== verification/Buffer_Facts.thy ===== *)
theory Buffer_Facts
  imports Replay_Delay
begin

text \<open>
  What the buffers and the delay promise, against specifications without chunks, windows and queues:
  a deque is a list of which a beginning may be gone, the comparison of two of them is the longest
  common prefix, and the delayed position is the one that was measured some turns ago.
\<close>

subsection \<open>The deque as a list\<close>

text \<open>The abstract buffer: all bytes ever written, and the position from which on they are kept.\<close>

fun spec_run :: "deque_op list \<Rightarrow> byte list \<times> usize \<Rightarrow> byte list \<times> usize" where
  "spec_run [] s = s"
| "spec_run (Write buf # ops) (xs, lo) = spec_run ops (xs @ buf, lo)"
| "spec_run (Discard until # ops) (xs, lo) = spec_run ops (xs, max lo (until div CHUNK_SIZE * CHUNK_SIZE))"

lemma spec_run_eq:
  "spec_run ops (xs, lo) = (xs @ written ops, max lo (discard_limit ops div CHUNK_SIZE * CHUNK_SIZE))"
proof (induction ops "(xs, lo)" arbitrary: xs lo rule: spec_run.induct)
  case (3 until ops xs lo)
  have mono: "max a b div CHUNK_SIZE = max (a div CHUNK_SIZE) (b div CHUNK_SIZE)" for a b
    by (simp add: max_def div_le_mono antisym)
  from 3 show ?case by (simp add: mono nat_mult_max_left)
qed simp_all

lemma deque_rep_bd_new: "deque_rep bd_new [] \<and> window_start bd_new = 0"
  by (simp add: deque_rep_def deque_inv_def bd_new_def window_start_def)

lemma run_reaches_spec:
  "\<exists>d. deque_run ops bd_new = Some d \<and> deque_rep d (fst (spec_run ops ([], 0))) \<and> window_start d = snd (spec_run ops ([], 0))"
  using deque_run_rep [OF conjunct1 [OF deque_rep_bd_new], of ops] deque_rep_bd_new by (auto simp: spec_run_eq)

text \<open>
  C29: the deque refines the list. After any writes and discards, in any order and also discards beyond
  the end, none of which panics, it is as long as everything that was written, and a position gives
  the byte that was written there, from the start of the kept part to the end. Before
  and after it panics.
\<close>

theorem deque_refines_list:
  "\<exists>d. deque_run ops bd_new = Some d \<and>
    (case spec_run ops ([], 0) of (xs, lo) \<Rightarrow>
       cb_len bd_ops d = length xs \<and>
       (\<forall>p. buf_at bd_ops d p = (if lo \<le> p \<and> p < length xs then Some (xs ! p) else None)))"
proof -
  obtain d where d: "deque_run ops bd_new = Some d" "deque_rep d (fst (spec_run ops ([], 0)))"
    "window_start d = snd (spec_run ops ([], 0))"
    using run_reaches_spec by blast
  obtain xs lo where s: "spec_run ops ([], 0) = (xs, lo)" by (cases "spec_run ops ([], 0)")
  have len: "cb_len bd_ops d = length xs" using bd.len_rep d(2) s by simp
  have "buf_at bd_ops d p = (if lo \<le> p \<and> p < length xs then Some (xs ! p) else None)" for p
  proof (cases "lo \<le> p \<and> p < length xs")
    case True
    then show ?thesis using bd.at_rep [of d xs p] d(2,3) s by simp
  next
    case False
    then have "bd_get_chunk d p = None" using len d(3) s by (auto simp: bd_get_chunk_def bd_ops_def)
    then show ?thesis using False by (auto simp: buf_at_def bd_ops_def)
  qed
  then show ?thesis using d(1) len s by simp
qed

subsection \<open>Comparing two buffers\<close>

lemma longest_common_prefix_length:
  assumes "agree xs ys pos k" "pos \<le> k" "k \<le> length xs" "k \<le> length ys"
    and "k < min (length xs) (length ys) \<longrightarrow> xs ! k \<noteq> ys ! k"
  shows "k = pos + length (longest_common_prefix (drop pos xs) (drop pos ys))"
proof -
  have "length (longest_common_prefix as bs) = n"
    if "n \<le> length as" "n \<le> length bs" "\<forall>i < n. as ! i = bs ! i" "n < min (length as) (length bs) \<longrightarrow> as ! n \<noteq> bs ! n"
    for n and as bs :: "'a list"
    using that
  proof (induction as bs arbitrary: n rule: longest_common_prefix.induct)
    case (1 a as b bs)
    show ?case
    proof (cases n)
      case 0
      then show ?thesis using 1 by simp
    next
      case (Suc m)
      then have "\<forall>i < m. as ! i = bs ! i" "a = b" using "1.prems"(3) by (force, force)
      then show ?thesis using 1 Suc by simp
    qed
  qed auto
  note * = this
  have "length (longest_common_prefix (drop pos xs) (drop pos ys)) = k - pos"
    by (rule *) (use assms in \<open>auto simp: agree_def\<close>)
  then show ?thesis using assms(2) by simp
qed

text \<open>
  With an end, the comparison may pass it: the end is looked at only between two chunks. Two
  buffers with the same three bytes, compared up to the first, give three.
\<close>

lemma common_prefix_passes_the_end:
  "\<exists>d. deque_run [Write [7, 8, 9]] bd_new = Some d \<and> common_prefix_from_to bd_ops bd_ops d d 0 (Some 1) = Some 3"
proof -
  let ?d = "\<lparr>chunks = [take 3 [7, 8, 9] @ drop 3 (replicate CHUNK_SIZE 0)], discarded_chunks = 0, window_end = 3\<rparr>"
  have l: "length (replicate CHUNK_SIZE (0::byte)) = 4096" by (simp add: CHUNK_SIZE_def)
  have run: "deque_run [Write [7, 8, 9]] bd_new = Some ?d"
    using l by (simp add: write_all.simps append_some_def bd_new_def window_start_def get_last_chunk_def
        no_space_in_last_chunk_def window_size_def Let_def CHUNK_SIZE_def del: length_replicate replicate.simps)
  have chunk: "cb_get_chunk bd_ops ?d 0 = Some [7, 8, 9]"
    by (simp add: bd_ops_def bd_get_chunk_def window_start_def window_size_def CHUNK_SIZE_def)
  have len: "cb_len bd_ops ?d = 3" by (simp add: bd_ops_def)
  have "common_prefix_loop bd_ops bd_ops ?d ?d 1 0 = Some 3"
    by (subst common_prefix_loop.simps, simp only: chunk) (subst common_prefix_loop.simps, simp)
  then show ?thesis using run len by (simp add: common_prefix_from_to_def)
qed

text \<open>
  C30: \<open>common_prefix_from\<close> is the longest common prefix. For two buffers that still keep what is
  compared, comparing them chunk by chunk gives the position at which they first differ or one
  of them ends, whatever the borders of their chunks. But with an end up to which to compare, the
  comparison may pass it.
\<close>

theorem common_prefix_exact:
  assumes "deque_run ops1 bd_new = Some d1" and "deque_run ops2 bd_new = Some d2"
    and "snd (spec_run ops1 ([], 0)) \<le> pos" and "snd (spec_run ops2 ([], 0)) \<le> pos"
    and "pos \<le> length (written ops1)" and "pos \<le> length (written ops2)"
  shows "common_prefix_from bd_ops bd_ops d1 d2 pos =
    Some (pos + length (longest_common_prefix (drop pos (written ops1)) (drop pos (written ops2))))
    \<and> (\<exists>d. deque_run [Write [7, 8, 9]] bd_new = Some d \<and> common_prefix_from_to bd_ops bd_ops d d 0 (Some 1) = Some 3)"
proof -
  have r: "deque_rep d1 (written ops1)" "window_start d1 \<le> pos" "deque_rep d2 (written ops2)" "window_start d2 \<le> pos"
    using run_reaches_spec [of ops1] run_reaches_spec [of ops2] assms(1-4) by (simp_all add: spec_run_eq)
  obtain k where k: "common_prefix_from bd_ops bd_ops d1 d2 pos = Some k" "pos \<le> k" "k \<le> length (written ops1)"
    "k \<le> length (written ops2)" "agree (written ops1) (written ops2) pos k"
    "k < min (length (written ops1)) (length (written ops2)) \<longrightarrow> written ops1 ! k \<noteq> written ops2 ! k"
    using bd2.from_rep [OF r(1,3,2,4) assms(5,6)] by blast
  from longest_common_prefix_length [OF k(5,2-4,6)] k(1) common_prefix_passes_the_end show ?thesis by simp
qed

theorem common_prefix_exact_witness:
  "\<exists>d1 d2. deque_run [Write [1, 2, 3]] bd_new = Some d1 \<and> deque_run [Write [1], Write [2, 4]] bd_new = Some d2
     \<and> common_prefix_from bd_ops bd_ops d1 d2 1 = Some 2"
proof -
  obtain d1 d2 where d: "deque_run [Write [1, 2, 3]] bd_new = Some d1" "deque_run [Write [1], Write [2, 4]] bd_new = Some d2"
    using run_reaches_spec by blast
  have "common_prefix_from bd_ops bd_ops d1 d2 1 =
      Some (1 + length (longest_common_prefix (drop 1 (written [Write [1, 2, 3]])) (drop 1 (written [Write [1], Write [2, 4]]))))"
    by (rule conjunct1 [OF common_prefix_exact [OF d]]) simp_all
  then show ?thesis using d by simp
qed

subsection \<open>The delay\<close>

text \<open>
  C31: the delayed position is an old one. With a history for \<open>n\<close> turns, what comes back at a turn is
  the length that was measured \<open>n\<close> turns before; during the first \<open>n\<close> turns it is the first length
  that was measured, which is shown without any delay.
\<close>

theorem delayed_position_is_old:
  assumes "ph_new cq d s = Some ph"
  shows "\<exists>ph'. push_all ph vs = Some (map (\<lambda>k. vs ! (k - cq d s)) [0..<length vs], ph')"
proof -
  obtain ph' where p: "push_all ph vs = Some (map (\<lambda>k. delayed_value (ph_history_size ph) (take (Suc k) vs)) [0..<length vs], ph')"
    using push_all_tracks [OF ph_new_tracks(1) [OF assms], of vs] by auto
  have "delayed_value (ph_history_size ph) (take (Suc k) vs) = vs ! (k - cq d s)" if "k < length vs" for k
  proof -
    have "length (take (Suc k) vs) = Suc k" using that by simp
    moreover have "Suc k - min (Suc (cq d s)) (Suc k) = k - cq d s" by (simp add: min_def)
    ultimately show ?thesis using that ph_new_tracks(2) [OF assms] by (simp add: delayed_value_def)
  qed
  then show ?thesis using p by auto
qed

theorem delayed_position_is_old_witness:
  "\<exists>ph ph'. ph_new (\<lambda>d s. 2) 4 2 = Some ph \<and> push_all ph [5, 6, 6, 9] = Some ([5, 5, 5, 6], ph')"
proof -
  obtain ph where ph: "ph_new (\<lambda>d s. 2) 4 2 = Some ph" by (simp add: ph_new_def history_size_def usize_max_def)
  from delayed_position_is_old [OF ph, of "[5, 6, 6, 9]"] ph show ?thesis by (simp add: upt_rec)
qed

end
