(* ===== verification/Replays.thy ===== *)
theory Replays
  imports Live_Connection Config
begin

text \<open>
  \<open>Replays\<close> of \<open>src/replay/replays.rs\<close>: which replay a connection belongs to. Each worker thread
  has one. A replay is shared by its lifetime and by the connections it handles; the map only
  has weak references, so that a replay is gone once the last of them is done.
\<close>

text \<open>
  A replay is named by a key, which stands for its allocation. \<open>strong k\<close> is its strong count: how
  many futures hold it. An entry of the weak map whose replay has no holder has expired, and looking
  it up finds nothing.
\<close>

datatype 'c assignment = ToConnection 'c nat | ToNewReplay nat

record replays =
  weak_map :: "nat \<rightharpoonup> nat"
  strong :: "nat \<Rightarrow> nat"
  replay_id :: "nat \<Rightarrow> nat"
  next_key :: nat

definition replays_new :: replays where
  "replays_new = \<lparr>weak_map = Map.empty, strong = (\<lambda>_. 0), replay_id = (\<lambda>_. 0), next_key = 0\<rparr>"

definition lookup :: "replays \<Rightarrow> nat \<Rightarrow> nat option" where
  "lookup rs rid =
     (case weak_map rs rid of
        None \<Rightarrow> None
      | Some k \<Rightarrow> if strong rs k = 0 then None else Some k)"

definition hold :: "nat \<Rightarrow> replays \<Rightarrow> replays" where
  "hold k rs = rs\<lparr>strong := (strong rs)(k := strong rs k + 1)\<rparr>"

definition release :: "nat \<Rightarrow> replays \<Rightarrow> replays" where
  "release k rs = rs\<lparr>strong := (strong rs)(k := strong rs k - 1)\<rparr>"

text \<open>The closure \<open>new_replay\<close>, and the entry for what it makes.\<close>

definition insert_new :: "nat \<Rightarrow> replays \<Rightarrow> nat \<times> replays" where
  "insert_new rid rs =
     (let k = next_key rs
      in (k, rs\<lparr>weak_map := (weak_map rs)(rid \<mapsto> k), replay_id := (replay_id rs)(k := rid), next_key := k + 1\<rparr>))"

text \<open>
  \<open>assign_connection_to_replay\<close>. The connection is moved into it: where it is not passed on, it is
  dropped. A connection without a header is a panic.
\<close>

definition assign_connection_to_replay ::
  "('r, 'w) connection \<Rightarrow> replays \<Rightarrow> metrics \<Rightarrow> (('r, 'w) connection assignment list \<times> replays \<times> metrics) option" where
  "assign_connection_to_replay c rs M =
     do {
       conn_header \<leftarrow> get_header c;
       (case lookup rs (ch_id conn_header) of
          Some k \<Rightarrow> Some ([ToConnection c k], hold k rs, M)
        | None \<Rightarrow>
            if ch_type conn_header = Reader
            then Some ([], rs, conn_drop c (inc_served_conns (Some CannotAssignToReplay) M))
            else (let (k, rs) = insert_new (ch_id conn_header) rs
                  in Some ([ToNewReplay k, ToConnection c k], hold k (hold k rs), M)))
     }"

text \<open>
  The ends of the two futures of \<open>handle_connection_or_replay_lifetime\<close>: the lifetime of a replay,
  and the handling of a connection with its result, after which the connection is dropped.
\<close>

definition lifetime_done :: "nat \<Rightarrow> replays \<Rightarrow> replays" where
  "lifetime_done k rs = release k rs"

definition connection_done ::
  "('r, 'w) connection \<Rightarrow> nat \<Rightarrow> unit conn_result \<Rightarrow> replays \<Rightarrow> metrics \<Rightarrow> replays \<times> metrics" where
  "connection_done c k res rs M =
     (release k rs,
      inc_served_conns (case res of Inl e \<Rightarrow> Some e | Inr _ \<Rightarrow> None) (conn_drop c M))"

subsection \<open>The futures of a worker\<close>

text \<open>
  \<open>handle_connections_and_replays\<close>: every assignment is a future, and all of them run concurrently.
  \<open>running\<close> are those that have not completed.
\<close>

record ('r, 'w) worker_state =
  ws_replays :: replays
  running :: "('r, 'w) connection assignment multiset"
  ws_metrics :: metrics

datatype ('r, 'w) worker_event =
    Received "('r, 'w) connection"
  | LifetimeDone nat
  | ConnectionDone "('r, 'w) connection" nat "unit conn_result"

fun worker_step :: "('r, 'w) worker_event \<Rightarrow> ('r, 'w) worker_state \<Rightarrow> ('r, 'w) worker_state option" where
  "worker_step (Received c) s =
     map_option (\<lambda>(as, rs, M). s\<lparr>ws_replays := rs, running := running s + mset as, ws_metrics := M\<rparr>)
       (assign_connection_to_replay c (ws_replays s) (ws_metrics s))"
| "worker_step (LifetimeDone k) s =
     (if ToNewReplay k \<in># running s
      then Some (s\<lparr>ws_replays := lifetime_done k (ws_replays s), running := running s - {#ToNewReplay k#}\<rparr>)
      else None)"
| "worker_step (ConnectionDone c k res) s =
     (if ToConnection c k \<in># running s
      then (let (rs, M) = connection_done c k res (ws_replays s) (ws_metrics s)
            in Some (s\<lparr>ws_replays := rs, running := running s - {#ToConnection c k#}, ws_metrics := M\<rparr>))
      else None)"

inductive works :: "metrics \<Rightarrow> ('r, 'w) worker_state \<Rightarrow> bool" for M0 where
  works_new: "works M0 \<lparr>ws_replays = replays_new, running = {#}, ws_metrics = M0\<rparr>"
| works_step: "works M0 s \<Longrightarrow> worker_step ev s = Some s' \<Longrightarrow> works M0 s'"

fun holds :: "nat \<Rightarrow> 'c assignment \<Rightarrow> bool" where
  "holds k (ToConnection c j) = (j = k)"
| "holds k (ToNewReplay j) = (j = k)"

text \<open>
  The strong count is the number of futures that hold the replay, and a replay that is held is the
  one that the map finds for its game.
\<close>

definition replays_inv :: "('r, 'w) worker_state \<Rightarrow> bool" where
  "replays_inv s \<longleftrightarrow>
     (let rs = ws_replays s in
      (\<forall>k. strong rs k = size (filter_mset (holds k) (running s))) \<and>
      (\<forall>k. 0 < strong rs k \<longrightarrow> k < next_key rs \<and> weak_map rs (replay_id rs k) = Some k) \<and>
      (\<forall>rid k. weak_map rs rid = Some k \<longrightarrow> k < next_key rs \<and> replay_id rs k = rid) \<and>
      (\<forall>c k. ToConnection c k \<in># running s \<longrightarrow> (\<exists>h. get_header c = Some h \<and> ch_id h = replay_id rs k)))"

lemmas replays_invD =
  iffD1 [OF replays_inv_def [unfolded Let_def], THEN conjunct1]
  iffD1 [OF replays_inv_def [unfolded Let_def], THEN conjunct2, THEN conjunct1]
  iffD1 [OF replays_inv_def [unfolded Let_def], THEN conjunct2, THEN conjunct2, THEN conjunct1]
  iffD1 [OF replays_inv_def [unfolded Let_def], THEN conjunct2, THEN conjunct2, THEN conjunct2]

lemma replays_simps [simp]:
  "strong (hold k rs) = (strong rs)(k := strong rs k + 1)" "weak_map (hold k rs) = weak_map rs"
  "replay_id (hold k rs) = replay_id rs" "next_key (hold k rs) = next_key rs"
  "strong (release k rs) = (strong rs)(k := strong rs k - 1)" "weak_map (release k rs) = weak_map rs"
  "replay_id (release k rs) = replay_id rs" "next_key (release k rs) = next_key rs"
  by (simp_all add: hold_def release_def)

lemma replays_inv_release:
  assumes inv: "replays_inv s" and a: "a \<in># running s" "holds k a"
  shows "replays_inv (s\<lparr>ws_replays := release k (ws_replays s), running := running s - {#a#}, ws_metrics := M\<rparr>)"
proof -
  let ?rs = "ws_replays s"
  have I: "\<And>k. strong ?rs k = size (filter_mset (holds k) (running s))"
    "\<And>k. 0 < strong ?rs k \<Longrightarrow> k < next_key ?rs \<and> weak_map ?rs (replay_id ?rs k) = Some k"
    using inv by (simp_all add: replays_inv_def Let_def)
  have "holds j a \<longleftrightarrow> j = k" for j using a(2) by (cases a) auto
  then have "size (filter_mset (holds j) (running s - {#a#})) = (if j = k then strong ?rs j - 1 else strong ?rs j)" for j
    using I(1) [of j] a(1) by (cases "j = k") (auto simp: size_Diff_singleton)
  then show ?thesis using inv
    by (auto simp: replays_inv_def Let_def dest: in_diffD)
qed

lemma held_strong:
  assumes "replays_inv s" "a \<in># running s" "holds k a"
  shows "0 < strong (ws_replays s) k"
proof -
  have "a \<in># filter_mset (holds k) (running s)" using assms(2,3) by simp
  then have "filter_mset (holds k) (running s) \<noteq> {#}" by auto
  then have "0 < size (filter_mset (holds k) (running s))" by (simp only: nonempty_has_size)
  moreover have "strong (ws_replays s) k = size (filter_mset (holds k) (running s))"
    using assms(1) by (simp add: replays_inv_def Let_def)
  ultimately show ?thesis by simp
qed

lemma lookup_Some: "lookup rs rid = Some k \<longleftrightarrow> weak_map rs rid = Some k \<and> 0 < strong rs k"
  by (auto simp: lookup_def split: option.splits)

text \<open>A writer of an unknown game brings a replay with a fresh key, which its lifetime and its first
  connection hold.\<close>

lemma new_replay_inv:
  assumes inv: "replays_inv s" and h: "get_header c = Some h" and none: "lookup (ws_replays s) (ch_id h) = None"
  defines "k0 \<equiv> next_key (ws_replays s)"
  shows "replays_inv (s\<lparr>ws_replays := hold k0 (hold k0 (snd (insert_new (ch_id h) (ws_replays s)))),
    running := running s + mset [ToNewReplay k0, ToConnection c k0], ws_metrics := M\<rparr>)" (is "replays_inv ?s")
proof -
  let ?rs = "ws_replays s"
  have I: "\<And>k. strong ?rs k = size (filter_mset (holds k) (running s))"
    "\<And>k. 0 < strong ?rs k \<Longrightarrow> k < next_key ?rs \<and> weak_map ?rs (replay_id ?rs k) = Some k"
    "\<And>rid k. weak_map ?rs rid = Some k \<Longrightarrow> k < next_key ?rs \<and> replay_id ?rs k = rid"
    "\<And>d k. ToConnection d k \<in># running s \<Longrightarrow> \<exists>h. get_header d = Some h \<and> ch_id h = replay_id ?rs k"
    using inv by (auto simp: replays_inv_def Let_def)
  have fresh: "strong ?rs k0 = 0" using I(2) [of k0] by (auto simp: k0_def)
  have dead: "replay_id ?rs k \<noteq> ch_id h" if "0 < strong ?rs k" for k
    using that I(2) [OF that] none by (auto simp: lookup_def)
  have old: "k \<noteq> k0" if "ToConnection d k \<in># running s" for d k
    using held_strong [OF inv that, of k] fresh by auto
  show ?thesis
    unfolding replays_inv_def Let_def
  proof (intro conjI allI impI)
    show "strong (ws_replays ?s) k = size (filter_mset (holds k) (running ?s))" for k
      using I(1) fresh by (auto simp: insert_new_def Let_def k0_def)
    show "k < next_key (ws_replays ?s)" "weak_map (ws_replays ?s) (replay_id (ws_replays ?s) k) = Some k"
      if "0 < strong (ws_replays ?s) k" for k
      using that I(2) [of k] dead [of k] by (auto simp: insert_new_def Let_def k0_def split: if_splits)
    show "k < next_key (ws_replays ?s)" "replay_id (ws_replays ?s) k = rid"
      if "weak_map (ws_replays ?s) rid = Some k" for rid k
      using that I(3) [of rid k] by (auto simp: insert_new_def Let_def k0_def split: if_splits)
    show "\<exists>h. get_header d = Some h \<and> ch_id h = replay_id (ws_replays ?s) k"
      if "ToConnection d k \<in># running ?s" for d k
      using that I(4) [of d k] old [of d k] h by (auto simp: insert_new_def Let_def k0_def split: if_splits)
  qed
qed

lemma received_inv:
  assumes inv: "replays_inv s" and a: "assign_connection_to_replay c (ws_replays s) (ws_metrics s) = Some (as, rs, M)"
  shows "replays_inv (s\<lparr>ws_replays := rs, running := running s + mset as, ws_metrics := M\<rparr>)"
proof -
  let ?rs = "ws_replays s"
  obtain h where h: "get_header c = Some h"
    using a by (auto simp: assign_connection_to_replay_def bind_eq_Some_conv)
  show ?thesis
  proof (cases "lookup ?rs (ch_id h)")
    case (Some k)
    then have "as = [ToConnection c k]" "rs = hold k ?rs"
      using a h by (simp_all add: assign_connection_to_replay_def)
    moreover have "weak_map ?rs (ch_id h) = Some k" using Some by (simp add: lookup_Some)
    ultimately show ?thesis using inv h by (auto simp: replays_inv_def Let_def)
  next
    case None
    show ?thesis
    proof (cases "ch_type h = Reader")
      case True
      then show ?thesis using a h None inv by (auto simp: assign_connection_to_replay_def replays_inv_def)
    next
      case False
      let ?k = "next_key ?rs"
      have "as = [ToNewReplay ?k, ToConnection c ?k]"
        "rs = hold ?k (hold ?k (snd (insert_new (ch_id h) ?rs)))"
        using a h None False by (auto simp: assign_connection_to_replay_def insert_new_def Let_def)
      then show ?thesis using new_replay_inv [OF inv h None] by simp
    qed
  qed
qed

lemma worker_step_inv:
  assumes inv: "replays_inv s" and step: "worker_step ev s = Some s'"
  shows "replays_inv s'"
proof (cases ev)
  case (LifetimeDone k)
  then have "ToNewReplay k \<in># running s"
    "s' = s\<lparr>ws_replays := release k (ws_replays s), running := running s - {#ToNewReplay k#}, ws_metrics := ws_metrics s\<rparr>"
    using step by (auto simp: lifetime_done_def split: if_splits)
  then show ?thesis using replays_inv_release [OF inv, of "ToNewReplay k" k "ws_metrics s"] by simp
next
  case (ConnectionDone c k res)
  then have "ToConnection c k \<in># running s" "\<exists>M. s' = s\<lparr>ws_replays := release k (ws_replays s),
      running := running s - {#ToConnection c k#}, ws_metrics := M\<rparr>"
    using step by (auto simp: connection_done_def Let_def split: if_splits)
  then show ?thesis using replays_inv_release [OF inv, of "ToConnection c k" k] by auto
next
  case (Received c)
  then show ?thesis using step received_inv [OF inv] by auto
qed

lemma works_inv: "works M0 s \<Longrightarrow> replays_inv s"
proof (induction rule: works.induct)
  case works_new
  then show ?case by (simp add: replays_inv_def replays_new_def)
next
  case (works_step s ev s')
  then show ?case using worker_step_inv by blast
qed

subsection \<open>Properties\<close>

text \<open>
  C17: a game has one replay. Two replays for the same game never live at the same time, and every
  connection is handled by the replay of the game that its header names.
\<close>

theorem one_replay_per_game:
  assumes "works M0 s"
  shows "(\<forall>a b j k. a \<in># running s \<and> holds j a \<and> b \<in># running s \<and> holds k b
       \<and> replay_id (ws_replays s) j = replay_id (ws_replays s) k \<longrightarrow> j = k)
    \<and> (\<forall>c k. ToConnection c k \<in># running s \<longrightarrow> (\<exists>h. get_header c = Some h \<and> ch_id h = replay_id (ws_replays s) k))"
proof -
  let ?rs = "ws_replays s"
  have inv: "replays_inv s" by (rule works_inv [OF assms])
  have live: "weak_map ?rs (replay_id ?rs k) = Some k" if "a \<in># running s" "holds k a" for a k
    using held_strong [OF inv that] replays_invD(2) [OF inv] by simp
  show ?thesis
  proof (intro conjI allI impI)
    fix a b j k
    assume *: "a \<in># running s \<and> holds j a \<and> b \<in># running s \<and> holds k b \<and> replay_id ?rs j = replay_id ?rs k"
    have "weak_map ?rs (replay_id ?rs j) = Some j"
      by (rule live [of a]) (rule conjunct1 [OF *], rule conjunct1 [OF conjunct2 [OF *]])
    moreover have "weak_map ?rs (replay_id ?rs k) = Some k"
      by (rule live [of b]) (rule conjunct1 [OF conjunct2 [OF conjunct2 [OF *]]],
        rule conjunct1 [OF conjunct2 [OF conjunct2 [OF conjunct2 [OF *]]]])
    moreover have "replay_id ?rs j = replay_id ?rs k"
      by (rule conjunct2 [OF conjunct2 [OF conjunct2 [OF conjunct2 [OF *]]]])
    ultimately have "Some j = Some k" by metis
    then show "j = k" by (rule option.inject [THEN iffD1])
  next
    fix c k assume "ToConnection c k \<in># running s"
    then show "\<exists>h. get_header c = Some h \<and> ch_id h = replay_id ?rs k"
      by (rule replays_invD(4) [OF inv, rule_format])
  qed
qed

text \<open>A worker that gets two writers and a reader of one game, and a reader of another.\<close>

definition demo_conn :: "connection_type \<Rightarrow> nat \<Rightarrow> (unit, unit) connection" where
  "demo_conn t n = \<lparr>cn_reader = (), cn_writer = (),
     cn_header = Some \<lparr>ch_type = t, ch_id = n, ch_name = []\<rparr>, cn_id = ''abcdefghijkl''\<rparr>"

definition demo_works :: "(unit, unit) worker_event list" where
  "demo_works = [Received (demo_conn Writer 5), Received (demo_conn Reader 6), Received (demo_conn Reader 5),
     Received (demo_conn Writer 5)]"

definition works_run ::
  "('r, 'w) worker_event list \<Rightarrow> ('r, 'w) worker_state \<Rightarrow> ('r, 'w) worker_state option" where
  "works_run evs s = foldM worker_step evs s"

lemma works_run_works: "works_run evs s = Some s' \<Longrightarrow> works M0 s \<Longrightarrow> works M0 s'"
proof (induction evs arbitrary: s)
  case (Cons ev evs)
  then obtain t where "worker_step ev s = Some t" "works_run evs t = Some s'"
    unfolding works_run_def foldM.simps bind_eq_Some_conv by blast
  then show ?case using Cons.IH Cons.prems(2) works_step by blast
qed (simp add: works_run_def)

lemma demo_works_run:
  "\<exists>s. works_run demo_works \<lparr>ws_replays = replays_new, running = {#}, ws_metrics = metrics_new\<rparr> = Some s
     \<and> ToConnection (demo_conn Reader 5) 0 \<in># running s \<and> ToConnection (demo_conn Writer 5) 0 \<in># running s
     \<and> size (running s) = 4 \<and> SERVED_CONNS (ws_metrics s) ''No replay matched'' = 1"
  by (simp add: demo_works_def works_run_def assign_connection_to_replay_def lookup_def insert_new_def get_header_def
      demo_conn_def replays_new_def hold_def conn_drop_def inc_served_conns_def metrics_new_def Let_def)

theorem one_replay_per_game_witness:
  "\<exists>s h. works_run demo_works \<lparr>ws_replays = replays_new, running = {#}, ws_metrics = metrics_new\<rparr> = Some s
     \<and> ToConnection (demo_conn Reader 5) 0 \<in># running s \<and> get_header (demo_conn Reader 5) = Some h
     \<and> ch_id h = replay_id (ws_replays s) 0"
proof -
  obtain s where s: "works_run demo_works \<lparr>ws_replays = replays_new, running = {#}, ws_metrics = metrics_new\<rparr> = Some s"
    "ToConnection (demo_conn Reader 5) 0 \<in># running s"
    using demo_works_run by blast
  from one_replay_per_game [OF works_run_works [OF s(1) works_new]] s show ?thesis by blast
qed

end
