(* ===== verification/Runner.thy ===== *)
theory Runner
  imports Replays
begin

text \<open>
  \<open>ReplayRunner\<close> of \<open>src/replay/runner.rs\<close>: the worker threads. Each has a loop of its own that
  handles connections and replays (\<open>worker_step\<close>), and gets its connections over a channel. A game
  goes to the worker that its number gives.
\<close>

subsection \<open>Workers\<close>

text \<open>
  \<open>wt_channel\<close> are the connections that were sent and not yet received, at most one; \<open>wt_open\<close> says
  that the sending end is there. A thread exits when its stream has ended and all its futures
  have. The metrics are those of the process, so that they are not part of it.
\<close>

record ('r, 'w) worker_thread =
  wt_channel :: "('r, 'w) connection list"
  wt_open :: bool
  wt_replays :: replays
  wt_running :: "('r, 'w) connection assignment multiset"
  wt_exited :: bool

definition channel_capacity :: nat where
  "channel_capacity = 1"

definition worker_new :: "('r, 'w) worker_thread" where
  "worker_new = \<lparr>wt_channel = [], wt_open = True, wt_replays = replays_new, wt_running = {#}, wt_exited = False\<rparr>"

definition worker_view :: "('r, 'w) worker_thread \<Rightarrow> metrics \<Rightarrow> ('r, 'w) worker_state" where
  "worker_view w M = \<lparr>ws_replays = wt_replays w, running = wt_running w, ws_metrics = M\<rparr>"

text \<open>
  Sending waits for room, and panics if the receiving end is gone. It is a step only when there is
  room.
\<close>

definition can_send :: "('r, 'w) worker_thread \<Rightarrow> bool" where
  "can_send w \<longleftrightarrow> wt_exited w \<or> length (wt_channel w) < channel_capacity"

definition worker_dispatch :: "('r, 'w) worker_thread \<Rightarrow> ('r, 'w) connection \<Rightarrow> ('r, 'w) worker_thread option" where
  "worker_dispatch w c = (if wt_exited w then None else Some (w\<lparr>wt_channel := wt_channel w @ [c]\<rparr>))"

text \<open>
  The loop of \<open>handle_replays\<close>: a turn of the futures of the worker, a connection from the channel,
  and the end of the thread.
\<close>

definition thread_turn ::
  "('r, 'w) worker_event \<Rightarrow> ('r, 'w) worker_thread \<Rightarrow> metrics \<Rightarrow> (('r, 'w) worker_thread \<times> metrics) option" where
  "thread_turn ev w M =
     map_option (\<lambda>s. (w\<lparr>wt_replays := ws_replays s, wt_running := running s\<rparr>, ws_metrics s))
       (worker_step ev (worker_view w M))"

definition thread_receives ::
  "('r, 'w) worker_thread \<Rightarrow> metrics \<Rightarrow> (('r, 'w) worker_thread \<times> metrics) option" where
  "thread_receives w M =
     (case wt_channel w of
        [] \<Rightarrow> None
      | c # cs \<Rightarrow> thread_turn (Received c) (w\<lparr>wt_channel := cs\<rparr>) M)"

definition thread_exits :: "('r, 'w) worker_thread \<Rightarrow> ('r, 'w) worker_thread option" where
  "thread_exits w =
     (if \<not> wt_open w \<and> wt_channel w = [] \<and> wt_running w = {#} then Some (w\<lparr>wt_exited := True\<rparr>) else None)"

subsection \<open>The runner\<close>

text \<open>
  \<open>rn_joined\<close> is set once \<open>shutdown\<close> was called: how many workers it has joined. It joins one after
  the other, and drops the sending end of a worker only when it comes to it.
\<close>

record ('r, 'w) replay_runner =
  replay_workers :: "('r, 'w) worker_thread list"
  rn_joined :: "nat option"

definition runner_new :: "InnerSettings \<Rightarrow> ('r, 'w) replay_runner" where
  "runner_new config =
     (let count = worker_threads (server config)
      in \<lparr>replay_workers = replicate count worker_new, rn_joined = None\<rparr>)"

text \<open>The remainder panics when there is no worker.\<close>

definition worker_to_pick :: "('r, 'w) replay_runner \<Rightarrow> ('r, 'w) connection \<Rightarrow> nat option" where
  "worker_to_pick r conn =
     do {
       conn_info \<leftarrow> get_header conn;
       assert_that (length (replay_workers r) \<noteq> 0);
       Some (ch_id conn_info mod length (replay_workers r))
     }"

definition dispatch_connection ::
  "('r, 'w) replay_runner \<Rightarrow> ('r, 'w) connection \<Rightarrow> ('r, 'w) replay_runner option" where
  "dispatch_connection r conn =
     do {
       k \<leftarrow> worker_to_pick r conn;
       w \<leftarrow> worker_dispatch (replay_workers r ! k) conn;
       Some (r\<lparr>replay_workers := (replay_workers r)[k := w]\<rparr>)
     }"

definition close_worker :: "nat \<Rightarrow> ('r, 'w) replay_runner \<Rightarrow> ('r, 'w) replay_runner" where
  "close_worker i r =
     (if i < length (replay_workers r)
      then r\<lparr>replay_workers := (replay_workers r)[i := (replay_workers r ! i)\<lparr>wt_open := False\<rparr>]\<rparr>
      else r)"

definition runner_shutdown :: "('r, 'w) replay_runner \<Rightarrow> ('r, 'w) replay_runner" where
  "runner_shutdown r = close_worker 0 (r\<lparr>rn_joined := Some 0\<rparr>)"

text \<open>A thread that has exited is joined, and it is the turn of the next one.\<close>

definition runner_join :: "('r, 'w) replay_runner \<Rightarrow> ('r, 'w) replay_runner option" where
  "runner_join r =
     (case rn_joined r of
        None \<Rightarrow> None
      | Some n \<Rightarrow>
          if n < length (replay_workers r) \<and> wt_exited (replay_workers r ! n)
          then Some (close_worker (Suc n) (r\<lparr>rn_joined := Some (Suc n)\<rparr>))
          else None)"

definition runner_done :: "('r, 'w) replay_runner \<Rightarrow> bool" where
  "runner_done r \<longleftrightarrow> rn_joined r = Some (length (replay_workers r))"

definition with_worker ::
  "nat \<Rightarrow> (('r, 'w) worker_thread \<Rightarrow> metrics \<Rightarrow> (('r, 'w) worker_thread \<times> metrics) option) \<Rightarrow>
   ('r, 'w) replay_runner \<Rightarrow> metrics \<Rightarrow> (('r, 'w) replay_runner \<times> metrics) option" where
  "with_worker i f r M =
     map_option (\<lambda>(w, M). (r\<lparr>replay_workers := (replay_workers r)[i := w]\<rparr>, M)) (f (replay_workers r ! i) M)"

subsection \<open>The invariant\<close>

text \<open>
  The \<open>i\<close>-th of \<open>n\<close> workers has only games whose number leaves the remainder \<open>i\<close>, in its channel and
  in its map; it has exited only after its channel was closed.
\<close>

definition worker_inv :: "nat \<Rightarrow> nat \<Rightarrow> ('r, 'w) worker_thread \<Rightarrow> bool" where
  "worker_inv n i w \<longleftrightarrow>
     replays_inv (worker_view w metrics_new) \<and>
     (\<forall>rid. weak_map (wt_replays w) rid \<noteq> None \<longrightarrow> rid mod n = i) \<and>
     (\<forall>c \<in> set (wt_channel w). \<exists>h. get_header c = Some h \<and> ch_id h mod n = i) \<and>
     length (wt_channel w) \<le> channel_capacity \<and>
     (wt_exited w \<longrightarrow> \<not> wt_open w \<and> wt_channel w = [] \<and> wt_running w = {#})"

text \<open>The workers up to the one that is being joined have lost their senders, and no others.\<close>

definition runner_inv :: "('r, 'w) replay_runner \<Rightarrow> bool" where
  "runner_inv r \<longleftrightarrow>
     (\<forall>i < length (replay_workers r).
        worker_inv (length (replay_workers r)) i (replay_workers r ! i) \<and>
        (wt_open (replay_workers r ! i) \<longleftrightarrow> (case rn_joined r of None \<Rightarrow> True | Some n \<Rightarrow> n < i)) \<and>
        (case rn_joined r of None \<Rightarrow> True | Some n \<Rightarrow> i < n \<longrightarrow> wt_exited (replay_workers r ! i))) \<and>
     (case rn_joined r of None \<Rightarrow> True | Some n \<Rightarrow> n \<le> length (replay_workers r))"

lemma replays_inv_metrics: "replays_inv (s\<lparr>ws_metrics := M\<rparr>) = replays_inv s"
  by (simp add: replays_inv_def Let_def)

lemma replays_inv_view: "replays_inv (worker_view w M) = replays_inv (worker_view w metrics_new)"
  using replays_inv_metrics [where s = "worker_view w M" and M = metrics_new] by (simp add: worker_view_def)

lemma worker_inv_new: "i < n \<Longrightarrow> worker_inv n i worker_new"
  by (simp add: worker_inv_def worker_new_def worker_view_def replays_inv_def replays_new_def)

lemma runner_inv_new: "runner_inv (runner_new config)"
  by (simp add: runner_inv_def runner_new_def Let_def worker_inv_new) (simp add: worker_new_def)

text \<open>What a turn does to the map: only a received connection adds a game, its own.\<close>

lemma worker_step_games:
  assumes "worker_step ev s = Some s'" "weak_map (ws_replays s') rid \<noteq> None"
  shows "weak_map (ws_replays s) rid \<noteq> None \<or> (\<exists>c h. ev = Received c \<and> get_header c = Some h \<and> ch_id h = rid)"
proof (cases ev)
  case (Received c)
  then obtain h where "get_header c = Some h"
    using assms(1) by (auto simp: assign_connection_to_replay_def bind_eq_Some_conv)
  then show ?thesis using assms Received
    by (auto simp: assign_connection_to_replay_def insert_new_def Let_def split: option.splits if_splits)
next
  case (LifetimeDone k)
  then show ?thesis using assms by (auto simp: lifetime_done_def split: if_splits)
next
  case (ConnectionDone c k res)
  then show ?thesis using assms by (auto simp: connection_done_def Let_def split: if_splits)
qed

lemma received_returns:
  assumes "get_header c = Some h"
  shows "\<exists>s'. worker_step (Received c) s = Some s'"
  using assms by (auto simp: assign_connection_to_replay_def Let_def split: option.splits prod.splits)

lemma thread_turn_inv:
  assumes inv: "worker_inv n i w" and run: "\<not> wt_exited w"
    and ev: "\<And>c. ev = Received c \<Longrightarrow> \<exists>h. get_header c = Some h \<and> ch_id h mod n = i"
    and step: "thread_turn ev w M = Some (w', M')"
  shows "worker_inv n i w' \<and> wt_open w' = wt_open w \<and> wt_exited w' = wt_exited w \<and> wt_channel w' = wt_channel w"
proof -
  obtain s where s: "worker_step ev (worker_view w M) = Some s"
    "w' = w\<lparr>wt_replays := ws_replays s, wt_running := running s\<rparr>" "M' = ws_metrics s"
    using step by (auto simp: thread_turn_def)
  have "replays_inv (worker_view w M)" using inv replays_inv_view [of w M] by (simp add: worker_inv_def)
  then have "replays_inv s" by (rule worker_step_inv) (rule s(1))
  moreover have "worker_view w' metrics_new = s\<lparr>ws_metrics := metrics_new\<rparr>" using s(2) by (simp add: worker_view_def)
  ultimately have "replays_inv (worker_view w' metrics_new)" using replays_inv_metrics by metis
  moreover have "rid mod n = i" if "weak_map (ws_replays s) rid \<noteq> None" for rid
    using worker_step_games [OF s(1) that] inv ev by (auto simp: worker_inv_def worker_view_def)
  ultimately show ?thesis using inv s(2) run by (auto simp: worker_inv_def)
qed

lemma thread_receives_inv:
  assumes inv: "worker_inv n i w" and step: "thread_receives w M = Some (w', M')"
  shows "worker_inv n i w' \<and> wt_open w' = wt_open w \<and> wt_exited w' = wt_exited w \<and> wt_channel w' = tl (wt_channel w)"
proof -
  obtain c cs where c: "wt_channel w = c # cs" "thread_turn (Received c) (w\<lparr>wt_channel := cs\<rparr>) M = Some (w', M')"
    using step by (auto simp: thread_receives_def split: list.splits)
  have w: "worker_inv n i (w\<lparr>wt_channel := cs\<rparr>)" "\<not> wt_exited (w\<lparr>wt_channel := cs\<rparr>)"
    using inv c(1) by (auto simp: worker_inv_def worker_view_def)
  have "\<exists>h. get_header d = Some h \<and> ch_id h mod n = i" if "Received c = Received d" for d
    using inv c(1) that by (auto simp: worker_inv_def)
  from thread_turn_inv [OF w this c(2)] show ?thesis by (simp add: c(1))
qed

lemma thread_receives_returns:
  assumes "worker_inv n i w" "wt_channel w \<noteq> []"
  shows "\<exists>w' M'. thread_receives w M = Some (w', M')"
proof -
  obtain c cs where c: "wt_channel w = c # cs" using assms(2) by (cases "wt_channel w") auto
  then obtain h where "get_header c = Some h" using assms(1) by (auto simp: worker_inv_def)
  from received_returns [OF this] c show ?thesis by (auto simp: thread_receives_def thread_turn_def)
qed

lemma thread_exits_inv:
  assumes "worker_inv n i w" "thread_exits w = Some w'"
  shows "worker_inv n i w' \<and> wt_open w' = wt_open w \<and> wt_exited w'"
  using assms by (auto simp: thread_exits_def worker_inv_def worker_view_def split: if_splits)

lemma worker_dispatch_inv:
  assumes "worker_inv n i w" "can_send w" "get_header c = Some h" "ch_id h mod n = i" "worker_dispatch w c = Some w'"
  shows "worker_inv n i w' \<and> wt_open w' = wt_open w \<and> \<not> wt_exited w'"
  using assms by (auto simp: worker_dispatch_def can_send_def worker_inv_def worker_view_def split: if_splits)

text \<open>The invariant of the runner after a change of one worker.\<close>

lemma runner_inv_update:
  assumes "runner_inv r" "i < length (replay_workers r)" "worker_inv (length (replay_workers r)) i w"
    "wt_open w = wt_open (replay_workers r ! i)" "wt_exited (replay_workers r ! i) \<longrightarrow> wt_exited w"
  shows "runner_inv (r\<lparr>replay_workers := (replay_workers r)[i := w]\<rparr>)"
  using assms by (auto simp: runner_inv_def nth_list_update split: option.splits)

lemma runner_invD:
  assumes "runner_inv r" "i < length (replay_workers r)"
  shows "worker_inv (length (replay_workers r)) i (replay_workers r ! i)"
  using assms by (auto simp: runner_inv_def)

lemma dispatch_returns:
  assumes inv: "runner_inv r" and n: "replay_workers r \<noteq> []" and h: "get_header c = Some h" and open_: "rn_joined r = None"
  shows "\<exists>k w. worker_to_pick r c = Some k \<and> k = ch_id h mod length (replay_workers r) \<and> k < length (replay_workers r)
    \<and> worker_dispatch (replay_workers r ! k) c = Some w
    \<and> dispatch_connection r c = Some (r\<lparr>replay_workers := (replay_workers r)[k := w]\<rparr>)
    \<and> (can_send (replay_workers r ! k) \<longrightarrow> runner_inv (r\<lparr>replay_workers := (replay_workers r)[k := w]\<rparr>))"
proof -
  let ?k = "ch_id h mod length (replay_workers r)"
  have k: "?k < length (replay_workers r)" using n by simp
  have e: "\<not> wt_exited (replay_workers r ! ?k)"
    using inv k open_ by (auto simp: runner_inv_def worker_inv_def)
  then obtain w where w: "worker_dispatch (replay_workers r ! ?k) c = Some w" by (simp add: worker_dispatch_def)
  have pick: "worker_to_pick r c = Some ?k" using h n by (simp add: worker_to_pick_def)
  have "runner_inv (r\<lparr>replay_workers := (replay_workers r)[?k := w]\<rparr>)" if "can_send (replay_workers r ! ?k)"
    using worker_dispatch_inv [OF runner_invD [OF inv k] that h refl w] runner_inv_update [OF inv k] e by auto
  then show ?thesis using pick k w by (simp add: dispatch_connection_def)
qed

lemma runner_shutdown_inv: "runner_inv r \<Longrightarrow> rn_joined r = None \<Longrightarrow> runner_inv (runner_shutdown r)"
  by (auto simp: runner_shutdown_def close_worker_def runner_inv_def worker_inv_def worker_view_def nth_list_update)

lemma runner_join_inv:
  assumes inv: "runner_inv r" and step: "runner_join r = Some r'"
  shows "runner_inv r'"
proof -
  obtain n where n: "rn_joined r = Some n" "n < length (replay_workers r)" "wt_exited (replay_workers r ! n)"
    "r' = close_worker (Suc n) (r\<lparr>rn_joined := Some (Suc n)\<rparr>)"
    using step by (auto simp: runner_join_def split: option.splits if_splits)
  have c: "replay_workers r' ! i = (if i = Suc n then (replay_workers r ! i)\<lparr>wt_open := False\<rparr> else replay_workers r ! i)"
    if "i < length (replay_workers r)" for i
    using n that by (auto simp: close_worker_def nth_list_update)
  moreover have "length (replay_workers r') = length (replay_workers r)" "rn_joined r' = Some (Suc n)"
    using n by (simp_all add: close_worker_def)
  moreover have "worker_inv m i (w\<lparr>wt_open := False\<rparr>)" if "worker_inv m i w" for m i and w :: "('a, 'b) worker_thread"
    using that by (auto simp: worker_inv_def worker_view_def)
  ultimately show ?thesis using inv n by (auto simp: runner_inv_def less_Suc_eq)
qed

end
