(* ===== verification/Server.thy ===== *)
theory Server
  imports Runner Evaluation
begin

text \<open>
  \<open>Server\<close> of \<open>src/server/server.rs\<close>, which accepts connections and hands them to the workers, as a
  system of all its tasks: the futures of \<open>for_each_concurrent\<close>, the worker threads with the futures
  that they run, and the shutdown.
\<close>

subsection \<open>The state\<close>

text \<open>
  A future of the accept loop is reading the header of its connection, or, once that is read,
  waiting to send the connection to a worker. The last two fields record what has happened:
  how many connections were accepted, and how many were given up without being counted as served.
\<close>

record ('r, 'w) server_state =
  sv_futures :: "(bool \<times> ('r, 'w) connection) list"
  sv_runner :: "('r, 'w) replay_runner"
  sv_metrics :: metrics
  sv_accepted :: nat
  sv_silent :: nat

definition server_new :: "InnerSettings \<Rightarrow> ('r, 'w) server_state" where
  "server_new config =
     \<lparr>sv_futures = [], sv_runner = runner_new config, sv_metrics = metrics_new, sv_accepted = 0, sv_silent = 0\<rparr>"

definition remove_at :: "nat \<Rightarrow> 'a list \<Rightarrow> 'a list" where
  "remove_at i xs = take i xs @ drop (Suc i) xs"

subsection \<open>Accepting\<close>

text \<open>The stream gives a connection, and \<open>for_each_concurrent\<close> makes a future for it.\<close>

definition accepts :: "(nat \<Rightarrow> char) \<Rightarrow> 'r \<Rightarrow> 'w \<Rightarrow> ('r, 'w) server_state \<Rightarrow> ('r, 'w) server_state" where
  "accepts random r w s =
     (let (c, M) = new_from random r w (sv_metrics s)
      in s\<lparr>sv_futures := sv_futures s @ [(False, c)], sv_metrics := M, sv_accepted := sv_accepted s + 1\<rparr>)"

text \<open>
  \<open>read_initial_header\<close> ends, at the latest with its timeout. On an error the future ends, and drops
  its connection. The outer option is a read that never ends.
\<close>

definition header_ready ::
  "'r reader_ops \<Rightarrow> InnerSettings \<Rightarrow> bool \<Rightarrow> nat \<Rightarrow> nat option \<Rightarrow> nat \<Rightarrow> ('r, 'w) server_state \<Rightarrow> ('r, 'w) server_state option" where
  "header_ready R config first now arrival i s =
     map_option (\<lambda>(_, res, c, M).
         case res of
           Inl e \<Rightarrow>
             if is_no_data e
             then s\<lparr>sv_futures := remove_at i (sv_futures s), sv_metrics := conn_drop c M, sv_silent := sv_silent s + 1\<rparr>
             else s\<lparr>sv_futures := remove_at i (sv_futures s), sv_metrics := conn_drop c (inc_served_conns (Some e) M)\<rparr>
         | Inr _ \<Rightarrow> s\<lparr>sv_futures := (sv_futures s)[i := (True, c)], sv_metrics := M\<rparr>)
       (read_initial_header R first now arrival (connection_accept_timeout_s (server config))
          (snd (sv_futures s ! i)) (sv_metrics s))"

definition sends :: "nat \<Rightarrow> ('r, 'w) server_state \<Rightarrow> ('r, 'w) server_state option" where
  "sends i s =
     map_option (\<lambda>r. s\<lparr>sv_futures := remove_at i (sv_futures s), sv_runner := r\<rparr>)
       (dispatch_connection (sv_runner s) (snd (sv_futures s ! i)))"

text \<open>
  The accept loop ends with its stream, when no future is left, or by the cancellation, which drops
  every future with its connection. Then the runner is shut down.
\<close>

definition cancels :: "('r, 'w) server_state \<Rightarrow> ('r, 'w) server_state" where
  "cancels s = s\<lparr>sv_futures := [], sv_metrics := fold (\<lambda>(_, c). conn_drop c) (sv_futures s) (sv_metrics s),
     sv_silent := sv_silent s + length (sv_futures s), sv_runner := runner_shutdown (sv_runner s)\<rparr>"

definition stream_ends :: "('r, 'w) server_state \<Rightarrow> ('r, 'w) server_state" where
  "stream_ends s = s\<lparr>sv_runner := runner_shutdown (sv_runner s)\<rparr>"

subsection \<open>All tasks\<close>

datatype ('r, 'w) server_event =
    Accepts "nat \<Rightarrow> char" 'r 'w
  | HeaderReady bool nat "nat option" nat
  | Sends nat
  | StreamEnds
  | Cancelled
  | WorkerReceives nat
  | WorkerTurn nat "('r, 'w) worker_event"
  | WorkerExits nat
  | Joins

definition on_worker ::
  "nat \<Rightarrow> (('r, 'w) worker_thread \<Rightarrow> metrics \<Rightarrow> (('r, 'w) worker_thread \<times> metrics) option) \<Rightarrow>
   ('r, 'w) server_state \<Rightarrow> ('r, 'w) server_state option" where
  "on_worker i f s =
     map_option (\<lambda>(r, M). s\<lparr>sv_runner := r, sv_metrics := M\<rparr>) (with_worker i f (sv_runner s) (sv_metrics s))"

fun server_step ::
  "'r reader_ops \<Rightarrow> InnerSettings \<Rightarrow> ('r, 'w) server_event \<Rightarrow> ('r, 'w) server_state \<Rightarrow> ('r, 'w) server_state option" where
  "server_step R config (Accepts random r w) s = Some (accepts random r w s)"
| "server_step R config (HeaderReady first now arrival i) s = header_ready R config first now arrival i s"
| "server_step R config (Sends i) s = sends i s"
| "server_step R config StreamEnds s = Some (stream_ends s)"
| "server_step R config Cancelled s = Some (cancels s)"
| "server_step R config (WorkerReceives i) s = on_worker i thread_receives s"
| "server_step R config (WorkerTurn i ev) s = on_worker i (thread_turn ev) s"
| "server_step R config (WorkerExits i) s =
     on_worker i (\<lambda>w M. map_option (\<lambda>w. (w, M)) (thread_exits w)) s"
| "server_step R config Joins s = map_option (\<lambda>r. s\<lparr>sv_runner := r\<rparr>) (runner_join (sv_runner s))"

text \<open>
  Which events can happen: the task is there and is not waiting. Sending is possible when the
  channel of the picked worker, if there is one, has room.
\<close>

definition worker_at :: "nat \<Rightarrow> ('r, 'w) server_state \<Rightarrow> ('r, 'w) worker_thread" where
  "worker_at i s = replay_workers (sv_runner s) ! i"

fun can_happen :: "('r, 'w) server_state \<Rightarrow> ('r, 'w) server_event \<Rightarrow> bool" where
  "can_happen s (Accepts random r w) = (rn_joined (sv_runner s) = None)"
| "can_happen s (HeaderReady first now arrival i) = (i < length (sv_futures s) \<and> \<not> fst (sv_futures s ! i))"
| "can_happen s (Sends i) = (i < length (sv_futures s) \<and> fst (sv_futures s ! i) \<and>
     (case worker_to_pick (sv_runner s) (snd (sv_futures s ! i)) of None \<Rightarrow> True | Some k \<Rightarrow> can_send (worker_at k s)))"
| "can_happen s StreamEnds = (rn_joined (sv_runner s) = None \<and> sv_futures s = [])"
| "can_happen s Cancelled = (rn_joined (sv_runner s) = None)"
| "can_happen s (WorkerReceives i) = (i < length (replay_workers (sv_runner s)) \<and> wt_channel (worker_at i s) \<noteq> [])"
| "can_happen s (WorkerTurn i ev) = (i < length (replay_workers (sv_runner s)) \<and>
     (case ev of Received c \<Rightarrow> False
      | LifetimeDone k \<Rightarrow> ToNewReplay k \<in># wt_running (worker_at i s)
      | ConnectionDone c k res \<Rightarrow> ToConnection c k \<in># wt_running (worker_at i s)))"
| "can_happen s (WorkerExits i) = (i < length (replay_workers (sv_runner s)) \<and> thread_exits (worker_at i s) \<noteq> None)"
| "can_happen s Joins = (runner_join (sv_runner s) \<noteq> None)"

inductive serves :: "'r reader_ops \<Rightarrow> InnerSettings \<Rightarrow> ('r, 'w) server_state \<Rightarrow> bool" for R config where
  serves_new: "serves R config (server_new config)"
| serves_step: "serves R config s \<Longrightarrow> can_happen s ev \<Longrightarrow> server_step R config ev s = Some s' \<Longrightarrow> serves R config s'"

subsection \<open>Where the connections are\<close>

fun conns_of :: "'c assignment \<Rightarrow> 'c multiset" where
  "conns_of (ToConnection c k) = {#c#}"
| "conns_of (ToNewReplay k) = {#}"

definition worker_live :: "('r, 'w) worker_thread \<Rightarrow> ('r, 'w) connection multiset" where
  "worker_live w = mset (wt_channel w) + \<Sum>\<^sub># (image_mset conns_of (wt_running w))"

definition live_conns :: "('r, 'w) server_state \<Rightarrow> ('r, 'w) connection multiset" where
  "live_conns s = mset (map snd (sv_futures s)) + sum_list (map worker_live (replay_workers (sv_runner s)))"

definition gauge :: "metrics \<Rightarrow> ('r, 'w) connection multiset \<Rightarrow> bool" where
  "gauge M L \<longleftrightarrow> (\<forall>label. ACTIVE_CONNS M label = int (size (filter_mset (\<lambda>c. header2label c = label) L)))"

definition served :: "metrics \<Rightarrow> nat" where
  "served M = sum_list (map (SERVED_CONNS M)
     [''Success'', ''Empty connection'', ''Bad data'', ''I/O error'', ''No replay matched''])"

lemma gauge_set: "gauge M L \<Longrightarrow> gauge (set_metric c M) (add_mset c L)"
  by (auto simp: gauge_def set_metric_def)

lemma gauge_reset: "gauge M (add_mset c L) \<Longrightarrow> gauge (reset_metric c M) L"
  by (auto simp: gauge_def reset_metric_def)

lemma gauge_inc_served [simp]: "gauge (inc_served_conns e M) L = gauge M L"
  by (simp add: gauge_def inc_served_conns_def Let_def)

lemma served_simps [simp]:
  "served (set_metric c M) = served M" "served (reset_metric c M) = served M"
  "served (conn_drop c M) = served M"
  "served (inc_served_conns e M) = Suc (served M)"
proof -
  show "served (inc_served_conns e M) = Suc (served M)"
    by (cases e rule: served_label.cases) (simp_all add: served_def inc_served_conns_def Let_def)
qed (simp_all add: served_def conn_drop_def)

text \<open>The connections \<open>D\<close> are dropped, and each is counted as served.\<close>

definition closes :: "metrics \<Rightarrow> ('r, 'w) connection multiset \<Rightarrow> metrics \<Rightarrow> bool" where
  "closes M D M' \<longleftrightarrow> (\<forall>L. gauge M (D + L) \<longrightarrow> gauge M' L) \<and> served M' = served M + size D"

lemma closes_none [simp]: "closes M {#} M"
  by (simp add: closes_def)

lemma closes_one: "closes M {#c#} (conn_drop c (inc_served_conns e M))" "closes M {#c#} (inc_served_conns e (conn_drop c M))"
  by (auto simp: closes_def conn_drop_def intro: gauge_reset)

lemma thread_turn_live:
  assumes "thread_turn ev w M = Some (w', M')"
  shows "\<exists>D. worker_live w + (case ev of Received c \<Rightarrow> {#c#} | _ \<Rightarrow> {#}) = worker_live w' + D \<and> closes M D M'"
proof -
  obtain s where s: "worker_step ev (worker_view w M) = Some s"
    "w' = w\<lparr>wt_replays := ws_replays s, wt_running := running s\<rparr>" "M' = ws_metrics s"
    using assms by (auto simp: thread_turn_def)
  show ?thesis
  proof (cases ev)
    case (Received c)
    then obtain as rs where a: "assign_connection_to_replay c (wt_replays w) M = Some (as, rs, M')"
      "w' = w\<lparr>wt_replays := rs, wt_running := wt_running w + mset as\<rparr>"
      using s by (auto simp: worker_view_def)
    then have "(as = [] \<and> M' = conn_drop c (inc_served_conns (Some CannotAssignToReplay) M))
        \<or> (\<Sum>\<^sub># (image_mset conns_of (mset as)) = {#c#} \<and> M' = M)"
      by (auto simp: assign_connection_to_replay_def bind_eq_Some_conv Let_def split: option.splits if_splits prod.splits)
    then show ?thesis
    proof
      assume "as = [] \<and> M' = conn_drop c (inc_served_conns (Some CannotAssignToReplay) M)"
      then show ?thesis using Received a(2) closes_one(1) [of M c "Some CannotAssignToReplay"]
        by (intro exI [of _ "{#c#}"]) (simp add: worker_live_def)
    next
      assume "\<Sum>\<^sub># (image_mset conns_of (mset as)) = {#c#} \<and> M' = M"
      then show ?thesis using Received a(2) by (intro exI [of _ "{#}"]) (simp add: worker_live_def)
    qed
  next
    case (LifetimeDone k)
    then have k: "ToNewReplay k \<in># wt_running w" "w' = w\<lparr>wt_replays := ws_replays s, wt_running := wt_running w - {#ToNewReplay k#}\<rparr>"
      "M' = M"
      using s by (auto simp: worker_view_def split: if_splits)
    obtain B where "wt_running w = add_mset (ToNewReplay k) B" using multi_member_split [OF k(1)] by blast
    then show ?thesis using LifetimeDone k by (intro exI [of _ "{#}"]) (simp add: worker_live_def)
  next
    case (ConnectionDone c k res)
    then have k: "ToConnection c k \<in># wt_running w"
      "w' = w\<lparr>wt_replays := ws_replays s, wt_running := wt_running w - {#ToConnection c k#}\<rparr>"
      "\<exists>e. M' = inc_served_conns e (conn_drop c M)"
      using s by (auto simp: worker_view_def connection_done_def split: if_splits)
    obtain B where "wt_running w = add_mset (ToConnection c k) B" using multi_member_split [OF k(1)] by blast
    then show ?thesis using ConnectionDone k closes_one(2)
      by (intro exI [of _ "{#c#}"]) (auto simp: worker_live_def)
  qed
qed

lemma thread_receives_live:
  assumes "thread_receives w M = Some (w', M')"
  shows "\<exists>D. worker_live w = worker_live w' + D \<and> closes M D M'"
proof -
  obtain c cs where c: "wt_channel w = c # cs" "thread_turn (Received c) (w\<lparr>wt_channel := cs\<rparr>) M = Some (w', M')"
    using assms by (auto simp: thread_receives_def split: list.splits)
  moreover have "worker_live w = worker_live (w\<lparr>wt_channel := cs\<rparr>) + {#c#}" using c(1) by (simp add: worker_live_def)
  ultimately show ?thesis using thread_turn_live [OF c(2)] by simp
qed

lemma sum_list_update_mset:
  "i < length ws \<Longrightarrow> f (ws ! i) = f w + (D :: 'a multiset) \<Longrightarrow>
    sum_list (map f ws) = sum_list (map f (ws[i := w])) + D"
proof (induction ws arbitrary: i)
  case (Cons v ws)
  then show ?case by (cases i) (auto simp: ac_simps)
qed simp

subsection \<open>The invariant\<close>

definition accounted :: "('r, 'w) server_state \<Rightarrow> bool" where
  "accounted s \<longleftrightarrow> gauge (sv_metrics s) (live_conns s) \<and>
     sv_accepted s = size (live_conns s) + served (sv_metrics s) + sv_silent s"

definition server_inv :: "InnerSettings \<Rightarrow> ('r, 'w) server_state \<Rightarrow> bool" where
  "server_inv config s \<longleftrightarrow>
     runner_inv (sv_runner s) \<and> length (replay_workers (sv_runner s)) = worker_threads (server config) \<and> accounted s \<and>
     (\<forall>(ready, c) \<in> set (sv_futures s). ready \<longrightarrow> get_header c \<noteq> None) \<and>
     (rn_joined (sv_runner s) \<noteq> None \<longrightarrow> sv_futures s = [])"

lemma worker_live_new [simp]: "worker_live worker_new = {#}"
  by (simp add: worker_live_def worker_new_def)

lemma no_live_new: "sum_list (map worker_live (replay_workers (runner_new config))) = {#}"
proof -
  have "sum_list (map worker_live (replicate n (worker_new :: ('r, 'w) worker_thread))) = {#}" for n
    by (induction n) simp_all
  then show "sum_list (map worker_live (replay_workers (runner_new config :: ('r, 'w) replay_runner))) = {#}"
    by (simp add: runner_new_def Let_def del: map_replicate)
qed

lemma server_inv_new: "server_inv config (server_new config)"
  using runner_inv_new [of config]
  by (simp add: server_inv_def server_new_def accounted_def live_conns_def gauge_def metrics_new_def served_def
      no_live_new) (simp add: runner_new_def Let_def)

lemma remove_at_mset:
  assumes "i < length xs"
  shows "mset (map snd xs) = add_mset (snd (xs ! i)) (mset (map snd (remove_at i xs)))"
proof -
  have "xs = take i xs @ xs ! i # drop (Suc i) xs" using assms by (rule id_take_nth_drop)
  then have "mset (map snd xs) = mset (map snd (take i xs @ xs ! i # drop (Suc i) xs))" by simp
  then show ?thesis by (simp add: remove_at_def)
qed

lemma remove_at_set: "set (remove_at i xs) \<subseteq> set xs"
  using set_take_subset set_drop_subset by (fastforce simp: remove_at_def)

lemma update_mset:
  assumes "i < length xs"
  shows "add_mset c (mset (map snd xs)) = add_mset (snd (xs ! i)) (mset (map snd (xs[i := (b, c)])))"
  using assms by (induction xs arbitrary: i) (auto simp: nth_Cons' add_mset_commute split: nat.splits)

text \<open>The two ways in which the reading of the header ends.\<close>

lemma read_initial_header_cases:
  "\<exists>t res c' M'. read_initial_header R first now arrival until_time c M = Some (t, res, c', M') \<and>
     ((\<exists>e. res = Inl e) \<and> c' = c \<and> M' = M \<or>
      res = Inr () \<and> (\<exists>h. get_header c' = Some h) \<and> M' = set_metric c' (reset_metric c M))"
proof -
  have "\<exists>res c' M'. read_and_set_connection_header R c M = (res, c', M') \<and>
      ((\<exists>e. res = Inl e) \<and> c' = c \<and> M' = M \<or>
       res = Inr () \<and> (\<exists>h. get_header c' = Some h) \<and> M' = set_metric c' (reset_metric c M))"
    by (auto simp: read_and_set_connection_header_def set_header_def get_header_def reset_metric_def Let_def split: sum.splits)
  then show ?thesis
    by (cases arrival) (auto simp: read_initial_header_def timeout_def until_def)
qed

text \<open>A connection that stays, under another label, one that is dropped, and one that is new.\<close>

lemma accounted_set_header:
  assumes "gauge M (add_mset c L)"
  shows "gauge (set_metric c' (reset_metric c M)) (add_mset c' L)"
  using assms by (intro gauge_set gauge_reset)

lemma server_inv_worker:
  assumes inv: "server_inv config s" and i: "i < length (replay_workers (sv_runner s))"
    and w: "worker_inv (worker_threads (server config)) i w" "wt_open w = wt_open (worker_at i s)"
      "wt_exited (worker_at i s) \<longrightarrow> wt_exited w"
    and D: "worker_live (worker_at i s) = worker_live w + D" "closes (sv_metrics s) D M"
  shows "server_inv config (s\<lparr>sv_runner := (sv_runner s)\<lparr>replay_workers := (replay_workers (sv_runner s))[i := w]\<rparr>, sv_metrics := M\<rparr>)"
proof -
  let ?ws = "replay_workers (sv_runner s)"
  have sum: "sum_list (map worker_live ?ws) = sum_list (map worker_live (?ws[i := w])) + D"
    using sum_list_update_mset [OF i, of worker_live w D] D(1) by (simp add: worker_at_def)
  let ?L = "mset (map snd (sv_futures s)) + sum_list (map worker_live (?ws[i := w]))"
  have live: "live_conns s = D + ?L" unfolding live_conns_def sum by (simp add: ac_simps)
  have acc: "gauge (sv_metrics s) (D + ?L)" "sv_accepted s = size (D + ?L) + served (sv_metrics s) + sv_silent s"
    using inv unfolding server_inv_def accounted_def live by simp_all
  have "gauge M ?L" "served M = served (sv_metrics s) + size D" using D(2) acc(1) by (simp_all add: closes_def)
  moreover have "sv_accepted s = size ?L + served M + sv_silent s" using acc(2) calculation(2) by simp
  moreover have "runner_inv ((sv_runner s)\<lparr>replay_workers := ?ws[i := w]\<rparr>)"
    using runner_inv_update [of "sv_runner s" i w] inv i w by (simp add: server_inv_def worker_at_def)
  ultimately show ?thesis using inv by (simp add: server_inv_def accounted_def live_conns_def)
qed

lemma server_inv_on_worker:
  assumes inv: "server_inv config s" and i: "i < length (replay_workers (sv_runner s))"
    and f: "f (worker_at i s) (sv_metrics s) = Some (w, M)"
    and w: "worker_inv (worker_threads (server config)) i w" "wt_open w = wt_open (worker_at i s)"
      "wt_exited (worker_at i s) \<longrightarrow> wt_exited w"
    and D: "\<exists>D. worker_live (worker_at i s) = worker_live w + D \<and> closes (sv_metrics s) D M"
  shows "\<exists>s'. on_worker i f s = Some s' \<and> server_inv config s'"
  using f server_inv_worker [OF inv i w] D by (auto simp: on_worker_def with_worker_def worker_at_def)

lemma server_inv_workerD:
  assumes "server_inv config s" "i < length (replay_workers (sv_runner s))"
  shows "worker_inv (worker_threads (server config)) i (worker_at i s)"
  using assms runner_invD [of "sv_runner s" i] by (simp add: server_inv_def worker_at_def)

lemma accepts_inv:
  assumes inv: "server_inv config s" and open_: "rn_joined (sv_runner s) = None"
  shows "server_inv config (accepts random r w s)"
proof -
  obtain c where c: "new_from random r w (sv_metrics s) = (c, set_metric c (sv_metrics s))"
    by (simp add: new_from_def Let_def)
  have "live_conns (accepts random r w s) = add_mset c (live_conns s)"
    using c by (simp add: accepts_def live_conns_def)
  then have "accounted (accepts random r w s)"
    using inv c gauge_set by (auto simp: server_inv_def accounted_def accepts_def)
  then show ?thesis using inv open_ c by (auto simp: server_inv_def accepts_def)
qed

lemma all_update: "\<forall>x \<in> set xs. P x \<Longrightarrow> P y \<Longrightarrow> \<forall>x \<in> set (xs[i := y]). P x"
  using set_update_subset_insert [of xs i y] by blast

lemma header_ready_inv:
  assumes inv: "server_inv config s" and i: "i < length (sv_futures s)"
  shows "\<exists>s'. header_ready R config first now arrival i s = Some s' \<and> server_inv config s'"
proof -
  let ?c = "snd (sv_futures s ! i)" and ?M = "sv_metrics s"
  let ?rest = "mset (map snd (remove_at i (sv_futures s))) + sum_list (map worker_live (replay_workers (sv_runner s)))"
  have live: "live_conns s = add_mset ?c ?rest"
    using remove_at_mset [OF i] by (simp add: live_conns_def)
  have acc: "gauge ?M (add_mset ?c ?rest)" "sv_accepted s = Suc (size ?rest) + served ?M + sv_silent s"
    using inv live by (auto simp: server_inv_def accounted_def)
  have stopped: "rn_joined (sv_runner s) = None" using inv i by (auto simp: server_inv_def)
  obtain t res c' M' where r: "read_initial_header R first now arrival (connection_accept_timeout_s (server config)) ?c ?M
      = Some (t, res, c', M')"
    "(\<exists>e. res = Inl e) \<and> c' = ?c \<and> M' = ?M \<or>
      res = Inr () \<and> (\<exists>h. get_header c' = Some h) \<and> M' = set_metric c' (reset_metric ?c ?M)"
    using read_initial_header_cases [of R first now arrival "connection_accept_timeout_s (server config)" ?c ?M] by (elim exE conjE) (rule that)
  show ?thesis
  proof (cases res)
    case (Inl e)
    then have same: "c' = ?c" "M' = ?M" using r(2) by auto
    have g: "gauge (reset_metric ?c ?M) ?rest" "gauge (reset_metric ?c (inc_served_conns (Some e) ?M)) ?rest"
      by (rule gauge_reset [OF acc(1)], rule gauge_reset [OF gauge_inc_served [THEN iffD2, OF acc(1)]])
    obtain s' where s': "header_ready R config first now arrival i s = Some s'"
      "s' = (if is_no_data e
        then s\<lparr>sv_futures := remove_at i (sv_futures s), sv_metrics := conn_drop ?c ?M, sv_silent := sv_silent s + 1\<rparr>
        else s\<lparr>sv_futures := remove_at i (sv_futures s), sv_metrics := conn_drop ?c (inc_served_conns (Some e) ?M)\<rparr>)"
      using r(1) Inl same by (simp add: header_ready_def)
    moreover have "accounted s'" using s'(2) g acc(2) by (simp add: accounted_def live_conns_def conn_drop_def)
    moreover have "\<forall>(ready, c) \<in> set (remove_at i (sv_futures s)). ready \<longrightarrow> get_header c \<noteq> None"
      using inv remove_at_set [of i "sv_futures s"] by (auto simp: server_inv_def)
    ultimately show ?thesis using inv stopped by (simp add: server_inv_def)
  next
    case (Inr u)
    then have h: "\<exists>h. get_header c' = Some h" "M' = set_metric c' (reset_metric ?c ?M)" using r(2) by auto
    let ?s = "s\<lparr>sv_futures := (sv_futures s)[i := (True, c')], sv_metrics := M'\<rparr>"
    have "add_mset ?c (live_conns ?s) = add_mset c' (live_conns s)"
    proof -
      have "live_conns ?s = mset (map snd ((sv_futures s)[i := (True, c')])) + sum_list (map worker_live (replay_workers (sv_runner s)))"
        by (simp add: live_conns_def)
      then show ?thesis
        using update_mset [OF i, of c' True] by (simp only: live_conns_def union_mset_add_mset_left [symmetric])
    qed
    then have "live_conns ?s = add_mset c' ?rest" using live by (simp add: add_mset_commute)
    moreover have "gauge M' (add_mset c' ?rest)" unfolding h(2) by (rule accounted_set_header [OF acc(1)])
    moreover have "served M' = served ?M" unfolding h(2) by simp
    moreover have "sv_accepted ?s = Suc (size ?rest) + served ?M + sv_silent ?s" using acc(2) by simp
    ultimately have "accounted ?s" unfolding accounted_def by (simp only: size_add_mset) simp
    moreover have "\<forall>(ready, c) \<in> set ((sv_futures s)[i := (True, c')]). ready \<longrightarrow> get_header c \<noteq> None"
    proof (rule all_update)
      show "\<forall>(ready, c) \<in> set (sv_futures s). ready \<longrightarrow> get_header c \<noteq> None" using inv by (simp add: server_inv_def)
    qed (use h(1) in auto)
    ultimately show ?thesis using r(1) Inr inv stopped by (simp add: header_ready_def server_inv_def)
  qed
qed

lemma sends_inv:
  assumes inv: "server_inv config s" and n: "0 < worker_threads (server config)" and en: "can_happen s (Sends i)"
  shows "\<exists>s'. sends i s = Some s' \<and> server_inv config s'"
proof -
  let ?c = "snd (sv_futures s ! i)" and ?r = "sv_runner s"
  have i: "i < length (sv_futures s)" "fst (sv_futures s ! i)" using en by auto
  have "sv_futures s ! i = (True, ?c)" by (rule prod_eqI) (simp_all add: i(2))
  then have "(True, ?c) \<in> set (sv_futures s)" using nth_mem [OF i(1)] by (elim subst)
  moreover have "\<forall>(ready, c) \<in> set (sv_futures s). ready \<longrightarrow> get_header c \<noteq> None"
    using inv by (simp add: server_inv_def)
  ultimately have "get_header ?c \<noteq> None" by fast
  then obtain h where h: "get_header ?c = Some h" by (elim not_None_eq [THEN iffD1, THEN exE])
  have open_: "rn_joined ?r = None" "replay_workers ?r \<noteq> []" "runner_inv ?r"
    using inv i n by (auto simp: server_inv_def)
  obtain k w where k: "worker_to_pick ?r ?c = Some k" "k < length (replay_workers ?r)"
    "worker_dispatch (replay_workers ?r ! k) ?c = Some w"
    "dispatch_connection ?r ?c = Some (?r\<lparr>replay_workers := (replay_workers ?r)[k := w]\<rparr>)"
    "can_send (replay_workers ?r ! k) \<longrightarrow> runner_inv (?r\<lparr>replay_workers := (replay_workers ?r)[k := w]\<rparr>)"
    using dispatch_returns [OF open_(3,2) h open_(1)] by blast
  let ?s = "s\<lparr>sv_futures := remove_at i (sv_futures s), sv_runner := ?r\<lparr>replay_workers := (replay_workers ?r)[k := w]\<rparr>\<rparr>"
  have room: "can_send (replay_workers ?r ! k)" using en k(1) by (simp add: worker_at_def)
  have "worker_live w = add_mset ?c (worker_live (replay_workers ?r ! k))"
    using k(3) by (auto simp: worker_dispatch_def worker_live_def split: if_splits)
  then have "sum_list (map worker_live ((replay_workers ?r)[k := w])) = sum_list (map worker_live (replay_workers ?r)) + {#?c#}"
    using sum_list_update_mset [of k "(replay_workers ?r)[k := w]" worker_live "replay_workers ?r ! k" "{#?c#}"] k(2) by simp
  then have "live_conns ?s = live_conns s"
    using remove_at_mset [OF i(1)] by (simp add: live_conns_def)
  then have "accounted ?s" using inv by (simp add: server_inv_def accounted_def)
  moreover have "\<forall>(ready, c) \<in> set (remove_at i (sv_futures s)). ready \<longrightarrow> get_header c \<noteq> None"
    using inv remove_at_set [of i "sv_futures s"] by (auto simp: server_inv_def)
  ultimately show ?thesis using inv k(4,5) room open_(1) by (simp add: sends_def server_inv_def)
qed

lemma close_facts:
  "sum_list (map worker_live (replay_workers (close_worker i r))) = sum_list (map worker_live (replay_workers r))"
  "length (replay_workers (close_worker i r)) = length (replay_workers r)" "rn_joined (close_worker i r) = rn_joined r"
proof -
  let ?w = "(replay_workers r ! i)\<lparr>wt_open := False\<rparr>"
  have "sum_list (map worker_live (replay_workers r)) = sum_list (map worker_live ((replay_workers r)[i := ?w])) + {#}"
    if "i < length (replay_workers r)"
    by (rule sum_list_update_mset [OF that]) (simp add: worker_live_def)
  then show "sum_list (map worker_live (replay_workers (close_worker i r))) = sum_list (map worker_live (replay_workers r))"
    by (simp add: close_worker_def)
qed (simp_all add: close_worker_def)

lemma shutdown_facts:
  "sum_list (map worker_live (replay_workers (runner_shutdown r))) = sum_list (map worker_live (replay_workers r))"
  "length (replay_workers (runner_shutdown r)) = length (replay_workers r)"
  by (simp_all add: runner_shutdown_def close_facts)

lemma drop_all_gauge:
  "gauge M (mset (map snd fs) + L) \<Longrightarrow>
    gauge (fold (\<lambda>(_, c). conn_drop c) fs M) L \<and> served (fold (\<lambda>(_, c). conn_drop c) fs M) = served M"
proof (induction fs arbitrary: M)
  case (Cons f fs)
  obtain b c where f: "f = (b, c)" by (cases f)
  then have "gauge (reset_metric c M) (mset (map snd fs) + L)" using Cons.prems by (intro gauge_reset) simp
  then show ?case using Cons.IH f by (simp add: conn_drop_def)
qed simp

lemma cancels_inv:
  assumes inv: "server_inv config s" and open_: "rn_joined (sv_runner s) = None"
  shows "server_inv config (cancels s)"
proof -
  have "runner_inv (runner_shutdown (sv_runner s))" using inv open_ runner_shutdown_inv by (auto simp: server_inv_def)
  moreover have "accounted (cancels s)"
    using inv drop_all_gauge [of "sv_metrics s" "sv_futures s" "sum_list (map worker_live (replay_workers (sv_runner s)))"]
    by (simp add: server_inv_def accounted_def cancels_def live_conns_def shutdown_facts)
  ultimately show ?thesis using inv by (simp add: server_inv_def cancels_def shutdown_facts)
qed

lemma join_facts:
  assumes "runner_join r = Some r'"
  shows "sum_list (map worker_live (replay_workers r')) = sum_list (map worker_live (replay_workers r))"
    "length (replay_workers r') = length (replay_workers r)" "rn_joined r \<noteq> None" "rn_joined r' \<noteq> None"
  using assms by (auto simp: runner_join_def close_facts split: option.splits if_splits)

text \<open>Every event that can happen is a step, and keeps the invariant.\<close>

lemma server_step_inv:
  assumes inv: "server_inv config s" and n: "0 < worker_threads (server config)" and en: "can_happen s ev"
  shows "\<exists>s'. server_step R config ev s = Some s' \<and> server_inv config s'"
proof (cases ev)
  case (Accepts random r w)
  then show ?thesis using accepts_inv [OF inv] en by simp
next
  case (HeaderReady first now arrival i)
  then show ?thesis using header_ready_inv [OF inv] en by simp
next
  case (Sends i)
  then show ?thesis using sends_inv [OF inv n] en by (simp del: can_happen.simps)
next
  case StreamEnds
  then have "runner_inv (runner_shutdown (sv_runner s))" using inv en runner_shutdown_inv by (auto simp: server_inv_def)
  then show ?thesis using StreamEnds inv en
    by (auto simp: stream_ends_def server_inv_def accounted_def live_conns_def shutdown_facts)
next
  case Cancelled
  then show ?thesis using cancels_inv [OF inv] en by simp
next
  case (WorkerReceives i)
  then have i: "i < length (replay_workers (sv_runner s))" "wt_channel (worker_at i s) \<noteq> []" using en by auto
  note W = server_inv_workerD [OF inv i(1)]
  obtain w M where f: "thread_receives (worker_at i s) (sv_metrics s) = Some (w, M)"
    using thread_receives_returns [OF W i(2)] by blast
  from server_inv_on_worker [where f = thread_receives, OF inv i(1) f] thread_receives_inv [OF W f] thread_receives_live [OF f] show ?thesis
    using WorkerReceives by simp
next
  case (WorkerTurn i e)
  then have i: "i < length (replay_workers (sv_runner s))" using en by auto
  note W = server_inv_workerD [OF inv i]
  have e: "(\<forall>c. e \<noteq> Received c) \<and> wt_running (worker_at i s) \<noteq> {#} \<and> worker_step e (worker_view (worker_at i s) (sv_metrics s)) \<noteq> None"
    using en WorkerTurn by (cases e) (auto simp: worker_view_def connection_done_def)
  then obtain w M where f: "thread_turn e (worker_at i s) (sv_metrics s) = Some (w, M)" by (auto simp: thread_turn_def)
  have run: "\<not> wt_exited (worker_at i s)" using W e by (auto simp: worker_inv_def)
  have "worker_inv (worker_threads (server config)) i w \<and> wt_open w = wt_open (worker_at i s) \<and> wt_exited w = wt_exited (worker_at i s)"
    using thread_turn_inv [OF W run _ f] e by auto
  moreover have "\<exists>D. worker_live (worker_at i s) = worker_live w + D \<and> closes (sv_metrics s) D M"
    using thread_turn_live [OF f] e by (cases e) auto
  ultimately show ?thesis using server_inv_on_worker [where f = "thread_turn e", OF inv i f] WorkerTurn by simp
next
  case (WorkerExits i)
  then obtain w where i: "i < length (replay_workers (sv_runner s))" "thread_exits (worker_at i s) = Some w" using en by auto
  note W = server_inv_workerD [OF inv i(1)]
  have f: "(\<lambda>w M. map_option (\<lambda>w. (w, M)) (thread_exits w)) (worker_at i s) (sv_metrics s) = Some (w, sv_metrics s)"
    using i(2) by simp
  have "worker_live (worker_at i s) = worker_live w + {#}"
    using i(2) by (auto simp: thread_exits_def worker_live_def split: if_splits)
  then have "\<exists>D. worker_live (worker_at i s) = worker_live w + D \<and> closes (sv_metrics s) D (sv_metrics s)"
    using closes_none by metis
  then show ?thesis
    using server_inv_on_worker [where f = "\<lambda>w M. map_option (\<lambda>w. (w, M)) (thread_exits w)", OF inv i(1) f]
      thread_exits_inv [OF W i(2)] WorkerExits by simp
next
  case Joins
  then obtain r where r: "runner_join (sv_runner s) = Some r" using en by auto
  then show ?thesis using inv runner_join_inv [OF _ r] join_facts [OF r] Joins
    by (auto simp: server_inv_def accounted_def live_conns_def)
qed

lemma serves_inv: "serves R config s \<Longrightarrow> 0 < worker_threads (server config) \<Longrightarrow> server_inv config s"
proof (induction rule: serves.induct)
  case serves_new
  show ?case by (rule server_inv_new)
next
  case (serves_step s ev s')
  then show ?case using server_step_inv [of config s ev R] by auto
qed

subsection \<open>Runs\<close>

definition server_run ::
  "'r reader_ops \<Rightarrow> InnerSettings \<Rightarrow> ('r, 'w) server_event list \<Rightarrow> ('r, 'w) server_state \<Rightarrow> ('r, 'w) server_state option" where
  "server_run R config evs s = foldM (\<lambda>ev s. if can_happen s ev then server_step R config ev s else None) evs s"

lemma server_run_simps:
  "server_run R config [] s = Some s"
  "server_run R config (ev # evs) s =
     (if can_happen s ev then server_step R config ev s else None) \<bind> server_run R config evs"
  by (auto simp: server_run_def [abs_def])

lemma server_run_serves: "server_run R config evs s = Some s' \<Longrightarrow> serves R config s \<Longrightarrow> serves R config s'"
proof (induction evs arbitrary: s)
  case (Cons ev evs)
  then obtain t where "can_happen s ev" "server_step R config ev s = Some t" "server_run R config evs t = Some s'"
    by (auto simp: server_run_simps bind_eq_Some_conv simp del: can_happen.simps server_step.simps split: if_splits)
  then show ?case using Cons.IH Cons.prems(2) serves_step by blast
qed (simp add: server_run_simps)

lemma server_run_append: "server_run R config (xs @ ys) s = server_run R config xs s \<bind> server_run R config ys"
proof (induction xs arbitrary: s)
  case (Cons x xs)
  then show ?case by (cases "if can_happen s x then server_step R config x s else None")
      (simp_all add: server_run_simps del: can_happen.simps server_step.simps)
qed (simp add: server_run_simps)

text \<open>No worker has anything left to do.\<close>

definition all_idle :: "('r, 'w) server_state \<Rightarrow> bool" where
  "all_idle s \<longleftrightarrow> (\<forall>w \<in> set (replay_workers (sv_runner s)). wt_channel w = [] \<and> wt_running w = {#})"

lemma join_one:
  assumes inv: "server_inv config s" and idle: "all_idle s" and m: "rn_joined (sv_runner s) = Some m" "m < worker_threads (server config)"
  shows "\<exists>s'. server_run R config [WorkerExits m, Joins] s = Some s' \<and> server_inv config s' \<and> all_idle s'
    \<and> rn_joined (sv_runner s') = Some (Suc m)"
proof -
  let ?ws = "replay_workers (sv_runner s)"
  have len: "m < length ?ws" using inv m(2) by (simp add: server_inv_def)
  have w: "wt_channel (worker_at m s) = []" "wt_running (worker_at m s) = {#}" "\<not> wt_open (worker_at m s)"
    using idle len inv m(1) by (auto simp: all_idle_def worker_at_def server_inv_def runner_inv_def)
  then have ex: "thread_exits (worker_at m s) = Some ((worker_at m s)\<lparr>wt_exited := True\<rparr>)" by (simp add: thread_exits_def)
  have can: "can_happen s (WorkerExits m)" using len ex by simp
  have n: "0 < worker_threads (server config)" using m(2) by simp
  obtain s1 where s1: "server_step R config (WorkerExits m) s = Some s1" "server_inv config s1"
    using server_step_inv [OF inv n can] by blast
  have f1: "sv_runner s1 = (sv_runner s)\<lparr>replay_workers := ?ws[m := (worker_at m s)\<lparr>wt_exited := True\<rparr>]\<rparr>"
    using s1(1) ex by (auto simp: on_worker_def with_worker_def worker_at_def)
  have j: "runner_join (sv_runner s1) = Some (close_worker (Suc m) ((sv_runner s1)\<lparr>rn_joined := Some (Suc m)\<rparr>))"
    using f1 m(1) len by (simp add: runner_join_def)
  then have can1: "can_happen s1 Joins" by simp
  obtain s2 where s2: "server_step R config Joins s1 = Some s2" "server_inv config s2"
    using server_step_inv [OF s1(2) n can1] by blast
  have f2: "sv_runner s2 = close_worker (Suc m) ((sv_runner s1)\<lparr>rn_joined := Some (Suc m)\<rparr>)"
    using s2(1) j by auto
  have idle1: "\<forall>w \<in> set (replay_workers (sv_runner s1)). wt_channel w = [] \<and> wt_running w = {#}"
    using idle w f1 by (auto simp: all_idle_def dest!: set_update_subset_insert [THEN subsetD])
  then have "all_idle s2" using f2
    by (auto simp: all_idle_def close_worker_def dest!: set_update_subset_insert [THEN subsetD] split: if_splits)
  moreover have "rn_joined (sv_runner s2) = Some (Suc m)" using f2 by (simp add: close_facts)
  ultimately show ?thesis using can can1 s1 s2
    by (auto simp: server_run_simps simp del: can_happen.simps server_step.simps)
qed

lemma join_all:
  "server_inv config s \<Longrightarrow> all_idle s \<Longrightarrow> rn_joined (sv_runner s) = Some m \<Longrightarrow> m \<le> worker_threads (server config) \<Longrightarrow>
    \<exists>s'. server_run R config (concat (map (\<lambda>i. [WorkerExits i, Joins]) [m..<worker_threads (server config)])) s = Some s'
      \<and> server_inv config s' \<and> all_idle s' \<and> runner_done (sv_runner s')"
proof (induction "worker_threads (server config) - m" arbitrary: s m)
  case 0
  then show ?case by (simp add: server_run_simps runner_done_def server_inv_def)
next
  case (Suc d)
  then have m: "m < worker_threads (server config)" and d: "d = worker_threads (server config) - Suc m" by simp_all
  obtain s1 where s1: "server_run R config [WorkerExits m, Joins] s = Some s1" "server_inv config s1" "all_idle s1"
    "rn_joined (sv_runner s1) = Some (Suc m)"
    using join_one [OF Suc.prems(1-3) m] by blast
  obtain s' where s': "server_run R config (concat (map (\<lambda>i. [WorkerExits i, Joins]) [Suc m..<worker_threads (server config)])) s1 = Some s'"
    "server_inv config s'" "all_idle s'" "runner_done (sv_runner s')"
    using Suc.hyps(1) [OF d s1(2-4)] m by auto
  have "[m..<worker_threads (server config)] = m # [Suc m..<worker_threads (server config)]" using m by (rule upt_conv_Cons)
  then have "server_run R config (concat (map (\<lambda>i. [WorkerExits i, Joins]) [m..<worker_threads (server config)])) s = Some s'"
    by (simp only: list.map concat.simps server_run_append s1(1) bind.bind_lunit s'(1))
  then show ?case using s' by blast
qed

lemma idle_no_live:
  assumes "all_idle s" "sv_futures s = []"
  shows "live_conns s = {#}"
proof -
  have "sum_list (map worker_live ws) = {#}" if "\<forall>w \<in> set ws. wt_channel w = [] \<and> wt_running w = {#}"
    for ws :: "('a, 'b) worker_thread list"
    using that by (induction ws) (simp_all add: worker_live_def)
  then show ?thesis using assms by (simp add: live_conns_def all_idle_def)
qed

lemma serves_workers: "serves R config s \<Longrightarrow> length (replay_workers (sv_runner s)) = worker_threads (server config)"
proof (induction rule: serves.induct)
  case serves_new
  show ?case by (simp add: server_new_def runner_new_def Let_def)
next
  case (serves_step s ev s')
  have dispatch: "length (replay_workers r') = length (replay_workers r)" if "dispatch_connection r c = Some r'"
    for r r' :: "('a, 'b) replay_runner" and c
    using that by (auto simp: dispatch_connection_def bind_eq_Some_conv)
  have read: "sv_runner t' = sv_runner t" if "header_ready R config first now arrival i t = Some t'" for first now arrival i t t'
  proof -
    obtain a res c M where "read_initial_header R first now arrival (connection_accept_timeout_s (server config))
        (snd (sv_futures t ! i)) (sv_metrics t) = Some (a, res, c, M)"
      using read_initial_header_cases [of R first now arrival "connection_accept_timeout_s (server config)"
          "snd (sv_futures t ! i)" "sv_metrics t"] by (elim exE conjE) (rule that)
    then show ?thesis using that by (cases res) (auto simp: header_ready_def split: if_splits)
  qed
  from serves_step show ?case
    by (cases ev) (auto simp: accepts_def new_from_def Let_def sends_def stream_ends_def cancels_def on_worker_def
        with_worker_def shutdown_facts join_facts(2) dest: read dispatch)
qed

subsection \<open>A concrete server\<close>

text \<open>
  Two workers. A writer of the game 5 connects, is given to the second one and is done; a client that
  sends nothing is cut off by the shutdown.
\<close>

definition demo_settings_two :: InnerSettings where
  "demo_settings_two = example_settings 2 2 1"

definition demo_reads :: "(list_reader, unit) server_event list" where
  "demo_reads =
     [Accepts (\<lambda>_. CHR ''x'') ([80, 47, 53, 47, 97, 0, 5], None) (), HeaderReady True 0 (Some 3) 0, Sends 0,
      Accepts (\<lambda>_. CHR ''y'') ([], None) ()]"

definition demo_serving :: "(list_reader, unit) connection" where
  "demo_serving = \<lparr>cn_reader = ([5], None), cn_writer = (),
     cn_header = Some \<lparr>ch_type = Writer, ch_id = 5, ch_name = [97]\<rparr>, cn_id = map (\<lambda>_. CHR ''x'') [0..<12]\<rparr>"

definition demo_serves :: "(list_reader, unit) server_event list" where
  "demo_serves =
     [WorkerReceives 1, WorkerTurn 1 (ConnectionDone demo_serving 0 (Inr ())), WorkerTurn 1 (LifetimeDone 0), Cancelled]"

abbreviation demo_server :: "(list_reader, unit) server_event list \<Rightarrow> (list_reader, unit) server_state option" where
  "demo_server evs \<equiv> server_run list_reader_ops demo_settings_two evs (server_new demo_settings_two)"

lemma demo_header:
  "read_connection_header list_reader_ops ([80, 47, 53, 47, 97, 0, 5], None)
    = Inr (\<lparr>ch_type = Writer, ch_id = 5, ch_name = [97]\<rparr>, ([5], None))"
  by (simp add: read_connection_header_def read_type_def list_reader_ops_def clip_def read_game_data_def
      read_until_exact_def upto_def fails_at_def list_rest_def list_fate_def Let_def split_slash_def
      ok_or_def from_utf8_def parse_u64_def digit_def)

lemma demo_initial:
  "read_initial_header list_reader_ops True 0 (Some 3) (7200 * NANOS)
      \<lparr>cn_reader = ([80, 47, 53, 47, 97, 0, 5], None), cn_writer = (), cn_header = None, cn_id = i\<rparr> M
    = Some (3, Inr (), set_header \<lparr>cn_reader = ([5], None), cn_writer = (), cn_header = None, cn_id = i\<rparr>
        \<lparr>ch_type = Writer, ch_id = 5, ch_name = [97]\<rparr> M)"
  by (simp add: read_initial_header_def timeout_def until_def read_and_set_connection_header_def demo_header NANOS_def)

lemmas server_eval =
  server_run_simps server_new_def runner_new_def demo_settings_two_def example_settings_def accepts_def new_from_def
  header_ready_def sends_def dispatch_connection_def worker_to_pick_def worker_dispatch_def worker_new_def can_send_def
  channel_capacity_def worker_at_def on_worker_def with_worker_def thread_receives_def thread_turn_def worker_view_def
  assign_connection_to_replay_def lookup_def insert_new_def get_header_def replays_new_def hold_def release_def
  lifetime_done_def connection_done_def cancels_def runner_shutdown_def close_worker_def remove_at_def set_header_def Let_def

lemma demo_reads_run:
  "\<exists>s. demo_server demo_reads = Some s \<and> wt_channel (worker_at 1 s) = [demo_serving] \<and> length (sv_futures s) = 1
     \<and> length (replay_workers (sv_runner s)) = 2"
  unfolding demo_reads_def
  by (simp add: server_eval demo_initial demo_serving_def cong: bind_weak option.case_cong_weak del: upt.simps upt_rec)

lemma two_workers: "replicate 2 x = [x, x]"
  by (simp add: numeral_2_eq_2)

lemma demo_serves_run:
  "\<exists>s. demo_server (demo_reads @ demo_serves) = Some s \<and> all_idle s \<and> rn_joined (sv_runner s) = Some 0"
  unfolding demo_reads_def demo_serves_def
  by (simp add: server_eval demo_initial demo_serving_def all_idle_def cong: bind_weak option.case_cong_weak del: upt.simps upt_rec)
    (simp add: two_workers)

lemma demo_serving_served: "demo_server evs = Some s \<Longrightarrow> serves list_reader_ops demo_settings_two s"
  by (rule server_run_serves [OF _ serves_new])

lemma demo_threads: "worker_threads (server demo_settings_two) = 2"
  by (simp add: demo_settings_two_def example_settings_def)

subsection \<open>Properties\<close>

text \<open>
  The server does not panic. With at least one worker, every turn of every task is a step: the
  connection that is sent to a worker has a header, the worker that it is sent to is there and
  has not exited, and what a worker receives has a header.
\<close>

theorem server_steps_return:
  assumes "serves R config s" and "0 < worker_threads (server config)" and "can_happen s ev"
  shows "\<exists>s'. server_step R config ev s = Some s'"
  using server_step_inv [OF serves_inv [OF assms(1,2)] assms(2,3)] by blast

theorem server_steps_return_witness:
  "\<exists>s s'. demo_server demo_reads = Some s \<and> server_step list_reader_ops demo_settings_two (WorkerReceives 1) s = Some s'"
proof -
  obtain s where s: "demo_server demo_reads = Some s" "wt_channel (worker_at 1 s) = [demo_serving]"
    "length (replay_workers (sv_runner s)) = 2"
    using demo_reads_run by blast
  have "can_happen s (WorkerReceives 1)" using s(2,3) by simp
  from server_steps_return [OF demo_serving_served [OF s(1)] _ this] s(1) demo_threads show ?thesis by simp
qed

text \<open>
  C39: without a worker it does. The settings may ask for no worker thread; the first connection that
  has sent its header then ends the server, where the remainder by the number of workers is taken.
\<close>

theorem no_workers_panics:
  assumes "serves R config s" and "worker_threads (server config) = 0"
    and "i < length (sv_futures s)" and "fst (sv_futures s ! i)"
  shows "can_happen s (Sends i) \<and> server_step R config (Sends i) s = None"
proof -
  have "replay_workers (sv_runner s) = []" using serves_workers [OF assms(1)] assms(2) by simp
  then have "worker_to_pick (sv_runner s) c = None" for c
    by (cases "get_header c") (simp_all add: worker_to_pick_def)
  then show ?thesis using assms(3,4) by (simp add: sends_def dispatch_connection_def)
qed

theorem no_workers_panics_witness:
  "\<exists>s. server_run list_reader_ops (example_settings 0 2 1) (take 2 demo_reads) (server_new (example_settings 0 2 1)) = Some s
     \<and> server_step list_reader_ops (example_settings 0 2 1) (Sends 0) s = None"
proof -
  obtain s where s: "server_run list_reader_ops (example_settings 0 2 1) (take 2 demo_reads) (server_new (example_settings 0 2 1)) = Some s"
    "length (sv_futures s) = 1" "fst (sv_futures s ! 0)"
    unfolding demo_reads_def
    by (simp add: server_eval demo_initial demo_serving_def cong: bind_weak option.case_cong_weak del: upt.simps upt_rec)
  have "server_step list_reader_ops (example_settings 0 2 1) (Sends 0) s = None"
    using no_workers_panics [OF server_run_serves [OF s(1) serves_new], of 0] s(2,3) by (simp add: example_settings_def)
  with s(1) show ?thesis by blast
qed

text \<open>
  C15: every connection is accounted for. The gauge of active connections has, under each label, the
  number of the connections that some task has; and a connection that was accepted is still with
  a task, or was counted as served, once, or was given up silently.
\<close>

theorem connections_accounted:
  assumes "serves R config s" and "0 < worker_threads (server config)"
  shows "(\<forall>label. ACTIVE_CONNS (sv_metrics s) label = int (size (filter_mset (\<lambda>c. header2label c = label) (live_conns s))))
    \<and> sv_accepted s = size (live_conns s) + served (sv_metrics s) + sv_silent s"
  using serves_inv [OF assms] by (simp add: server_inv_def accounted_def gauge_def)

theorem connections_accounted_witness:
  "\<exists>s. demo_server demo_reads = Some s \<and> sv_accepted s = size (live_conns s) + served (sv_metrics s) + sv_silent s"
proof -
  obtain s where s: "demo_server demo_reads = Some s" using demo_reads_run by blast
  from connections_accounted [OF demo_serving_served [OF s]] s demo_threads show ?thesis by simp
qed

text \<open>
  C14: a game is in one place. Two futures of any workers that hold replays of the same game are in
  the same worker and hold the same replay; it is the worker that the number of the game gives.
\<close>

theorem game_in_one_worker:
  assumes "serves R config s" and "0 < worker_threads (server config)"
    and "i < worker_threads (server config)" and "j < worker_threads (server config)"
    and "a \<in># wt_running (worker_at i s)" and "holds k a" and "b \<in># wt_running (worker_at j s)" and "holds l b"
    and "replay_id (wt_replays (worker_at i s)) k = replay_id (wt_replays (worker_at j s)) l"
  shows "i = j \<and> k = l \<and> replay_id (wt_replays (worker_at i s)) k mod worker_threads (server config) = i"
proof -
  note inv = serves_inv [OF assms(1,2)]
  have len: "length (replay_workers (sv_runner s)) = worker_threads (server config)" using inv by (simp add: server_inv_def)
  have held: "weak_map (wt_replays (worker_at i s)) (replay_id (wt_replays (worker_at i s)) k) = Some k
      \<and> replay_id (wt_replays (worker_at i s)) k mod worker_threads (server config) = i"
    if i: "i < worker_threads (server config)" and a: "a \<in># wt_running (worker_at i s)" "holds k a" for i a k
  proof -
    have W: "worker_inv (worker_threads (server config)) i (worker_at i s)" using server_inv_workerD [OF inv] len i by simp
    then have R: "replays_inv (worker_view (worker_at i s) metrics_new)" by (simp add: worker_inv_def)
    have "a \<in># running (worker_view (worker_at i s) metrics_new)" using a(1) by (simp add: worker_view_def)
    then have "0 < strong (wt_replays (worker_at i s)) k" using held_strong [OF R _ a(2)] by (simp add: worker_view_def)
    then have "weak_map (wt_replays (worker_at i s)) (replay_id (wt_replays (worker_at i s)) k) = Some k"
      using replays_invD(2) [OF R] by (simp add: worker_view_def)
    then show ?thesis using W by (simp add: worker_inv_def)
  qed
  have 1: "weak_map (wt_replays (worker_at i s)) (replay_id (wt_replays (worker_at i s)) k) = Some k"
    "replay_id (wt_replays (worker_at i s)) k mod worker_threads (server config) = i"
    using held [OF assms(3,5,6)] by blast+
  have 2: "weak_map (wt_replays (worker_at j s)) (replay_id (wt_replays (worker_at j s)) l) = Some l"
    "replay_id (wt_replays (worker_at j s)) l mod worker_threads (server config) = j"
    using held [OF assms(4,7,8)] by blast+
  have "i = j" using 1(2) 2(2) assms(9) by simp
  then have "Some k = Some l" using 1(1) 2(1) assms(9) by metis
  then show ?thesis using \<open>i = j\<close> 1(2) by (intro conjI) (simp_all only: option.inject)
qed

theorem game_in_one_worker_witness:
  "\<exists>s. demo_server (demo_reads @ [WorkerReceives 1]) = Some s \<and> ToNewReplay 0 \<in># wt_running (worker_at 1 s)
     \<and> replay_id (wt_replays (worker_at 1 s)) 0 mod 2 = 1"
proof -
  obtain s where s: "demo_server (demo_reads @ [WorkerReceives 1]) = Some s" "ToNewReplay 0 \<in># wt_running (worker_at 1 s)"
    unfolding demo_reads_def
    by (simp add: server_eval demo_initial demo_serving_def cong: bind_weak option.case_cong_weak del: upt.simps upt_rec)
  have "replay_id (wt_replays (worker_at 1 s)) 0 mod 2 = 1"
    using game_in_one_worker [OF demo_serving_served [OF s(1)], of 1 1 "ToNewReplay 0" 0 "ToNewReplay 0" 0] s(2) demo_threads by simp
  with s show ?thesis by blast
qed

text \<open>
  The shutdown ends. Once it was begun and the workers have nothing left to do, joining them one
  after the other brings it to its end in two steps for each; no connection is left then, all
  gauges are zero, and every connection was counted as served or given up.
\<close>

theorem server_shuts_down:
  assumes "serves R config s" and "0 < worker_threads (server config)" and "rn_joined (sv_runner s) = Some m" and "all_idle s"
  shows "\<exists>s'. server_run R config (concat (map (\<lambda>i. [WorkerExits i, Joins]) [m..<worker_threads (server config)])) s = Some s'
    \<and> runner_done (sv_runner s') \<and> live_conns s' = {#} \<and> (\<forall>label. ACTIVE_CONNS (sv_metrics s') label = 0)
    \<and> sv_accepted s' = served (sv_metrics s') + sv_silent s'"
proof -
  note inv = serves_inv [OF assms(1,2)]
  have "m \<le> worker_threads (server config)" using inv assms(3) by (simp add: server_inv_def runner_inv_def)
  then obtain s' where s': "server_run R config (concat (map (\<lambda>i. [WorkerExits i, Joins]) [m..<worker_threads (server config)])) s = Some s'"
    "server_inv config s'" "all_idle s'" "runner_done (sv_runner s')"
    using join_all [OF inv assms(4,3)] by blast
  have "live_conns s' = {#}" using s'(2-4) by (intro idle_no_live) (simp_all add: server_inv_def runner_done_def)
  then show ?thesis using s' by (auto simp: server_inv_def accounted_def gauge_def)
qed

theorem server_shuts_down_witness:
  "\<exists>s s'. demo_server (demo_reads @ demo_serves) = Some s
     \<and> server_run list_reader_ops demo_settings_two [WorkerExits 0, Joins, WorkerExits 1, Joins] s = Some s'
     \<and> runner_done (sv_runner s') \<and> sv_accepted s' = served (sv_metrics s') + sv_silent s'"
proof -
  obtain s where s: "demo_server (demo_reads @ demo_serves) = Some s" "all_idle s" "rn_joined (sv_runner s) = Some 0"
    using demo_serves_run by blast
  have "[0..<2] = [0, Suc 0]" by (simp add: upt_rec)
  with server_shuts_down [OF demo_serving_served [OF s(1)] _ s(3,2)] s(1) demo_threads show ?thesis by auto
qed

end
