(* ===== verification/Server_Types.thy ===== *)
theory Server_Types
  imports Server
begin

text \<open>
  What the connections of a server look like: wherever one is, its header, if it has one, came from its first
  bytes, and after the accept loop it has one.
\<close>

subsection \<open>Well-formed connections\<close>

definition header_typed :: "connection_header \<Rightarrow> bool" where
  "header_typed h \<longleftrightarrow> ch_id h < 2 ^ 64 \<and> valid_utf8 (ch_name h) \<and> 0 \<notin> set (ch_name h) \<and> length (ch_name h) < 1023"

definition conn_typed :: "('r, 'w) connection \<Rightarrow> bool" where
  "conn_typed c \<longleftrightarrow> (\<forall>h. cn_header c = Some h \<longrightarrow> header_typed h)"

lemma read_header_typed:
  assumes "reader_laws R rest fate" "read_connection_header R c = Inr (h, c')"
  shows "header_typed h"
proof -
  obtain c1 where c1: "read_type R c = Inr (ch_type h, c1)" "read_game_data R c1 = Inr ((ch_id h, ch_name h), c')"
    using assms(2) by (auto simp: read_connection_header_def and_then_Inr)
  obtain id_bytes where "0 \<notin> set (id_bytes @ 47 # ch_name h)" "length (id_bytes @ 47 # ch_name h) < 1024"
    "parse_u64 id_bytes = Some (ch_id h)" "valid_utf8 (ch_name h)"
    using read_game_data_spec(1) [OF assms(1) c1(2)] by blast
  then show ?thesis using parse_u64_bound by (auto simp: header_typed_def)
qed

lemma initial_header_typed:
  assumes "reader_laws R rest fate" "read_initial_header R first now arrival time c M = Some (t, Inr u, c', M')"
  shows "conn_typed c'"
proof -
  have "read_and_set_connection_header R c M = (Inr (), c', M')"
    using assms(2) by (auto simp: read_initial_header_def timeout_def until_def split: option.splits if_splits)
  then show ?thesis using read_header_typed [OF assms(1)]
    by (auto simp: read_and_set_connection_header_def set_header_def conn_typed_def Let_def split: sum.splits)
qed

subsection \<open>No step spoils one\<close>

definition all_typed :: "('r, 'w) server_state \<Rightarrow> bool" where
  "all_typed s \<longleftrightarrow> (\<forall>c \<in># live_conns s. conn_typed c)"

text \<open>The connections of the futures and those of the workers.\<close>

lemma live_conns_in:
  "c \<in># live_conns s \<longleftrightarrow> c \<in> snd ` set (sv_futures s) \<or> (\<exists>w \<in> set (replay_workers (sv_runner s)). c \<in># worker_live w)"
proof -
  have "c \<in># sum_list (map worker_live ws) \<longleftrightarrow> (\<exists>w \<in> set ws. c \<in># worker_live w)" for ws
    by (induction ws) auto
  then show ?thesis by (simp add: live_conns_def)
qed

lemma all_typed_mono:
  "all_typed s \<Longrightarrow> (\<And>c. c \<in># live_conns s' \<Longrightarrow> c \<in># live_conns s \<or> conn_typed c) \<Longrightarrow> all_typed s'"
  by (auto simp: all_typed_def)

text \<open>A worker that takes a step has at most the connections that it had.\<close>

lemma on_worker_live:
  assumes step: "on_worker i f s = Some s'"
    and f: "\<And>w M w' M'. f w M = Some (w', M') \<Longrightarrow> \<exists>D. worker_live w = worker_live w' + D"
    and c: "c \<in># live_conns s'"
  shows "c \<in># live_conns s"
proof -
  let ?ws = "replay_workers (sv_runner s)"
  obtain w M where w: "f (?ws ! i) (sv_metrics s) = Some (w, M)"
    "s' = s\<lparr>sv_runner := (sv_runner s)\<lparr>replay_workers := ?ws[i := w]\<rparr>, sv_metrics := M\<rparr>"
    using step by (auto simp: on_worker_def with_worker_def)
  obtain D where D: "worker_live (?ws ! i) = worker_live w + D" using f [OF w(1)] by blast
  show ?thesis
  proof (cases "i < length ?ws")
    case True
    have "\<exists>v \<in> set ?ws. c \<in># worker_live v" if "v' \<in> set (?ws[i := w])" "c \<in># worker_live v'" for v'
    proof -
      have "v' = w \<or> v' \<in> set ?ws" using that(1) set_update_subset_insert [of ?ws i w] by auto
      then show ?thesis using that(2) D nth_mem [OF True] by (metis union_iff)
    qed
    then show ?thesis using c by (auto simp: live_conns_in w(2))
  next
    case False
    then have "?ws[i := w] = ?ws" by (simp add: list_update_beyond)
    then show ?thesis using c by (simp add: live_conns_in w(2))
  qed
qed

lemma dispatch_live:
  assumes "dispatch_connection r c = Some r'" "w \<in> set (replay_workers r')" "d \<in># worker_live w"
  shows "d = c \<or> (\<exists>v \<in> set (replay_workers r). d \<in># worker_live v)"
proof -
  obtain k v where v: "worker_to_pick r c = Some k" "worker_dispatch (replay_workers r ! k) c = Some v"
    "r' = r\<lparr>replay_workers := (replay_workers r)[k := v]\<rparr>"
    using assms(1) by (auto simp: dispatch_connection_def bind_eq_Some_conv)
  have k: "k < length (replay_workers r)"
    using v(1) by (auto simp: worker_to_pick_def assert_that_def bind_eq_Some_conv split: if_splits)
  have "w = v \<or> w \<in> set (replay_workers r)"
    using assms(2) v(3) set_update_subset_insert [of "replay_workers r" k v] by auto
  moreover have "worker_live v = add_mset c (worker_live (replay_workers r ! k))"
    using v(2) by (auto simp: worker_dispatch_def worker_live_def split: if_splits)
  ultimately show ?thesis using assms(3) nth_mem [OF k] by auto
qed

lemma close_live:
  assumes "w \<in> set (replay_workers (close_worker i r))"
  shows "\<exists>v \<in> set (replay_workers r). worker_live w = worker_live v"
proof (cases "i < length (replay_workers r)")
  case True
  let ?v = "(replay_workers r ! i)\<lparr>wt_open := False\<rparr>"
  have "w = ?v \<or> w \<in> set (replay_workers r)"
    using assms True set_update_subset_insert [of "replay_workers r" i ?v] by (auto simp: close_worker_def)
  moreover have "worker_live ?v = worker_live (replay_workers r ! i)" by (simp add: worker_live_def)
  ultimately show ?thesis using nth_mem [OF True] by metis
qed (use assms in \<open>auto simp: close_worker_def\<close>)

lemma header_ready_typed:
  assumes laws: "reader_laws R rest fate" and inv: "all_typed s" and i: "i < length (sv_futures s)"
    and step: "header_ready R config first now arrival i s = Some s'"
  shows "all_typed s'"
proof -
  let ?c = "snd (sv_futures s ! i)"
  obtain t res c' M where r: "read_initial_header R first now arrival (connection_accept_timeout_s (server config)) ?c
      (sv_metrics s) = Some (t, res, c', M)"
    using read_initial_header_cases [of R first now arrival "connection_accept_timeout_s (server config)" ?c "sv_metrics s"]
    by (elim exE conjE) (rule that)
  show ?thesis
  proof (cases res)
    case (Inl e)
    then have "sv_futures s' = remove_at i (sv_futures s)" "sv_runner s' = sv_runner s"
      using step r by (auto simp: header_ready_def split: if_splits)
    then show ?thesis using remove_at_set [of i "sv_futures s"]
      by (intro all_typed_mono [OF inv]) (auto simp: live_conns_in)
  next
    case (Inr u)
    then have s': "sv_futures s' = (sv_futures s)[i := (True, c')]" "sv_runner s' = sv_runner s"
      using step r by (auto simp: header_ready_def)
    have "conn_typed c'" using initial_header_typed [OF laws] r Inr by blast
    then show ?thesis using s' set_update_subset_insert [of "sv_futures s" i "(True, c')"]
      by (intro all_typed_mono [OF inv]) (fastforce simp: live_conns_in)
  qed
qed

lemma server_step_typed:
  assumes laws: "reader_laws R rest fate" and inv: "all_typed s" and en: "can_happen s ev"
    and step: "server_step R config ev s = Some s'"
  shows "all_typed s'"
proof (cases ev)
  case (Accepts random r w)
  then show ?thesis using step
    by (intro all_typed_mono [OF inv])
      (force simp: live_conns_in accepts_def new_from_def conn_typed_def Let_def)
next
  case (HeaderReady first now arrival i)
  with en step have "i < length (sv_futures s)" "header_ready R config first now arrival i s = Some s'" by simp_all
  then show ?thesis by (rule header_ready_typed [OF laws inv])
next
  case (Sends i)
  then obtain r where r: "dispatch_connection (sv_runner s) (snd (sv_futures s ! i)) = Some r"
    "s' = s\<lparr>sv_futures := remove_at i (sv_futures s), sv_runner := r\<rparr>"
    using step by (auto simp: sends_def)
  have "snd (sv_futures s ! i) \<in> snd ` set (sv_futures s)" using Sends en by simp
  then show ?thesis using dispatch_live [OF r(1)] remove_at_set [of i "sv_futures s"]
    by (intro all_typed_mono [OF inv]) (auto simp: live_conns_in r(2))
next
  case StreamEnds
  then show ?thesis using step close_live
    by (intro all_typed_mono [OF inv]) (fastforce simp: live_conns_in stream_ends_def runner_shutdown_def)
next
  case Cancelled
  then show ?thesis using step close_live
    by (intro all_typed_mono [OF inv]) (fastforce simp: live_conns_in cancels_def runner_shutdown_def)
next
  case (WorkerReceives i)
  then show ?thesis using step on_worker_live [of i thread_receives s s'] thread_receives_live
    by (intro all_typed_mono [OF inv]) fastforce
next
  case (WorkerTurn i e)
  then have "\<forall>c. e \<noteq> Received c" using en by auto
  then have "\<exists>D. worker_live w = worker_live w' + D" if "thread_turn e w M = Some (w', M')"
    for w w' :: "('a, 'b) worker_thread" and M M'
    using thread_turn_live [OF that] by (cases e) auto
  then show ?thesis using WorkerTurn step on_worker_live [of i "thread_turn e" s s']
    by (intro all_typed_mono [OF inv]) simp
next
  case (WorkerExits i)
  have "\<exists>D. worker_live w = worker_live w' + D" if "map_option (\<lambda>w. (w, M)) (thread_exits w) = Some (w', M')"
    for w w' :: "('a, 'b) worker_thread" and M M' :: metrics
    using that by (auto simp: thread_exits_def worker_live_def split: if_splits)
  then show ?thesis
    using WorkerExits step on_worker_live [of i "\<lambda>w M. map_option (\<lambda>w. (w, M)) (thread_exits w)" s s']
    by (intro all_typed_mono [OF inv]) simp
next
  case Joins
  then show ?thesis using step close_live
    by (intro all_typed_mono [OF inv])
      (fastforce simp: live_conns_in runner_join_def split: option.splits if_splits)
qed

lemma serves_typed:
  assumes laws: "reader_laws R rest fate" and s: "serves R config s"
  shows "all_typed s"
  using s
proof (induction rule: serves.induct)
  case serves_new
  show ?case by (simp add: all_typed_def live_conns_def server_new_def runner_new_def worker_live_def worker_new_def)
next
  case (serves_step s ev s')
  then show ?case using server_step_typed [OF laws] by blast
qed

text \<open>A connection of a worker has a header, whose number is the worker's.\<close>

lemma worker_live_header:
  assumes W: "worker_inv n i w" and c: "c \<in># worker_live w"
  shows "\<exists>h. get_header c = Some h \<and> ch_id h mod n = i"
proof (cases "c \<in> set (wt_channel w)")
  case True
  then show ?thesis using W by (simp add: worker_inv_def)
next
  case False
  then obtain a where a: "a \<in># wt_running w" "c \<in># conns_of a" using c by (auto simp: worker_live_def)
  then obtain k where k: "ToConnection c k \<in># wt_running w" by (cases a) auto
  have R: "replays_inv (worker_view w metrics_new)" using W by (simp add: worker_inv_def)
  have run: "ToConnection c k \<in># running (worker_view w metrics_new)" using k by (simp add: worker_view_def)
  obtain h where h: "get_header c = Some h" "ch_id h = replay_id (wt_replays w) k"
    using replays_invD(4) [OF R] run by (auto simp: worker_view_def)
  have "0 < strong (wt_replays w) k" using held_strong [OF R run] by (simp add: worker_view_def)
  then have "weak_map (wt_replays w) (ch_id h) = Some k" using replays_invD(2) [OF R] h(2) by (simp add: worker_view_def)
  then show ?thesis using W h(1) by (auto simp: worker_inv_def)
qed

subsection \<open>Properties\<close>

text \<open>
  C16: connections are well formed wherever they are. Every connection that any task of the server has
  either has no header yet or one that came from its first bytes: the number of the game fits
  64 bits, and the name is valid UTF-8 without a zero byte and shorter than the limit. A connection that a
  worker has, in its channel or in a future, always has a header, and the number of its game
  leaves the index of that worker as remainder.
\<close>

theorem connections_typed:
  assumes "reader_laws R rest fate" and "serves R config s" and "0 < worker_threads (server config)"
  shows "(\<forall>c h. c \<in># live_conns s \<longrightarrow> get_header c = Some h \<longrightarrow> header_typed h)
    \<and> (\<forall>i c. i < worker_threads (server config) \<longrightarrow> c \<in># worker_live (worker_at i s) \<longrightarrow>
          (\<exists>h. get_header c = Some h \<and> header_typed h \<and> ch_id h mod worker_threads (server config) = i))"
proof -
  have inv: "server_inv config s" using serves_inv [OF assms(2,3)] .
  have typed: "header_typed h" if "c \<in># live_conns s" "get_header c = Some h" for c h
    using serves_typed [OF assms(1,2)] that by (simp add: all_typed_def conn_typed_def get_header_def)
  have "\<exists>h. get_header c = Some h \<and> header_typed h \<and> ch_id h mod worker_threads (server config) = i"
    if i: "i < worker_threads (server config)" and c: "c \<in># worker_live (worker_at i s)" for i c
  proof -
    have len: "i < length (replay_workers (sv_runner s))" using inv i by (simp add: server_inv_def)
    have "c \<in># live_conns s" using c len by (auto simp: live_conns_in worker_at_def)
    then show ?thesis using worker_live_header [OF server_inv_workerD [OF inv len] c] typed by blast
  qed
  then show ?thesis using typed by blast
qed

theorem connections_typed_witness:
  "\<exists>s h. demo_server demo_reads = Some s \<and> demo_serving \<in># worker_live (worker_at 1 s)
     \<and> get_header demo_serving = Some h \<and> header_typed h \<and> ch_id h mod 2 = 1"
proof -
  obtain s where s: "demo_server demo_reads = Some s" "wt_channel (worker_at 1 s) = [demo_serving]"
    using demo_reads_run by blast
  have "demo_serving \<in># worker_live (worker_at 1 s)" by (simp add: worker_live_def s(2) del: One_nat_def)
  with connections_typed [OF list_reader_laws demo_serving_served [OF s(1)]] s(1) demo_threads show ?thesis by auto
qed

end
