(* ===== verification/Json_Header.thy ===== *)
theory Json_Header
  imports Queries
begin

text \<open>
  \<open>ReplayJsonHeader\<close> of \<open>src/replay/save/json_header.rs\<close>: the first line of a saved replay. It is
  made of what the database knows of the game; writing it as text is up to the crate \<open>serde\<close>.
\<close>

record replay_json_header =
  jh_complete :: bool
  jh_featured_mod :: "string option"
  jh_featured_mod_versions :: mod_versions
  jh_game_end :: int
  jh_game_type :: string
  jh_host :: string
  jh_launched_at :: int
  jh_mapname :: string
  jh_num_players :: int
  jh_recorder :: string
  jh_state :: string
  jh_teams :: "(string, string list) btree"
  jh_title :: string
  jh_uid :: nat
  jh_compression :: string
  jh_version :: int

text \<open>The loop of \<open>fixup_team_dict\<close>: every entry moves over with its key as text.\<close>

function fixup_loop :: "game_teams \<Rightarrow> (string, string list) btree \<Rightarrow> (string, string list) btree" where
  "fixup_loop d out =
     (case bt_pop_first d of
        None \<Rightarrow> out
      | Some ((k, v), d) \<Rightarrow> fixup_loop d (bt_insert (show_int k) v out))"
  by pat_completeness auto

termination
  by (relation "measure (\<lambda>(d, out). length d)") (auto simp: bt_pop_first_def split: list.splits)

declare fixup_loop.simps [simp del]

definition fixup_team_dict :: "game_teams \<Rightarrow> (string, string list) btree" where
  "fixup_team_dict d = fixup_loop d []"

definition from_id_and_db ::
  "('p, 't, 'e) sqlx \<Rightarrow> ('t \<Rightarrow> int) \<Rightarrow> 't \<Rightarrow> nat \<Rightarrow> 'p \<Rightarrow> ('e save_error + replay_json_header) \<times> 'p" where
  "from_id_and_db X unix_timestamp now_utc uid p =
     (case get_game_stats X unix_timestamp now_utc uid p of
        (Inl e, p) \<Rightarrow> (Inl e, p)
      | (Inr game_stats, p) \<Rightarrow>
     (case get_teams_in_game X uid p of
        (Inl e, p) \<Rightarrow> (Inl e, p)
      | (Inr teams, p) \<Rightarrow>
     let teams = fixup_team_dict teams
     in case (case gs_featured_mod game_stats of
                None \<Rightarrow> (Inr [], p)
              | Some v \<Rightarrow> get_mod_versions X v p) of
        (Inl e, p) \<Rightarrow> (Inl e, p)
      | (Inr featured_mod_versions, p) \<Rightarrow>
          (Inr \<lparr>jh_complete = True, jh_featured_mod = gs_featured_mod game_stats,
             jh_featured_mod_versions = featured_mod_versions, jh_game_end = gs_game_end game_stats,
             jh_game_type = gs_game_type game_stats, jh_host = gs_host game_stats,
             jh_launched_at = gs_launched_at game_stats, jh_mapname = gs_mapname game_stats,
             jh_num_players = gs_num_players game_stats, jh_recorder = gs_host game_stats,
             jh_state = ''PLAYING'', jh_teams = teams, jh_title = gs_title game_stats, jh_uid = uid,
             jh_compression = ''zstd'', jh_version = 2\<rparr>, p)))"

subsection \<open>Facts\<close>

lemma fixup_loop_get:
  "distinct (map fst d) \<Longrightarrow>
    bt_get (fixup_loop d out) s =
      (case map_of (map (\<lambda>(k, v). (show_int k, v)) d) s of None \<Rightarrow> bt_get out s | Some v \<Rightarrow> Some v)"
proof (induction d arbitrary: out)
  case Nil
  then show ?case by (simp add: fixup_loop.simps bt_pop_first_def)
next
  case (Cons e d)
  obtain k v where e: "e = (k, v)" by (cases e)
  have "map_of (map (\<lambda>(k, v). (show_int k, v)) d) (show_int k) = None"
    using Cons.prems e by (force simp: map_of_eq_None_iff)
  then show ?case using Cons e
    by (subst fixup_loop.simps) (auto simp: bt_pop_first_def split: option.splits)
qed

lemma fixup_loop_ok: "bt_ok out \<Longrightarrow> bt_ok (fixup_loop d out)"
  by (induction d arbitrary: out) (subst fixup_loop.simps; auto simp: bt_pop_first_def bt_insert_ok split: prod.splits)+

lemma map_of_show_int:
  "map_of (map (\<lambda>(k, v). (show_int k, v)) d) (show_int k) = map_of d k"
  "map_of (map (\<lambda>(k, v). (show_int k, v)) d) s = Some v \<Longrightarrow> \<exists>k. s = show_int k"
  by (induction d) (auto split: if_splits)

text \<open>
  No team is lost or mixed up where their numbers become texts: under the text of a number is the
  team of that number, and nothing else is there.
\<close>

theorem teams_as_text:
  assumes "bt_ok d"
  shows "bt_ok (fixup_team_dict d) \<and> (\<forall>k. bt_get (fixup_team_dict d) (show_int k) = bt_get d k)
    \<and> fst ` set (fixup_team_dict d) = show_int ` fst ` set d"
proof -
  have g: "bt_get (fixup_team_dict d) s = map_of (map (\<lambda>(k, v). (show_int k, v)) d) s" for s
    using fixup_loop_get [OF bt_ok_distinct [OF assms], of "[]" s]
    by (simp add: fixup_team_dict_def split: option.splits)
  have ok: "bt_ok (fixup_team_dict d)" by (simp add: fixup_team_dict_def fixup_loop_ok)
  have "fst ` set (fixup_team_dict d) = dom (map_of (fixup_team_dict d))" by (simp add: dom_map_of_conv_image_fst)
  also have "\<dots> = dom (map_of (map (\<lambda>(k, v). (show_int k, v)) d))" using g by (metis bt_get_def ext)
  also have "\<dots> = show_int ` fst ` set d" by (force simp: dom_map_of_conv_image_fst)
  finally show ?thesis using ok g by (simp add: bt_get_def map_of_show_int(1))
qed

theorem teams_as_text_witness:
  "bt_get (fixup_team_dict [(-1, [''x'']), (2, [''y'']), (10, [])]) ''10'' = Some []"
proof -
  have "bt_ok [(-1::int, [''x'']), (2, [''y'']), (10, [])]" by (simp add: bt_ok_def)
  from conjunct1 [OF conjunct2 [OF teams_as_text [OF this]], rule_format, of 10] show ?thesis
    by (simp add: bt_get_def show_int_def show_nat_eval)
qed

end
