(* ===== verification/Empty_Counter.thy ===== *)
theory Empty_Counter
  imports Buf_Deque
begin

text \<open>
  \<open>EmptyCounter\<close> of \<open>src/util/empty_counter.rs\<close>: a counter on a watch channel, and the wait
  for it to have been zero for some time.

  A tokio watch channel holds one value and a version that every \<open>send\<close> advances; a receiver
  remembers the version it has seen. \<open>changed()\<close> is ready when the versions differ, and then
  marks the value as seen; it fails once the sender is gone. \<open>borrow()\<close> marks nothing.
\<close>

record channel =
  ch_value :: usize
  ch_version :: nat
  ch_closed :: bool

definition send :: "channel \<Rightarrow> usize \<Rightarrow> channel" where
  "send ch v = ch\<lparr>ch_value := v, ch_version := Suc (ch_version ch)\<rparr>"

text \<open>The counter, with the version that its own receiver has seen.\<close>

record empty_counter =
  counter :: channel
  watcher :: nat

definition ec_new :: empty_counter where
  "ec_new = \<lparr>counter = \<lparr>ch_value = 0, ch_version = 0, ch_closed = False\<rparr>, watcher = 0\<rparr>"

text \<open>
  The additions overflow: that is a panic where overflow is checked, and a wrapped value
  where it is not. The theorems show that it does not happen.
\<close>

definition ec_inc :: "empty_counter \<Rightarrow> empty_counter option" where
  "ec_inc c =
     do {
       let old = ch_value (counter c);
       assert_that (old < usize_max);
       Some (c\<lparr>counter := send (counter c) (old + 1)\<rparr>)
     }"

definition ec_dec :: "empty_counter \<Rightarrow> empty_counter option" where
  "ec_dec c =
     do {
       let old = ch_value (counter c);
       assert_that (0 < old);
       Some (c\<lparr>counter := send (counter c) (old - 1)\<rparr>)
     }"

definition ec_count :: "empty_counter \<Rightarrow> usize" where
  "ec_count c = ch_value (counter c)"

subsection \<open>Waiting\<close>

text \<open>
  A poll of \<open>await_new_count\<close>: \<open>None\<close> if it is not ready, else its result and the version that
  has been seen.
\<close>

definition await_new_count :: "channel \<Rightarrow> nat \<Rightarrow> (usize option \<times> nat) option" where
  "await_new_count ch seen =
     (if ch_version ch \<noteq> seen then Some (Some (ch_value ch), ch_version ch)
      else if ch_closed ch then Some (None, seen)
      else None)"

text \<open>
  Where the future waits: it has not been polled yet; in \<open>await_new_count\<close>; in the \<open>select!\<close>,
  whose sleep ends at a time; or it has returned.
\<close>

datatype wait_phase = NotStarted | Changing | Sleeping nat | Returned

record waiter =
  wt_watcher :: nat
  wt_timeout :: nat
  wt_phase :: wait_phase

definition wait_until_empty_for :: "empty_counter \<Rightarrow> nat \<Rightarrow> waiter" where
  "wait_until_empty_for c time = \<lparr>wt_watcher = watcher c, wt_timeout = time, wt_phase = NotStarted\<rparr>"

definition wait_until_empty :: "empty_counter \<Rightarrow> waiter" where
  "wait_until_empty c = wait_until_empty_for c 0"

text \<open>The head of the \<open>while\<close> loop, up to its next await.\<close>

definition wait_head :: "nat \<Rightarrow> usize option \<Rightarrow> waiter \<Rightarrow> waiter" where
  "wait_head now last_count w =
     (case last_count of
        None \<Rightarrow> w\<lparr>wt_phase := Returned\<rparr>
      | Some n \<Rightarrow>
          if n \<noteq> 0 then w\<lparr>wt_phase := Changing\<rparr>
          else w\<lparr>wt_phase := Sleeping (now + wt_timeout w)\<rparr>)"

text \<open>
  One await of the future that is ready, and the way to the next one; \<open>None\<close> if it is
  pending. \<open>select!\<close> polls its branches in a random order: \<open>first\<close> says whether it starts with
  the count.
\<close>

definition wait_step :: "bool \<Rightarrow> nat \<Rightarrow> channel \<Rightarrow> waiter \<Rightarrow> waiter option" where
  "wait_step first now ch w =
     (case wt_phase w of
        NotStarted \<Rightarrow> Some (wait_head now (Some (ch_value ch)) w)
      | Changing \<Rightarrow>
          map_option (\<lambda>(r, seen). wait_head now r (w\<lparr>wt_watcher := seen\<rparr>)) (await_new_count ch (wt_watcher w))
      | Sleeping deadline \<Rightarrow>
          (let count_branch = map_option (\<lambda>(r, seen). wait_head now r (w\<lparr>wt_watcher := seen\<rparr>))
                 (await_new_count ch (wt_watcher w));
               sleep_branch = (if deadline \<le> now
                 then Some (wait_head now (if ch_value ch \<noteq> 0 then Some (ch_value ch) else None) w)
                 else None)
           in case (if first then count_branch else sleep_branch) of
                Some w' \<Rightarrow> Some w'
              | None \<Rightarrow> (if first then sleep_branch else count_branch))
      | Returned \<Rightarrow> None)"

subsection \<open>Facts\<close>

lemma send_simps [simp]:
  "ch_value (send ch v) = v" "ch_version (send ch v) = Suc (ch_version ch)"
  "ch_closed (send ch v) = ch_closed ch"
  by (simp_all add: send_def)

lemma ec_simps [simp]:
  "ec_count ec_new = 0" "ch_closed (counter ec_new) = False"
  by (simp_all add: ec_count_def ec_new_def)

lemma ec_inc_simp: "ec_inc c = Some c' \<longleftrightarrow>
    ec_count c < usize_max \<and> c' = c\<lparr>counter := send (counter c) (ec_count c + 1)\<rparr>"
  by (auto simp: ec_inc_def ec_count_def Let_def)

lemma ec_dec_simp: "ec_dec c = Some c' \<longleftrightarrow>
    0 < ec_count c \<and> c' = c\<lparr>counter := send (counter c) (ec_count c - 1)\<rparr>"
  by (auto simp: ec_dec_def ec_count_def Let_def)

lemma wait_head_Returned: "wt_phase (wait_head now r w) = Returned \<longleftrightarrow> r = None"
  by (simp add: wait_head_def split: option.split)

lemma wait_head_timeout [simp]: "wt_timeout (wait_head now r w) = wt_timeout w"
  by (simp add: wait_head_def split: option.split)

lemma wait_head_watcher [simp]: "wt_watcher (wait_head now r w) = wt_watcher w"
  by (simp add: wait_head_def split: option.split)

text \<open>
  While the sender lives, the wait returns only in an instant in which the counter is zero and
  only from its sleep, after the sleep has ended.
\<close>

lemma await_new_count_open:
  "\<not> ch_closed ch \<Longrightarrow> await_new_count ch seen = Some (r, seen') \<Longrightarrow>
   r = Some (ch_value ch) \<and> seen' = ch_version ch \<and> ch_version ch \<noteq> seen"
  by (simp add: await_new_count_def split: if_splits)

lemma wait_step_Returned:
  assumes "wait_step first now ch w = Some w'" "\<not> ch_closed ch" "wt_phase w' = Returned"
  shows "ch_value ch = 0 \<and> (\<exists>deadline. wt_phase w = Sleeping deadline \<and> deadline \<le> now)"
  using assms
  by (auto simp: wait_step_def Let_def wait_head_Returned split: wait_phase.splits if_splits option.splits
      dest!: await_new_count_open)

subsection \<open>A wait in time\<close>

text \<open>
  A counter and one task that waits for it, with the clock and a log of what was sent when. A
  task that is ready runs before time goes on.
\<close>

record wait_system =
  ws_now :: nat
  ws_counter :: empty_counter
  ws_waiter :: waiter
  ws_log :: "(nat \<times> usize) list"

datatype wait_event = Inc | Dec | Turn bool | Tick

definition wait_start :: "nat \<Rightarrow> empty_counter \<Rightarrow> nat \<Rightarrow> wait_system" where
  "wait_start now c time =
     \<lparr>ws_now = now, ws_counter = c, ws_waiter = wait_until_empty_for c time, ws_log = []\<rparr>"

definition ready :: "wait_system \<Rightarrow> bool" where
  "ready s \<longleftrightarrow> wait_step True (ws_now s) (counter (ws_counter s)) (ws_waiter s) \<noteq> None"

definition ws_send :: "empty_counter \<Rightarrow> wait_system \<Rightarrow> wait_system" where
  "ws_send c s = s\<lparr>ws_counter := c, ws_log := ws_log s @ [(ws_now s, ec_count c)]\<rparr>"

fun ws_step :: "wait_event \<Rightarrow> wait_system \<Rightarrow> wait_system option" where
  "ws_step Inc s = map_option (\<lambda>c. ws_send c s) (ec_inc (ws_counter s))"
| "ws_step Dec s = map_option (\<lambda>c. ws_send c s) (ec_dec (ws_counter s))"
| "ws_step (Turn first) s =
     map_option (\<lambda>w. s\<lparr>ws_waiter := w\<rparr>) (wait_step first (ws_now s) (counter (ws_counter s)) (ws_waiter s))"
| "ws_step Tick s = (if ready s then None else Some (s\<lparr>ws_now := Suc (ws_now s)\<rparr>))"

inductive waits :: "nat \<Rightarrow> empty_counter \<Rightarrow> nat \<Rightarrow> wait_system \<Rightarrow> bool" for now0 c0 time where
  waits_start: "waits now0 c0 time (wait_start now0 c0 time)"
| waits_step: "waits now0 c0 time s \<Longrightarrow> ws_step ev s = Some s' \<Longrightarrow> waits now0 c0 time s'"

text \<open>The value of the counter at the end of an instant, from the log.\<close>

definition value_at :: "usize \<Rightarrow> (nat \<times> usize) list \<Rightarrow> nat \<Rightarrow> usize" where
  "value_at v0 log t = last (v0 # map snd (filter (\<lambda>e. fst e \<le> t) log))"

text \<open>
  While the task sleeps until \<open>d\<close>, the log splits into what was sent before the sleep began,
  which left the counter at zero, and what was sent in this very instant and has not been
  noticed.
\<close>

definition sleeping_inv :: "nat \<Rightarrow> usize \<Rightarrow> wait_system \<Rightarrow> nat \<Rightarrow> bool" where
  "sleeping_inv now0 v0 s d \<longleftrightarrow>
     (let time = wt_timeout (ws_waiter s) in
      now0 + time \<le> d \<and> d - time \<le> ws_now s \<and> ws_now s \<le> d \<and>
      (\<exists>old new. ws_log s = old @ new \<and> last (v0 # map snd old) = 0 \<and>
         (\<forall>e \<in> set old. fst e \<le> d - time) \<and> (\<forall>e \<in> set new. fst e = ws_now s) \<and>
         (ch_version (counter (ws_counter s)) = wt_watcher (ws_waiter s) \<longrightarrow> new = [])))"

definition waiting_inv :: "nat \<Rightarrow> empty_counter \<Rightarrow> nat \<Rightarrow> wait_system \<Rightarrow> bool" where
  "waiting_inv now0 c0 time s \<longleftrightarrow>
     now0 \<le> ws_now s \<and> wt_timeout (ws_waiter s) = time \<and> \<not> ch_closed (counter (ws_counter s)) \<and>
     wt_watcher (ws_waiter s) \<le> ch_version (counter (ws_counter s)) \<and>
     (\<forall>e \<in> set (ws_log s). fst e \<le> ws_now s) \<and>
     ec_count (ws_counter s) = last (ec_count c0 # map snd (ws_log s)) \<and>
     (case wt_phase (ws_waiter s) of
        Sleeping d \<Rightarrow> sleeping_inv now0 (ec_count c0) s d
      | Changing \<Rightarrow> ch_version (counter (ws_counter s)) = wt_watcher (ws_waiter s) \<longrightarrow> ec_count (ws_counter s) \<noteq> 0
      | _ \<Rightarrow> True)"

lemma waiting_inv_start:
  assumes "\<not> ch_closed (counter c)" "watcher c \<le> ch_version (counter c)"
  shows "waiting_inv now c time (wait_start now c time)"
  using assms by (simp add: waiting_inv_def wait_start_def wait_until_empty_for_def)

lemma sleeping_inv_send:
  assumes "sleeping_inv now0 v0 s d" "ch_version (counter c) \<noteq> wt_watcher (ws_waiter s)"
  shows "sleeping_inv now0 v0 (ws_send c s) d"
proof -
  obtain old new where on: "ws_log s = old @ new" "last (v0 # map snd old) = 0"
    "\<forall>e \<in> set old. fst e \<le> d - wt_timeout (ws_waiter s)" "\<forall>e \<in> set new. fst e = ws_now s"
    using assms(1) unfolding sleeping_inv_def Let_def by blast
  show ?thesis
    unfolding sleeping_inv_def Let_def
  proof (intro conjI exI)
    show "ws_log (ws_send c s) = old @ (new @ [(ws_now s, ec_count c)])" by (simp add: ws_send_def on(1))
  qed (use assms on in \<open>auto simp: ws_send_def sleeping_inv_def Let_def\<close>)
qed

lemma waiting_inv_send:
  assumes inv: "waiting_inv now0 c0 time s"
    and c: "c = (ws_counter s)\<lparr>counter := send (counter (ws_counter s)) v\<rparr>"
  shows "waiting_inv now0 c0 time (ws_send c s)"
proof -
  have new: "ch_version (counter c) \<noteq> wt_watcher (ws_waiter s)"
    "wt_watcher (ws_waiter s) \<le> ch_version (counter c)" "\<not> ch_closed (counter c)"
    using inv c by (simp_all add: waiting_inv_def)
  have fields: "ws_now (ws_send c s) = ws_now s" "ws_waiter (ws_send c s) = ws_waiter s"
    "ws_counter (ws_send c s) = c" "ws_log (ws_send c s) = ws_log s @ [(ws_now s, ec_count c)]"
    by (simp_all add: ws_send_def)
  have "case wt_phase (ws_waiter s) of
        Sleeping d \<Rightarrow> sleeping_inv now0 (ec_count c0) (ws_send c s) d
      | Changing \<Rightarrow> ch_version (counter c) = wt_watcher (ws_waiter s) \<longrightarrow> ec_count c \<noteq> 0
      | _ \<Rightarrow> True"
    using inv new(1) sleeping_inv_send [OF _ new(1)]
    by (simp add: waiting_inv_def split: wait_phase.splits)
  then show ?thesis using inv new unfolding waiting_inv_def fields by auto
qed

text \<open>Whatever the task does next, a sleep that it begins now begins in a zero instant.\<close>

lemma waiting_inv_head:
  assumes inv: "waiting_inv now0 c0 time s" and w: "wt_watcher w \<le> ch_version (counter (ws_counter s))"
    "wt_timeout w = time"
  shows "waiting_inv now0 c0 time (s\<lparr>ws_waiter := wait_head (ws_now s) (Some (ec_count (ws_counter s))) w\<rparr>)"
proof (cases "ec_count (ws_counter s) = 0")
  case True
  let ?s = "s\<lparr>ws_waiter := w\<lparr>wt_phase := Sleeping (ws_now s + wt_timeout w)\<rparr>\<rparr>"
  have "last (ec_count c0 # map snd (ws_log s)) = 0" "\<forall>e \<in> set (ws_log s). fst e \<le> ws_now s" "now0 \<le> ws_now s"
    using inv True by (simp_all add: waiting_inv_def)
  then have "sleeping_inv now0 (ec_count c0) ?s (ws_now s + wt_timeout w)"
    unfolding sleeping_inv_def Let_def by (intro conjI exI [of _ "ws_log s"] exI [of _ "[]"]) simp_all
  then show ?thesis using inv w True by (simp add: waiting_inv_def wait_head_def)
next
  case False
  then show ?thesis using inv w by (simp add: waiting_inv_def wait_head_def)
qed

lemma waiting_inv_turn:
  assumes inv: "waiting_inv now0 c0 time s"
    and turn: "wait_step first (ws_now s) (counter (ws_counter s)) (ws_waiter s) = Some w"
  shows "waiting_inv now0 c0 time (s\<lparr>ws_waiter := w\<rparr>)"
proof -
  let ?ch = "counter (ws_counter s)" and ?w = "ws_waiter s"
  have s: "\<not> ch_closed ?ch" "wt_watcher ?w \<le> ch_version ?ch" "wt_timeout ?w = time" "ec_count (ws_counter s) = ch_value ?ch"
    using inv by (simp_all add: waiting_inv_def ec_count_def)
  have "\<exists>v. v \<le> ch_version ?ch \<and> (w = wait_head (ws_now s) (Some (ch_value ?ch)) (?w\<lparr>wt_watcher := v\<rparr>)
      \<or> w = wait_head (ws_now s) None ?w)"
    using turn s(1,2) exI [of _ "wt_watcher ?w"] exI [of _ "ch_version ?ch"]
    by (fastforce simp: wait_step_def await_new_count_def Let_def split: wait_phase.splits if_splits option.splits)
  then obtain v where v: "v \<le> ch_version ?ch"
    "w = wait_head (ws_now s) (Some (ch_value ?ch)) (?w\<lparr>wt_watcher := v\<rparr>) \<or> w = wait_head (ws_now s) None ?w"
    by blast
  show ?thesis
  proof (cases "w = wait_head (ws_now s) None ?w")
    case True
    then show ?thesis using inv by (simp add: waiting_inv_def wait_head_def)
  next
    case False
    then show ?thesis using v s(3,4) waiting_inv_head [OF inv, of "?w\<lparr>wt_watcher := v\<rparr>"] by simp
  qed
qed

lemma not_ready_seen:
  assumes "\<not> ready s" "wt_phase (ws_waiter s) \<notin> {NotStarted, Returned}"
  shows "ch_version (counter (ws_counter s)) = wt_watcher (ws_waiter s)
    \<and> (\<forall>d. wt_phase (ws_waiter s) = Sleeping d \<longrightarrow> ws_now s < d)"
  using assms
  by (auto simp: ready_def wait_step_def await_new_count_def Let_def split: wait_phase.splits option.splits if_splits)

lemma waiting_inv_tick:
  assumes inv: "waiting_inv now0 c0 time s" and "\<not> ready s"
  shows "waiting_inv now0 c0 time (s\<lparr>ws_now := Suc (ws_now s)\<rparr>)"
proof -
  have "sleeping_inv now0 (ec_count c0) (s\<lparr>ws_now := Suc (ws_now s)\<rparr>) d" if d: "wt_phase (ws_waiter s) = Sleeping d" for d
  proof -
    have seen: "ch_version (counter (ws_counter s)) = wt_watcher (ws_waiter s)" "ws_now s < d"
      using not_ready_seen [OF assms(2)] d by auto
    have "sleeping_inv now0 (ec_count c0) s d" using inv d by (simp add: waiting_inv_def)
    then have "sleeping_inv now0 (ec_count c0) s d"
      "last (ec_count c0 # map snd (ws_log s)) = 0" "\<forall>e \<in> set (ws_log s). fst e \<le> d - wt_timeout (ws_waiter s)"
      using seen(1) unfolding sleeping_inv_def Let_def by auto
    then show ?thesis using seen unfolding sleeping_inv_def Let_def
      by (intro conjI exI [of _ "ws_log s"] exI [of _ "[]"]) auto
  qed
  moreover have "\<forall>e \<in> set (ws_log s). fst e \<le> Suc (ws_now s)" "now0 \<le> Suc (ws_now s)"
    using inv by (auto simp: waiting_inv_def)
  ultimately show ?thesis using inv by (auto simp: waiting_inv_def split: wait_phase.splits)
qed

lemma waits_inv:
  assumes "waits now0 c0 time s" "\<not> ch_closed (counter c0)" "watcher c0 \<le> ch_version (counter c0)"
  shows "waiting_inv now0 c0 time s"
  using assms
proof induction
  case waits_start
  then show ?case by (rule waiting_inv_start)
next
  case (waits_step s ev s')
  then have inv: "waiting_inv now0 c0 time s" by simp
  show ?case
  proof (cases ev)
    case Inc
    then show ?thesis using waits_step.hyps(2) waiting_inv_send [OF inv] by (auto simp: ec_inc_simp)
  next
    case Dec
    then show ?thesis using waits_step.hyps(2) waiting_inv_send [OF inv] by (auto simp: ec_dec_simp)
  next
    case (Turn first)
    then show ?thesis using waits_step.hyps(2) waiting_inv_turn [OF inv] by auto
  next
    case Tick
    then show ?thesis using waits_step.hyps(2) waiting_inv_tick [OF inv] by (auto split: if_splits)
  qed
qed

subsection \<open>Properties\<close>

lemma wait_over_quiet:
  assumes "waits now0 c0 time s" and "\<not> ch_closed (counter c0)" and "watcher c0 \<le> ch_version (counter c0)"
    and "ws_step (Turn first) s = Some s'" and "wt_phase (ws_waiter s') = Returned"
  shows "ec_count (ws_counter s') = 0 \<and> now0 + time \<le> ws_now s'
    \<and> (\<forall>t. ws_now s' - time \<le> t \<and> t < ws_now s' \<longrightarrow> value_at (ec_count c0) (ws_log s') t = 0)"
proof -
  have inv: "waiting_inv now0 c0 time s" by (rule waits_inv [OF assms(1-3)])
  obtain w where w: "wait_step first (ws_now s) (counter (ws_counter s)) (ws_waiter s) = Some w"
    "s' = s\<lparr>ws_waiter := w\<rparr>" "wt_phase w = Returned"
    using assms(4,5) by auto
  have open': "\<not> ch_closed (counter (ws_counter s))" using inv by (simp add: waiting_inv_def)
  obtain d where d: "wt_phase (ws_waiter s) = Sleeping d" "d \<le> ws_now s" "ch_value (counter (ws_counter s)) = 0"
    using wait_step_Returned [OF w(1) open' w(3)] by blast
  have sl: "sleeping_inv now0 (ec_count c0) s d" and tm: "wt_timeout (ws_waiter s) = time"
    using inv d(1) by (simp_all add: waiting_inv_def)
  have dn: "now0 + time \<le> d" "ws_now s = d"
    using sl d(2) unfolding tm [symmetric] sleeping_inv_def Let_def by simp_all
  obtain old new where on: "ws_log s = old @ new" "last (ec_count c0 # map snd old) = 0"
    "\<forall>e \<in> set old. fst e \<le> d - time" "\<forall>e \<in> set new. fst e = ws_now s"
    using sl unfolding tm [symmetric] sleeping_inv_def Let_def by blast
  have "value_at (ec_count c0) (ws_log s) t = 0" if "ws_now s - time \<le> t" "t < ws_now s" for t
  proof -
    have "filter (\<lambda>e. fst e \<le> t) old = old" "filter (\<lambda>e. fst e \<le> t) new = []"
      using on(3,4) dn that by (auto simp: filter_id_conv filter_empty_conv)
    then show ?thesis using on(1,2) by (simp add: value_at_def)
  qed
  then show ?thesis using w(2) d(3) dn by (simp add: ec_count_def)
qed

text \<open>
  C32: the wait returns only when it may. In the instant in which it returns the counter is
  zero, the time to wait for has passed since the call, and the counter was zero at the end
  of every instant of that time.
\<close>

theorem empty_wait_quiet:
  assumes "waits now0 c0 time s" and "\<not> ch_closed (counter c0)" and "watcher c0 \<le> ch_version (counter c0)"
    and "ws_step (Turn first) s = Some s'" and "wt_phase (ws_waiter s') = Returned"
  shows "ec_count (ws_counter s') = 0 \<and> now0 + time \<le> ws_now s'
    \<and> (\<forall>t. ws_now s' - time \<le> t \<and> t < ws_now s' \<longrightarrow> value_at (ec_count c0) (ws_log s') t = 0)"
  by (rule wait_over_quiet [OF assms])

text \<open>A run over a list of events, for concrete instances.\<close>

definition ws_run :: "wait_event list \<Rightarrow> wait_system \<Rightarrow> wait_system option" where
  "ws_run evs s = foldM ws_step evs s"

lemma ws_run_waits: "ws_run evs s = Some s' \<Longrightarrow> waits now0 c0 time s \<Longrightarrow> waits now0 c0 time s'"
proof (induction evs arbitrary: s)
  case (Cons ev evs)
  then obtain t where "ws_step ev s = Some t" "ws_run evs t = Some s'"
    unfolding ws_run_def foldM.simps bind_eq_Some_conv by blast
  then show ?case using Cons.IH Cons.prems(2) waits_step by blast
qed (simp add: ws_run_def)

text \<open>A writer comes and goes in the first instant: the wait begins anew, and lasts until 3.\<close>

definition demo_wait :: "wait_event list" where
  "demo_wait = [Turn True, Tick, Inc, Turn False, Dec, Turn True, Tick, Tick]"

lemma demo_wait_run:
  "\<exists>s s'. ws_run demo_wait (wait_start 0 ec_new 2) = Some s \<and> ws_step (Turn True) s = Some s'
     \<and> wt_phase (ws_waiter s') = Returned \<and> ws_now s' = 3 \<and> ws_log s' = [(1, 1), (1, 0)]
     \<and> ws_now s = 3 \<and> ec_count (ws_counter s) = 0"
  by (simp add: demo_wait_def ws_run_def wait_start_def wait_until_empty_for_def ec_new_def wait_step_def
      wait_head_def await_new_count_def ready_def ws_send_def ec_count_def ec_inc_def ec_dec_def
      usize_max_def Let_def)

theorem empty_wait_quiet_witness:
  "\<exists>s s'. ws_run demo_wait (wait_start 0 ec_new 2) = Some s \<and> ws_step (Turn True) s = Some s'
     \<and> ec_count (ws_counter s') = 0 \<and> ws_log s' = [(1, 1), (1, 0)] \<and> value_at 0 (ws_log s') 1 = 0"
proof -
  obtain s s' where s: "ws_run demo_wait (wait_start 0 ec_new 2) = Some s" "ws_step (Turn True) s = Some s'"
    "wt_phase (ws_waiter s') = Returned" "ws_now s' = 3" "ws_log s' = [(1, 1), (1, 0)]"
    using demo_wait_run by blast
  have "ec_count (ws_counter s') = 0 \<and> 0 + 2 \<le> ws_now s'
    \<and> (\<forall>t. ws_now s' - 2 \<le> t \<and> t < ws_now s' \<longrightarrow> value_at (ec_count ec_new) (ws_log s') t = 0)"
    by (rule empty_wait_quiet [OF ws_run_waits [OF s(1) waits_start] _ _ s(2,3)]) (simp_all add: ec_new_def)
  then show ?thesis using s by auto
qed

text \<open>The task and the clock alone, with nothing sent any more.\<close>

fun idle_run :: "bool \<Rightarrow> nat \<Rightarrow> wait_system \<Rightarrow> wait_system" where
  "idle_run first 0 s = s"
| "idle_run first (Suc n) s =
     (if wt_phase (ws_waiter s) = Returned then s
      else case ws_step (Turn first) s of
        Some s' \<Rightarrow> idle_run first n s'
      | None \<Rightarrow> idle_run first n (s\<lparr>ws_now := Suc (ws_now s)\<rparr>))"

definition returns_by :: "bool \<Rightarrow> nat \<Rightarrow> nat \<Rightarrow> wait_system \<Rightarrow> bool" where
  "returns_by first n t s \<longleftrightarrow>
     wt_phase (ws_waiter (idle_run first n s)) = Returned \<and> ws_now (idle_run first n s) \<le> t"

lemma returns_by_turn:
  "ws_step (Turn first) s = Some s' \<Longrightarrow> wt_phase (ws_waiter s) \<noteq> Returned \<Longrightarrow>
   returns_by first n t s' \<Longrightarrow> returns_by first (Suc n) t s"
  by (simp add: returns_by_def del: ws_step.simps)

lemma returns_by_tick:
  "ws_step (Turn first) s = None \<Longrightarrow> wt_phase (ws_waiter s) \<noteq> Returned \<Longrightarrow>
   returns_by first n t (s\<lparr>ws_now := Suc (ws_now s)\<rparr>) \<Longrightarrow> returns_by first (Suc n) t s"
  by (simp add: returns_by_def del: ws_step.simps)

lemma returns_by_Returned: "wt_phase (ws_waiter s) = Returned \<Longrightarrow> ws_now s \<le> t \<Longrightarrow> returns_by first n t s"
  by (cases n) (simp_all add: returns_by_def)

text \<open>A sleep that has noticed everything lasts until its end.\<close>

lemma returns_from_sleep:
  assumes "wt_phase (ws_waiter s) = Sleeping d" "ws_now s \<le> d" "ec_count (ws_counter s) = 0"
    "ch_version (counter (ws_counter s)) = wt_watcher (ws_waiter s)" "\<not> ch_closed (counter (ws_counter s))"
  shows "returns_by first (Suc (d - ws_now s)) d s"
  using assms
proof (induction "d - ws_now s" arbitrary: s)
  case 0
  then show ?case
    by (intro returns_by_turn [of first s "s\<lparr>ws_waiter := (ws_waiter s)\<lparr>wt_phase := Returned\<rparr>\<rparr>"] returns_by_Returned)
      (simp_all add: wait_step_def await_new_count_def wait_head_def ec_count_def Let_def)
next
  case (Suc k)
  have "returns_by first (Suc (d - ws_now (s\<lparr>ws_now := Suc (ws_now s)\<rparr>))) d (s\<lparr>ws_now := Suc (ws_now s)\<rparr>)"
    using Suc.hyps(2) Suc.prems by (intro Suc.hyps(1)) auto
  moreover have "d - ws_now s = Suc (d - ws_now (s\<lparr>ws_now := Suc (ws_now s)\<rparr>))" using Suc.hyps(2) by simp
  ultimately show ?case using Suc.prems Suc.hyps(2)
    by (intro returns_by_tick) (auto simp: wait_step_def await_new_count_def Let_def split: option.splits)
qed

text \<open>Noticing a zero counter begins such a sleep.\<close>

lemma returns_from_zero:
  assumes "wt_phase w = Sleeping (ws_now s + time)" "wt_watcher w = ch_version (counter (ws_counter s))"
    "ec_count (ws_counter s) = 0" "\<not> ch_closed (counter (ws_counter s))"
  shows "\<exists>n. returns_by first n (ws_now s + time) (s\<lparr>ws_waiter := w\<rparr>)"
  using returns_from_sleep [of "s\<lparr>ws_waiter := w\<rparr>" "ws_now s + time" first] assms by auto

lemma returns_unseen:
  assumes "wt_phase (ws_waiter s) = Changing \<or> (\<exists>d. wt_phase (ws_waiter s) = Sleeping d \<and> ws_now s < d) \<or>
      (\<exists>d. wt_phase (ws_waiter s) = Sleeping d \<and> first)"
    "ch_version (counter (ws_counter s)) \<noteq> wt_watcher (ws_waiter s)" "wt_timeout (ws_waiter s) = time"
    "ec_count (ws_counter s) = 0" "\<not> ch_closed (counter (ws_counter s))"
  shows "\<exists>n. returns_by first n (ws_now s + time) s"
proof -
  let ?w = "(ws_waiter s)\<lparr>wt_watcher := ch_version (counter (ws_counter s)), wt_phase := Sleeping (ws_now s + time)\<rparr>"
  have "ws_step (Turn first) s = Some (s\<lparr>ws_waiter := ?w\<rparr>)"
    using assms by (auto simp: wait_step_def await_new_count_def wait_head_def ec_count_def Let_def)
  then show ?thesis using returns_from_zero [of ?w s time first] assms returns_by_turn by fastforce
qed

lemma returns_sleeping:
  assumes t: "wt_phase (ws_waiter t) = Sleeping d" "ws_now t \<le> d" "d \<le> ws_now t + time" "ec_count (ws_counter t) = 0"
    "\<not> ch_closed (counter (ws_counter t))" "wt_timeout (ws_waiter t) = time"
  shows "\<exists>n. returns_by first n (ws_now t + time) t"
proof (cases "ch_version (counter (ws_counter t)) = wt_watcher (ws_waiter t)")
  case True
  then show ?thesis using returns_from_sleep [OF t(1,2,4) True t(5), of first] t(3)
    unfolding returns_by_def by (meson le_trans)
next
  case unseen: False
  show ?thesis
  proof (cases "ws_now t < d \<or> first")
    case True
    then show ?thesis using returns_unseen [of t first time] t unseen by blast
  next
    case False
    then have "ws_step (Turn first) t = Some (t\<lparr>ws_waiter := (ws_waiter t)\<lparr>wt_phase := Returned\<rparr>\<rparr>)"
      using t by (simp add: wait_step_def wait_head_def ec_count_def Let_def)
    then have "returns_by first (Suc 0) (ws_now t + time) t"
      using t(1) by (intro returns_by_turn returns_by_Returned) auto
    then show ?thesis by blast
  qed
qed

text \<open>
  C33: the wait does return. From any state that it reaches, if the counter is zero and nothing
  is sent any more, it returns before more than its time has passed.
\<close>

theorem empty_wait_returns:
  assumes "waits now0 c0 time s" and "\<not> ch_closed (counter c0)" and "watcher c0 \<le> ch_version (counter c0)"
    and "ec_count (ws_counter s) = 0"
  shows "\<exists>n. wt_phase (ws_waiter (idle_run first n s)) = Returned \<and> ws_now (idle_run first n s) \<le> ws_now s + time"
proof -
  have inv: "waiting_inv now0 c0 time s" by (rule waits_inv [OF assms(1-3)])
  let ?ch = "counter (ws_counter s)"
  have s: "\<not> ch_closed ?ch" "wt_timeout (ws_waiter s) = time" using inv by (simp_all add: waiting_inv_def)
  have "\<exists>n. returns_by first n (ws_now s + time) s"
  proof (cases "wt_phase (ws_waiter s)")
    case NotStarted
    let ?s = "s\<lparr>ws_waiter := (ws_waiter s)\<lparr>wt_phase := Sleeping (ws_now s + time)\<rparr>\<rparr>"
    have "ws_step (Turn first) s = Some ?s"
      using NotStarted s assms(4) by (simp add: wait_step_def wait_head_def ec_count_def)
    then show ?thesis
      using returns_sleeping [of ?s "ws_now s + time" time first] s assms(4) NotStarted returns_by_turn by fastforce
  next
    case Changing
    then have "ch_version ?ch \<noteq> wt_watcher (ws_waiter s)" using inv assms(4) by (auto simp: waiting_inv_def)
    then show ?thesis using returns_unseen [of s first time] s assms(4) Changing by blast
  next
    case (Sleeping d)
    then have "ws_now s \<le> d \<and> d \<le> ws_now s + time" using inv s
      by (auto simp: waiting_inv_def sleeping_inv_def Let_def)
    then show ?thesis using returns_sleeping [OF Sleeping] s assms(4) by blast
  next
    case Returned
    then show ?thesis using returns_by_Returned [of s "ws_now s + time" first 0] by auto
  qed
  then show ?thesis unfolding returns_by_def .
qed

theorem empty_wait_returns_witness:
  "\<exists>s n. ws_run demo_wait (wait_start 0 ec_new 2) = Some s
     \<and> wt_phase (ws_waiter (idle_run False n s)) = Returned \<and> ws_now (idle_run False n s) \<le> 5"
proof -
  obtain s where s: "ws_run demo_wait (wait_start 0 ec_new 2) = Some s" "ws_now s = 3" "ec_count (ws_counter s) = 0"
    using demo_wait_run by blast
  have "\<exists>n. wt_phase (ws_waiter (idle_run False n s)) = Returned \<and> ws_now (idle_run False n s) \<le> ws_now s + 2"
    by (rule empty_wait_returns [OF ws_run_waits [OF s(1) waits_start] _ _ s(3)]) (simp_all add: ec_new_def)
  then show ?thesis using s by auto
qed

end
