(* ===== verification/Replay_Lifecycle.thy ===== *)
theory Replay_Lifecycle
  imports Merge_Run Empty_Counter Live_Connection Config
begin

text \<open>
  \<open>Replay\<close> of \<open>src/replay/replay.rs\<close> with \<open>ReplaySender\<close> of \<open>src/replay/send/sender.rs\<close>: one game
  from its first connection to its end. The tasks are the lifetime of the replay, its forced
  timeout, one task per writer (the merger's) and one per reader. Each is cut at its await
  points; a world is the replay with the clock, the metrics and the record of what was sent.
\<close>

subsection \<open>State\<close>

text \<open>
  Where \<open>regular_lifetime\<close> waits: it has not begun; for the writers to have been gone for a while;
  for the last writer to leave; for the replay to be saved; for the last reader; or it is over.
\<close>

datatype lifetime = NotRunning | NoWriters waiter | Draining waiter | Saving | NoReaders waiter | Ended

datatype forced_end = NotArmed | Armed nat | TimeoutOver

record game_replay =
  rp_id :: nat
  rp_merger :: "strategy merger"
  rp_readers :: "task \<rightharpoonup> mreplay_reader \<times> byte list"
  rp_cancelled :: bool
  writer_count :: empty_counter
  reader_count :: empty_counter
  quiet_time :: duration
  forced_time :: duration
  should_stop :: bool
  rp_lifetime :: lifetime
  rp_timeout :: forced_end

text \<open>
  \<open>Replay::new\<close>. The token is a child of the one of the server: it is cancelled if that one is.
  The saver is used by \<open>lifetime_turn\<close> below only as a task that takes its time.
\<close>

definition replay_new :: "nat \<Rightarrow> bool \<Rightarrow> InnerSettings \<Rightarrow> game_replay" where
  "replay_new rid shutdown config =
     \<lparr>rp_id = rid,
      rp_merger = replay_merger_new (merge_quorum_size (replay config)) (stream_comparison_distance_b (replay config))
        (delay_s (replay config)) (update_interval_s (replay config)),
      rp_readers = Map.empty, rp_cancelled = shutdown, writer_count = ec_new, reader_count = ec_new,
      quiet_time = time_with_zero_writers_to_end_replay_s (replay config),
      forced_time = forced_timeout_s (replay config), should_stop = False,
      rp_lifetime = NotRunning, rp_timeout = NotArmed\<rparr>"

definition replay_fmt :: "game_replay \<Rightarrow> string" where
  "replay_fmt r = ''Replay '' @ show_nat (rp_id r)"

subsection \<open>The lifetime\<close>

text \<open>
  A wait that is over lets \<open>regular_lifetime\<close> go on to its next await: \<open>Left\<close> is a wait that is
  not over yet, with its new state.
\<close>

definition poll_wait :: "bool \<Rightarrow> nat \<Rightarrow> empty_counter \<Rightarrow> waiter \<Rightarrow> waiter + unit" where
  "poll_wait first now c w =
     (case wait_step first now (counter c) w of
        None \<Rightarrow> Inl w
      | Some w' \<Rightarrow> if wt_phase w' = Returned then Inr () else Inl w')"

text \<open>\<open>wait_until_there_were_no_writers_for_a_while\<close>: the wait races against the token.\<close>

definition no_writers_turn :: "bool \<Rightarrow> nat \<Rightarrow> game_replay \<Rightarrow> waiter \<Rightarrow> waiter + unit" where
  "no_writers_turn first now r w =
     (if rp_cancelled r then Inr () else poll_wait first now (writer_count r) w)"

text \<open>The end of the time in which connections are accepted.\<close>

definition stop_accepting :: "game_replay \<Rightarrow> game_replay" where
  "stop_accepting r = r\<lparr>should_stop := True, rp_lifetime := Draining (wait_until_empty (writer_count r))\<rparr>"

definition lifetime_turn ::
  "bool \<Rightarrow> nat \<Rightarrow> game_replay \<Rightarrow> metrics \<Rightarrow> (game_replay \<times> metrics) option" where
  "lifetime_turn first now r M =
     (case rp_lifetime r of
        NotRunning \<Rightarrow>
          Some (r\<lparr>rp_lifetime := NoWriters (wait_until_empty_for (writer_count r) (quiet_time r))\<rparr>,
                M\<lparr>RUNNING_REPLAYS := RUNNING_REPLAYS M + 1\<rparr>)
      | NoWriters w \<Rightarrow>
          (case no_writers_turn first now r w of
             Inl w' \<Rightarrow> Some (r\<lparr>rp_lifetime := NoWriters w'\<rparr>, M)
           | Inr _ \<Rightarrow> Some (stop_accepting r, M))
      | Draining w \<Rightarrow>
          (case poll_wait first now (writer_count r) w of
             Inl w' \<Rightarrow> Some (r\<lparr>rp_lifetime := Draining w'\<rparr>, M)
           | Inr _ \<Rightarrow> do {
               m \<leftarrow> merger_finalize quorum_ops (rp_merger r);
               Some (r\<lparr>rp_merger := m, rp_lifetime := Saving\<rparr>, M)
             })
      | Saving \<Rightarrow> Some (r, M)
      | NoReaders w \<Rightarrow>
          (case poll_wait first now (reader_count r) w of
             Inl w' \<Rightarrow> Some (r\<lparr>rp_lifetime := NoReaders w'\<rparr>, M)
           | Inr _ \<Rightarrow>
               Some (r\<lparr>rp_cancelled := True, rp_lifetime := Ended\<rparr>,
                     M\<lparr>RUNNING_REPLAYS := RUNNING_REPLAYS M - 1, FINISHED_REPLAYS := FINISHED_REPLAYS M + 1\<rparr>))
      | Ended \<Rightarrow> Some (r, M))"

text \<open>\<open>save_replay\<close> has returned.\<close>

definition save_done :: "game_replay \<Rightarrow> game_replay" where
  "save_done r = r\<lparr>rp_lifetime := NoReaders (wait_until_empty (reader_count r))\<rparr>"

text \<open>
  \<open>Replay::timeout\<close>: the sleep races against the token that it would cancel. Its first poll is two
  turns, one that begins the sleep and one that looks at both.
\<close>

definition timeout_turn :: "nat \<Rightarrow> game_replay \<Rightarrow> game_replay" where
  "timeout_turn now r =
     (case rp_timeout r of
        NotArmed \<Rightarrow> r\<lparr>rp_timeout := Armed (now + forced_time r)\<rparr>
      | Armed d \<Rightarrow>
          if rp_cancelled r then r\<lparr>rp_timeout := TimeoutOver\<rparr>
          else if d \<le> now then r\<lparr>rp_cancelled := True, rp_timeout := TimeoutOver\<rparr>
          else r
      | TimeoutOver \<Rightarrow> r)"

definition lifetime_over :: "game_replay \<Rightarrow> bool" where
  "lifetime_over r \<longleftrightarrow> rp_lifetime r = Ended \<and> rp_timeout r = TimeoutOver"

subsection \<open>Connections\<close>

text \<open>
  \<open>handle_connection\<close> up to its first await: a refusal is its result already. A reader's task is
  named \<open>k\<close>.
\<close>

definition handle_connection ::
  "ceil_quotient \<Rightarrow> (nat \<Rightarrow> nat \<Rightarrow> iteration) \<Rightarrow> ('r, 'w) connection \<Rightarrow> task \<Rightarrow> game_replay \<Rightarrow>
   (unit conn_result option \<times> game_replay) option" where
  "handle_connection cq its c k r =
     (if should_stop r then Some (Some (Inl CannotAssignToReplay), r)
      else do {
        h \<leftarrow> get_header c;
        (case ch_type h of
           Writer \<Rightarrow> do {
             n \<leftarrow> ec_inc (writer_count r);
             m \<leftarrow> merger_step quorum_ops cq its (rp_merger r) Connect;
             Some (None, r\<lparr>writer_count := n, rp_merger := m\<rparr>)
           }
         | Reader \<Rightarrow> do {
             n \<leftarrow> ec_inc (reader_count r);
             Some (None, r\<lparr>reader_count := n, rp_readers := (rp_readers r)(k \<mapsto> (rd_new, []))\<rparr>)
           })
      })"

text \<open>The merger has ended the connection of a writer; the connection was served.\<close>

definition writer_ends ::
  "ceil_quotient \<Rightarrow> (nat \<Rightarrow> nat \<Rightarrow> iteration) \<Rightarrow> nat \<Rightarrow> game_replay \<Rightarrow> game_replay option" where
  "writer_ends cq its t r =
     do {
       m \<leftarrow> merger_step quorum_ops cq its (rp_merger r) (ConnEnd t);
       n \<leftarrow> ec_dec (writer_count r);
       Some (r\<lparr>rp_merger := m, writer_count := n\<rparr>)
     }"

text \<open>
  \<open>ReplaySender\<close>: one read of \<open>tokio::io::copy\<close> into a buffer with \<open>cap\<close> bytes of room, which are
  then written to the connection; and the end of the copy, for whatever reason.
\<close>

definition reader_polls ::
  "ceil_quotient \<Rightarrow> (nat \<Rightarrow> nat \<Rightarrow> iteration) \<Rightarrow> task \<Rightarrow> usize \<Rightarrow> game_replay \<Rightarrow> game_replay option" where
  "reader_polls cq its k cap r =
     do {
       (rd, out) \<leftarrow> rp_readers r k;
       c \<leftarrow> merger_get_merged_replay quorum_ops (rp_merger r);
       (p, bs, rd, _) \<leftarrow> poll_read rd c k cap;
       m \<leftarrow> (case p of
           Pending \<Rightarrow> merger_step quorum_ops cq its (rp_merger r) (ReaderWaits k)
         | Ready \<Rightarrow> Some (rp_merger r));
       Some (r\<lparr>rp_merger := m, rp_readers := (rp_readers r)(k \<mapsto> (rd, out @ bs))\<rparr>)
     }"

definition reader_ends :: "task \<Rightarrow> game_replay \<Rightarrow> game_replay option" where
  "reader_ends k r =
     do {
       n \<leftarrow> ec_dec (reader_count r);
       Some (r\<lparr>reader_count := n, rp_readers := (rp_readers r)(k := None)\<rparr>)
     }"

subsection \<open>Schedules\<close>

text \<open>
  The world keeps two records of the past: what every writer sent, and how many writers there
  were after each change, with its time.
\<close>

record replay_world =
  w_now :: nat
  w_replay :: game_replay
  w_metrics :: metrics
  w_sent :: history
  w_writers :: "(nat \<times> usize) list"

datatype ('r, 'w) replay_event =
    Arrives "('r, 'w) connection" task
  | WriterStep conn_event
  | WriterEnds nat
  | ReaderPolls task usize
  | ReaderEnds task
  | LifetimeTurn bool
  | SaveDone
  | TimeoutTurn
  | Shutdown
  | TimePasses

text \<open>
  When a step can happen. A connection that arrives has its header; task names are fresh. The
  steps of a writer between its start and its end are those of the merger.
\<close>

fun writer_event :: "conn_event \<Rightarrow> bool" where
  "writer_event (HeaderRead t h) = True"
| "writer_event (DataRead t buf) = True"
| "writer_event (DelayTurn t) = True"
| "writer_event _ = False"

text \<open>The lifetime's task is ready: time does not pass before it has run.\<close>

definition wait_ready :: "nat \<Rightarrow> empty_counter \<Rightarrow> waiter \<Rightarrow> bool" where
  "wait_ready now c w \<longleftrightarrow> wait_step True now (counter c) w \<noteq> None"

definition lifetime_ready :: "nat \<Rightarrow> game_replay \<Rightarrow> bool" where
  "lifetime_ready now r =
     (case rp_lifetime r of
        NotRunning \<Rightarrow> True
      | NoWriters w \<Rightarrow> rp_cancelled r \<or> wait_ready now (writer_count r) w
      | Draining w \<Rightarrow> wait_ready now (writer_count r) w
      | NoReaders w \<Rightarrow> wait_ready now (reader_count r) w
      | _ \<Rightarrow> False)"

text \<open>The replay of a world changes, and perhaps the number of writers.\<close>

definition note_writers :: "replay_world \<Rightarrow> game_replay \<Rightarrow> replay_world" where
  "note_writers w r =
     w\<lparr>w_replay := r,
       w_writers := w_writers w @ (if writer_count r = writer_count (w_replay w) then []
         else [(w_now w, ec_count (writer_count r))])\<rparr>"

fun possible :: "replay_world \<Rightarrow> ('r, 'w) replay_event \<Rightarrow> bool" where
  "possible w (Arrives c k) = (get_header c \<noteq> None \<and> rp_readers (w_replay w) k = None
     \<and> ec_count (writer_count (w_replay w)) < usize_max \<and> ec_count (reader_count (w_replay w)) < usize_max)"
| "possible w (WriterStep ev) = (writer_event ev \<and> enabled (rp_merger (w_replay w)) ev)"
| "possible w (WriterEnds t) = (mg_tasks (rp_merger (w_replay w)) t \<noteq> None)"
| "possible w (ReaderPolls k cap) = (rp_readers (w_replay w) k \<noteq> None)"
| "possible w (ReaderEnds k) = (rp_readers (w_replay w) k \<noteq> None)"
| "possible w SaveDone = (rp_lifetime (w_replay w) = Saving)"
| "possible w TimePasses = (\<not> lifetime_ready (w_now w) (w_replay w))"
| "possible w _ = True"

fun replay_step ::
  "ceil_quotient \<Rightarrow> (nat \<Rightarrow> nat \<Rightarrow> iteration) \<Rightarrow> ('r, 'w) replay_event \<Rightarrow> replay_world \<Rightarrow> replay_world option" where
  "replay_step cq its (Arrives c k) w =
     map_option (\<lambda>(_, r). note_writers w r) (handle_connection cq its c k (w_replay w))"
| "replay_step cq its (WriterStep ev) w =
     map_option (\<lambda>m. w\<lparr>w_replay := (w_replay w)\<lparr>rp_merger := m\<rparr>, w_sent := sent ev (w_sent w)\<rparr>)
       (merger_step quorum_ops cq its (rp_merger (w_replay w)) ev)"
| "replay_step cq its (WriterEnds t) w =
     map_option (\<lambda>r. note_writers w r) (writer_ends cq its t (w_replay w))"
| "replay_step cq its (ReaderPolls k cap) w =
     map_option (\<lambda>r. w\<lparr>w_replay := r\<rparr>) (reader_polls cq its k cap (w_replay w))"
| "replay_step cq its (ReaderEnds k) w =
     map_option (\<lambda>r. w\<lparr>w_replay := r\<rparr>) (reader_ends k (w_replay w))"
| "replay_step cq its (LifetimeTurn first) w =
     map_option (\<lambda>(r, M). w\<lparr>w_replay := r, w_metrics := M\<rparr>)
       (lifetime_turn first (w_now w) (w_replay w) (w_metrics w))"
| "replay_step cq its SaveDone w = Some (w\<lparr>w_replay := save_done (w_replay w)\<rparr>)"
| "replay_step cq its TimeoutTurn w = Some (w\<lparr>w_replay := timeout_turn (w_now w) (w_replay w)\<rparr>)"
| "replay_step cq its Shutdown w = Some (w\<lparr>w_replay := (w_replay w)\<lparr>rp_cancelled := True\<rparr>\<rparr>)"
| "replay_step cq its TimePasses w = Some (w\<lparr>w_now := Suc (w_now w)\<rparr>)"

definition world_new :: "nat \<Rightarrow> bool \<Rightarrow> InnerSettings \<Rightarrow> nat \<Rightarrow> metrics \<Rightarrow> replay_world" where
  "world_new rid shutdown config now M =
     \<lparr>w_now = now, w_replay = replay_new rid shutdown config, w_metrics = M, w_sent = (\<lambda>_. []),
       w_writers = []\<rparr>"

inductive lives :: "ceil_quotient \<Rightarrow> replay_world \<Rightarrow> ('r, 'w) replay_event list \<Rightarrow> replay_world \<Rightarrow> bool"
  for cq w0 where
  lives_new: "lives cq w0 [] w0"
| lives_step: "lives cq w0 evs w \<Longrightarrow> possible w ev \<Longrightarrow> (\<forall>n. orders_ok (its n)) \<Longrightarrow>
    replay_step cq its ev w = Some w' \<Longrightarrow> lives cq w0 (evs @ [ev]) w'"

subsection \<open>What a step of the merger does to its tasks and its stream\<close>

abbreviation game_merging ::
  "ceil_quotient \<Rightarrow> InnerSettings \<Rightarrow> strategy merger \<Rightarrow> history \<Rightarrow> bool" where
  "game_merging cq config m H \<equiv> merging cq (merge_quorum_size (replay config))
     (stream_comparison_distance_b (replay config)) (delay_s (replay config)) (update_interval_s (replay config)) m H"

definition config_ok :: "ceil_quotient \<Rightarrow> InnerSettings \<Rightarrow> bool" where
  "config_ok cq config \<longleftrightarrow> settings_ok cq (merge_quorum_size (replay config)) (delay_s (replay config))
     (update_interval_s (replay config))"

lemma merging_visible:
  assumes "settings_ok cq tq ds ss" "merging cq tq cmp ds ss m H"
  shows "\<exists>c. canonical m = Some c \<and> mr_visible c (visible_bytes c) \<and> \<not> mr_finished c"
proof -
  obtain s C where s: "shared_inv s H C" "canonical m = Some (canonical_stream s)"
    using merging_inv [OF assms] by blast
  then show ?thesis using visible_bytes_rep [of "canonical_stream s" C] by (simp add: shared_inv_def)
qed

lemma merging_step_visible:
  assumes "settings_ok cq tq ds ss" "merging cq tq cmp ds ss m H" "enabled m ev" "\<forall>n. orders_ok (its n)"
  shows "\<exists>m' c c'. merger_step quorum_ops cq its m ev = Some m' \<and> merging cq tq cmp ds ss m' (sent ev H)
    \<and> canonical m = Some c \<and> canonical m' = Some c' \<and> mr_visible c' (visible_bytes c') \<and> \<not> mr_finished c'
    \<and> prefix (visible_bytes c) (visible_bytes c')"
proof -
  obtain m' c c' where m': "merger_step quorum_ops cq its m ev = Some m'" "merging cq tq cmp ds ss m' (sent ev H)"
    "canonical m = Some c" "canonical m' = Some c'" "mr_rep c (merged_bytes c)" "mr_rep c' (merged_bytes c')"
    "mr_header c = None \<longrightarrow> merged_bytes c = []"
    "prefix (merged_bytes c) (merged_bytes c')" "view_evolves c c' \<or> only_waits c c'"
    using merging_step [OF assms] by (elim exE conjE) (rule that)
  have "prefix (visible_bytes c) (visible_bytes c')"
    using visible_grows [OF m'(5,6,8,9,7)] by (simp add: visible_bytes_def)
  then show ?thesis using m' merging_visible [OF assms(1) m'(2)] by auto
qed

lemma finalized_visible:
  assumes "settings_ok cq tq ds ss" "merging cq tq cmp ds ss m H" "mg_tasks m = Map.empty"
  shows "\<exists>m' c c'. merger_finalize quorum_ops m = Some m' \<and> canonical m = Some c \<and> canonical m' = Some c'
    \<and> mr_visible c' (visible_bytes c') \<and> mr_finished c' \<and> mg_tasks m' = Map.empty
    \<and> prefix (visible_bytes c) (visible_bytes c') \<and> visible_bytes c' = header_bytes c' @ merged_bytes c'
    \<and> (\<forall>t. length (H t) \<le> length (merged_bytes c') \<or>
        (\<exists>p < min (length (H t)) (length (merged_bytes c')). H t ! p \<noteq> merged_bytes c' ! p))"
proof -
  obtain m' c where m': "merger_finalize quorum_ops m = Some m'" "canonical m = Some c"
    "canonical m' = Some (mr_finish c)" "visible_bytes (mr_finish c) = header_bytes c @ merged_bytes c"
    "\<forall>t. length (H t) \<le> length (merged_bytes c) \<or>
        (\<exists>p < min (length (H t)) (length (merged_bytes c)). H t ! p \<noteq> merged_bytes c ! p)"
    using finalize_all_ended [OF assms] by blast
  obtain s C where s: "shared_inv s H C" "c = canonical_stream s" using merging_inv [OF assms(1,2)] m'(2) by auto
  then have rep: "mr_rep (mr_finish c) C" by (simp add: shared_inv_def mr_rep_def stream_simps)
  have same: "header_bytes (mr_finish c) = header_bytes c" "merged_bytes (mr_finish c) = merged_bytes c"
    by (simp_all add: header_bytes_def merged_bytes_def stream_simps)
  have "prefix (visible_bytes c) (visible_bytes (mr_finish c))"
    unfolding m'(4) by (simp add: visible_bytes_def mr_stream_def take_is_prefix)
  moreover have "mg_tasks m' = Map.empty"
    using m'(1) assms(3) by (auto simp: merger_finalize_def split: bind_splits)
  ultimately show ?thesis using m' visible_bytes_rep [OF rep] same by (auto simp: stream_simps)
qed

lemma writer_step_tasks:
  assumes "merger_step quorum_ops cq its m ev = Some m'" "writer_event ev" "enabled m ev"
  shows "dom (mg_tasks m') = dom (mg_tasks m)"
proof (cases ev)
  case (HeaderRead t h)
  then have "mg_tasks m' = (mg_tasks m)(t \<mapsto> ReadingData None)" "t \<in> dom (mg_tasks m)"
    using assms by (auto simp: conn_header_def bind_eq_Some_conv)
  then show ?thesis by auto
next
  case (DataRead t buf)
  then have "mg_tasks m' = mg_tasks m" using assms(1) by (auto simp: conn_data_def bind_eq_Some_conv)
  then show ?thesis by simp
next
  case (DelayTurn t)
  then obtain r where r: "mg_tasks m t = Some (ReadingData r)"
    using assms(3) by (auto split: option.splits conn_phase.splits)
  then have "conn_tick quorum_ops cq (its 0) m t r = Some m'" using DelayTurn assms(1) by simp
  then obtain d where "mg_tasks m' = (mg_tasks m)(t \<mapsto> ReadingData (Some d))"
    unfolding conn_tick_def bind_eq_Some_conv by (auto simp: bind_eq_Some_conv)
  then show ?thesis using r by auto
qed (use assms(2) in simp_all)

lemma end_step_tasks:
  "merger_step quorum_ops cq its m (ConnEnd t) = Some m' \<Longrightarrow> mg_tasks m' = (mg_tasks m)(t := None)"
  by (auto simp: conn_end_def bind_eq_Some_conv)

lemma wait_step_tasks:
  "merger_step quorum_ops cq its m (ReaderWaits k) = Some m' \<Longrightarrow> mg_tasks m' = mg_tasks m"
  by (auto simp: reader_wait_def bind_eq_Some_conv)

lemma connect_tasks:
  assumes "settings_ok cq tq ds ss" "merging cq tq cmp ds ss m H" "\<forall>n. orders_ok (its n)"
    "merger_step quorum_ops cq its m Connect = Some m'"
  shows "\<exists>t. mg_tasks m t = None \<and> dom (mg_tasks m') = insert t (dom (mg_tasks m))"
proof -
  let ?q = "mg_strategy m"
  obtain C where C: "strategy_inv {} {} ?q H C" "tasks_ok quorum_ops (strategy_tokens ?q) m H"
    using merging_inv [OF assms(1,2)] by blast
  have "H (strategy_tokens ?q) = []" "mg_tasks m (strategy_tokens ?q) = None"
    using C(2) by (auto simp: tasks_ok_def)
  then show ?thesis
    using qms.replay_added [OF C(1), of "its 0"] assms(3,4) by (fastforce simp: conn_start_def)
qed

subsection \<open>The invariant\<close>

definition stopped :: "lifetime \<Rightarrow> bool" where
  "stopped l = (case l of NotRunning \<Rightarrow> False | NoWriters _ \<Rightarrow> False | _ \<Rightarrow> True)"

definition merged_over :: "lifetime \<Rightarrow> bool" where
  "merged_over l = (case l of Saving \<Rightarrow> True | NoReaders _ \<Rightarrow> True | Ended \<Rightarrow> True | _ \<Rightarrow> False)"

definition counts_tasks :: "empty_counter \<Rightarrow> ('k \<rightharpoonup> 'v) \<Rightarrow> bool" where
  "counts_tasks c tasks \<longleftrightarrow> finite (dom tasks) \<and> ec_count c = card (dom tasks) \<and> \<not> ch_closed (counter c)"

definition readers_ok :: "(task \<rightharpoonup> mreplay_reader \<times> byte list) \<Rightarrow> byte list \<Rightarrow> bool" where
  "readers_ok rs zs \<longleftrightarrow> (\<forall>k rd out. rs k = Some (rd, out) \<longrightarrow> reader_ok rd out zs)"

definition merger_state :: "ceil_quotient \<Rightarrow> InnerSettings \<Rightarrow> bool \<Rightarrow> strategy merger \<Rightarrow> history \<Rightarrow> bool" where
  "merger_state cq config over m H \<longleftrightarrow>
     (\<exists>m0. game_merging cq config m0 H \<and>
        (if over then mg_tasks m0 = Map.empty \<and> merger_finalize quorum_ops m0 = Some m else m = m0))"

definition replay_inv :: "ceil_quotient \<Rightarrow> InnerSettings \<Rightarrow> replay_world \<Rightarrow> bool" where
  "replay_inv cq config w \<longleftrightarrow>
     (let r = w_replay w in
      merger_state cq config (merged_over (rp_lifetime r)) (rp_merger r) (w_sent w) \<and>
      counts_tasks (writer_count r) (mg_tasks (rp_merger r)) \<and>
      counts_tasks (reader_count r) (rp_readers r) \<and>
      should_stop r = stopped (rp_lifetime r) \<and>
      (\<exists>c. canonical (rp_merger r) = Some c \<and> mr_visible c (visible_bytes c) \<and>
         mr_finished c = merged_over (rp_lifetime r) \<and> readers_ok (rp_readers r) (visible_bytes c)) \<and>
      (rp_lifetime r = Ended \<longrightarrow> rp_readers r = Map.empty \<and> rp_cancelled r))"

lemma replay_inv_note: "replay_inv cq config (note_writers w r) = replay_inv cq config (w\<lparr>w_replay := r\<rparr>)"
  by (simp add: replay_inv_def note_writers_def Let_def)

lemma replay_invD:
  assumes "replay_inv cq config w"
  shows "merger_state cq config (merged_over (rp_lifetime (w_replay w))) (rp_merger (w_replay w)) (w_sent w)"
    "counts_tasks (writer_count (w_replay w)) (mg_tasks (rp_merger (w_replay w)))"
    "counts_tasks (reader_count (w_replay w)) (rp_readers (w_replay w))"
    "should_stop (w_replay w) = stopped (rp_lifetime (w_replay w))"
    "\<exists>c. canonical (rp_merger (w_replay w)) = Some c \<and> mr_visible c (visible_bytes c) \<and>
       mr_finished c = merged_over (rp_lifetime (w_replay w)) \<and> readers_ok (rp_readers (w_replay w)) (visible_bytes c)"
    "rp_lifetime (w_replay w) = Ended \<Longrightarrow> rp_readers (w_replay w) = Map.empty \<and> rp_cancelled (w_replay w)"
  using assms unfolding replay_inv_def Let_def by blast+

text \<open>The tasks of the merger when the merging is over.\<close>

lemma merger_stateD:
  assumes "merger_state cq config over m H" "config_ok cq config"
  shows "over \<Longrightarrow> mg_tasks m = Map.empty" "\<not> over \<Longrightarrow> game_merging cq config m H"
  using assms by (auto simp: merger_state_def merger_finalize_def split: bind_splits)

lemma merged_over_stopped: "merged_over l \<Longrightarrow> stopped l"
  by (auto simp: merged_over_def stopped_def split: lifetime.splits)

subsection \<open>Counting\<close>

lemma counts_tasks_inc:
  assumes "counts_tasks c tasks" "ec_count c < usize_max" "dom tasks' = insert k (dom tasks)" "tasks k = None"
  shows "\<exists>c'. ec_inc c = Some c' \<and> counts_tasks c' tasks'"
  using assms by (auto simp: counts_tasks_def ec_inc_simp ec_count_def domIff)

lemma counts_tasks_dec:
  assumes "counts_tasks c tasks" "tasks k \<noteq> None"
  shows "\<exists>c'. ec_dec c = Some c' \<and> counts_tasks c' (tasks(k := None))"
proof -
  have "0 < card (dom tasks)" using assms by (auto simp: counts_tasks_def card_gt_0_iff)
  moreover have "k \<in> dom tasks" using assms(2) by auto
  ultimately show ?thesis using assms(1)
    by (auto simp: counts_tasks_def ec_dec_simp ec_count_def card_Diff_singleton)
qed

lemma counts_tasks_cong: "counts_tasks c tasks \<Longrightarrow> dom tasks' = dom tasks \<Longrightarrow> counts_tasks c tasks'"
  by (simp add: counts_tasks_def)

lemma poll_wait_zero:
  assumes "poll_wait first now c w = Inr u" "counts_tasks c tasks"
  shows "tasks = Map.empty"
proof -
  obtain w' where "wait_step first now (counter c) w = Some w'" "wt_phase w' = Returned"
    using assms(1) by (auto simp: poll_wait_def split: option.splits if_splits)
  then have "ec_count c = 0"
    using wait_step_Returned assms(2) unfolding counts_tasks_def ec_count_def by blast
  then have "card (dom tasks) = 0" "finite (dom tasks)" using assms(2) by (simp_all add: counts_tasks_def)
  then show ?thesis by simp
qed

lemma readers_ok_grow: "readers_ok rs zs \<Longrightarrow> prefix zs zs' \<Longrightarrow> readers_ok rs zs'"
  unfolding readers_ok_def using reader_ok_grow by blast

subsection \<open>Every step keeps the invariant\<close>

lemma replay_inv_new:
  assumes "config_ok cq config"
  shows "replay_inv cq config (world_new rid shutdown config now M)"
proof -
  let ?m = "rp_merger (replay_new rid shutdown config)"
  have run: "game_merging cq config ?m (\<lambda>_. [])"
    unfolding replay_new_def by (simp add: reached_init)
  obtain c where "canonical ?m = Some c" "mr_visible c (visible_bytes c)" "\<not> mr_finished c"
    using merging_visible [OF assms [unfolded config_ok_def] run] by blast
  then show ?thesis using run
    by (simp add: replay_inv_def world_new_def replay_new_def merger_state_def merged_over_def stopped_def
        counts_tasks_def readers_ok_def replay_merger_new_def merger_new_def)
qed

lemma arrives_inv:
  assumes ok: "config_ok cq config" and inv: "replay_inv cq config w" and ords: "\<forall>n. orders_ok (its n)"
    and c: "get_header c \<noteq> None" "rp_readers (w_replay w) k = None"
      "ec_count (writer_count (w_replay w)) < usize_max" "ec_count (reader_count (w_replay w)) < usize_max"
  shows "\<exists>w'. replay_step cq its (Arrives c k) w = Some w' \<and> replay_inv cq config w'"
proof (cases "should_stop (w_replay w)")
  case True
  then show ?thesis using inv by (simp add: handle_connection_def replay_inv_note)
next
  case False
  let ?r = "w_replay w"
  note D = replay_invD [OF inv]
  have over: "\<not> merged_over (rp_lifetime ?r)" using False D(4) merged_over_stopped by auto
  have run: "game_merging cq config (rp_merger ?r) (w_sent w)" by (rule merger_stateD(2) [OF D(1) ok over])
  obtain h where h: "get_header c = Some h" using c(1) by blast
  show ?thesis
  proof (cases "ch_type h")
    case Reader
    have "dom ((rp_readers ?r)(k \<mapsto> (rd_new, []))) = insert k (dom (rp_readers ?r))" by simp
    then obtain n where n: "ec_inc (reader_count ?r) = Some n"
      "counts_tasks n ((rp_readers ?r)(k \<mapsto> (rd_new, [])))"
      using counts_tasks_inc [OF D(3) c(4) _ c(2)] by blast
    have "readers_ok ((rp_readers ?r)(k \<mapsto> (rd_new, []))) zs" if "readers_ok (rp_readers ?r) zs" for zs
      using that by (simp add: readers_ok_def reader_ok_new)
    then show ?thesis using False h Reader n D over
      by (auto simp: handle_connection_def note_writers_def replay_inv_def Let_def merged_over_def)
  next
    case Writer
    obtain m c1 c2 where m: "merger_step quorum_ops cq its (rp_merger ?r) Connect = Some m"
      "game_merging cq config m (w_sent w)" "canonical (rp_merger ?r) = Some c1" "canonical m = Some c2"
      "mr_visible c2 (visible_bytes c2)" "\<not> mr_finished c2" "prefix (visible_bytes c1) (visible_bytes c2)"
      using merging_step_visible [OF ok [unfolded config_ok_def] run _ ords, of Connect] by auto
    obtain t where "mg_tasks (rp_merger ?r) t = None" "dom (mg_tasks m) = insert t (dom (mg_tasks (rp_merger ?r)))"
      using connect_tasks [OF ok [unfolded config_ok_def] run ords m(1)] by blast
    then obtain n where n: "ec_inc (writer_count ?r) = Some n" "counts_tasks n (mg_tasks m)"
      using counts_tasks_inc [OF D(2) c(3)] by blast
    have "readers_ok (rp_readers ?r) (visible_bytes c2)"
      using D(5) m(3,7) readers_ok_grow by fastforce
    then show ?thesis using False h Writer n m D over
      by (auto simp: handle_connection_def note_writers_def replay_inv_def Let_def merger_state_def merged_over_def
          simp del: merger_step.simps)
  qed
qed

text \<open>A step of the merger, with its counter, in a replay whose merging goes on.\<close>

lemma merger_moves_inv:
  assumes ok: "config_ok cq config" and inv: "replay_inv cq config w" and ords: "\<forall>n. orders_ok (its n)"
    and over: "\<not> merged_over (rp_lifetime (w_replay w))" and en: "enabled (rp_merger (w_replay w)) ev"
  shows "\<exists>m. merger_step quorum_ops cq its (rp_merger (w_replay w)) ev = Some m
    \<and> (counts_tasks n (mg_tasks m) \<longrightarrow>
        replay_inv cq config (w\<lparr>w_replay := (w_replay w)\<lparr>rp_merger := m, writer_count := n\<rparr>, w_sent := sent ev (w_sent w)\<rparr>))"
proof -
  let ?r = "w_replay w"
  note D = replay_invD [OF inv]
  have run: "game_merging cq config (rp_merger ?r) (w_sent w)" by (rule merger_stateD(2) [OF D(1) ok over])
  obtain m c1 c2 where m: "merger_step quorum_ops cq its (rp_merger ?r) ev = Some m"
    "game_merging cq config m (sent ev (w_sent w))" "canonical (rp_merger ?r) = Some c1" "canonical m = Some c2"
    "mr_visible c2 (visible_bytes c2)" "\<not> mr_finished c2" "prefix (visible_bytes c1) (visible_bytes c2)"
    using merging_step_visible [OF ok [unfolded config_ok_def] run en ords] by blast
  have "readers_ok (rp_readers ?r) (visible_bytes c2)" using D(5) m(3,7) readers_ok_grow by fastforce
  then show ?thesis using m D over
    by (auto simp: replay_inv_def Let_def merger_state_def merged_over_def)
qed

lemma no_tasks_when_over:
  assumes "config_ok cq config" "replay_inv cq config w" "merged_over (rp_lifetime (w_replay w))"
  shows "mg_tasks (rp_merger (w_replay w)) = Map.empty"
  by (rule merger_stateD(1) [OF replay_invD(1) [OF assms(2)] assms(1,3)])

lemma writer_step_inv:
  assumes ok: "config_ok cq config" and inv: "replay_inv cq config w" and ords: "\<forall>n. orders_ok (its n)"
    and en: "writer_event ev" "enabled (rp_merger (w_replay w)) ev"
  shows "\<exists>w'. replay_step cq its (WriterStep ev) w = Some w' \<and> replay_inv cq config w'"
proof -
  let ?m = "rp_merger (w_replay w)"
  have "mg_tasks ?m \<noteq> Map.empty" using en by (cases ev) (auto split: option.splits)
  then have over: "\<not> merged_over (rp_lifetime (w_replay w))" using no_tasks_when_over [OF ok inv] by blast
  obtain m where m: "merger_step quorum_ops cq its ?m ev = Some m"
    "counts_tasks (writer_count (w_replay w)) (mg_tasks m) \<longrightarrow>
      replay_inv cq config (w\<lparr>w_replay := (w_replay w)\<lparr>rp_merger := m, writer_count := writer_count (w_replay w)\<rparr>,
        w_sent := sent ev (w_sent w)\<rparr>)"
    using merger_moves_inv [OF ok inv ords over en(2)] by blast
  have "counts_tasks (writer_count (w_replay w)) (mg_tasks m)"
    using counts_tasks_cong [OF replay_invD(2) [OF inv]] writer_step_tasks [OF m(1) en] by blast
  then show ?thesis using m by simp
qed

lemma writer_ends_inv:
  assumes ok: "config_ok cq config" and inv: "replay_inv cq config w" and ords: "\<forall>n. orders_ok (its n)"
    and t: "mg_tasks (rp_merger (w_replay w)) t \<noteq> None"
  shows "\<exists>w'. replay_step cq its (WriterEnds t) w = Some w' \<and> replay_inv cq config w'"
proof -
  let ?r = "w_replay w"
  have over: "\<not> merged_over (rp_lifetime ?r)" using no_tasks_when_over [OF ok inv] t by auto
  obtain n where n: "ec_dec (writer_count ?r) = Some n" "counts_tasks n ((mg_tasks (rp_merger ?r))(t := None))"
    using counts_tasks_dec [OF replay_invD(2) [OF inv] t] by blast
  obtain m where m: "merger_step quorum_ops cq its (rp_merger ?r) (ConnEnd t) = Some m"
    "counts_tasks n (mg_tasks m) \<longrightarrow>
      replay_inv cq config (w\<lparr>w_replay := ?r\<lparr>rp_merger := m, writer_count := n\<rparr>, w_sent := sent (ConnEnd t) (w_sent w)\<rparr>)"
    using merger_moves_inv [OF ok inv ords over, of "ConnEnd t" n] t by auto
  then have "replay_inv cq config (w\<lparr>w_replay := ?r\<lparr>rp_merger := m, writer_count := n\<rparr>\<rparr>)"
    using n(2) end_step_tasks [OF m(1)] by simp
  then show ?thesis using m(1) n(1) by (simp add: writer_ends_def replay_inv_note del: merger_step.simps)
qed

lemma reader_polls_inv:
  assumes ok: "config_ok cq config" and inv: "replay_inv cq config w" and ords: "\<forall>n. orders_ok (its n)"
    and k: "rp_readers (w_replay w) k \<noteq> None"
  shows "\<exists>w'. replay_step cq its (ReaderPolls k cap) w = Some w' \<and> replay_inv cq config w'"
proof -
  let ?r = "w_replay w"
  note D = replay_invD [OF inv]
  obtain rd out where rd: "rp_readers ?r k = Some (rd, out)" using k by auto
  obtain c where c: "canonical (rp_merger ?r) = Some c" "mr_visible c (visible_bytes c)"
    "mr_finished c = merged_over (rp_lifetime ?r)" "readers_ok (rp_readers ?r) (visible_bytes c)"
    using D(5) by blast
  have "reader_ok rd out (visible_bytes c)" using c(4) rd by (simp add: readers_ok_def)
  then obtain p bs rd' c' where p: "poll_read rd c k cap = Some (p, bs, rd', c')"
    "reader_ok rd' (out @ bs) (visible_bytes c)"
    "p = Pending \<longleftrightarrow> length (visible_bytes c) \<le> rd_position rd \<and> \<not> mr_finished c"
    using poll_read_rep [OF c(2), of rd out k cap] by blast
  let ?rs = "(rp_readers ?r)(k \<mapsto> (rd', out @ bs))"
  have rs: "readers_ok ?rs (visible_bytes c)" "counts_tasks (reader_count ?r) ?rs"
    using c(4) p(2) counts_tasks_cong [OF D(3), of ?rs] rd by (auto simp: readers_ok_def insert_absorb domIff)
  have ended: "rp_lifetime ?r \<noteq> Ended" using D(6) rd by auto
  show ?thesis
  proof (cases p)
    case Ready
    then have "reader_polls cq its k cap ?r = Some (?r\<lparr>rp_readers := ?rs\<rparr>)"
      using rd c(1) p(1) by (simp add: reader_polls_def)
    then show ?thesis using D c rs ended by (auto simp: replay_inv_def Let_def)
  next
    case Pending
    then have over: "\<not> merged_over (rp_lifetime ?r)" using p(3) c(3) by simp
    obtain m where m: "merger_step quorum_ops cq its (rp_merger ?r) (ReaderWaits k) = Some m"
      "counts_tasks (writer_count ?r) (mg_tasks m) \<longrightarrow>
        replay_inv cq config (w\<lparr>w_replay := ?r\<lparr>rp_merger := m, writer_count := writer_count ?r\<rparr>,
          w_sent := sent (ReaderWaits k) (w_sent w)\<rparr>)"
      using merger_moves_inv [OF ok inv ords over, of "ReaderWaits k" "writer_count ?r"] by auto
    have "replay_inv cq config (w\<lparr>w_replay := ?r\<lparr>rp_merger := m\<rparr>\<rparr>)"
      using m D(2) wait_step_tasks [OF m(1)] by simp
    moreover obtain c2 where c2: "canonical m = Some c2" "prefix (visible_bytes c) (visible_bytes c2)"
      using merging_step_visible [OF ok [unfolded config_ok_def] merger_stateD(2) [OF D(1) ok over] _ ords, of "ReaderWaits k"]
        m(1) c(1) by auto
    moreover have "readers_ok ?rs (visible_bytes c2)" using rs(1) c2(2) by (rule readers_ok_grow)
    moreover have "reader_polls cq its k cap ?r = Some (?r\<lparr>rp_merger := m, rp_readers := ?rs\<rparr>)"
      using rd c(1) p(1) Pending m(1) by (simp add: reader_polls_def del: merger_step.simps)
    ultimately show ?thesis using rs(2) ended by (auto simp: replay_inv_def Let_def)
  qed
qed

lemma reader_ends_inv:
  assumes inv: "replay_inv cq config w" and k: "rp_readers (w_replay w) k \<noteq> None"
  shows "\<exists>w'. replay_step cq its (ReaderEnds k) w = Some w' \<and> replay_inv cq config w'"
proof -
  let ?r = "w_replay w"
  note D = replay_invD [OF inv]
  obtain n where "ec_dec (reader_count ?r) = Some n" "counts_tasks n ((rp_readers ?r)(k := None))"
    using counts_tasks_dec [OF D(3) k] by blast
  moreover have "readers_ok ((rp_readers ?r)(k := None)) zs" if "readers_ok (rp_readers ?r) zs" for zs
    using that by (simp add: readers_ok_def)
  ultimately show ?thesis using D k by (auto simp: reader_ends_def replay_inv_def Let_def)
qed

lemma lifetime_turn_inv:
  assumes ok: "config_ok cq config" and inv: "replay_inv cq config w"
  shows "\<exists>w'. replay_step cq its (LifetimeTurn first) w = Some w' \<and> replay_inv cq config w'"
proof -
  let ?r = "w_replay w"
  note D = replay_invD [OF inv]
  show ?thesis
  proof (cases "rp_lifetime ?r")
    case NotRunning
    then show ?thesis using D
      by (auto simp: lifetime_turn_def no_writers_turn_def merged_over_def stopped_def replay_inv_def Let_def)
  next
    case (NoWriters x)
    then show ?thesis using D
      by (auto simp: lifetime_turn_def no_writers_turn_def stop_accepting_def merged_over_def stopped_def replay_inv_def Let_def
          split: sum.splits)
  next
    case (Draining x)
    show ?thesis
    proof (cases "poll_wait first (w_now w) (writer_count ?r) x")
      case (Inl x')
      then show ?thesis using D Draining
        by (auto simp: lifetime_turn_def no_writers_turn_def merged_over_def stopped_def replay_inv_def Let_def)
    next
      case (Inr u)
      have empty: "mg_tasks (rp_merger ?r) = Map.empty" by (rule poll_wait_zero [OF Inr D(2)])
      have run: "game_merging cq config (rp_merger ?r) (w_sent w)"
        by (rule merger_stateD(2) [OF D(1) ok]) (simp add: Draining merged_over_def)
      obtain m c c' where m: "merger_finalize quorum_ops (rp_merger ?r) = Some m"
        "canonical (rp_merger ?r) = Some c" "canonical m = Some c'" "mr_visible c' (visible_bytes c')"
        "mr_finished c'" "mg_tasks m = Map.empty" "prefix (visible_bytes c) (visible_bytes c')"
        using finalized_visible [OF ok [unfolded config_ok_def] run empty] by blast
      have "readers_ok (rp_readers ?r) (visible_bytes c')" using D(5) m(2,7) readers_ok_grow by fastforce
      moreover have "merger_state cq config True m (w_sent w)"
        using run empty m(1) by (auto simp: merger_state_def)
      ultimately show ?thesis using D(2-4) Draining Inr m empty
        by (auto simp: lifetime_turn_def no_writers_turn_def merged_over_def stopped_def replay_inv_def Let_def)
    qed
  next
    case (NoReaders x)
    show ?thesis
    proof (cases "poll_wait first (w_now w) (reader_count ?r) x")
      case (Inl x')
      then show ?thesis using D NoReaders
        by (auto simp: lifetime_turn_def no_writers_turn_def merged_over_def stopped_def replay_inv_def Let_def)
    next
      case (Inr u)
      have "rp_readers ?r = Map.empty" by (rule poll_wait_zero [OF Inr D(3)])
      then show ?thesis using D NoReaders Inr
        by (auto simp: lifetime_turn_def no_writers_turn_def merged_over_def stopped_def replay_inv_def Let_def)
    qed
  qed (use inv in \<open>simp_all add: lifetime_turn_def\<close>)
qed

lemma replay_step_inv:
  assumes ok: "config_ok cq config" and inv: "replay_inv cq config w" and ords: "\<forall>n. orders_ok (its n)"
    and en: "possible w ev"
  shows "\<exists>w'. replay_step cq its ev w = Some w' \<and> replay_inv cq config w'"
proof (cases ev)
  case (Arrives c k)
  show ?thesis unfolding Arrives by (rule arrives_inv [OF ok inv ords]) (use en Arrives in simp_all)
next
  case (WriterStep e)
  then show ?thesis using writer_step_inv [OF ok inv ords] en by simp
next
  case (WriterEnds t)
  then show ?thesis using writer_ends_inv [OF ok inv ords] en by simp
next
  case (ReaderPolls k cap)
  then show ?thesis using reader_polls_inv [OF ok inv ords] en by simp
next
  case (ReaderEnds k)
  then show ?thesis using reader_ends_inv [OF inv] en by simp
next
  case (LifetimeTurn first)
  then show ?thesis using lifetime_turn_inv [OF ok inv] by simp
next
  case SaveDone
  then show ?thesis using inv en by (auto simp: replay_inv_def Let_def save_done_def merged_over_def stopped_def)
next
  case TimeoutTurn
  then show ?thesis using inv by (auto simp: replay_inv_def Let_def timeout_turn_def split: forced_end.splits)
next
  case Shutdown
  then show ?thesis using inv by (auto simp: replay_inv_def Let_def)
next
  case TimePasses
  then show ?thesis using inv by (auto simp: replay_inv_def Let_def)
qed

lemma lives_inv:
  assumes "lives cq w0 evs w" "config_ok cq config" "replay_inv cq config w0"
  shows "replay_inv cq config w"
  using assms(1)
proof induction
  case (lives_step evs w ev its w')
  then show ?case using replay_step_inv [OF assms(2) lives_step.IH lives_step.hyps(3,2)] by auto
qed (rule assms(3))

end
