(* ===== verification/Replay_Facts.thy ===== *)
theory Replay_Facts
  imports Replay_Lifecycle Evaluation
begin

text \<open>
  What a replay promises: no step of any of its tasks panics; its counters count its
  connections; a replay that has stopped merging is complete and does not change any more;
  readers get the merged replay from its beginning, in order, and all of it; the replay stops
  accepting connections only when it should; and once it is cancelled and its connections have
  gone, it ends.
\<close>

subsection \<open>The wait for the writers\<close>

text \<open>
  While connections are accepted, the lifetime's wait for the writers, with the log of their
  number, is a run of the wait of \<open>EmptyCounter\<close> with its counter.
\<close>

definition wait_view :: "replay_world \<Rightarrow> waiter \<Rightarrow> nat \<Rightarrow> wait_system" where
  "wait_view w x n =
     \<lparr>ws_now = w_now w, ws_counter = writer_count (w_replay w), ws_waiter = x, ws_log = drop n (w_writers w)\<rparr>"

definition log_ok :: "replay_world \<Rightarrow> bool" where
  "log_ok w \<longleftrightarrow> ec_count (writer_count (w_replay w)) = last (0 # map snd (w_writers w)) \<and>
     (\<forall>e \<in> set (w_writers w). fst e \<le> w_now w) \<and> \<not> ch_closed (counter (writer_count (w_replay w))) \<and>
     watcher (writer_count (w_replay w)) \<le> ch_version (counter (writer_count (w_replay w)))"

definition quiet_since :: "replay_world \<Rightarrow> waiter \<Rightarrow> nat \<Rightarrow> empty_counter \<Rightarrow> nat \<Rightarrow> bool" where
  "quiet_since w x now0 c0 n \<longleftrightarrow>
     waits now0 c0 (quiet_time (w_replay w)) (wait_view w x n) \<and> n \<le> length (w_writers w) \<and>
     (\<forall>e \<in> set (take n (w_writers w)). fst e \<le> now0) \<and> ec_count c0 = last (0 # map snd (take n (w_writers w))) \<and>
     \<not> ch_closed (counter c0) \<and> watcher c0 \<le> ch_version (counter c0)"

definition quiet_inv :: "replay_world \<Rightarrow> bool" where
  "quiet_inv w \<longleftrightarrow> log_ok w \<and>
     (\<forall>x. rp_lifetime (w_replay w) = NoWriters x \<longrightarrow> (\<exists>now0 c0 n. quiet_since w x now0 c0 n))"

lemma quiet_since_step:
  assumes "quiet_since w x now0 c0 n" "ws_step ev (wait_view w x n) = Some (wait_view w' x' n)"
    "prefix (w_writers w) (w_writers w')" "quiet_time (w_replay w') = quiet_time (w_replay w)"
  shows "quiet_since w' x' now0 c0 n"
proof -
  have "take n (w_writers w') = take n (w_writers w)" "n \<le> length (w_writers w')"
    using assms(1,3) by (auto simp: quiet_since_def prefix_def)
  then show ?thesis using assms waits_step unfolding quiet_since_def by metis
qed

lemma quiet_inv_same:
  assumes "quiet_inv w" "w_now w' = w_now w" "w_writers w' = w_writers w"
    "writer_count (w_replay w') = writer_count (w_replay w)" "quiet_time (w_replay w') = quiet_time (w_replay w)"
    "\<And>x. rp_lifetime (w_replay w') = NoWriters x \<Longrightarrow> rp_lifetime (w_replay w) = NoWriters x"
  shows "quiet_inv w'"
  using assms by (simp add: quiet_inv_def quiet_since_def log_ok_def wait_view_def)

text \<open>The number of writers changes.\<close>

lemma quiet_inv_count:
  assumes inv: "quiet_inv w" and r: "quiet_time r = quiet_time (w_replay w)" "rp_lifetime r = rp_lifetime (w_replay w)"
    and c: "ec_inc (writer_count (w_replay w)) = Some (writer_count r) \<or>
      ec_dec (writer_count (w_replay w)) = Some (writer_count r)"
  shows "quiet_inv (note_writers w r)"
proof -
  let ?w = "note_writers w r"
  obtain v where v: "writer_count r = (writer_count (w_replay w))\<lparr>counter := send (counter (writer_count (w_replay w))) v\<rparr>"
    using c by (auto simp: ec_inc_simp ec_dec_simp)
  have "ch_version (counter (writer_count r)) \<noteq> ch_version (counter (writer_count (w_replay w)))" using v by simp
  then have ne: "writer_count r \<noteq> writer_count (w_replay w)" by auto
  have w: "w_now ?w = w_now w" "w_replay ?w = r" "w_writers ?w = w_writers w @ [(w_now w, ec_count (writer_count r))]"
    using ne by (simp_all add: note_writers_def)
  have log: "log_ok ?w"
    using inv v unfolding quiet_inv_def log_ok_def w by auto
  have "\<exists>now0 c0 n. quiet_since ?w x now0 c0 n" if x: "rp_lifetime r = NoWriters x" for x
  proof -
    obtain now0 c0 n where W: "quiet_since w x now0 c0 n" using inv x r unfolding quiet_inv_def by auto
    then have "n \<le> length (w_writers w)" by (simp add: quiet_since_def)
    then have "ws_step Inc (wait_view w x n) = Some (wait_view ?w x n)
        \<or> ws_step Dec (wait_view w x n) = Some (wait_view ?w x n)"
      using c w by (auto simp: wait_view_def ws_send_def)
    then obtain ev where "ws_step ev (wait_view w x n) = Some (wait_view ?w x n)" by blast
    from quiet_since_step [OF W this] show ?thesis using w r(1) by auto
  qed
  then show ?thesis using log r by (simp add: quiet_inv_def w)
qed

lemma quiet_inv_lifetime:
  assumes inv: "quiet_inv w" and step: "replay_step cq its (LifetimeTurn first) w = Some w'"
  shows "quiet_inv w'"
proof -
  let ?r = "w_replay w"
  obtain r M where r: "lifetime_turn first (w_now w) ?r (w_metrics w) = Some (r, M)"
    "w' = w\<lparr>w_replay := r, w_metrics := M\<rparr>" using step by auto
  have same: "writer_count r = writer_count ?r" "quiet_time r = quiet_time ?r"
    using r(1) by (auto simp: lifetime_turn_def no_writers_turn_def stop_accepting_def bind_eq_Some_conv split: lifetime.splits if_splits sum.splits)
  show ?thesis
  proof (cases "\<exists>x. rp_lifetime r = NoWriters x")
    case False
    then show ?thesis using inv same r(2) by (auto simp: quiet_inv_def log_ok_def)
  next
    case True
    then obtain x where x: "rp_lifetime r = NoWriters x" by blast
    consider "rp_lifetime ?r = NotRunning" "x = wait_until_empty_for (writer_count ?r) (quiet_time ?r)"
      | y where "rp_lifetime ?r = NoWriters y" "\<not> rp_cancelled ?r" "poll_wait first (w_now w) (writer_count ?r) y = Inl x"
      using r(1) x by (auto simp: lifetime_turn_def no_writers_turn_def stop_accepting_def bind_eq_Some_conv split: lifetime.splits if_splits sum.splits)
    then have "\<exists>now0 c0 n. quiet_since w' x now0 c0 n"
    proof cases
      case 1
      have "wait_view w' x (length (w_writers w)) = wait_start (w_now w) (writer_count ?r) (quiet_time ?r)"
        using 1 r(2) same by (simp add: wait_view_def wait_start_def)
      then have "waits (w_now w) (writer_count ?r) (quiet_time ?r) (wait_view w' x (length (w_writers w)))"
        using waits_start by simp
      then have "quiet_since w' x (w_now w) (writer_count ?r) (length (w_writers w))"
        using inv r(2) same by (simp add: quiet_since_def quiet_inv_def log_ok_def)
      then show ?thesis by blast
    next
      case 2
      obtain now0 c0 n where W: "quiet_since w y now0 c0 n" using inv 2(1) unfolding quiet_inv_def by blast
      have "wait_view w' y n = wait_view w y n" using r(2) same by (simp add: wait_view_def)
      moreover have "x = y \<or> ws_step (Turn first) (wait_view w y n) = Some (wait_view w' x n)"
        using 2(3) r(2) same by (auto simp: poll_wait_def wait_view_def split: option.splits if_splits)
      ultimately have "quiet_since w' x now0 c0 n"
        using W quiet_since_step [OF W, of "Turn first" w' x] r(2) same by (auto simp: quiet_since_def)
      then show ?thesis by blast
    qed
    then show ?thesis using inv x r(2) same by (auto simp: quiet_inv_def log_ok_def)
  qed
qed

lemma quiet_inv_tick:
  assumes inv: "quiet_inv w" and en: "\<not> lifetime_ready (w_now w) (w_replay w)"
  shows "quiet_inv (w\<lparr>w_now := Suc (w_now w)\<rparr>)"
proof -
  let ?w = "w\<lparr>w_now := Suc (w_now w)\<rparr>"
  have "\<exists>now0 c0 n. quiet_since ?w x now0 c0 n" if x: "rp_lifetime (w_replay w) = NoWriters x" for x
  proof -
    obtain now0 c0 n where W: "quiet_since w x now0 c0 n" using inv x unfolding quiet_inv_def by blast
    have "ws_step Tick (wait_view w x n) = Some (wait_view ?w x n)"
      using en x by (simp add: lifetime_ready_def wait_ready_def ready_def wait_view_def)
    then show ?thesis using quiet_since_step [OF W, of Tick ?w x] by auto
  qed
  moreover have "log_ok ?w" using inv by (auto simp: quiet_inv_def log_ok_def)
  ultimately show ?thesis by (simp add: quiet_inv_def)
qed

lemma handle_connection_same:
  assumes "handle_connection cq its c k r0 = Some (u, r)"
  shows "quiet_time r = quiet_time r0 \<and> rp_lifetime r = rp_lifetime r0 \<and>
    (writer_count r = writer_count r0 \<or> ec_inc (writer_count r0) = Some (writer_count r))"
proof (cases "should_stop r0")
  case False
  then obtain h where "get_header c = Some h" using assms by (auto simp: handle_connection_def bind_eq_Some_conv)
  then show ?thesis using assms False
    by (cases "ch_type h") (auto simp: handle_connection_def bind_eq_Some_conv)
qed (use assms in \<open>simp add: handle_connection_def\<close>)

lemma quiet_inv_step:
  assumes inv: "quiet_inv w" and en: "possible w ev" and step: "replay_step cq its ev w = Some w'"
  shows "quiet_inv w'"
proof (cases ev)
  case (Arrives c k)
  then obtain u r where r: "handle_connection cq its c k (w_replay w) = Some (u, r)" "w' = note_writers w r"
    using step by auto
  show ?thesis
  proof (cases "writer_count r = writer_count (w_replay w)")
    case True
    then show ?thesis using r(2) handle_connection_same [OF r(1)]
      by (intro quiet_inv_same [OF inv]) (auto simp: note_writers_def)
  next
    case False
    then show ?thesis unfolding r(2) using handle_connection_same [OF r(1)]
      by (intro quiet_inv_count [OF inv]) auto
  qed
next
  case (WriterEnds t)
  then obtain r where r: "writer_ends cq its t (w_replay w) = Some r" "w' = note_writers w r"
    using step by auto
  then show ?thesis unfolding r(2) by (intro quiet_inv_count [OF inv]) (auto simp: writer_ends_def bind_eq_Some_conv)
next
  case (LifetimeTurn first)
  then show ?thesis using quiet_inv_lifetime [OF inv] step by blast
next
  case TimePasses
  then show ?thesis using quiet_inv_tick [OF inv] en step by auto
next
  case (ReaderPolls k cap)
  then show ?thesis using step
    by (intro quiet_inv_same [OF inv]) (auto simp: reader_polls_def bind_eq_Some_conv split: prod.splits)
next
  case (ReaderEnds k)
  then show ?thesis using step
    by (intro quiet_inv_same [OF inv]) (auto simp: reader_ends_def bind_eq_Some_conv)
qed (use step in \<open>auto intro!: quiet_inv_same [OF inv] simp: save_done_def timeout_turn_def
  split: forced_end.splits if_splits\<close>)

lemma lives_quiet:
  assumes "lives cq (world_new rid shutdown config now M) evs w"
  shows "quiet_inv w"
  using assms
proof induction
  case lives_new
  then show ?case by (simp add: quiet_inv_def log_ok_def world_new_def replay_new_def) (simp add: ec_new_def)
next
  case (lives_step evs w ev its w')
  then show ?case using quiet_inv_step by blast
qed

subsection \<open>Runs over lists of events\<close>

definition replay_run ::
  "ceil_quotient \<Rightarrow> (nat \<Rightarrow> nat \<Rightarrow> iteration) \<Rightarrow> ('r, 'w) replay_event list \<Rightarrow> replay_world \<Rightarrow> replay_world option" where
  "replay_run cq its evs w =
     foldM (\<lambda>ev w. do { assert_that (possible w ev); replay_step cq its ev w }) evs w"

lemma replay_run_simps:
  "replay_run cq its [] w = Some w"
  "replay_run cq its (ev # evs) w = (if possible w ev then replay_step cq its ev w \<bind> replay_run cq its evs else None)"
  by (simp_all add: replay_run_def [abs_def] assert_that_def)

lemma replay_run_lives:
  assumes "replay_run cq its evs w = Some w'" "lives cq w0 pre w" "\<forall>n. orders_ok (its n)"
  shows "lives cq w0 (pre @ evs) w'"
  using assms(1,2)
proof (induction evs arbitrary: w pre)
  case Nil
  then show ?case by (simp add: replay_run_simps)
next
  case (Cons ev evs)
  then obtain u where u: "possible w ev" "replay_step cq its ev w = Some u" "replay_run cq its evs u = Some w'"
    by (auto simp: replay_run_simps bind_eq_Some_conv split: if_splits)
  from Cons.IH [OF u(3) lives_step [OF Cons.prems(2) u(1) assms(3) u(2)]] show ?case by simp
qed

text \<open>
  A game with one writer and one reader, from its first connection to its end; the quiet time is
  one tick.
\<close>

definition demo_config :: InnerSettings where
  "demo_config = (example_settings 8 2 1)\<lparr>replay :=
     \<lparr>forced_timeout_s = 100, time_with_zero_writers_to_end_replay_s = 1, delay_s = 2, update_interval_s = 1,
      merge_quorum_size = 2, stream_comparison_distance_b = 10\<rparr>\<rparr>"

definition demo_connection :: "connection_type \<Rightarrow> (unit, unit) connection" where
  "demo_connection t = \<lparr>cn_reader = (), cn_writer = (),
     cn_header = Some \<lparr>ch_type = t, ch_id = 1, ch_name = [110]\<rparr>, cn_id = ''abcdefghijkl''\<rparr>"

definition demo_world :: replay_world where
  "demo_world = world_new 1 False demo_config 0 metrics_new"

definition demo_game :: "(unit, unit) replay_event list" where
  "demo_game =
     [LifetimeTurn False, Arrives (demo_connection Writer) 0, Arrives (demo_connection Reader) 7,
      WriterStep (HeaderRead 0 [1]), WriterStep (DataRead 0 [7, 8]), ReaderPolls 7 10, ReaderPolls 7 10,
      WriterEnds 0, LifetimeTurn False, LifetimeTurn True, TimePasses]"

definition demo_close :: "(unit, unit) replay_event list" where
  "demo_close = [LifetimeTurn False, LifetimeTurn False, LifetimeTurn False]"

definition demo_finish :: "(unit, unit) replay_event list" where
  "demo_finish = [ReaderPolls 7 10, SaveDone, ReaderEnds 7, LifetimeTurn False, LifetimeTurn False]"

abbreviation demo_play :: "(unit, unit) replay_event list \<Rightarrow> replay_world option" where
  "demo_play evs \<equiv> replay_run exact_quotient (\<lambda>_ _. ascending) evs demo_world"

lemmas replay_eval =
  replay_run_simps demo_world_def demo_config_def example_settings_def demo_connection_def world_new_def replay_new_def
  lifetime_turn_def no_writers_turn_def stop_accepting_def handle_connection_def writer_ends_def reader_polls_def reader_ends_def
  save_done_def poll_wait_def note_writers_def lifetime_ready_def wait_ready_def get_header_def
  poll_read_def rd_new_def mr_len_def mr_get_chunk_def mr_header_len_def
  ec_new_def ec_inc_def ec_dec_def ec_count_def wait_until_empty_def wait_until_empty_for_def wait_step_def
  wait_head_def await_new_count_def metrics_new_def send_def

lemma demo_config_ok: "config_ok exact_quotient demo_config"
  by (simp add: config_ok_def demo_config_def settings_ok_def exact_quotient_def usize_max_def)

lemma demo_lives: "demo_play evs = Some w \<Longrightarrow> lives exact_quotient demo_world evs w"
  using replay_run_lives [where pre = "[]" and its = "\<lambda>_ _. ascending", OF _ lives_new] ascending_orders by fastforce

lemma demo_game_run:
  "\<exists>w x. demo_play demo_game = Some w \<and> rp_lifetime (w_replay w) = NoWriters x \<and> w_now w = 1
     \<and> w_writers w = [(0, 1), (0, 0)] \<and> \<not> rp_cancelled (w_replay w)"
  unfolding demo_game_def by (simp add: replay_eval eval_simps cong: bind_weak option.case_cong_weak)

lemma demo_close_run:
  "\<exists>w c. demo_play (demo_game @ demo_close) = Some w \<and> rp_lifetime (w_replay w) = Saving
     \<and> canonical (rp_merger (w_replay w)) = Some c \<and> visible_bytes c = [1, 7, 8]
     \<and> rp_readers (w_replay w) 7 = Some (\<lparr>rd_position = 1\<rparr>, [1])"
  unfolding demo_game_def demo_close_def
  by (simp add: replay_eval eval_simps cong: bind_weak option.case_cong_weak)

subsection \<open>Properties\<close>

lemma game_inv:
  assumes "config_ok cq config" "lives cq (world_new rid shutdown config now M) evs w"
  shows "replay_inv cq config w"
  by (rule lives_inv [OF assms(2,1) replay_inv_new [OF assms(1)]])

text \<open>
  No task of a replay ever panics. Whatever connections come, send and go, whenever the
  replay is cancelled, and however its tasks are interleaved: the counters never overflow or go
  below zero, every connection's header is there, and when \<open>finalize\<close> is called every writer has
  left, which is what it relies on.
\<close>

theorem replay_steps_return:
  assumes "config_ok cq config" and "lives cq (world_new rid shutdown config now M) evs w"
    and "possible w ev" and "\<forall>n. orders_ok (its n)"
  shows "\<exists>w'. replay_step cq its ev w = Some w'"
  using replay_step_inv [OF assms(1) game_inv [OF assms(1,2)] assms(4,3)] by blast

theorem replay_steps_return_witness:
  "\<exists>w w'. demo_play demo_game = Some w \<and>
     replay_step exact_quotient (\<lambda>_ _. ascending) (Arrives (demo_connection Writer) 3) w = Some w'"
proof -
  obtain w where w: "demo_play demo_game = Some w" "w_writers w = [(0, 1), (0, 0)]"
    using demo_game_run by blast
  have L: "lives exact_quotient (world_new 1 False demo_config 0 metrics_new) demo_game w"
    using demo_lives [OF w(1)] by (simp add: demo_world_def)
  have ords: "\<forall>n::nat. orders_ok (\<lambda>_. ascending)" by (simp add: ascending_orders)
  have en: "possible w (Arrives (demo_connection Writer) 3)"
    using w(1) unfolding demo_game_def
    by (auto simp: replay_eval eval_simps cong: bind_weak option.case_cong_weak)
  from replay_steps_return [OF demo_config_ok L en ords] w(1) show ?thesis by blast
qed

text \<open>
  The counters count. The number of writers is the number of connections that the merger is
  reading, the number of readers that of the senders; nobody writes any more once the merged
  replay is final, and a replay has ended only after its last reader.
\<close>

theorem replay_counts_connections:
  assumes "config_ok cq config" and "lives cq (world_new rid shutdown config now M) evs w"
  shows "let r = w_replay w in
    ec_count (writer_count r) = card (dom (mg_tasks (rp_merger r))) \<and>
    ec_count (reader_count r) = card (dom (rp_readers r)) \<and>
    should_stop r = stopped (rp_lifetime r) \<and>
    (merged_over (rp_lifetime r) \<longrightarrow> ec_count (writer_count r) = 0) \<and>
    (rp_lifetime r = Ended \<longrightarrow> ec_count (reader_count r) = 0 \<and> rp_cancelled r)"
proof -
  have inv: "replay_inv cq config w" by (rule game_inv [OF assms])
  have "merged_over (rp_lifetime (w_replay w)) \<longrightarrow> mg_tasks (rp_merger (w_replay w)) = Map.empty"
    using no_tasks_when_over [OF assms(1) inv] by blast
  then show ?thesis using replay_invD [OF inv] by (auto simp: counts_tasks_def Let_def)
qed

theorem replay_counts_connections_witness:
  "\<exists>w. demo_play (demo_game @ demo_close) = Some w \<and> ec_count (writer_count (w_replay w)) = 0
     \<and> dom (rp_readers (w_replay w)) \<noteq> {}"
proof -
  obtain w where w: "demo_play (demo_game @ demo_close) = Some w" "rp_lifetime (w_replay w) = Saving"
    "rp_readers (w_replay w) 7 = Some (\<lparr>rd_position = 1\<rparr>, [1])"
    using demo_close_run by blast
  have "lives exact_quotient (world_new 1 False demo_config 0 metrics_new) (demo_game @ demo_close) w"
    using demo_lives [OF w(1)] by (simp add: demo_world_def)
  from replay_counts_connections [OF demo_config_ok this] show ?thesis using w
    by (auto simp: Let_def merged_over_def)
qed

text \<open>
  C11: what is saved is complete. From the moment in which the replay is handed to the saver, the
  merged replay is finished and all of it is visible, and no writer that agrees with it as far as
  both go has sent more.
\<close>

theorem saved_replay_complete:
  assumes "config_ok cq config" and "lives cq (world_new rid shutdown config now M) evs w"
    and "merged_over (rp_lifetime (w_replay w))"
  shows "\<exists>c. canonical (rp_merger (w_replay w)) = Some c \<and> mr_finished c
    \<and> visible_bytes c = header_bytes c @ merged_bytes c
    \<and> (\<forall>t. length (w_sent w t) \<le> length (merged_bytes c) \<or>
        (\<exists>p < min (length (w_sent w t)) (length (merged_bytes c)). w_sent w t ! p \<noteq> merged_bytes c ! p))"
proof -
  obtain m0 where m0: "game_merging cq config m0 (w_sent w)" "mg_tasks m0 = Map.empty"
    "merger_finalize quorum_ops m0 = Some (rp_merger (w_replay w))"
    using replay_invD(1) [OF game_inv [OF assms(1,2)]] assms(3) unfolding merger_state_def by auto
  then show ?thesis using finalized_visible [OF assms(1) [unfolded config_ok_def] m0(1,2)] by auto
qed

theorem saved_replay_complete_witness:
  "\<exists>w c. demo_play (demo_game @ demo_close) = Some w \<and> canonical (rp_merger (w_replay w)) = Some c
     \<and> mr_finished c \<and> header_bytes c @ merged_bytes c = [1, 7, 8]"
proof -
  obtain w c where w: "demo_play (demo_game @ demo_close) = Some w" "rp_lifetime (w_replay w) = Saving"
    "canonical (rp_merger (w_replay w)) = Some c" "visible_bytes c = [1, 7, 8]"
    using demo_close_run by blast
  have L: "lives exact_quotient (world_new 1 False demo_config 0 metrics_new) (demo_game @ demo_close) w"
    using demo_lives [OF w(1)] by (simp add: demo_world_def)
  from saved_replay_complete [OF demo_config_ok L] show ?thesis using w by (auto simp: merged_over_def)
qed

lemma over_step_keeps_merger:
  assumes inv: "replay_inv cq config w" and ok: "config_ok cq config" and en: "possible w ev"
    and over: "merged_over (rp_lifetime (w_replay w))" and step: "replay_step cq its ev w = Some w'"
  shows "rp_merger (w_replay w') = rp_merger (w_replay w) \<and> merged_over (rp_lifetime (w_replay w'))"
proof -
  let ?r = "w_replay w"
  have none: "mg_tasks (rp_merger ?r) = Map.empty" by (rule no_tasks_when_over [OF ok inv over])
  have stop: "should_stop ?r" using replay_invD(4) [OF inv] merged_over_stopped [OF over] by simp
  show ?thesis
  proof (cases ev)
    case (Arrives c k)
    then show ?thesis using step stop over by (simp add: handle_connection_def note_writers_def)
  next
    case (WriterStep e)
    then have "mg_tasks (rp_merger ?r) \<noteq> Map.empty" using en by (cases e) (auto split: option.splits)
    then show ?thesis using none by simp
  next
    case (WriterEnds t)
    then show ?thesis using en none by simp
  next
    case (ReaderPolls k cap)
    obtain rd out where rd: "rp_readers ?r k = Some (rd, out)" using en ReaderPolls by auto
    obtain c where c: "canonical (rp_merger ?r) = Some c" "mr_finished c" using replay_invD(5) [OF inv] over by auto
    then have "p = Ready" if "poll_read rd c k cap = Some (p, z)" for p z
      using that by (auto simp: poll_read_def bind_eq_Some_conv Let_def split: if_splits)
    then show ?thesis using step ReaderPolls rd c(1) over
      by (fastforce simp: reader_polls_def bind_eq_Some_conv split: prod.splits)
  next
    case (LifetimeTurn first)
    then show ?thesis using step over
      by (auto simp: lifetime_turn_def no_writers_turn_def merged_over_def split: lifetime.splits sum.splits)
  qed (use step over in \<open>auto simp: reader_ends_def save_done_def timeout_turn_def merged_over_def
    bind_eq_Some_conv split: forced_end.splits\<close>)
qed

text \<open>
  And it stays as it is. Nothing that any task does, while the replay is being saved or
  afterwards, changes the merger or the merged replay; no more connections are accepted.
\<close>

theorem saved_replay_stable:
  assumes "config_ok cq config" and "lives cq (world_new rid shutdown config now M) evs w"
    and "merged_over (rp_lifetime (w_replay w))" and "possible w ev" and "replay_step cq its ev w = Some w'"
  shows "rp_merger (w_replay w') = rp_merger (w_replay w) \<and> merged_over (rp_lifetime (w_replay w'))"
  by (rule over_step_keeps_merger [OF game_inv [OF assms(1,2)] assms(1,4,3,5)])

theorem saved_replay_stable_witness:
  "\<exists>w w'. demo_play (demo_game @ demo_close) = Some w
     \<and> replay_step exact_quotient (\<lambda>_ _. ascending) (Arrives (demo_connection Writer) 9) w = Some w'
     \<and> rp_merger (w_replay w') = rp_merger (w_replay w)"
proof -
  obtain w where w: "demo_play (demo_game @ demo_close) = Some w" "rp_lifetime (w_replay w) = Saving"
    using demo_close_run by blast
  have L: "lives exact_quotient (world_new 1 False demo_config 0 metrics_new) (demo_game @ demo_close) w"
    using demo_lives [OF w(1)] by (simp add: demo_world_def)
  have en: "possible w (Arrives (demo_connection Writer) 9)"
    using w(1) unfolding demo_game_def demo_close_def
    by (auto simp: replay_eval eval_simps cong: bind_weak option.case_cong_weak)
  obtain w' where w': "replay_step exact_quotient (\<lambda>_ _. ascending) (Arrives (demo_connection Writer) 9) w = Some w'"
    using replay_step_inv [OF demo_config_ok game_inv [OF demo_config_ok L] _ en, where its = "\<lambda>_ _. ascending"]
      ascending_orders by auto
  have "rp_merger (w_replay w') = rp_merger (w_replay w)"
    using saved_replay_stable [OF demo_config_ok L _ en w'] w(2) by (simp add: merged_over_def)
  then show ?thesis using w(1) w' by blast
qed

text \<open>
  C20: readers are served in order. What a reader has got is a beginning of what readers may see
  of the merged replay.
\<close>

theorem readers_get_prefix:
  assumes "config_ok cq config" and "lives cq (world_new rid shutdown config now M) evs w"
    and "rp_readers (w_replay w) k = Some (rd, out)"
  shows "\<exists>c. canonical (rp_merger (w_replay w)) = Some c \<and> prefix out (visible_bytes c)
    \<and> rd_position rd = length out"
  using replay_invD(5) [OF game_inv [OF assms(1,2)]] assms(3)
  by (fastforce simp: readers_ok_def reader_ok_def take_is_prefix)

theorem readers_get_prefix_witness:
  "\<exists>w c. demo_play (demo_game @ demo_close) = Some w \<and> canonical (rp_merger (w_replay w)) = Some c
     \<and> prefix [1] (visible_bytes c)"
proof -
  obtain w where w: "demo_play (demo_game @ demo_close) = Some w"
    "rp_readers (w_replay w) 7 = Some (\<lparr>rd_position = 1\<rparr>, [1])"
    using demo_close_run by blast
  have L: "lives exact_quotient (world_new 1 False demo_config 0 metrics_new) (demo_game @ demo_close) w"
    using demo_lives [OF w(1)] by (simp add: demo_world_def)
  from readers_get_prefix [OF demo_config_ok L w(2)] w(1) show ?thesis by blast
qed

lemma reads_all_from:
  assumes ok: "config_ok cq config" and ords: "\<forall>n. orders_ok (its n)" and cap: "0 < cap"
  shows "replay_inv cq config w \<Longrightarrow> merged_over (rp_lifetime (w_replay w)) \<Longrightarrow>
    canonical (rp_merger (w_replay w)) = Some c \<Longrightarrow> rp_readers (w_replay w) k = Some (rd, out) \<Longrightarrow>
    length (visible_bytes c) - length out \<le> n \<Longrightarrow>
    \<exists>w' rd'. replay_run cq its (replicate n (ReaderPolls k cap :: ('r, 'w) replay_event)) w = Some w'
      \<and> rp_readers (w_replay w') k = Some (rd', visible_bytes c)"
proof (induction n arbitrary: w rd out)
  case (0 w rd out)
  then have "reader_ok rd out (visible_bytes c)" using replay_invD(5) [OF "0.prems"(1)] by (auto simp: readers_ok_def)
  then have "out = visible_bytes c" using "0.prems"(5) by (auto simp: reader_ok_def)
  then show ?case using "0.prems"(4) by (simp add: replay_run_simps)
next
  case (Suc n w rd out)
  let ?r = "w_replay w"
  have c: "mr_visible c (visible_bytes c)" "mr_finished c" "reader_ok rd out (visible_bytes c)"
    using replay_invD(5) [OF Suc.prems(1)] Suc.prems(2-4) by (auto simp: readers_ok_def)
  obtain bs rd' where p: "poll_read rd c k cap = Some (Ready, bs, rd', c)" "reader_ok rd' (out @ bs) (visible_bytes c)"
    "bs = [] \<longrightarrow> out = visible_bytes c"
    using finished_poll [OF c cap, of k] by blast
  let ?w = "w\<lparr>w_replay := ?r\<lparr>rp_readers := (rp_readers ?r)(k \<mapsto> (rd', out @ bs))\<rparr>\<rparr>"
  have step: "replay_step cq its (ReaderPolls k cap :: ('r, 'w) replay_event) w = Some ?w"
    using Suc.prems(3,4) p(1) by (simp add: reader_polls_def)
  have en: "possible w (ReaderPolls k cap :: ('r, 'w) replay_event)" using Suc.prems(4) by simp
  have inv: "replay_inv cq config ?w" using replay_step_inv [OF ok Suc.prems(1) ords en] step by (simp del: replay_step.simps)
  have "length (visible_bytes c) - length (out @ bs) \<le> n"
    using Suc.prems(5) p(3) c(3) by (cases "bs = []") (auto simp: reader_ok_def neq_Nil_conv)
  then obtain w' rd2 where "replay_run cq its (replicate n (ReaderPolls k cap :: ('r, 'w) replay_event)) ?w = Some w'"
    "rp_readers (w_replay w') k = Some (rd2, visible_bytes c)"
    using Suc.IH [OF inv, of rd' "out @ bs"] Suc.prems(2,3) by auto
  then show ?case using step en by (auto simp: replay_run_simps simp del: replay_step.simps possible.simps)
qed

text \<open>
  C19: and they get all of it. Once the merged replay is final, a reader that goes on reading, into
  a buffer of any size, has the whole replay after as many reads as it has bytes at most.
\<close>

theorem reader_reads_all:
  assumes "config_ok cq config" and "lives cq (world_new rid shutdown config now M) evs w"
    and "merged_over (rp_lifetime (w_replay w))" and "rp_readers (w_replay w) k = Some (rd, out)"
    and "0 < cap" and "\<forall>n. orders_ok (its n)"
  shows "\<exists>c w' rd'. canonical (rp_merger (w_replay w)) = Some c
    \<and> replay_run cq its (replicate (length (visible_bytes c)) (ReaderPolls k cap)) w = Some w'
    \<and> rp_readers (w_replay w') k = Some (rd', visible_bytes c)"
proof -
  have inv: "replay_inv cq config w" by (rule game_inv [OF assms(1,2)])
  obtain c where c: "canonical (rp_merger (w_replay w)) = Some c" using replay_invD(5) [OF inv] by blast
  show ?thesis
    using reads_all_from [OF assms(1,6,5) inv assms(3) c assms(4), of "length (visible_bytes c)"] c by auto
qed

theorem reader_reads_all_witness:
  "\<exists>w c w' rd'. demo_play (demo_game @ demo_close) = Some w
     \<and> replay_run exact_quotient (\<lambda>_ _. ascending) (replicate (length (visible_bytes c)) (ReaderPolls 7 1)) w = Some w'
     \<and> visible_bytes c = [1, 7, 8] \<and> rp_readers (w_replay w') 7 = Some (rd', [1, 7, 8])"
proof -
  obtain w c where w: "demo_play (demo_game @ demo_close) = Some w" "rp_lifetime (w_replay w) = Saving"
    "rp_readers (w_replay w) 7 = Some (\<lparr>rd_position = 1\<rparr>, [1])"
    "canonical (rp_merger (w_replay w)) = Some c" "visible_bytes c = [1, 7, 8]"
    using demo_close_run by blast
  have L: "lives exact_quotient (world_new 1 False demo_config 0 metrics_new) (demo_game @ demo_close) w"
    using demo_lives [OF w(1)] by (simp add: demo_world_def)
  have ords: "\<forall>n::nat. orders_ok (\<lambda>_. ascending)" by (simp add: ascending_orders)
  have over: "merged_over (rp_lifetime (w_replay w))" using w(2) by (simp add: merged_over_def)
  from reader_reads_all [OF demo_config_ok L over w(3) _ ords, of 1] w(1,4,5) show ?thesis by fastforce
qed

lemma value_at_take:
  assumes "\<forall>e \<in> set (take n entries). fst e \<le> t"
  shows "value_at 0 entries t = value_at (last (0 # map snd (take n entries))) (drop n entries) t"
proof -
  have "filter (\<lambda>e. fst e \<le> t) entries = take n entries @ filter (\<lambda>e. fst e \<le> t) (drop n entries)"
    using assms by (metis append_take_drop_id filter_append filter_True)
  then show ?thesis by (simp add: value_at_def)
qed

text \<open>
  C21: a replay that was not cancelled stops accepting connections only after there were no writers
  for the configured time: there is none in that moment, and there was none at the end of any
  instant in the time before it.
\<close>

theorem stops_accepting_when_quiet:
  assumes "lives cq (world_new rid shutdown config now M) evs w" and "possible w ev"
    and "replay_step cq its ev w = Some w'" and "\<not> stopped (rp_lifetime (w_replay w))"
    and "stopped (rp_lifetime (w_replay w'))" and "\<not> rp_cancelled (w_replay w)"
  shows "ec_count (writer_count (w_replay w')) = 0 \<and> quiet_time (w_replay w) \<le> w_now w
    \<and> (\<forall>t. w_now w - quiet_time (w_replay w) \<le> t \<and> t < w_now w \<longrightarrow> value_at 0 (w_writers w) t = 0)"
proof -
  let ?r = "w_replay w"
  have inv: "quiet_inv w" by (rule lives_quiet [OF assms(1)])
  have "\<exists>first. ev = LifetimeTurn first"
  proof (rule ccontr)
    assume "\<not> ?thesis"
    then have "rp_lifetime (w_replay w') = rp_lifetime ?r \<or> ev = SaveDone"
      using assms(3) handle_connection_same
      by (cases ev) (force simp: note_writers_def writer_ends_def reader_polls_def reader_ends_def timeout_turn_def
          bind_eq_Some_conv split: prod.splits forced_end.splits if_splits)+
    then show False using assms(2,4,5) by (auto simp: stopped_def)
  qed
  then obtain first where ev: "ev = LifetimeTurn first" ..
  obtain x where x: "rp_lifetime ?r = NoWriters x" "poll_wait first (w_now w) (writer_count ?r) x = Inr ()"
    "w_replay w' = stop_accepting ?r"
    using assms(3-6) by (auto simp: ev lifetime_turn_def no_writers_turn_def stopped_def split: lifetime.splits sum.splits)
  obtain now0 c0 n where W: "quiet_since w x now0 c0 n" using inv x(1) unfolding quiet_inv_def by blast
  let ?s = "wait_view w x n"
  obtain y where y: "wait_step first (w_now w) (counter (writer_count ?r)) x = Some y" "wt_phase y = Returned"
    using x(2) by (auto simp: poll_wait_def split: option.splits if_splits)
  have step: "ws_step (Turn first) ?s = Some (?s\<lparr>ws_waiter := y\<rparr>)" using y(1) by (simp add: wait_view_def)
  have Q: "ec_count (writer_count ?r) = 0" "now0 + quiet_time ?r \<le> w_now w"
    "\<And>t. w_now w - quiet_time ?r \<le> t \<Longrightarrow> t < w_now w \<Longrightarrow> value_at (ec_count c0) (drop n (w_writers w)) t = 0"
    using wait_over_quiet [OF _ _ _ step, of now0 c0 "quiet_time ?r"] W y(2)
    by (auto simp: quiet_since_def wait_view_def)
  have "value_at 0 (w_writers w) t = 0" if t: "w_now w - quiet_time ?r \<le> t" "t < w_now w" for t
  proof -
    have "\<forall>e \<in> set (take n (w_writers w)). fst e \<le> t"
      using W Q(2) t(1) unfolding quiet_since_def by fastforce
    then show ?thesis using value_at_take [of n "w_writers w" t] Q(3) [OF t] W by (simp add: quiet_since_def)
  qed
  then show ?thesis using Q(1,2) x(3) by (simp add: stop_accepting_def)
qed

theorem stops_accepting_when_quiet_witness:
  "\<exists>w w'. demo_play demo_game = Some w
     \<and> replay_step exact_quotient (\<lambda>_ _. ascending) (LifetimeTurn False) w = Some w'
     \<and> should_stop (w_replay w') \<and> w_writers w = [(0, 1), (0, 0)] \<and> value_at 0 (w_writers w) 0 = 0"
proof -
  obtain w x where w: "demo_play demo_game = Some w" "rp_lifetime (w_replay w) = NoWriters x" "w_now w = 1"
    "w_writers w = [(0, 1), (0, 0)]" "\<not> rp_cancelled (w_replay w)"
    using demo_game_run by blast
  have L: "lives exact_quotient (world_new 1 False demo_config 0 metrics_new) demo_game w"
    using demo_lives [OF w(1)] by (simp add: demo_world_def)
  obtain w' where w': "replay_step exact_quotient (\<lambda>_ _. ascending) (LifetimeTurn False) w = Some w'"
    "should_stop (w_replay w')" "stopped (rp_lifetime (w_replay w'))" "quiet_time (w_replay w) = 1"
    using w(1) unfolding demo_game_def
    by (auto simp: replay_eval eval_simps stopped_def cong: bind_weak option.case_cong_weak)
  have "\<not> stopped (rp_lifetime (w_replay w))" using w(2) by (simp add: stopped_def)
  from stops_accepting_when_quiet [OF L _ w'(1) this w'(3) w(5)] show ?thesis using w w' by auto
qed

text \<open>A wait with no timeout on a counter that is zero is over after three polls at most.\<close>

lemma fresh_polls:
  assumes "ec_count c = 0" "\<not> ch_closed (counter c)"
  shows "\<exists>x y. poll_wait f1 now c (wait_until_empty c) = Inl x \<and>
    (poll_wait f2 now c x = Inr () \<or> poll_wait f2 now c x = Inl y \<and> poll_wait f3 now c y = Inr ())"
  using assms
  by (auto simp: poll_wait_def wait_step_def wait_until_empty_def wait_until_empty_for_def wait_head_def
      await_new_count_def ec_count_def Let_def)

lemma draining_turns:
  assumes inv: "replay_inv cq config w" and ok: "config_ok cq config"
    and l: "rp_lifetime (w_replay w) = Draining (wait_until_empty (writer_count (w_replay w)))"
    and none: "mg_tasks (rp_merger (w_replay w)) = Map.empty"
  shows "\<exists>m. replay_run cq its [LifetimeTurn a, LifetimeTurn b, LifetimeTurn d] w
    = Some (w\<lparr>w_replay := (w_replay w)\<lparr>rp_merger := m, rp_lifetime := Saving\<rparr>\<rparr>)"
proof -
  let ?r = "w_replay w"
  have c: "ec_count (writer_count ?r) = 0" "\<not> ch_closed (counter (writer_count ?r))"
    using replay_invD(2) [OF inv] none by (simp_all add: counts_tasks_def)
  obtain x y where xy: "poll_wait a (w_now w) (writer_count ?r) (wait_until_empty (writer_count ?r)) = Inl x"
    "poll_wait b (w_now w) (writer_count ?r) x = Inr () \<or>
     poll_wait b (w_now w) (writer_count ?r) x = Inl y \<and> poll_wait d (w_now w) (writer_count ?r) y = Inr ()"
    using fresh_polls [OF c] by blast
  have run: "game_merging cq config (rp_merger ?r) (w_sent w)"
    by (rule merger_stateD(2) [OF replay_invD(1) [OF inv] ok]) (simp add: l merged_over_def)
  obtain m where "merger_finalize quorum_ops (rp_merger ?r) = Some m"
    using finalized_visible [OF ok [unfolded config_ok_def] run none] by blast
  then show ?thesis using xy l by (auto simp: replay_run_simps lifetime_turn_def no_writers_turn_def)
qed

lemma closing_turns:
  assumes c: "ec_count (reader_count (w_replay w)) = 0" "\<not> ch_closed (counter (reader_count (w_replay w)))"
    and l: "rp_lifetime (w_replay w) = NoReaders (wait_until_empty (reader_count (w_replay w)))"
  shows "\<exists>w'. replay_run cq its [LifetimeTurn a, LifetimeTurn b, LifetimeTurn d] w = Some w'
    \<and> rp_lifetime (w_replay w') = Ended \<and> w_now w' = w_now w"
proof -
  let ?r = "w_replay w"
  obtain x y where "poll_wait a (w_now w) (reader_count ?r) (wait_until_empty (reader_count ?r)) = Inl x"
    "poll_wait b (w_now w) (reader_count ?r) x = Inr () \<or>
     poll_wait b (w_now w) (reader_count ?r) x = Inl y \<and> poll_wait d (w_now w) (reader_count ?r) y = Inr ()"
    using fresh_polls [OF c] by blast
  then show ?thesis using l by (auto simp: replay_run_simps lifetime_turn_def no_writers_turn_def)
qed

lemma replay_run_append:
  "replay_run cq its (xs @ ys) w = replay_run cq its xs w \<bind> replay_run cq its ys"
proof (induction xs arbitrary: w)
  case (Cons ev xs)
  then show ?case by (cases "replay_step cq its ev w") (simp_all add: replay_run_simps)
qed (simp add: replay_run_simps)

lemma cancelled_turns:
  assumes ok: "config_ok cq config" and inv: "replay_inv cq config w"
    and w: "rp_lifetime (w_replay w) = NoWriters x" "rp_cancelled (w_replay w)"
      "mg_tasks (rp_merger (w_replay w)) = Map.empty" "rp_readers (w_replay w) = Map.empty"
    and len: "length fs = 4" "length gs = 3"
  shows "\<exists>w'. replay_run cq its (map LifetimeTurn fs @ SaveDone # map LifetimeTurn gs :: ('r, 'w) replay_event list) w = Some w'
    \<and> rp_lifetime (w_replay w') = Ended \<and> w_now w' = w_now w"
proof -
  obtain a b d e where fs: "fs = [a, b, d, e]" using len(1) by (auto simp: numeral_eq_Suc length_Suc_conv)
  obtain f g h where gs: "gs = [f, g, h]" using len(2) by (auto simp: numeral_eq_Suc length_Suc_conv)
  let ?w1 = "w\<lparr>w_replay := stop_accepting (w_replay w)\<rparr>"
  let ?ev = "LifetimeTurn a :: ('r, 'w) replay_event"
  have step: "replay_step cq its ?ev w = Some ?w1"
    using w(1,2) by (simp add: lifetime_turn_def no_writers_turn_def)
  obtain w1 where "replay_step cq its ?ev w = Some w1" "replay_inv cq config w1"
    using lifetime_turn_inv [OF ok inv] by blast
  then have inv1: "replay_inv cq config ?w1" using step by (simp del: replay_step.simps)
  let ?drain = "[LifetimeTurn b, LifetimeTurn d, LifetimeTurn e] :: ('r, 'w) replay_event list"
  let ?close = "[LifetimeTurn f, LifetimeTurn g, LifetimeTurn h] :: ('r, 'w) replay_event list"
  let ?save = "[SaveDone] :: ('r, 'w) replay_event list"
  obtain m where m: "replay_run cq its ?drain ?w1
      = Some (?w1\<lparr>w_replay := (w_replay ?w1)\<lparr>rp_merger := m, rp_lifetime := Saving\<rparr>\<rparr>)"
    using draining_turns [OF inv1 ok, of its b d e] w(3) by (auto simp: stop_accepting_def)
  let ?w2 = "?w1\<lparr>w_replay := (w_replay ?w1)\<lparr>rp_merger := m, rp_lifetime := Saving\<rparr>\<rparr>"
  let ?w3 = "?w2\<lparr>w_replay := save_done (w_replay ?w2)\<rparr>"
  have one: "replay_run cq its [?ev] w = Some ?w1"
    using step by (simp add: replay_run_simps del: replay_step.simps)
  have save: "replay_run cq its ?save ?w2 = Some ?w3" by (simp add: replay_run_simps)
  obtain w' where w': "replay_run cq its ?close ?w3 = Some w'" "rp_lifetime (w_replay w') = Ended" "w_now w' = w_now w"
    using closing_turns [of ?w3 cq its f g h] replay_invD(3) [OF inv] w(4)
    by (auto simp: save_done_def stop_accepting_def counts_tasks_def)
  have "replay_run cq its ([?ev] @ ?drain @ ?save @ ?close) w = Some w'"
    by (simp only: replay_run_append one m save w'(1) bind.bind_lunit)
  then show ?thesis using w'(2,3) by (auto simp: fs gs)
qed

text \<open>
  The two tasks that \<open>lifetime\<close> joins, once the token is cancelled: neither reads what the other
  writes, so that their turns may be shuffled.
\<close>

abbreviation with_timeout :: "forced_end \<Rightarrow> replay_world \<Rightarrow> replay_world" where
  "with_timeout t w \<equiv> w\<lparr>w_replay := (w_replay w)\<lparr>rp_timeout := t\<rparr>\<rparr>"

definition regular_event :: "('r, 'w) replay_event \<Rightarrow> bool" where
  "regular_event ev \<longleftrightarrow> ev \<in> insert SaveDone (range LifetimeTurn)"

lemma regular_step_timeout:
  assumes "regular_event ev"
  shows "possible (with_timeout t w) ev = possible w ev"
    "replay_step cq its ev (with_timeout t w) = map_option (with_timeout t) (replay_step cq its ev w)"
  using assms
  by (auto simp: regular_event_def save_done_def lifetime_turn_def no_writers_turn_def stop_accepting_def bind_map_option
      map_option_bind comp_def split: lifetime.splits sum.splits intro!: bind_option_cong)

lemma regular_step_same:
  assumes "regular_event ev" "replay_step cq its ev w = Some w'"
  shows "rp_timeout (w_replay w') = rp_timeout (w_replay w)" "rp_cancelled (w_replay w) \<Longrightarrow> rp_cancelled (w_replay w')"
  using assms
  by (auto simp: regular_event_def save_done_def lifetime_turn_def stop_accepting_def bind_eq_Some_conv
      split: lifetime.splits sum.splits)

lemma regular_run_timeout:
  assumes "\<forall>ev \<in> set evs. regular_event ev"
  shows "replay_run cq its evs (with_timeout t w) = map_option (with_timeout t) (replay_run cq its evs w)"
  using assms
proof (induction evs arbitrary: w)
  case (Cons ev evs)
  then show ?case using regular_step_timeout(1) [of ev t w] regular_step_timeout(2) [of ev cq its t w]
    by (cases "replay_step cq its ev w") (simp_all add: replay_run_simps)
qed (simp add: replay_run_simps)

text \<open>At most \<open>n\<close> turns of a cancelled timeout are left.\<close>

definition timeout_left :: "nat \<Rightarrow> forced_end \<Rightarrow> bool" where
  "timeout_left n t \<longleftrightarrow> (case t of TimeoutOver \<Rightarrow> True | Armed _ \<Rightarrow> 1 \<le> n | NotArmed \<Rightarrow> 2 \<le> n)"

lemma timeout_turn_left:
  assumes "rp_cancelled r" "timeout_left (Suc n) (rp_timeout r)"
  shows "\<exists>t. timeout_turn now r = r\<lparr>rp_timeout := t\<rparr> \<and> timeout_left n t"
  using assms by (cases "rp_timeout r") (auto simp: timeout_turn_def timeout_left_def intro: exI [of _ "rp_timeout r"])

lemma shuffled_turns:
  assumes "zs \<in> shuffles xs (replicate n TimeoutTurn)" "\<forall>ev \<in> set xs. regular_event ev"
    and "replay_run cq its xs w = Some w'" "rp_cancelled (w_replay w)" "timeout_left n (rp_timeout (w_replay w))"
  shows "replay_run cq its zs w = Some (with_timeout TimeoutOver w')"
  using assms
proof (induction zs arbitrary: xs n w w')
  case Nil
  then have "w' = w" "rp_timeout (w_replay w) = TimeoutOver"
    by (auto simp: replay_run_simps timeout_left_def split: forced_end.splits)
  then show ?case by (cases w; cases "w_replay w") (simp add: replay_run_simps)
next
  case (Cons z zs)
  consider (regular) xs' where "xs = z # xs'" "zs \<in> shuffles xs' (replicate n TimeoutTurn)"
    | (timeout) m where "n = Suc m" "z = TimeoutTurn" "zs \<in> shuffles xs (replicate m TimeoutTurn)"
    using Cons.prems(1) by (cases xs; cases n) (auto simp: Cons_in_shuffles_iff)
  then show ?case
  proof cases
    case regular
    then obtain u where u: "possible w z" "replay_step cq its z w = Some u" "replay_run cq its xs' u = Some w'"
      using Cons.prems(3) by (auto simp: replay_run_simps bind_eq_Some_conv split: if_splits)
    have "regular_event z" using regular Cons.prems(2) by simp
    note same = regular_step_same [OF this u(2)]
    have "replay_run cq its zs u = Some (with_timeout TimeoutOver w')"
      by (rule Cons.IH [OF regular(2)]) (use regular Cons.prems u(3) same in auto)
    then show ?thesis using u by (simp add: replay_run_simps)
  next
    case timeout
    obtain t where t: "timeout_turn (w_now w) (w_replay w) = (w_replay w)\<lparr>rp_timeout := t\<rparr>" "timeout_left m t"
      using timeout_turn_left Cons.prems(4,5) timeout(1) by blast
    have run: "replay_run cq its xs (with_timeout t w) = Some (with_timeout t w')"
      using regular_run_timeout [OF Cons.prems(2)] Cons.prems(3) by simp
    have "replay_run cq its zs (with_timeout t w) = Some (with_timeout TimeoutOver (with_timeout t w'))"
      by (rule Cons.IH [OF timeout(3) Cons.prems(2) run]) (use t(2) Cons.prems(4) in simp_all)
    then show ?thesis using timeout(2) t(1) by (simp add: replay_run_simps)
  qed
qed

text \<open>The steps of connections, and the end of the saving, leave the token and the timeout alone.\<close>

lemma connection_same_timeout:
  assumes "handle_connection cq its c k r0 = Some (u, r)"
  shows "rp_timeout r = rp_timeout r0 \<and> rp_cancelled r = rp_cancelled r0 \<and> forced_time r = forced_time r0"
proof (cases "should_stop r0")
  case False
  then obtain h where "get_header c = Some h" using assms by (auto simp: handle_connection_def bind_eq_Some_conv)
  then show ?thesis using assms False
    by (cases "ch_type h") (auto simp: handle_connection_def bind_eq_Some_conv)
qed (use assms in \<open>simp add: handle_connection_def\<close>)

definition control_event :: "('r, 'w) replay_event \<Rightarrow> bool" where
  "control_event ev \<longleftrightarrow> ev \<in> {TimeoutTurn, Shutdown, TimePasses} \<union> range LifetimeTurn"

lemma other_step_same:
  assumes "replay_step cq its ev w = Some w'" "possible w ev" "\<not> control_event ev"
  shows "rp_timeout (w_replay w') = rp_timeout (w_replay w) \<and> rp_cancelled (w_replay w') = rp_cancelled (w_replay w)
    \<and> forced_time (w_replay w') = forced_time (w_replay w) \<and> w_now w' = w_now w
    \<and> (rp_lifetime (w_replay w') = Ended \<longleftrightarrow> rp_lifetime (w_replay w) = Ended)"
proof (cases ev)
  case (Arrives c k)
  then obtain res r where "handle_connection cq its c k (w_replay w) = Some (res, r)" "w' = note_writers w r"
    using assms(1) by auto
  then show ?thesis using connection_same_timeout handle_connection_same by (fastforce simp: note_writers_def)
qed (use assms in \<open>auto simp: control_event_def note_writers_def writer_ends_def reader_polls_def reader_ends_def save_done_def
    bind_eq_Some_conv split: prod.splits\<close>)

text \<open>
  When the timeout is armed, when it is over, and for which reasons a replay is cancelled.
\<close>

lemma timeout_times:
  assumes "lives cq (world_new rid shutdown config now M) evs w"
  shows "now \<le> w_now w \<and> forced_time (w_replay w) = forced_timeout_s (replay config)
    \<and> (\<forall>d. rp_timeout (w_replay w) = Armed d \<longrightarrow>
        now + forced_timeout_s (replay config) \<le> d \<and> d \<le> w_now w + forced_timeout_s (replay config))
    \<and> (rp_timeout (w_replay w) = TimeoutOver \<longrightarrow> rp_cancelled (w_replay w))
    \<and> (rp_cancelled (w_replay w) \<longrightarrow> shutdown \<or> Shutdown \<in> set evs \<or> rp_lifetime (w_replay w) = Ended
        \<or> now + forced_timeout_s (replay config) \<le> w_now w)"
  using assms
proof induction
  case lives_new
  then show ?case by (simp add: world_new_def replay_new_def)
next
  case (lives_step evs w ev its w')
  note step = lives_step.hyps(4) and can = lives_step.hyps(2) and IH = lives_step.IH
  show ?case
  proof (cases "control_event ev")
    case True
    then consider (timeout) "ev = TimeoutTurn" | (down) "ev = Shutdown" | (time) "ev = TimePasses"
      | (life) first where "ev = LifetimeTurn first" by (auto simp: control_event_def)
    then show ?thesis
    proof cases
      case timeout
      then show ?thesis using IH step by (auto simp: timeout_turn_def split: forced_end.splits if_splits)
    next
      case life
      then show ?thesis using IH step
        by (auto simp: lifetime_turn_def stop_accepting_def bind_eq_Some_conv split: lifetime.splits sum.splits)
    qed (use IH step in auto)
  next
    case False
    from other_step_same [OF step can False] show ?thesis using IH by auto
  qed
qed

lemma armed_stays:
  assumes "lives cq v evs w" "rp_timeout (w_replay v) \<noteq> NotArmed"
  shows "rp_timeout (w_replay w) \<in> {rp_timeout (w_replay v), TimeoutOver}"
  using assms
proof induction
  case (lives_step evs w ev its w')
  note step = lives_step.hyps(4) and IH = lives_step.IH [OF lives_step.prems]
  show ?case
  proof (cases "control_event ev")
    case True
    then consider (timeout) "ev = TimeoutTurn" | (quick) "ev \<in> {Shutdown, TimePasses}"
      | (life) first where "ev = LifetimeTurn first" by (auto simp: control_event_def)
    then show ?thesis
    proof cases
      case timeout
      then show ?thesis using IH step lives_step.prems by (auto simp: timeout_turn_def split: forced_end.splits if_splits)
    next
      case life
      then show ?thesis using IH step
        by (auto simp: lifetime_turn_def stop_accepting_def bind_eq_Some_conv split: lifetime.splits sum.splits)
    qed (use IH step in auto)
  next
    case False
    from other_step_same [OF step lives_step.hyps(2) False] show ?thesis using IH by auto
  qed
qed simp

lemma due_timeout_turn:
  assumes reach: "lives cq (world_new rid shutdown config now M) evs w"
    and armed: "lives cq (world_new rid shutdown config now M) evs0 v" "rp_timeout (w_replay v) \<noteq> NotArmed" "lives cq v evs1 w"
    and due: "w_now v + forced_timeout_s (replay config) \<le> w_now w"
  shows "timeout_turn (w_now w) (w_replay w) = (w_replay w)\<lparr>rp_cancelled := True, rp_timeout := TimeoutOver\<rparr>"
proof (cases "rp_timeout (w_replay w)")
  case NotArmed
  then show ?thesis using armed_stays [OF armed(3,2)] armed(2) by auto
next
  case (Armed d)
  then have "rp_timeout (w_replay v) = Armed d" using armed_stays [OF armed(3,2)] by auto
  then have "d \<le> w_now w" using timeout_times [OF armed(1)] due by auto
  then show ?thesis using Armed by (cases "w_replay w") (auto simp: timeout_turn_def)
next
  case TimeoutOver
  then show ?thesis using timeout_times [OF reach] by (cases "w_replay w") (auto simp: timeout_turn_def)
qed

text \<open>
  C22: a cancelled replay ends. When a replay that was accepting connections is cancelled, and its
  writers and readers are gone, \<open>Replay::lifetime\<close> returns: apart from the saving the regular
  lifetime needs no more than four turns before it and three after it, the forced timeout no more
  than two, in any order and whatever the order in which they poll, and no time. When the forced
  timeout has passed since the timeout was polled first, its next turn cancels the replay, which
  then ends in the same way. And a replay that accepts connections is cancelled for no other
  reason than a shutdown or the forced timeout.
\<close>

theorem cancelled_replay_ends:
  fixes evs :: "('r, 'w) replay_event list"
  assumes "config_ok cq config" and "lives cq (world_new rid shutdown config now M) evs w"
    and "rp_lifetime (w_replay w) = NoWriters x"
    and "mg_tasks (rp_merger (w_replay w)) = Map.empty" and "rp_readers (w_replay w) = Map.empty"
    and "\<forall>n. orders_ok (its n)" and "length fs = 4" and "length gs = 3"
  shows "(rp_cancelled (w_replay w) \<longrightarrow>
      (\<forall>zs \<in> shuffles (map LifetimeTurn fs @ SaveDone # map LifetimeTurn gs :: ('r, 'w) replay_event list) [TimeoutTurn, TimeoutTurn].
        \<exists>w'. replay_run cq its zs w = Some w' \<and> lifetime_over (w_replay w') \<and> w_now w' = w_now w))
    \<and> (\<forall>(evs0 :: ('r, 'w) replay_event list) v (evs1 :: ('r, 'w) replay_event list).
        lives cq (world_new rid shutdown config now M) evs0 v \<longrightarrow> rp_timeout (w_replay v) \<noteq> NotArmed \<longrightarrow>
        lives cq v evs1 w \<longrightarrow> w_now v + forced_timeout_s (replay config) \<le> w_now w \<longrightarrow>
        (\<exists>w'. replay_run cq its (TimeoutTurn # map LifetimeTurn fs @ SaveDone # map LifetimeTurn gs
            :: ('r, 'w) replay_event list) w = Some w' \<and> lifetime_over (w_replay w') \<and> w_now w' = w_now w))
    \<and> (rp_cancelled (w_replay w) \<longrightarrow>
        shutdown \<or> Shutdown \<in> set evs \<or> now + forced_timeout_s (replay config) \<le> w_now w)"
proof (intro conjI allI impI ballI)
  let ?xs = "map LifetimeTurn fs @ SaveDone # map LifetimeTurn gs :: ('r, 'w) replay_event list"
  have inv: "replay_inv cq config w" by (rule game_inv [OF assms(1,2)])
  have regular: "\<forall>ev \<in> set ?xs. regular_event ev" by (auto simp: regular_event_def)
  show "\<exists>w'. replay_run cq its zs w = Some w' \<and> lifetime_over (w_replay w') \<and> w_now w' = w_now w"
    if c: "rp_cancelled (w_replay w)" and zs: "zs \<in> shuffles ?xs [TimeoutTurn, TimeoutTurn]" for zs
  proof -
    obtain w' where w': "replay_run cq its ?xs w = Some w'" "rp_lifetime (w_replay w') = Ended" "w_now w' = w_now w"
      using cancelled_turns [OF assms(1) inv assms(3) c assms(4,5,7,8)] by blast
    have "timeout_left 2 (rp_timeout (w_replay w))" by (auto simp: timeout_left_def split: forced_end.splits)
    then have "replay_run cq its zs w = Some (with_timeout TimeoutOver w')"
      using shuffled_turns [OF _ regular w'(1) c, of zs 2] zs by (simp add: numeral_eq_Suc)
    then show ?thesis using w' by (simp add: lifetime_over_def)
  qed
  show "\<exists>w'. replay_run cq its (TimeoutTurn # ?xs) w = Some w' \<and> lifetime_over (w_replay w') \<and> w_now w' = w_now w"
    if due: "lives cq (world_new rid shutdown config now M) evs0 v" "rp_timeout (w_replay v) \<noteq> NotArmed" "lives cq v evs1 w"
      "w_now v + forced_timeout_s (replay config) \<le> w_now w"
    for v and evs0 evs1 :: "('r, 'w) replay_event list"
  proof -
    let ?u = "w\<lparr>w_replay := (w_replay w)\<lparr>rp_cancelled := True, rp_timeout := TimeoutOver\<rparr>\<rparr>"
    have step: "replay_step cq its (TimeoutTurn :: ('r, 'w) replay_event) w = Some ?u"
      using due_timeout_turn [OF assms(2) due] by simp
    then have "replay_inv cq config ?u"
      using replay_step_inv [OF assms(1) inv assms(6), of "TimeoutTurn :: ('r, 'w) replay_event"] by simp
    then obtain w' where w': "replay_run cq its ?xs ?u = Some w'" "rp_lifetime (w_replay w') = Ended" "w_now w' = w_now w"
      using cancelled_turns [OF assms(1), of ?u x fs gs its] assms(3-5,7,8) by auto
    have "replay_run cq its ?xs ?u = Some (with_timeout TimeoutOver w')"
      using shuffled_turns [OF _ regular w'(1), of ?xs 0] by (simp add: timeout_left_def)
    then have "replay_run cq its (TimeoutTurn # ?xs) w = Some (with_timeout TimeoutOver w')"
      using step by (simp add: replay_run_simps(2) del: replay_step.simps)
    then show ?thesis using w'(2,3) by (simp add: lifetime_over_def)
  qed
  show "shutdown \<or> Shutdown \<in> set evs \<or> now + forced_timeout_s (replay config) \<le> w_now w" if "rp_cancelled (w_replay w)"
    using timeout_times [OF assms(2)] assms(3) that by auto
qed

definition forced_config :: InnerSettings where
  "forced_config = demo_config\<lparr>replay := (replay demo_config)\<lparr>forced_timeout_s := 1\<rparr>\<rparr>"

definition forced_game :: "(unit, unit) replay_event list" where
  "forced_game = [LifetimeTurn False, Arrives (demo_connection Writer) 0, LifetimeTurn False, LifetimeTurn False, LifetimeTurn False,
     TimeoutTurn]"

definition forced_rest :: "(unit, unit) replay_event list" where
  "forced_rest = [TimePasses, WriterEnds 0]"

lemma forced_runs:
  "\<exists>u v x. replay_run exact_quotient (\<lambda>_ _. ascending) forced_game (world_new 1 False forced_config 0 metrics_new) = Some u
     \<and> replay_run exact_quotient (\<lambda>_ _. ascending) forced_rest u = Some v \<and> rp_timeout (w_replay u) \<noteq> NotArmed
     \<and> w_now u + 1 \<le> w_now v \<and> rp_lifetime (w_replay v) = NoWriters x \<and> mg_tasks (rp_merger (w_replay v)) = Map.empty
     \<and> rp_readers (w_replay v) = Map.empty \<and> \<not> rp_cancelled (w_replay v)"
  unfolding forced_game_def forced_rest_def forced_config_def
  by (simp add: timeout_turn_def replay_eval eval_simps cong: bind_weak option.case_cong_weak)

theorem cancelled_replay_ends_witness:
  "\<exists>w w' u v v'. demo_play [LifetimeTurn False, Shutdown] = Some w
     \<and> replay_run exact_quotient (\<lambda>_ _. ascending) ([LifetimeTurn True, TimeoutTurn, LifetimeTurn True, LifetimeTurn True,
          LifetimeTurn True, SaveDone, TimeoutTurn, LifetimeTurn True, LifetimeTurn True, LifetimeTurn True]
          :: (unit, unit) replay_event list) w = Some w'
     \<and> lifetime_over (w_replay w')
     \<and> replay_run exact_quotient (\<lambda>_ _. ascending) forced_game (world_new 1 False forced_config 0 metrics_new) = Some u
     \<and> replay_run exact_quotient (\<lambda>_ _. ascending) forced_rest u = Some v \<and> \<not> rp_cancelled (w_replay v)
     \<and> replay_run exact_quotient (\<lambda>_ _. ascending) (TimeoutTurn # map LifetimeTurn [True, True, True, True]
          @ SaveDone # map LifetimeTurn [True, True, True] :: (unit, unit) replay_event list) v = Some v'
     \<and> lifetime_over (w_replay v')"
proof -
  have ords: "\<forall>n::nat. orders_ok (\<lambda>_. ascending)" by (simp add: ascending_orders)
  obtain w x where w: "demo_play [LifetimeTurn False, Shutdown] = Some w" "rp_lifetime (w_replay w) = NoWriters x"
    "mg_tasks (rp_merger (w_replay w)) = Map.empty" "rp_readers (w_replay w) = Map.empty" "rp_cancelled (w_replay w)"
    by (auto simp: replay_eval eval_simps cong: bind_weak option.case_cong_weak)
  have L: "lives exact_quotient (world_new 1 False demo_config 0 metrics_new)
      ([LifetimeTurn False, Shutdown] :: (unit, unit) replay_event list) w"
    using demo_lives [OF w(1)] by (simp add: demo_world_def)
  let ?zs = "[LifetimeTurn True, TimeoutTurn, LifetimeTurn True, LifetimeTurn True,
    LifetimeTurn True, SaveDone, TimeoutTurn, LifetimeTurn True, LifetimeTurn True, LifetimeTurn True]
    :: (unit, unit) replay_event list"
  have "?zs \<in> shuffles (map LifetimeTurn [True, True, True, True] @ SaveDone # map LifetimeTurn [True, True, True])
      [TimeoutTurn, TimeoutTurn]" by (simp add: Cons_in_shuffles_iff)
  then have 1: "\<exists>w'. replay_run exact_quotient (\<lambda>_ _. ascending) ?zs w = Some w' \<and> lifetime_over (w_replay w')"
    using cancelled_replay_ends [OF demo_config_ok L w(2-4) ords, of "[True, True, True, True]" "[True, True, True]"] w(5)
    by auto
  let ?v0 = "world_new 1 False forced_config 0 metrics_new"
  have ok: "config_ok exact_quotient forced_config" using demo_config_ok by (simp add: config_ok_def forced_config_def)
  obtain u v y where v: "replay_run exact_quotient (\<lambda>_ _. ascending) forced_game ?v0 = Some u"
    "replay_run exact_quotient (\<lambda>_ _. ascending) forced_rest u = Some v" "rp_timeout (w_replay u) \<noteq> NotArmed"
    "w_now u + 1 \<le> w_now v" "rp_lifetime (w_replay v) = NoWriters y" "mg_tasks (rp_merger (w_replay v)) = Map.empty"
    "rp_readers (w_replay v) = Map.empty" "\<not> rp_cancelled (w_replay v)"
    using forced_runs by blast
  have u: "lives exact_quotient ?v0 forced_game u"
    using replay_run_lives [OF v(1) lives_new] ascending_orders by simp
  have uv: "lives exact_quotient u forced_rest v" using replay_run_lives [OF v(2) lives_new] ascending_orders by simp
  have all: "lives exact_quotient ?v0 (forced_game @ forced_rest) v"
    using replay_run_lives [OF v(2) u] ascending_orders by simp
  have "w_now u + forced_timeout_s (replay forced_config) \<le> w_now v" using v(4) by (simp add: forced_config_def)
  then have 2: "\<exists>v'. replay_run exact_quotient (\<lambda>_ _. ascending) (TimeoutTurn # map LifetimeTurn [True, True, True, True]
      @ SaveDone # map LifetimeTurn [True, True, True] :: (unit, unit) replay_event list) v = Some v' \<and> lifetime_over (w_replay v')"
    using cancelled_replay_ends [OF ok all v(5-7) ords, of "[True, True, True, True]" "[True, True, True]",
        THEN conjunct2, THEN conjunct1, rule_format, OF _ _ u v(3) uv] by auto
  show ?thesis using 1 2 w(1) v(1,2,8) by blast
qed

text \<open>
  The metrics tell what goes on: a replay counts as running from the first turn of its lifetime
  to its end, and as finished from then on.
\<close>

theorem replay_metrics:
  assumes "lives cq (world_new rid shutdown config now M) evs w"
  shows "RUNNING_REPLAYS (w_metrics w) = RUNNING_REPLAYS M +
      (case rp_lifetime (w_replay w) of NotRunning \<Rightarrow> 0 | Ended \<Rightarrow> 0 | _ \<Rightarrow> 1)
    \<and> FINISHED_REPLAYS (w_metrics w) = FINISHED_REPLAYS M + (if rp_lifetime (w_replay w) = Ended then 1 else 0)"
  using assms
proof induction
  case lives_new
  then show ?case by (simp add: world_new_def replay_new_def)
next
  case (lives_step evs w ev its w')
  show ?case
  proof (cases "\<exists>first. ev = LifetimeTurn first")
    case True
    then show ?thesis using lives_step.IH lives_step.hyps(4)
      by (auto simp: lifetime_turn_def no_writers_turn_def stop_accepting_def bind_eq_Some_conv split: lifetime.splits if_splits sum.splits)
  next
    case False
    then have "w_metrics w' = w_metrics w \<and> (rp_lifetime (w_replay w') = rp_lifetime (w_replay w) \<or>
        (ev = SaveDone \<and> (\<exists>x. rp_lifetime (w_replay w') = NoReaders x)))"
      using lives_step.hyps(4) handle_connection_same
      by (cases ev) (force simp: note_writers_def writer_ends_def reader_polls_def reader_ends_def timeout_turn_def
          save_done_def bind_eq_Some_conv split: prod.splits forced_end.splits if_splits)+
    then show ?thesis using lives_step.IH lives_step.hyps(2) by auto
  qed
qed

theorem replay_metrics_witness:
  "\<exists>w. demo_play (demo_game @ demo_close) = Some w \<and> RUNNING_REPLAYS (w_metrics w) = 1"
proof -
  obtain w where w: "demo_play (demo_game @ demo_close) = Some w" "rp_lifetime (w_replay w) = Saving"
    using demo_close_run by blast
  have L: "lives exact_quotient (world_new 1 False demo_config 0 metrics_new) (demo_game @ demo_close) w"
    using demo_lives [OF w(1)] by (simp add: demo_world_def)
  from replay_metrics [OF L] w show ?thesis by (auto simp: metrics_new_def)
qed

end
