(* ===== verification/Saver.thy ===== *)
theory Saver
  imports Json_Header Saved_Path Replay_Facts
begin

text \<open>
  Saving a replay: \<open>write_replay_file\<close> of \<open>src/replay/save/writer.rs\<close> and \<open>InnerReplaySaver\<close> of
  \<open>src/replay/save/saver.rs\<close>. The encoder, \<open>serde_json::to_string\<close> and the parser that counts the
  ticks of a replay are parameters.
\<close>

subsection \<open>The encoder\<close>

record ('d, 'f, 'z) zstd =
  with_quality :: "'f \<Rightarrow> int \<Rightarrow> 'z"
  enc_write_all :: "'z \<Rightarrow> byte list \<Rightarrow> 'd \<Rightarrow> 'z io_result \<times> 'd"
  enc_shutdown :: "'z \<Rightarrow> 'd \<Rightarrow> unit io_result \<times> 'd"

text \<open>
  An encoder over a file that held \<open>c\<close> when it was made, and that has been given \<open>xs\<close>, is
  described by \<open>encodes z d f l c xs\<close>. After a shutdown that succeeds, the file has the encoding of
  \<open>xs\<close> after \<open>c\<close>. No other file is touched in any case.
\<close>

definition zstd_laws ::
  "('d, 'f, 'z) zstd \<Rightarrow> ('d \<Rightarrow> string \<rightharpoonup> byte list) \<Rightarrow> ('f \<Rightarrow> string) \<Rightarrow> (int \<Rightarrow> byte list \<Rightarrow> byte list) \<Rightarrow>
   ('z \<Rightarrow> 'd \<Rightarrow> 'f \<Rightarrow> int \<Rightarrow> byte list \<Rightarrow> byte list \<Rightarrow> bool) \<Rightarrow> bool" where
  "zstd_laws Z files path_of compress encodes \<longleftrightarrow>
     (\<forall>f l d c. files d (path_of f) = Some c \<longrightarrow> encodes (with_quality Z f l) d f l c []) \<and>
     (\<forall>z d f l c xs ys z' d'. encodes z d f l c xs \<longrightarrow> enc_write_all Z z ys d = (Inr z', d') \<longrightarrow>
        encodes z' d' f l c (xs @ ys) \<and> (\<forall>p. p \<noteq> path_of f \<longrightarrow> files d' p = files d p)) \<and>
     (\<forall>z d f l c xs ys e d' p. encodes z d f l c xs \<longrightarrow> enc_write_all Z z ys d = (Inl e, d') \<longrightarrow>
        p \<noteq> path_of f \<longrightarrow> files d' p = files d p) \<and>
     (\<forall>z d f l c xs d'. encodes z d f l c xs \<longrightarrow> enc_shutdown Z z d = (Inr (), d') \<longrightarrow>
        files d' (path_of f) = Some (c @ compress l xs) \<and> (\<forall>p. p \<noteq> path_of f \<longrightarrow> files d' p = files d p)) \<and>
     (\<forall>z d f l c xs e d' p. encodes z d f l c xs \<longrightarrow> enc_shutdown Z z d = (Inl e, d') \<longrightarrow>
        p \<noteq> path_of f \<longrightarrow> files d' p = files d p)"

lemmas zstd_lawsD =
  iffD1 [OF zstd_laws_def, THEN conjunct1, rule_format]
  iffD1 [OF zstd_laws_def, THEN conjunct2, THEN conjunct1, rule_format]
  iffD1 [OF zstd_laws_def, THEN conjunct2, THEN conjunct2, THEN conjunct1, rule_format]
  iffD1 [OF zstd_laws_def, THEN conjunct2, THEN conjunct2, THEN conjunct2, THEN conjunct1, rule_format]
  iffD1 [OF zstd_laws_def, THEN conjunct2, THEN conjunct2, THEN conjunct2, THEN conjunct2, rule_format]

subsection \<open>Writing the file\<close>

text \<open>
  \<open>tokio::io::copy\<close> with a buffer of \<open>cap\<close> bytes: read, write it all, until a read gives nothing.
  \<open>None\<close> is a panic of the reader, or a wait for more of the replay that does not end here.
\<close>

partial_function (option) copy_replay ::
  "('d, 'f, 'z) zstd \<Rightarrow> usize \<Rightarrow> task \<Rightarrow> mreplay_reader \<Rightarrow> merged_replay \<Rightarrow> 'z \<Rightarrow> 'd \<Rightarrow>
   ('z io_result \<times> 'd) option" where
  "copy_replay Z cap cx rd c z d =
     do {
       (p, bs, rd', c') \<leftarrow> poll_read rd c cx cap;
       if p = Pending then None
       else if bs = [] then Some (Inr z, d)
       else let (res, d') = enc_write_all Z z bs d
            in (case res of Inl e \<Rightarrow> Some (Inl e, d') | Inr z' \<Rightarrow> copy_replay Z cap cx rd' c' z' d')
     }"

declare copy_replay.simps [code]

text \<open>The cast \<open>compression_level as i32\<close> of a \<open>u32\<close>.\<close>

definition as_i32 :: "nat \<Rightarrow> int" where
  "as_i32 n = sint (word_of_nat n :: 32 word)"

definition write_replay_file ::
  "('d, 'f) disk \<Rightarrow> ('d, 'f, 'z) zstd \<Rightarrow> ('j \<Rightarrow> byte list io_result) \<Rightarrow> usize \<Rightarrow> task \<Rightarrow>
   'f \<Rightarrow> 'j \<Rightarrow> merged_replay \<Rightarrow> nat \<Rightarrow> 'd \<Rightarrow> (unit io_result \<times> 'd) option" where
  "write_replay_file D Z to_json cap cx to json_header mreplay level d =
     (case to_json json_header of
        Inl e \<Rightarrow> Some (Inl e, d)
      | Inr js \<Rightarrow>
     case write_all D to js d of
        (Inl e, d) \<Rightarrow> Some (Inl e, d)
      | (Inr _, d) \<Rightarrow>
     case write_all D to [10] d of
        (Inl e, d) \<Rightarrow> Some (Inl e, d)
      | (Inr _, d) \<Rightarrow>
          let clevel = as_i32 level;
              encoder = with_quality Z to clevel
          in do {
            (res, d) \<leftarrow> copy_replay Z cap cx rd_new mreplay encoder d;
            Some (case res of
                Inl e \<Rightarrow> (Inl e, d)
              | Inr encoder \<Rightarrow> enc_shutdown Z encoder d)
          })"

subsection \<open>The saver\<close>

text \<open>What the saver uses that is not part of the program.\<close>

record ('p, 't, 'e, 'd, 'f, 'z) outside_world =
  ow_sqlx :: "('p, 't, 'e) sqlx"
  ow_disk :: "('d, 'f) disk"
  ow_zstd :: "('d, 'f, 'z) zstd"
  to_json :: "replay_json_header \<Rightarrow> byte list io_result"
  parse_body_ticks :: "byte list \<Rightarrow> string + nat"
  unix_timestamp :: "'t \<Rightarrow> int"
  now_utc :: 't
  copy_buffer :: usize

record inner_replay_saver =
  save_dir :: saved_replay_directory
  saver_level :: nat

definition new_inner :: "saved_replay_directory \<Rightarrow> InnerSettings \<Rightarrow> inner_replay_saver" where
  "new_inner dir config = \<lparr>save_dir = dir, saver_level = compression_level (storage config)\<rparr>"

text \<open>The parser reads from the cursor; the number that it finds depends on the bytes that it gets.\<close>

definition get_ticks ::
  "('p, 't, 'e, 'd, 'f, 'z) outside_world \<Rightarrow> merged_replay read_cursor \<Rightarrow> nat option option" where
  "get_ticks W data =
     do {
       bytes \<leftarrow> read_to_end mr_ops (copy_buffer W) data [];
       Some (case parse_body_ticks W bytes of Inl _ \<Rightarrow> None | Inr n \<Rightarrow> Some n)
     }"

definition count_ticks ::
  "('p, 't, 'e, 'd, 'f, 'z) outside_world \<Rightarrow> merged_replay \<Rightarrow> nat option option" where
  "count_ticks W mreplay =
     (let header_len = mr_header_len mreplay
      in if header_len \<noteq> 0 then get_ticks W (reader_from mreplay header_len) else Some None)"

definition save_replay_to_disk ::
  "('p, 't, 'e, 'd, 'f, 'z) outside_world \<Rightarrow> inner_replay_saver \<Rightarrow> task \<Rightarrow> merged_replay \<Rightarrow> nat \<Rightarrow>
   'p \<Rightarrow> 'd \<Rightarrow> metrics \<Rightarrow> (bool \<times> 'p \<times> 'd \<times> metrics) option" where
  "save_replay_to_disk W self cx mreplay i p d M =
     (if mr_header mreplay = None then Some (False, p, d, M)
      else case from_id_and_db (ow_sqlx W) (unix_timestamp W) (now_utc W) i p of
        (Inl e, p) \<Rightarrow> Some (False, p, d, M)
      | (Inr json_header, p) \<Rightarrow>
          do {
            (touched, d) \<leftarrow> touch_and_return_file (ow_disk W) (save_dir self) i d;
            (case touched of
               Inl e \<Rightarrow> Some (False, p, d, M)
             | Inr (target_file, target_path) \<Rightarrow>
                 do {
                   (written, d) \<leftarrow> write_replay_file (ow_disk W) (ow_zstd W) (to_json W) (copy_buffer W) cx
                      target_file json_header mreplay (saver_level self) d;
                   Some (case written of
                       Inl e \<Rightarrow> (False, p, d, M)
                     | Inr _ \<Rightarrow> (True, p, d, M\<lparr>SAVED_REPLAYS := SAVED_REPLAYS M + 1\<rparr>))
                 })
          })"

definition save_replay ::
  "('p, 't, 'e, 'd, 'f, 'z) outside_world \<Rightarrow> inner_replay_saver \<Rightarrow> task \<Rightarrow> merged_replay \<Rightarrow> nat \<Rightarrow>
   'p \<Rightarrow> 'd \<Rightarrow> metrics \<Rightarrow> ('p \<times> 'd \<times> metrics) option" where
  "save_replay W self cx mreplay i p d M =
     do {
       (replay_saved, p, d, M) \<leftarrow> save_replay_to_disk W self cx mreplay i p d M;
       ticks \<leftarrow> count_ticks W mreplay;
       let (res, p) = queries_update_game_stats (ow_sqlx W) i ticks replay_saved p;
       Some (p, d, M)
     }"

subsection \<open>Writing a finished replay\<close>

lemma copy_finished:
  assumes Z: "zstd_laws Z files path_of compress encodes" and c: "mr_visible c zs" "mr_finished c" and cap: "0 < cap"
  shows "reader_ok rd out zs \<Longrightarrow> encodes z d f l c0 out \<Longrightarrow>
    \<exists>res d'. copy_replay Z cap cx rd c z d = Some (res, d') \<and> (\<forall>p. p \<noteq> path_of f \<longrightarrow> files d' p = files d p)
      \<and> (\<forall>z'. res = Inr z' \<longrightarrow> encodes z' d' f l c0 zs)"
proof (induction "length zs - length out" arbitrary: rd out z d rule: less_induct)
  case less
  obtain bs rd' where r: "poll_read rd c cx cap = Some (Ready, bs, rd', c)" "reader_ok rd' (out @ bs) zs"
    "bs = [] \<longrightarrow> out = zs"
    using finished_poll [OF c less.prems(1) cap] by blast
  show ?case
  proof (cases "bs = []")
    case True
    then show ?thesis using r less.prems(2) by (subst copy_replay.simps) simp
  next
    case False
    obtain res d1 where w: "enc_write_all Z z bs d = (res, d1)" by fastforce
    show ?thesis
    proof (cases res)
      case (Inl e)
      then have "files d1 p = files d p" if "p \<noteq> path_of f" for p
        using zstd_lawsD(3) [OF Z less.prems(2)] w that by blast
      then show ?thesis using r(1) False w Inl by (subst copy_replay.simps) simp
    next
      case (Inr z1)
      have enc: "encodes z1 d1 f l c0 (out @ bs)" "\<And>p. p \<noteq> path_of f \<Longrightarrow> files d1 p = files d p"
        using zstd_lawsD(2) [OF Z less.prems(2)] w Inr by blast+
      have "length (out @ bs) \<le> length zs" using r(2) by (simp add: reader_ok_def)
      then have "length zs - length (out @ bs) < length zs - length out" using False by (cases bs) auto
      from less.hyps [OF this r(2) enc(1)] show ?thesis
        using r(1) False w Inr enc(2) by (subst copy_replay.simps) simp
    qed
  qed
qed

text \<open>What a file gets: the header on a line of its own, and the encoded replay.\<close>

definition file_contents :: "(int \<Rightarrow> byte list \<Rightarrow> byte list) \<Rightarrow> nat \<Rightarrow> byte list \<Rightarrow> byte list \<Rightarrow> byte list" where
  "file_contents compress level js zs = js @ [10] @ compress (as_i32 level) zs"

lemma write_finished:
  assumes D: "disk_laws D files path_of" and Z: "zstd_laws Z files path_of compress encodes"
    and c: "mr_visible c zs" "mr_finished c" and cap: "0 < cap" and f: "files d (path_of f) = Some []"
  shows "\<exists>res d'. write_replay_file D Z tj cap cx f jh c level d = Some (res, d')
    \<and> (\<forall>p. p \<noteq> path_of f \<longrightarrow> files d' p = files d p)
    \<and> (res = Inr () \<longrightarrow> (\<exists>js. tj jh = Inr js \<and> files d' (path_of f) = Some (file_contents compress level js zs)))"
proof (cases "tj jh")
  case (Inl e)
  then show ?thesis by (simp add: write_replay_file_def)
next
  case js: (Inr js)
  obtain r1 d1 where w1: "write_all D f js d = (r1, d1)" by fastforce
  show ?thesis
  proof (cases r1)
    case (Inl e)
    then show ?thesis using js w1 disk_lawsD(5) [OF D] by (fastforce simp: write_replay_file_def)
  next
    case r1: (Inr u1)
    have f1: "files d1 = (files d)(path_of f \<mapsto> js)"
      using disk_lawsD(4) [OF D, of f js d d1] w1 r1 f by simp
    obtain r2 d2 where w2: "write_all D f [10] d1 = (r2, d2)" by fastforce
    show ?thesis
    proof (cases r2)
      case (Inl e)
      then have "files d2 p = files d p" if "p \<noteq> path_of f" for p
        using disk_lawsD(5) [OF D, of f "[10]" d1 e d2 p] w2 f1 that by simp
      then show ?thesis using js w1 r1 w2 Inl by (simp add: write_replay_file_def)
    next
      case r2: (Inr u2)
      have f2: "files d2 = (files d1)(path_of f \<mapsto> js @ [10])"
        using disk_lawsD(4) [OF D, of f "[10]" d1 d2] w2 r2 f1 by simp
      let ?l = "as_i32 level" and ?c0 = "js @ [10]"
      have e0: "encodes (with_quality Z f ?l) d2 f ?l ?c0 []" using zstd_lawsD(1) [OF Z] f2 by simp
      obtain res d3 where cp: "copy_replay Z cap cx rd_new c (with_quality Z f ?l) d2 = Some (res, d3)"
        "\<And>p. p \<noteq> path_of f \<Longrightarrow> files d3 p = files d2 p" "\<And>z'. res = Inr z' \<Longrightarrow> encodes z' d3 f ?l ?c0 zs"
        using copy_finished [OF Z c cap reader_ok_new e0] by blast
      show ?thesis
      proof (cases res)
        case (Inl e)
        then show ?thesis using js w1 r1 w2 r2 cp f1 f2 by (simp add: write_replay_file_def Let_def)
      next
        case (Inr z')
        obtain r4 d4 where s: "enc_shutdown Z z' d3 = (r4, d4)" by fastforce
        have "files d4 p = files d p" if "p \<noteq> path_of f" for p
          using zstd_lawsD(4) [OF Z cp(3) [OF Inr], of d4] zstd_lawsD(5) [OF Z cp(3) [OF Inr], of _ d4 p] s that cp(2) f1 f2
          by (cases r4) auto
        moreover have "files d4 (path_of f) = Some (file_contents compress level js zs)" if "r4 = Inr ()"
          using zstd_lawsD(4) [OF Z cp(3) [OF Inr], of d4] s that by (simp add: file_contents_def)
        ultimately show ?thesis using js w1 r1 w2 r2 cp(1) Inr s by (simp add: write_replay_file_def Let_def)
      qed
    qed
  qed
qed

text \<open>
  All of \<open>save_replay_to_disk\<close>: it returns; the files that were there stay as they are; and its
  result says whether the file of the game is there in full.
\<close>

definition saver_laws ::
  "('p, 't, 'e, 'd, 'f, 'z) outside_world \<Rightarrow> ('d \<Rightarrow> string \<rightharpoonup> byte list) \<Rightarrow> (int \<Rightarrow> byte list \<Rightarrow> byte list) \<Rightarrow> bool" where
  "saver_laws W files compress \<longleftrightarrow> 0 < copy_buffer W \<and>
     (\<exists>path_of encodes. disk_laws (ow_disk W) files path_of \<and> zstd_laws (ow_zstd W) files path_of compress encodes)"

definition saved_as ::
  "('p, 't, 'e, 'd, 'f, 'z) outside_world \<Rightarrow> inner_replay_saver \<Rightarrow> nat \<Rightarrow> (int \<Rightarrow> byte list \<Rightarrow> byte list) \<Rightarrow>
   byte list \<Rightarrow> 'p \<Rightarrow> 'p \<Rightarrow> byte list \<Rightarrow> bool" where
  "saved_as W self i compress zs p p' contents \<longleftrightarrow>
     (\<exists>jh js. from_id_and_db (ow_sqlx W) (unix_timestamp W) (now_utc W) i p = (Inr jh, p') \<and> to_json W jh = Inr js
        \<and> contents = file_contents compress (saver_level self) js zs)"

lemma save_to_disk_finished:
  assumes laws: "saver_laws W files compress" and c: "mr_visible c zs" "mr_finished c"
  shows "\<exists>saved p' d' M'. save_replay_to_disk W self cx c i p d M = Some (saved, p', d', M')
    \<and> (\<forall>q x. files d q = Some x \<longrightarrow> files d' q = Some x)
    \<and> (if saved
       then \<exists>x. files d (replay_file (save_dir self) i) = None \<and> files d' (replay_file (save_dir self) i) = Some x
              \<and> saved_as W self i compress zs p p' x \<and> mr_header c \<noteq> None
              \<and> M' = M\<lparr>SAVED_REPLAYS := SAVED_REPLAYS M + 1\<rparr>
       else M' = M)"
proof (cases "mr_header c = None")
  case True
  then have "save_replay_to_disk W self cx c i p d M = Some (False, p, d, M)"
    by (simp add: save_replay_to_disk_def)
  then show ?thesis by (intro exI conjI) auto
next
  case h: False
  obtain path_of encodes where L: "disk_laws (ow_disk W) files path_of"
    "zstd_laws (ow_zstd W) files path_of compress encodes" "0 < copy_buffer W"
    using laws by (auto simp: saver_laws_def)
  obtain r1 p1 where j: "from_id_and_db (ow_sqlx W) (unix_timestamp W) (now_utc W) i p = (r1, p1)" by fastforce
  show ?thesis
  proof (cases r1)
    case (Inl e)
    then have "save_replay_to_disk W self cx c i p d M = Some (False, p1, d, M)"
      using h j Inl by (auto simp: save_replay_to_disk_def)
    then show ?thesis by (intro exI conjI) auto
  next
    case r1: (Inr jh)
    obtain x where "touch_and_return_file (ow_disk W) (save_dir self) i d = Some x" by (simp add: touch_eq)
    then obtain r2 d1 where t: "touch_and_return_file (ow_disk W) (save_dir self) i d = Some (r2, d1)" by (cases x) simp
    show ?thesis
    proof (cases r2)
      case (Inl e)
      then have "files d1 = files d" using touch_laws [OF L(1) t] by simp
      moreover have "save_replay_to_disk W self cx c i p d M = Some (False, p1, d1, M)"
        using h j r1 t Inl by (auto simp: save_replay_to_disk_def)
      ultimately show ?thesis by (intro exI conjI) auto
    next
      case r2: (Inr fp)
      obtain f q where fp: "fp = (f, q)" by (cases fp)
      have f: "q = replay_file (save_dir self) i" "path_of f = q" "files d q = None" "files d1 = (files d)(q \<mapsto> [])"
        using touch_laws [OF L(1) t] unfolding r2 fp sum.case prod.case by blast+
      then have "files d1 (path_of f) = Some []" by simp
      from write_finished [OF L(1,2) c L(3) this, of "to_json W" cx jh "saver_level self"]
      obtain res d' where w: "write_replay_file (ow_disk W) (ow_zstd W) (to_json W) (copy_buffer W) cx f jh c
          (saver_level self) d1 = Some (res, d')" "\<And>p. p \<noteq> q \<Longrightarrow> files d' p = files d1 p"
        "res = Inr () \<Longrightarrow> \<exists>js. to_json W jh = Inr js \<and> files d' q = Some (file_contents compress (saver_level self) js zs)"
        using f(2) by auto
      have old: "\<forall>p x. files d p = Some x \<longrightarrow> files d' p = Some x"
        using w(2) f(3,4) by (metis fun_upd_other option.distinct(1))
      show ?thesis
      proof (cases res)
        case (Inl e)
        then have "save_replay_to_disk W self cx c i p d M = Some (False, p1, d', M)"
          using h j r1 t r2 fp w(1) Inl by (auto simp: save_replay_to_disk_def)
        then show ?thesis using old by (intro exI conjI) auto
      next
        case (Inr u)
        then obtain js where js: "to_json W jh = Inr js"
          "files d' q = Some (file_contents compress (saver_level self) js zs)"
          using w(3) by auto
        have "save_replay_to_disk W self cx c i p d M = Some (True, p1, d', M\<lparr>SAVED_REPLAYS := SAVED_REPLAYS M + 1\<rparr>)"
          using h j r1 t r2 fp w(1) Inr by (auto simp: save_replay_to_disk_def)
        moreover have "saved_as W self i compress zs p p1 (file_contents compress (saver_level self) js zs)"
          using j r1 js(1) by (auto simp: saved_as_def)
        ultimately show ?thesis using old f(1,3) h js(2) by (intro exI conjI) auto
      qed
    qed
  qed
qed

lemma count_ticks_visible:
  assumes "mr_visible c zs" "mr_finished c" "0 < copy_buffer W"
  shows "count_ticks W c = Some (if mr_header_len c = 0 then None
    else case parse_body_ticks W (drop (mr_header_len c) zs) of Inl _ \<Rightarrow> None | Inr n \<Rightarrow> Some n)"
  using mr.read_to_upto_rep [OF assms(1) _ assms(3), of "mr_header_len c" "[]"]
  by (simp add: count_ticks_def get_ticks_def Let_def)

text \<open>A world in memory, which satisfies the laws.\<close>

definition mem_zstd :: "(mem_disk, string, string \<times> int \<times> byte list) zstd" where
  "mem_zstd =
     \<lparr>with_quality = (\<lambda>f l. (f, l, [])),
      enc_write_all = (\<lambda>(f, l, xs) ys d. (Inr (f, l, xs @ ys), d)),
      enc_shutdown = (\<lambda>(f, l, xs) d. case d f of
          None \<Rightarrow> (Inl (OtherIo 2), d)
        | Some c \<Rightarrow> (Inr (), d(f \<mapsto> c @ word_of_int l # xs)))\<rparr>"

definition mem_world :: "(unit, int, nat, mem_disk, string, string \<times> int \<times> byte list) outside_world" where
  "mem_world =
     \<lparr>ow_sqlx = demo_sqlx, ow_disk = mem_disk_ops, ow_zstd = mem_zstd, to_json = (\<lambda>h. Inr [123, 125]),
      parse_body_ticks = (\<lambda>bs. Inr (length bs)), unix_timestamp = (\<lambda>t. t), now_utc = 100, copy_buffer = 2\<rparr>"

lemma mem_world_laws: "saver_laws mem_world (\<lambda>d. d) (\<lambda>l xs. word_of_int l # xs)"
proof -
  have "zstd_laws mem_zstd (\<lambda>d. d) (\<lambda>p. p) (\<lambda>l xs. word_of_int l # xs)
      (\<lambda>z d f l c xs. z = (f, l, xs) \<and> d f = Some c)"
    unfolding zstd_laws_def mem_zstd_def by (auto split: option.splits)
  then show ?thesis unfolding saver_laws_def mem_world_def using mem_disk_laws by auto
qed

subsection \<open>Properties\<close>

text \<open>
  C12: what the file of a game has. Saving a replay whose merging is over always returns. It never
  changes a file that is there already. It says that the replay is saved, and counts it, only
  if the file of the game was not there before and now has the header for the game on its first
  line, and then the encoding of everything that readers could see, at the configured level.
\<close>

theorem saved_file_complete:
  assumes "config_ok cq config" and "lives cq (world_new rid shutdown config now M0) evs w"
    and "merged_over (rp_lifetime (w_replay w))" and "canonical (rp_merger (w_replay w)) = Some c"
    and "saver_laws W files compress"
  shows "\<exists>saved p' d' M'. save_replay_to_disk W self cx c i p d M = Some (saved, p', d', M')
    \<and> (\<forall>q x. files d q = Some x \<longrightarrow> files d' q = Some x)
    \<and> (if saved
       then \<exists>x. files d (replay_file (save_dir self) i) = None \<and> files d' (replay_file (save_dir self) i) = Some x
              \<and> saved_as W self i compress (visible_bytes c) p p' x \<and> mr_header c \<noteq> None
              \<and> M' = M\<lparr>SAVED_REPLAYS := SAVED_REPLAYS M + 1\<rparr>
       else M' = M)"
proof -
  have "mr_visible c (visible_bytes c)" "mr_finished c"
    using replay_invD(5) [OF game_inv [OF assms(1,2)]] assms(3,4) by auto
  from save_to_disk_finished [OF assms(5) this] show ?thesis .
qed

definition demo_saver :: inner_replay_saver where
  "demo_saver = new_inner (directory_new ''/vault'') demo_config"

theorem saved_file_complete_witness:
  "\<exists>w c saved p' d' M'. demo_play (demo_game @ demo_close) = Some w \<and> canonical (rp_merger (w_replay w)) = Some c
     \<and> visible_bytes c = [1, 7, 8]
     \<and> save_replay_to_disk mem_world demo_saver 0 c 1 () (Map.empty(''/x'' \<mapsto> [5])) metrics_new = Some (saved, p', d', M')
     \<and> d' ''/x'' = Some [5]"
proof -
  obtain w c where w: "demo_play (demo_game @ demo_close) = Some w" "rp_lifetime (w_replay w) = Saving"
    "canonical (rp_merger (w_replay w)) = Some c" "visible_bytes c = [1, 7, 8]"
    using demo_close_run by blast
  have L: "lives exact_quotient (world_new 1 False demo_config 0 metrics_new) (demo_game @ demo_close) w"
    using demo_lives [OF w(1)] by (simp add: demo_world_def)
  have over: "merged_over (rp_lifetime (w_replay w))" using w(2) by (simp add: merged_over_def)
  have "(Map.empty(''/x'' \<mapsto> [5 :: byte])) ''/x'' = Some [5]" by simp
  then show ?thesis
    using w saved_file_complete [OF demo_config_ok L over w(3) mem_world_laws, of demo_saver 0 1 "()" "Map.empty(''/x'' \<mapsto> [5])" metrics_new]
    by blast
qed

text \<open>
  C23: the database is told the truth. Whatever happens, saving a finished replay ends with a single
  update of the game: it says that the replay is available if and only if it has been saved, and
  gives the number of ticks that the parser finds in what comes after the header, or none where
  it fails or where there is no header.
\<close>

theorem database_is_told:
  assumes "mr_visible c zs" and "mr_finished c" and "saver_laws W files compress"
  shows "\<exists>saved p' d' M'. save_replay_to_disk W self cx c i p d M = Some (saved, p', d', M')
    \<and> save_replay W self cx c i p d M = Some (snd (execute_query (ow_sqlx W) update_query
         [BindOptU32 (if mr_header_len c = 0 then None
            else case parse_body_ticks W (drop (mr_header_len c) zs) of Inl _ \<Rightarrow> None | Inr n \<Rightarrow> Some n),
          BindBool saved, BindU64 i] p'), d', M')"
proof -
  have cap: "0 < copy_buffer W" using assms(3) by (simp add: saver_laws_def)
  obtain saved p' d' M' where s: "save_replay_to_disk W self cx c i p d M = Some (saved, p', d', M')"
    using save_to_disk_finished [OF assms(3,1,2)] by metis
  then show ?thesis using count_ticks_visible [OF assms(1,2) cap]
    by (auto simp: save_replay_def queries_update_game_stats_def update_game_stats_def Let_def split: prod.splits)
qed

theorem database_is_told_witness:
  "\<exists>saved p' d' M'. save_replay_to_disk mem_world demo_saver 0 (mr_finish mr_new) 1 () Map.empty metrics_new = Some (saved, p', d', M')
     \<and> save_replay mem_world demo_saver 0 (mr_finish mr_new) 1 () Map.empty metrics_new = Some ((), d', M')"
proof -
  have "mr_visible (mr_finish mr_new) []"
    using mr_rep_cong [of "mr_finish mr_new" mr_new "[]"] mr_rep_new
    by (auto simp: mr_visible_def mr_stream_def header_bytes_def stream_simps)
  from database_is_told [OF this _ mem_world_laws, of demo_saver 0 1 "()" Map.empty metrics_new] show ?thesis
    by (auto simp: stream_simps)
qed

text \<open>
  The way a saved file is read again: the first line with its end, and the decoding of the rest.
\<close>

definition unpack_replay :: "(byte list \<Rightarrow> byte list option) \<Rightarrow> byte list \<Rightarrow> (byte list \<times> byte list) option" where
  "unpack_replay decode bytes =
     (let json = upto 10 bytes; unc_replay = drop (length json) bytes
      in map_option (Pair json) (decode unc_replay))"

lemma upto_line: "10 \<notin> set js \<Longrightarrow> upto 10 (js @ 10 # xs) = js @ [10]"
  by (auto simp: upto_def takeWhile_append)

text \<open>
  C13: a saved file can be unpacked. With a header text without line breaks and a decoder that
  undoes the encoder, the file gives back the header text and the very bytes of the replay.
\<close>

theorem saved_file_unpacks:
  assumes "\<And>l xs. decode (compress l xs) = Some xs" and "\<And>jh js. to_json W jh = Inr js \<Longrightarrow> 10 \<notin> set js"
    and "saver_laws W files compress" and "mr_visible c zs" and "mr_finished c"
    and "save_replay_to_disk W self cx c i p d M = Some (True, p', d', M')"
  shows "\<exists>x jh js. files d' (replay_file (save_dir self) i) = Some x
    \<and> from_id_and_db (ow_sqlx W) (unix_timestamp W) (now_utc W) i p = (Inr jh, p') \<and> to_json W jh = Inr js
    \<and> unpack_replay decode x = Some (js @ [10], zs)"
proof -
  obtain x where x: "files d' (replay_file (save_dir self) i) = Some x" "saved_as W self i compress zs p p' x"
    using save_to_disk_finished [OF assms(3-5), of self cx i p d M] assms(6) by auto
  then obtain jh js where j: "from_id_and_db (ow_sqlx W) (unix_timestamp W) (now_utc W) i p = (Inr jh, p')"
    "to_json W jh = Inr js" "x = js @ 10 # compress (as_i32 (saver_level self)) zs"
    by (auto simp: saved_as_def file_contents_def)
  then have "unpack_replay decode x = Some (js @ [10], zs)"
    using upto_line [OF assms(2) [OF j(2)]] assms(1) by (simp add: unpack_replay_def)
  with x(1) j show ?thesis by blast
qed

definition demo_merged :: merged_replay where
  "demo_merged = mr_finish (the (mr_add_header mr_new [1, 2, 3]))"

lemma demo_merged_eq: "demo_merged = mr_finish (mr_notify_read_event (mr_new\<lparr>mr_header := Some [1, 2, 3]\<rparr>))"
  by (simp add: demo_merged_def mr_add_header_rep mr_rep_new mr_new_simps(4))

lemma demo_merged_facts:
  "mr_visible demo_merged [1, 2, 3]" "mr_finished demo_merged"
  using mr_rep_cong [of demo_merged mr_new "[]"] mr_rep_new
  by (auto simp: demo_merged_eq mr_visible_def mr_stream_def header_bytes_def stream_simps)

lemma demo_merged_saved:
  "\<exists>d' M'. save_replay_to_disk mem_world demo_saver 0 demo_merged 1 () Map.empty metrics_new = Some (True, (), d', M')"
  by (simp add: save_replay_to_disk_def demo_merged_eq mem_world_def demo_saver_def new_inner_def
      directory_new_def from_id_and_db_def get_game_stats_def get_game_stat_row_def get_player_count_def
      get_teams_in_game_def get_team_players_def demo_sqlx_def get_mod_versions_def get_mod_version_list_def
      touch_eq mem_disk_ops_def mem_zstd_def write_replay_file_def copy_replay.simps poll_read_def rd_new_def
      mr_len_def mr_get_chunk_def mr_header_len_def stream_simps Let_def cong: bind_weak option.case_cong_weak)

theorem saved_file_unpacks_witness:
  "\<exists>d' M' x. save_replay_to_disk mem_world demo_saver 0 demo_merged 1 () Map.empty metrics_new = Some (True, (), d', M')
     \<and> d' (replay_file (save_dir demo_saver) 1) = Some x \<and> unpack_replay (\<lambda>bs. Some (tl bs)) x = Some ([123, 125, 10], [1, 2, 3])"
proof -
  obtain d' M' where s: "save_replay_to_disk mem_world demo_saver 0 demo_merged 1 () Map.empty metrics_new = Some (True, (), d', M')"
    using demo_merged_saved by blast
  have "10 \<notin> set js" if "to_json mem_world jh = Inr js" for jh js
    using that by (auto simp: mem_world_def)
  from saved_file_unpacks [where decode = "\<lambda>bs. Some (tl bs)", OF _ this mem_world_laws demo_merged_facts s] s show ?thesis
    by (force simp: mem_world_def)
qed

end
