(* ===== verification/Worker_System.thy ===== *)
theory Worker_System
  imports Replays Saver
begin

text \<open>
  A worker with all that runs in it: \<open>handle_connections_and_replays\<close> of \<open>src/replay/replays.rs\<close> with
  the futures of \<open>handle_connection_or_replay_lifetime\<close>, each of which is a lifetime or a connection
  of a replay as in \<open>src/replay/replay.rs\<close>, and with the saver that a lifetime calls. The replays share
  the clock, the metrics, the token of the shutdown, the database and the disk.
\<close>

subsection \<open>State\<close>

text \<open>
  A connection that has been assigned has not begun, is handled by the merger of its replay as the
  task \<open>t\<close>, or by its sender. A future keeps its place in \<open>wk_futures\<close>, which is empty after it has
  ended; the sender's task is named by it. \<open>wk_games\<close> has every replay that was ever made, by its key.
  \<open>wk_saved\<close> is a record of the replays for which the metric of saved replays was counted up.
\<close>

datatype phase = Fresh | Writing nat | Reading

datatype ('r, 'w) future = Lives nat | Handles "('r, 'w) connection" nat phase

record ('r, 'w, 'p, 'd) worker_system =
  wk_replays :: replays
  wk_futures :: "('r, 'w) future option list"
  wk_games :: "nat \<rightharpoonup> replay_world"
  wk_now :: nat
  wk_down :: bool
  wk_metrics :: metrics
  wk_db :: 'p
  wk_disk :: 'd
  wk_saved :: "nat list"

definition system_new :: "nat \<Rightarrow> bool \<Rightarrow> metrics \<Rightarrow> 'p \<Rightarrow> 'd \<Rightarrow> ('r, 'w, 'p, 'd) worker_system" where
  "system_new now down M p d =
     \<lparr>wk_replays = replays_new, wk_futures = [], wk_games = Map.empty, wk_now = now, wk_down = down,
      wk_metrics = M, wk_db = p, wk_disk = d, wk_saved = []\<rparr>"

definition future_at :: "('r, 'w, 'p, 'd) worker_system \<Rightarrow> nat \<Rightarrow> ('r, 'w) future option" where
  "future_at s i = (if i < length (wk_futures s) then wk_futures s ! i else None)"

subsection \<open>Steps\<close>

text \<open>\<open>flat_map\<close>: a connection becomes its assignments, and each of them a future.\<close>

fun future_of :: "('r, 'w) connection assignment \<Rightarrow> ('r, 'w) future" where
  "future_of (ToNewReplay k) = Lives k"
| "future_of (ToConnection c k) = Handles c k Fresh"

fun game_of ::
  "InnerSettings \<Rightarrow> ('r, 'w, 'p, 'd) worker_system \<Rightarrow> ('r, 'w) connection assignment \<Rightarrow>
   (nat \<rightharpoonup> replay_world) \<Rightarrow> (nat \<rightharpoonup> replay_world)" where
  "game_of config s (ToNewReplay k) games =
     games(k \<mapsto> world_new (replay_id (wk_replays s) k) (wk_down s) config (wk_now s) (wk_metrics s))"
| "game_of config s (ToConnection c k) games = games"

definition receives ::
  "InnerSettings \<Rightarrow> ('r, 'w) connection \<Rightarrow> ('r, 'w, 'p, 'd) worker_system \<Rightarrow> ('r, 'w, 'p, 'd) worker_system option" where
  "receives config c s =
     do {
       (as, rs, M) \<leftarrow> assign_connection_to_replay c (wk_replays s) (wk_metrics s);
       let s = s\<lparr>wk_replays := rs, wk_metrics := M\<rparr>;
       Some (s\<lparr>wk_futures := wk_futures s @ map (Some \<circ> future_of) as,
               wk_games := fold (game_of config s) as (wk_games s)\<rparr>)
     }"

text \<open>A turn of a task of one replay, which sees the metrics of the process.\<close>

definition put_game :: "nat \<Rightarrow> replay_world \<Rightarrow> ('r, 'w, 'p, 'd) worker_system \<Rightarrow> ('r, 'w, 'p, 'd) worker_system" where
  "put_game k g s = s\<lparr>wk_games := (wk_games s)(k \<mapsto> g), wk_metrics := w_metrics g\<rparr>"

definition game_view :: "('r, 'w, 'p, 'd) worker_system \<Rightarrow> nat \<Rightarrow> replay_world option" where
  "game_view s k = map_option (\<lambda>g. g\<lparr>w_metrics := wk_metrics s\<rparr>) (wk_games s k)"

definition game_turn ::
  "ceil_quotient \<Rightarrow> (nat \<Rightarrow> nat \<Rightarrow> iteration) \<Rightarrow> nat \<Rightarrow> ('r, 'w) replay_event \<Rightarrow> ('r, 'w, 'p, 'd) worker_system \<Rightarrow>
   ('r, 'w, 'p, 'd) worker_system option" where
  "game_turn cq its k ev s =
     do {
       g \<leftarrow> game_view s k;
       g \<leftarrow> replay_step cq its ev g;
       Some (put_game k g s)
     }"

text \<open>A future ends. That of a connection has a result, and drops the connection and its hold of the replay.\<close>

definition connection_over ::
  "nat \<Rightarrow> ('r, 'w) connection \<Rightarrow> nat \<Rightarrow> unit conn_result \<Rightarrow> ('r, 'w, 'p, 'd) worker_system \<Rightarrow>
   ('r, 'w, 'p, 'd) worker_system" where
  "connection_over i c k res s =
     (let (rs, M) = connection_done c k res (wk_replays s) (wk_metrics s)
      in s\<lparr>wk_replays := rs, wk_metrics := M, wk_futures := (wk_futures s)[i := None]\<rparr>)"

definition lifetime_ends :: "nat \<Rightarrow> nat \<Rightarrow> ('r, 'w, 'p, 'd) worker_system \<Rightarrow> ('r, 'w, 'p, 'd) worker_system" where
  "lifetime_ends i k s = s\<lparr>wk_replays := lifetime_done k (wk_replays s), wk_futures := (wk_futures s)[i := None]\<rparr>"

text \<open>
  A connection begins: the replay refuses it, or it is counted and given to the merger, as the task
  that is named by the token that it gets, or to the sender.
\<close>

definition begins ::
  "ceil_quotient \<Rightarrow> (nat \<Rightarrow> nat \<Rightarrow> iteration) \<Rightarrow> nat \<Rightarrow> ('r, 'w) connection \<Rightarrow> nat \<Rightarrow> ('r, 'w, 'p, 'd) worker_system \<Rightarrow>
   ('r, 'w, 'p, 'd) worker_system option" where
  "begins cq its i c k s =
     do {
       g \<leftarrow> game_view s k;
       (res, r) \<leftarrow> handle_connection cq its c i (w_replay g);
       let s' = put_game k (note_writers g r) s;
       (case res of
          Some res \<Rightarrow> Some (connection_over i c k res s')
        | None \<Rightarrow> do {
            h \<leftarrow> get_header c;
            let p = (case ch_type h of
                Writer \<Rightarrow> Writing (strategy_tokens (mg_strategy (rp_merger (w_replay g))))
              | Reader \<Rightarrow> Reading);
            Some (s'\<lparr>wk_futures := (wk_futures s')[i := Some (Handles c k p)]\<rparr>)
          })
     }"

text \<open>
  The lifetime calls the saver with the merged replay and the number of the game. The saver is
  one step: the merged replay does not change any more, and the file is its own.
\<close>

definition saves ::
  "ceil_quotient \<Rightarrow> (nat \<Rightarrow> nat \<Rightarrow> iteration) \<Rightarrow> ('p, 't, 'e, 'd, 'f, 'z) outside_world \<Rightarrow> inner_replay_saver \<Rightarrow>
   nat \<Rightarrow> ('r, 'w, 'p, 'd) worker_system \<Rightarrow> ('r, 'w, 'p, 'd) worker_system option" where
  "saves cq its W saver k s =
     do {
       g \<leftarrow> wk_games s k;
       c \<leftarrow> merger_get_merged_replay quorum_ops (rp_merger (w_replay g));
       (p, d, M) \<leftarrow> save_replay W saver 0 c (rp_id (w_replay g)) (wk_db s) (wk_disk s) (wk_metrics s);
       let s' = s\<lparr>wk_db := p, wk_disk := d, wk_metrics := M,
         wk_saved := wk_saved s @ (if SAVED_REPLAYS M = SAVED_REPLAYS (wk_metrics s) then [] else [k])\<rparr>;
       game_turn cq its k SaveDone s'
     }"

text \<open>The token of the shutdown is cancelled, and with it those of all replays; and a tick of the clock.\<close>

definition shuts_down :: "('r, 'w, 'p, 'd) worker_system \<Rightarrow> ('r, 'w, 'p, 'd) worker_system" where
  "shuts_down s =
     s\<lparr>wk_down := True,
       wk_games := map_option (\<lambda>g. g\<lparr>w_replay := (w_replay g)\<lparr>rp_cancelled := True\<rparr>\<rparr>) \<circ> wk_games s\<rparr>"

definition time_passes :: "('r, 'w, 'p, 'd) worker_system \<Rightarrow> ('r, 'w, 'p, 'd) worker_system" where
  "time_passes s =
     s\<lparr>wk_now := Suc (wk_now s),
       wk_games := map_option (\<lambda>g. g\<lparr>w_now := Suc (w_now g)\<rparr>) \<circ> wk_games s\<rparr>"

subsection \<open>All tasks\<close>

datatype ('r, 'w) system_event =
    Receives "('r, 'w) connection"
  | Begins nat
  | Feeds nat conn_event
  | Polls nat usize
  | Ends nat
  | Lifetime nat bool
  | Timeout nat
  | Saves nat
  | LifetimeEnds nat
  | ShutsDown
  | Ticks

fun system_step ::
  "ceil_quotient \<Rightarrow> (nat \<Rightarrow> nat \<Rightarrow> iteration) \<Rightarrow> InnerSettings \<Rightarrow> ('p, 't, 'e, 'd, 'f, 'z) outside_world \<Rightarrow>
   inner_replay_saver \<Rightarrow> ('r, 'w) system_event \<Rightarrow> ('r, 'w, 'p, 'd) worker_system \<Rightarrow>
   ('r, 'w, 'p, 'd) worker_system option" where
  "system_step cq its config W saver (Receives c) s = receives config c s"
| "system_step cq its config W saver (Begins i) s =
     (case future_at s i of Some (Handles c k Fresh) \<Rightarrow> begins cq its i c k s | _ \<Rightarrow> None)"
| "system_step cq its config W saver (Feeds i ev) s =
     (case future_at s i of Some (Handles c k (Writing t)) \<Rightarrow> game_turn cq its k (WriterStep ev) s | _ \<Rightarrow> None)"
| "system_step cq its config W saver (Polls i cap) s =
     (case future_at s i of Some (Handles c k Reading) \<Rightarrow> game_turn cq its k (ReaderPolls i cap) s | _ \<Rightarrow> None)"
| "system_step cq its config W saver (Ends i) s =
     (case future_at s i of
        Some (Handles c k (Writing t)) \<Rightarrow> map_option (connection_over i c k (Inr ())) (game_turn cq its k (WriterEnds t) s)
      | Some (Handles c k Reading) \<Rightarrow> map_option (connection_over i c k (Inr ())) (game_turn cq its k (ReaderEnds i) s)
      | _ \<Rightarrow> None)"
| "system_step cq its config W saver (Lifetime i first) s =
     (case future_at s i of Some (Lives k) \<Rightarrow> game_turn cq its k (LifetimeTurn first) s | _ \<Rightarrow> None)"
| "system_step cq its config W saver (Timeout i) s =
     (case future_at s i of Some (Lives k) \<Rightarrow> game_turn cq its k TimeoutTurn s | _ \<Rightarrow> None)"
| "system_step cq its config W saver (Saves i) s =
     (case future_at s i of Some (Lives k) \<Rightarrow> saves cq its W saver k s | _ \<Rightarrow> None)"
| "system_step cq its config W saver (LifetimeEnds i) s =
     (case future_at s i of Some (Lives k) \<Rightarrow> Some (lifetime_ends i k s) | _ \<Rightarrow> None)"
| "system_step cq its config W saver ShutsDown s = Some (shuts_down s)"
| "system_step cq its config W saver Ticks s = Some (time_passes s)"

text \<open>
  When a step can happen: the future is there and waits for it. Connections have their headers when
  they come to a worker, and there are fewer than a \<open>usize\<close> can count. Time does not pass while the
  lifetime of a replay is ready to run.
\<close>

fun event_task :: "conn_event \<Rightarrow> nat option" where
  "event_task (HeaderRead t h) = Some t"
| "event_task (DataRead t buf) = Some t"
| "event_task (DelayTurn t) = Some t"
| "event_task _ = None"

definition game_has :: "('r, 'w, 'p, 'd) worker_system \<Rightarrow> nat \<Rightarrow> (replay_world \<Rightarrow> bool) \<Rightarrow> bool" where
  "game_has s k P = (case wk_games s k of None \<Rightarrow> False | Some g \<Rightarrow> P g)"

fun may_happen :: "('r, 'w, 'p, 'd) worker_system \<Rightarrow> ('r, 'w) system_event \<Rightarrow> bool" where
  "may_happen s (Receives c) = (get_header c \<noteq> None)"
| "may_happen s (Begins i) =
     (case future_at s i of
        Some (Handles c k Fresh) \<Rightarrow> game_has s k (\<lambda>g. ec_count (writer_count (w_replay g)) < usize_max
          \<and> ec_count (reader_count (w_replay g)) < usize_max)
      | _ \<Rightarrow> False)"
| "may_happen s (Feeds i ev) =
     (case future_at s i of
        Some (Handles c k (Writing t)) \<Rightarrow> event_task ev = Some t \<and> game_has s k (\<lambda>g. enabled (rp_merger (w_replay g)) ev)
      | _ \<Rightarrow> False)"
| "may_happen s (Polls i cap) = (case future_at s i of Some (Handles c k Reading) \<Rightarrow> True | _ \<Rightarrow> False)"
| "may_happen s (Ends i) =
     (case future_at s i of Some (Handles c k (Writing t)) \<Rightarrow> True | Some (Handles c k Reading) \<Rightarrow> True | _ \<Rightarrow> False)"
| "may_happen s (Lifetime i first) = (case future_at s i of Some (Lives k) \<Rightarrow> True | _ \<Rightarrow> False)"
| "may_happen s (Timeout i) = (case future_at s i of Some (Lives k) \<Rightarrow> True | _ \<Rightarrow> False)"
| "may_happen s (Saves i) =
     (case future_at s i of Some (Lives k) \<Rightarrow> game_has s k (\<lambda>g. rp_lifetime (w_replay g) = Saving) | _ \<Rightarrow> False)"
| "may_happen s (LifetimeEnds i) =
     (case future_at s i of Some (Lives k) \<Rightarrow> game_has s k (\<lambda>g. lifetime_over (w_replay g)) | _ \<Rightarrow> False)"
| "may_happen s ShutsDown = True"
| "may_happen s Ticks =
     list_all (\<lambda>k. game_has s k (\<lambda>g. \<not> lifetime_ready (w_now g) (w_replay g))) [0..<next_key (wk_replays s)]"

inductive operates ::
  "ceil_quotient \<Rightarrow> InnerSettings \<Rightarrow> ('p, 't, 'e, 'd, 'f, 'z) outside_world \<Rightarrow> inner_replay_saver \<Rightarrow>
   ('r, 'w, 'p, 'd) worker_system \<Rightarrow> ('r, 'w, 'p, 'd) worker_system \<Rightarrow> bool"
  for cq config W saver s0 where
  operates_new: "operates cq config W saver s0 s0"
| operates_step: "operates cq config W saver s0 s \<Longrightarrow> may_happen s ev \<Longrightarrow> (\<forall>n. orders_ok (its n)) \<Longrightarrow>
    system_step cq its config W saver ev s = Some s' \<Longrightarrow> operates cq config W saver s0 s'"

end
