(* ===== verification/Worker_Facts.thy ===== *)
theory Worker_Facts
  imports Worker_System
begin

text \<open>
  What a worker promises. Its replays and connections are those of \<open>Replays\<close>, each replay lives as
  in \<open>Replay_Lifecycle\<close>, undisturbed by the others, and what the saver puts on the disk stays there:
  the facts about the parts hold for the whole.
\<close>

subsection \<open>The metrics do not matter to a replay\<close>

lemma lifetime_turn_metrics:
  "lifetime_turn first now r M = Some (r', M') \<Longrightarrow> \<exists>N'. lifetime_turn first now r N = Some (r', N')"
  by (auto simp: lifetime_turn_def no_writers_turn_def bind_eq_Some_conv split: lifetime.splits sum.splits if_splits)

lemma possible_metrics [simp]: "possible (w\<lparr>w_metrics := M\<rparr>) ev = possible w ev"
  by (cases ev) simp_all

lemma note_writers_metrics: "note_writers (w\<lparr>w_metrics := M\<rparr>) r = (note_writers w r)\<lparr>w_metrics := M\<rparr>"
  by (simp add: note_writers_def)

lemma replay_step_metrics:
  assumes "replay_step cq its ev w = Some w'"
  shows "\<exists>N. replay_step cq its ev (w\<lparr>w_metrics := M\<rparr>) = Some (w'\<lparr>w_metrics := N\<rparr>)"
proof (cases ev)
  case (LifetimeTurn first)
  then obtain r M' where "lifetime_turn first (w_now w) (w_replay w) (w_metrics w) = Some (r, M')"
    "w' = w\<lparr>w_replay := r, w_metrics := M'\<rparr>" using assms by auto
  moreover from lifetime_turn_metrics [OF this(1), of M] obtain N' where
    "lifetime_turn first (w_now w) (w_replay w) M = Some (r, N')" by blast
  ultimately show ?thesis using LifetimeTurn by auto
next
  case (Arrives c k)
  then show ?thesis using assms by (auto simp: note_writers_metrics)
next
  case (WriterEnds t)
  then show ?thesis using assms by (auto simp: note_writers_metrics)
qed (use assms in \<open>auto intro!: exI [of _ M] simp del: merger_step.simps\<close>)

text \<open>A world that is one of the life of the replay \<open>rid\<close>, but for its metrics.\<close>

definition lives_as ::
  "ceil_quotient \<Rightarrow> InnerSettings \<Rightarrow> nat \<Rightarrow> ('r, 'w) replay_event list \<Rightarrow> replay_world \<Rightarrow> bool" where
  "lives_as cq config rid evs g \<longleftrightarrow>
     (\<exists>shutdown now M w N. lives cq (world_new rid shutdown config now M) evs w \<and> g = w\<lparr>w_metrics := N\<rparr>)"

lemma lives_as_new: "lives_as cq config rid [] (world_new rid shutdown config now M)"
proof -
  have "world_new rid shutdown config now M = (world_new rid shutdown config now M)\<lparr>w_metrics := M\<rparr>"
    by (simp add: world_new_def)
  then show ?thesis unfolding lives_as_def using lives_new by blast
qed

lemma lives_as_metrics: "lives_as cq config rid evs g \<Longrightarrow> lives_as cq config rid evs (g\<lparr>w_metrics := M\<rparr>)"
  unfolding lives_as_def by fastforce

lemma lives_as_step:
  assumes "lives_as cq config rid evs g" "possible g ev" "\<forall>n. orders_ok (its n)" "replay_step cq its ev g = Some g'"
  shows "lives_as cq config rid (evs @ [ev]) g'"
proof -
  obtain sd now M w N where w: "lives cq (world_new rid sd config now M) evs w" "g = w\<lparr>w_metrics := N\<rparr>"
    using assms(1) by (auto simp: lives_as_def)
  then have "w = g\<lparr>w_metrics := w_metrics w\<rparr>" by simp
  then obtain N' where "replay_step cq its ev w = Some (g'\<lparr>w_metrics := N'\<rparr>)"
    using replay_step_metrics [OF assms(4), of "w_metrics w"] by auto
  from lives_step [OF w(1) _ assms(3) this] have "lives cq (world_new rid sd config now M) (evs @ [ev]) (g'\<lparr>w_metrics := N'\<rparr>)"
    using assms(2) w(2) by simp
  moreover have "g' = g'\<lparr>w_metrics := N', w_metrics := w_metrics g'\<rparr>" by simp
  ultimately show ?thesis unfolding lives_as_def by fastforce
qed

lemma replay_inv_metrics: "replay_inv cq config (g\<lparr>w_metrics := M\<rparr>) = replay_inv cq config g"
  by (simp add: replay_inv_def)

lemma lives_as_inv:
  assumes "config_ok cq config" "lives_as cq config rid evs g"
  shows "replay_inv cq config g"
  using assms game_inv replay_inv_metrics unfolding lives_as_def by fast

subsection \<open>What a turn does to the tasks of a replay\<close>

definition writers_of :: "replay_world \<Rightarrow> nat set" where
  "writers_of g = dom (mg_tasks (rp_merger (w_replay g)))"

definition readers_of :: "replay_world \<Rightarrow> task set" where
  "readers_of g = dom (rp_readers (w_replay g))"

abbreviation next_writer :: "replay_world \<Rightarrow> nat" where
  "next_writer g \<equiv> strategy_tokens (mg_strategy (rp_merger (w_replay g)))"

lemma connect_task:
  assumes "settings_ok cq tq ds ss" "merging cq tq cmp ds ss m H" "\<forall>n. orders_ok (its n)"
    "merger_step quorum_ops cq its m Connect = Some m'"
  shows "mg_tasks m (strategy_tokens (mg_strategy m)) = None
    \<and> dom (mg_tasks m') = insert (strategy_tokens (mg_strategy m)) (dom (mg_tasks m))"
proof -
  let ?q = "mg_strategy m"
  obtain C where C: "strategy_inv {} {} ?q H C" "tasks_ok quorum_ops (strategy_tokens ?q) m H"
    using merging_inv [OF assms(1,2)] by blast
  have "H (strategy_tokens ?q) = []" "mg_tasks m (strategy_tokens ?q) = None"
    using C(2) by (auto simp: tasks_ok_def)
  then show ?thesis
    using qms.replay_added [OF C(1), of "its 0"] assms(3,4) by (fastforce simp: conn_start_def)
qed

text \<open>The writers and readers after a step.\<close>

fun tasks_after :: "('r, 'w) replay_event \<Rightarrow> replay_world \<Rightarrow> nat set \<times> task set" where
  "tasks_after (Arrives c k) g =
     (if should_stop (w_replay g) then (writers_of g, readers_of g)
      else if map_option ch_type (get_header c) = Some Writer then (insert (next_writer g) (writers_of g), readers_of g)
      else (writers_of g, insert k (readers_of g)))"
| "tasks_after (WriterEnds t) g = (writers_of g - {t}, readers_of g)"
| "tasks_after (ReaderEnds k) g = (writers_of g, readers_of g - {k})"
| "tasks_after _ g = (writers_of g, readers_of g)"

lemma finalize_tasks: "merger_finalize quorum_ops m = Some m' \<Longrightarrow> mg_tasks m' = mg_tasks m"
  by (auto simp: merger_finalize_def bind_eq_Some_conv)

lemma lifetime_turn_tasks:
  assumes "lifetime_turn first now r M = Some (r', M')"
  shows "mg_tasks (rp_merger r') = mg_tasks (rp_merger r) \<and> rp_readers r' = rp_readers r"
  using assms finalize_tasks
  by (auto simp: lifetime_turn_def stop_accepting_def bind_eq_Some_conv split: lifetime.splits sum.splits)

lemma arrives_tasks:
  assumes ok: "config_ok cq config" and inv: "replay_inv cq config g" and ords: "\<forall>n. orders_ok (its n)"
    and step: "handle_connection cq its c k (w_replay g) = Some (res, r)"
  shows "(writers_of (note_writers g r), readers_of (note_writers g r)) = tasks_after (Arrives c k) g
    \<and> (res = None \<longleftrightarrow> \<not> should_stop (w_replay g))
    \<and> (\<not> should_stop (w_replay g) \<longrightarrow> map_option ch_type (get_header c) = Some Writer \<longrightarrow> next_writer g \<notin> writers_of g)"
proof (cases "should_stop (w_replay g)")
  case True
  then show ?thesis using step by (auto simp: handle_connection_def note_writers_def writers_of_def readers_of_def)
next
  case False
  have over: "\<not> merged_over (rp_lifetime (w_replay g))"
    using False replay_invD(4) [OF inv] merged_over_stopped by auto
  note run = merger_stateD(2) [OF replay_invD(1) [OF inv] ok over]
  obtain h where h: "get_header c = Some h" using step False by (auto simp: handle_connection_def bind_eq_Some_conv)
  show ?thesis
  proof (cases "ch_type h")
    case Reader
    then show ?thesis using step False h
      by (auto simp: handle_connection_def note_writers_def writers_of_def readers_of_def bind_eq_Some_conv)
  next
    case Writer
    then obtain n m where m: "merger_step quorum_ops cq its (rp_merger (w_replay g)) Connect = Some m"
      "r = (w_replay g)\<lparr>writer_count := n, rp_merger := m\<rparr>" "res = None"
      using step False h by (auto simp: handle_connection_def bind_eq_Some_conv simp del: merger_step.simps)
    from connect_task [OF ok [unfolded config_ok_def] run ords m(1)] show ?thesis
      using m(2,3) False h Writer by (simp add: note_writers_def writers_of_def readers_of_def domIff)
  qed
qed

lemma step_tasks:
  assumes ok: "config_ok cq config" and inv: "replay_inv cq config g" and ords: "\<forall>n. orders_ok (its n)"
    and en: "possible g ev" and step: "replay_step cq its ev g = Some g'"
  shows "(writers_of g', readers_of g') = tasks_after ev g"
proof (cases ev)
  case (Arrives c k)
  then obtain res r where "handle_connection cq its c k (w_replay g) = Some (res, r)" "g' = note_writers g r"
    using step by auto
  then show ?thesis unfolding Arrives using arrives_tasks [OF ok inv ords] by blast
next
  case (WriterStep e)
  then obtain m where m: "merger_step quorum_ops cq its (rp_merger (w_replay g)) e = Some m"
    "g' = g\<lparr>w_replay := (w_replay g)\<lparr>rp_merger := m\<rparr>, w_sent := sent e (w_sent g)\<rparr>"
    using step by (auto simp del: merger_step.simps)
  then show ?thesis using writer_step_tasks [OF m(1)] en WriterStep by (simp add: writers_of_def readers_of_def)
next
  case (WriterEnds t)
  then obtain m n where m: "merger_step quorum_ops cq its (rp_merger (w_replay g)) (ConnEnd t) = Some m"
    "g' = note_writers g ((w_replay g)\<lparr>rp_merger := m, writer_count := n\<rparr>)"
    using step by (auto simp: writer_ends_def bind_eq_Some_conv simp del: merger_step.simps)
  then show ?thesis using end_step_tasks [OF m(1)] WriterEnds
    by (simp add: note_writers_def writers_of_def readers_of_def)
next
  case (ReaderPolls k cap)
  then obtain r where r: "reader_polls cq its k cap (w_replay g) = Some r" "g' = g\<lparr>w_replay := r\<rparr>"
    using step by auto
  obtain x y m p where m: "rp_readers (w_replay g) k = Some x" "r = (w_replay g)\<lparr>rp_merger := m, rp_readers := (rp_readers (w_replay g))(k \<mapsto> y)\<rparr>"
    "(case p of Pending \<Rightarrow> merger_step quorum_ops cq its (rp_merger (w_replay g)) (ReaderWaits k)
       | Ready \<Rightarrow> Some (rp_merger (w_replay g))) = Some m"
    using r(1) unfolding reader_polls_def by (auto simp: bind_eq_Some_conv simp del: merger_step.simps)
  then have "mg_tasks m = mg_tasks (rp_merger (w_replay g))"
    using wait_step_tasks by (cases p) (auto simp del: merger_step.simps)
  then have "dom (rp_readers r) = readers_of g \<and> mg_tasks (rp_merger r) = mg_tasks (rp_merger (w_replay g))"
    using m(1,2) by (simp add: readers_of_def insert_absorb domI)
  then show ?thesis using r(2) ReaderPolls by (simp add: writers_of_def readers_of_def)
next
  case (ReaderEnds k)
  then show ?thesis using step by (auto simp: reader_ends_def writers_of_def readers_of_def bind_eq_Some_conv split: if_splits)
next
  case (LifetimeTurn first)
  then show ?thesis using step lifetime_turn_tasks by (fastforce simp: writers_of_def readers_of_def)
qed (use step in \<open>auto simp: writers_of_def readers_of_def save_done_def timeout_turn_def split: forced_end.splits if_splits\<close>)

text \<open>What no step undoes. A replay whose merging is over is \<open>settled\<close>.\<close>

definition settles :: "replay_world \<Rightarrow> replay_world \<Rightarrow> bool" where
  "settles g g' \<longleftrightarrow> (merged_over (rp_lifetime (w_replay g)) \<longrightarrow>
     merged_over (rp_lifetime (w_replay g')) \<and> rp_merger (w_replay g') = rp_merger (w_replay g))"

lemma settles_refl [simp]: "settles g g" "settles (g\<lparr>w_metrics := M\<rparr>) g' = settles g g'"
  by (simp_all add: settles_def)

lemma step_saved_metric:
  assumes "replay_step cq its ev g = Some g'"
  shows "SAVED_REPLAYS (w_metrics g') = SAVED_REPLAYS (w_metrics g)"
proof (cases ev)
  case (LifetimeTurn first)
  then show ?thesis using assms
    by (auto simp: lifetime_turn_def stop_accepting_def bind_eq_Some_conv split: lifetime.splits sum.splits)
qed (use assms in \<open>auto simp: note_writers_def simp del: merger_step.simps\<close>)

lemma step_keeps:
  assumes "possible g ev" "replay_step cq its ev g = Some g'"
  shows "(lifetime_over (w_replay g) \<longrightarrow> lifetime_over (w_replay g'))
    \<and> (rp_cancelled (w_replay g) \<longrightarrow> rp_cancelled (w_replay g'))
    \<and> rp_id (w_replay g') = rp_id (w_replay g) \<and> (ev \<noteq> TimePasses \<longrightarrow> w_now g' = w_now g)"
proof (cases ev)
  case (Arrives c k)
  then obtain res r where r: "handle_connection cq its c k (w_replay g) = Some (res, r)" "g' = note_writers g r"
    using assms(2) by auto
  show ?thesis
  proof (cases "should_stop (w_replay g)")
    case False
    then obtain h where "get_header c = Some h" using r(1) by (auto simp: handle_connection_def bind_eq_Some_conv)
    then show ?thesis using r False Arrives
      by (cases "ch_type h") (auto simp: handle_connection_def note_writers_def lifetime_over_def bind_eq_Some_conv)
  qed (use r Arrives in \<open>auto simp: handle_connection_def note_writers_def\<close>)
next
  case (LifetimeTurn first)
  then show ?thesis using assms
    by (auto simp: lifetime_over_def lifetime_turn_def stop_accepting_def bind_eq_Some_conv split: lifetime.splits sum.splits)
qed (use assms in \<open>auto simp: lifetime_over_def writer_ends_def reader_polls_def reader_ends_def note_writers_def save_done_def
  timeout_turn_def bind_eq_Some_conv split: forced_end.splits prod.splits if_splits\<close>)

subsection \<open>The futures of a replay\<close>

fun task_in :: "nat \<Rightarrow> ('r, 'w) future option \<Rightarrow> nat option" where
  "task_in k (Some (Handles c j (Writing t))) = (if j = k then Some t else None)"
| "task_in k _ = None"

fun reads_in :: "nat \<Rightarrow> ('r, 'w) future option \<Rightarrow> bool" where
  "reads_in k (Some (Handles c j Reading)) = (j = k)"
| "reads_in k _ = False"

definition writer_at :: "('r, 'w) future option list \<Rightarrow> nat \<Rightarrow> nat \<Rightarrow> nat option" where
  "writer_at fs k i = (if i < length fs then task_in k (fs ! i) else None)"

definition readers_at :: "('r, 'w) future option list \<Rightarrow> nat \<Rightarrow> nat set" where
  "readers_at fs k = {i. i < length fs \<and> reads_in k (fs ! i)}"

text \<open>The tasks of a replay are the futures of its connections, one each.\<close>

definition matches :: "('r, 'w) future option list \<Rightarrow> nat \<Rightarrow> replay_world \<Rightarrow> bool" where
  "matches fs k g \<longleftrightarrow> ran (writer_at fs k) = writers_of g \<and> inj_on (writer_at fs k) (dom (writer_at fs k))
     \<and> readers_at fs k = readers_of g"

lemma writer_at_update: "i < length fs \<Longrightarrow> writer_at (fs[i := x]) k = (writer_at fs k)(i := task_in k x)"
  by (auto simp: writer_at_def fun_eq_iff)

lemma readers_at_update:
  "i < length fs \<Longrightarrow> readers_at (fs[i := x]) k = (if reads_in k x then insert i (readers_at fs k) else readers_at fs k - {i})"
  by (auto simp: readers_at_def nth_list_update split: if_splits)

lemma matches_append:
  assumes "\<forall>x \<in> set xs. task_in k x = None \<and> \<not> reads_in k x"
  shows "matches (fs @ xs) k g = matches fs k g"
proof -
  have "writer_at (fs @ xs) k = writer_at fs k"
    using assms by (auto simp: writer_at_def fun_eq_iff nth_append)
  moreover have "readers_at (fs @ xs) k = readers_at fs k"
    using assms by (auto simp: readers_at_def nth_append split: if_splits) (metis add_diff_inverse_nat nat_add_left_cancel_less nth_mem)
  ultimately show ?thesis by (simp add: matches_def)
qed

lemma matches_cong:
  assumes "i < length fs" "task_in k x = task_in k (fs ! i)" "reads_in k x = reads_in k (fs ! i)"
    "writers_of g' = writers_of g" "readers_of g' = readers_of g"
  shows "matches (fs[i := x]) k g' = matches fs k g"
proof -
  have "writer_at (fs[i := x]) k = writer_at fs k"
    using assms(1,2) by (auto simp: writer_at_update fun_eq_iff) (simp_all add: writer_at_def)
  moreover have "readers_at (fs[i := x]) k = readers_at fs k"
    using assms(1,3) by (auto simp: readers_at_update) (auto simp: readers_at_def)
  ultimately show ?thesis using assms(4,5) by (simp add: matches_def)
qed

lemma matches_writer:
  assumes "matches fs k g" "i < length fs" "task_in k (fs ! i) = None" "\<not> reads_in k (fs ! i)"
    "t \<notin> writers_of g" "writers_of g' = insert t (writers_of g)" "readers_of g' = readers_of g"
  shows "matches (fs[i := Some (Handles c k (Writing t))]) k g'"
proof -
  let ?w = "writer_at fs k"
  have i: "?w i = None" "i \<notin> readers_at fs k" using assms(2-4) by (simp_all add: writer_at_def readers_at_def)
  have "ran (?w(i \<mapsto> t)) = insert t (ran ?w)" using i(1) by (rule ran_map_upd)
  moreover have "inj_on (?w(i \<mapsto> t)) (dom (?w(i \<mapsto> t)))"
    using assms(1,5) i(1) by (auto simp: matches_def inj_on_def dom_def ran_def)
  ultimately show ?thesis using assms i(2) by (simp add: matches_def writer_at_update readers_at_update)
qed

lemma matches_writer_over:
  assumes "matches fs k g" "i < length fs" "task_in k (fs ! i) = Some t" "\<not> reads_in k (fs ! i)"
    "writers_of g' = writers_of g - {t}" "readers_of g' = readers_of g"
  shows "matches (fs[i := None]) k g'"
proof -
  let ?w = "writer_at fs k"
  have i: "?w i = Some t" "i \<notin> readers_at fs k" using assms(2-4) by (simp_all add: writer_at_def readers_at_def)
  have inj: "?w j = Some t \<longleftrightarrow> j = i" for j
    using assms(1) i(1) unfolding matches_def inj_on_def dom_def by force
  then have "ran (?w(i := None)) = ran ?w - {t}" using i(1) by (auto simp: ran_def) (metis option.inject)
  moreover have "inj_on (?w(i := None)) (dom (?w(i := None)))"
    using assms(1) by (auto simp: matches_def inj_on_def dom_def)
  ultimately show ?thesis using assms i(2) by (simp add: matches_def writer_at_update readers_at_update)
qed

lemma matches_reader:
  assumes "matches fs k g" "i < length fs" "task_in k (fs ! i) = None"
    "writers_of g' = writers_of g" "readers_of g' = insert i (readers_of g)"
  shows "matches (fs[i := Some (Handles c k Reading)]) k g'"
proof -
  have "(writer_at fs k)(i := None) = writer_at fs k" using assms(2,3) by (auto simp: writer_at_def fun_eq_iff)
  then show ?thesis using assms by (simp add: matches_def writer_at_update readers_at_update)
qed

lemma matches_reader_over:
  assumes "matches fs k g" "i < length fs" "task_in k (fs ! i) = None"
    "writers_of g' = writers_of g" "readers_of g' = readers_of g - {i}"
  shows "matches (fs[i := None]) k g'"
proof -
  have "(writer_at fs k)(i := None) = writer_at fs k" using assms(2,3) by (auto simp: writer_at_def fun_eq_iff)
  then show ?thesis using assms by (simp add: matches_def writer_at_update readers_at_update)
qed

subsection \<open>A worker system is a worker\<close>

fun assignment_of :: "('r, 'w) future \<Rightarrow> ('r, 'w) connection assignment" where
  "assignment_of (Lives k) = ToNewReplay k"
| "assignment_of (Handles c k p) = ToConnection c k"

fun place :: "('r, 'w) future option \<Rightarrow> ('r, 'w) connection assignment multiset" where
  "place None = {#}"
| "place (Some f) = {#assignment_of f#}"

definition running_of :: "('r, 'w) future option list \<Rightarrow> ('r, 'w) connection assignment multiset" where
  "running_of fs = sum_list (map place fs)"

definition worker_of :: "('r, 'w, 'p, 'd) worker_system \<Rightarrow> ('r, 'w) worker_state" where
  "worker_of s = \<lparr>ws_replays = wk_replays s, running = running_of (wk_futures s), ws_metrics = wk_metrics s\<rparr>"

lemma assignment_of_future_of [simp]: "assignment_of (future_of a) = a"
  by (cases a) simp_all

lemma running_of_simps [simp]:
  "running_of [] = {#}" "running_of (fs @ gs) = running_of fs + running_of gs"
  "running_of (map (Some \<circ> future_of) as) = mset as"
proof -
  show "running_of (map (Some \<circ> future_of) as) = mset as"
    by (induction as) (simp_all add: running_of_def)
qed (simp_all add: running_of_def)

lemma running_of_update:
  "i < length fs \<Longrightarrow> running_of (fs[i := x]) + place (fs ! i) = running_of fs + place x"
proof (induction fs arbitrary: i)
  case (Cons f fs)
  then show ?case by (cases i) (auto simp: running_of_def ac_simps)
qed simp

lemma running_of_over:
  assumes "i < length fs" "fs ! i = Some f"
  shows "running_of (fs[i := None]) = running_of fs - {#assignment_of f#}" "assignment_of f \<in># running_of fs"
proof -
  have "running_of fs = add_mset (assignment_of f) (running_of (fs[i := None]))"
    using running_of_update [OF assms(1), of None] assms(2) by simp
  then show "running_of (fs[i := None]) = running_of fs - {#assignment_of f#}" "assignment_of f \<in># running_of fs"
    by simp_all
qed

lemma running_of_same:
  assumes "i < length fs" "fs ! i = Some f" "assignment_of f = assignment_of f'"
  shows "running_of (fs[i := Some f']) = running_of fs"
  using running_of_update [OF assms(1), of "Some f'"] assms(2,3) by simp

lemma in_running_of: "a \<in># running_of fs \<longleftrightarrow> (\<exists>f. Some f \<in> set fs \<and> assignment_of f = a)"
proof (induction fs)
  case (Cons x fs)
  then show ?case by (cases x) (auto simp: running_of_def)
qed simp

lemma future_at_Some: "future_at s i = Some f \<longleftrightarrow> i < length (wk_futures s) \<and> wk_futures s ! i = Some f"
  by (auto simp: future_at_def)

lemma receives_worker:
  assumes "receives config c s = Some s'"
  shows "worker_step (Received c) (worker_of s) = Some (worker_of s')"
  using assms by (auto simp: receives_def worker_of_def bind_eq_Some_conv Let_def split: prod.splits)

lemma connection_over_worker:
  assumes "future_at s i = Some (Handles c k p)"
  shows "worker_step (ConnectionDone c k res) (worker_of s) = Some (worker_of (connection_over i c k res s))"
  using running_of_over [of i "wk_futures s" "Handles c k p"] assms
  by (auto simp: connection_over_def worker_of_def future_at_Some Let_def split: prod.splits)

lemma lifetime_ends_worker:
  assumes "future_at s i = Some (Lives k)"
  shows "worker_step (LifetimeDone k) (worker_of s) = Some (worker_of (lifetime_ends i k s))"
  using running_of_over [of i "wk_futures s" "Lives k"] assms
  by (simp add: lifetime_ends_def worker_of_def future_at_Some)

text \<open>A state of the worker that \<open>works\<close> reaches, but for its metrics, which others change as well.\<close>

definition works_as :: "metrics \<Rightarrow> ('r, 'w) worker_state \<Rightarrow> bool" where
  "works_as M0 t \<longleftrightarrow> (\<exists>u N. works M0 u \<and> t = u\<lparr>ws_metrics := N\<rparr>)"

lemma assign_metrics:
  assumes "assign_connection_to_replay c rs M = Some (as, rs', M')"
  shows "\<exists>N'. assign_connection_to_replay c rs N = Some (as, rs', N')"
proof -
  obtain h where "get_header c = Some h"
    using assms by (auto simp: assign_connection_to_replay_def bind_eq_Some_conv)
  then show ?thesis using assms
    by (cases "lookup rs (ch_id h)") (auto simp: assign_connection_to_replay_def Let_def split: if_splits prod.splits)
qed

lemma worker_step_metrics:
  assumes "worker_step ev s = Some s'"
  shows "\<exists>N. worker_step ev (s\<lparr>ws_metrics := M\<rparr>) = Some (s'\<lparr>ws_metrics := N\<rparr>)"
proof (cases ev)
  case (Received c)
  then obtain as rs M' where a: "assign_connection_to_replay c (ws_replays s) (ws_metrics s) = Some (as, rs, M')"
    "s' = s\<lparr>ws_replays := rs, running := running s + mset as, ws_metrics := M'\<rparr>" using assms by auto
  from assign_metrics [OF a(1), of M] obtain N where
    "assign_connection_to_replay c (ws_replays s) M = Some (as, rs, N)" by blast
  then show ?thesis using Received a(2) by auto
next
  case (LifetimeDone k)
  then show ?thesis using assms by (auto intro!: exI [of _ M] split: if_splits)
next
  case (ConnectionDone c k res)
  then show ?thesis using assms by (auto simp: connection_done_def split: if_splits)
qed

lemma works_as_step:
  assumes "works_as M0 t" "worker_step ev t = Some t'"
  shows "works_as M0 t'"
proof -
  obtain u N where u: "works M0 u" "t = u\<lparr>ws_metrics := N\<rparr>" using assms(1) by (auto simp: works_as_def)
  then have "u = t\<lparr>ws_metrics := ws_metrics u\<rparr>" by simp
  then obtain N' where "worker_step ev u = Some (t'\<lparr>ws_metrics := N'\<rparr>)"
    using worker_step_metrics [OF assms(2), of "ws_metrics u"] by auto
  from works_step [OF u(1) this] have "works M0 (t'\<lparr>ws_metrics := N'\<rparr>)" .
  moreover have "t' = t'\<lparr>ws_metrics := N', ws_metrics := ws_metrics t'\<rparr>" by simp
  ultimately show ?thesis unfolding works_as_def by blast
qed

lemma works_as_metrics: "works_as M0 (t\<lparr>ws_metrics := M\<rparr>) = works_as M0 t"
proof -
  have "works_as M0 (t\<lparr>ws_metrics := M\<rparr>)" if "works_as M0 t" for t M
    using that unfolding works_as_def by fastforce
  from this [of t M] this [of "t\<lparr>ws_metrics := M\<rparr>" "ws_metrics t"] show ?thesis by auto
qed

lemma works_as_inv: "works_as M0 t \<Longrightarrow> replays_inv t"
  unfolding works_as_def using works_inv by (fastforce simp: replays_inv_def)

subsection \<open>The invariant\<close>

definition game_fits ::
  "ceil_quotient \<Rightarrow> InnerSettings \<Rightarrow> ('r, 'w, 'p, 'd) worker_system \<Rightarrow> nat \<Rightarrow> ('r, 'w) replay_event list \<Rightarrow>
   replay_world \<Rightarrow> bool" where
  "game_fits cq config s k evs g \<longleftrightarrow>
     lives_as cq config (replay_id (wk_replays s) k) evs g \<and> rp_id (w_replay g) = replay_id (wk_replays s) k \<and>
     w_now g = wk_now s \<and> (wk_down s \<longrightarrow> rp_cancelled (w_replay g))"

definition system_inv ::
  "ceil_quotient \<Rightarrow> InnerSettings \<Rightarrow> metrics \<Rightarrow> ('r, 'w, 'p, 'd) worker_system \<Rightarrow> bool" where
  "system_inv cq config M0 s \<longleftrightarrow>
     works_as M0 (worker_of s) \<and>
     (\<forall>k. wk_games s k \<noteq> None \<longleftrightarrow> k < next_key (wk_replays s)) \<and>
     (\<forall>k g. wk_games s k = Some g \<longrightarrow>
        (\<exists>evs :: ('r, 'w) replay_event list. game_fits cq config s k evs g) \<and>
        matches (wk_futures s) k g \<and>
        (Some (Lives k) \<in> set (wk_futures s) \<or> lifetime_over (w_replay g)))"

lemma system_invD:
  assumes "system_inv cq config M0 (s :: ('r, 'w, 'p, 'd) worker_system)"
  shows "works_as M0 (worker_of s)" "wk_games s k \<noteq> None \<longleftrightarrow> k < next_key (wk_replays s)"
    "wk_games s k = Some g \<Longrightarrow> \<exists>evs :: ('r, 'w) replay_event list. game_fits cq config s k evs g"
    "wk_games s k = Some g \<Longrightarrow> matches (wk_futures s) k g"
    "wk_games s k = Some g \<Longrightarrow> Some (Lives k) \<in> set (wk_futures s) \<or> lifetime_over (w_replay g)"
  using assms unfolding system_inv_def by blast+

fun game_key :: "('r, 'w) future \<Rightarrow> nat" where
  "game_key (Lives k) = k"
| "game_key (Handles c k p) = k"

text \<open>Every future has its replay.\<close>

lemma future_game:
  assumes inv: "system_inv cq config M0 s" and f: "future_at s i = Some f"
  shows "\<exists>g. wk_games s (game_key f) = Some g"
proof -
  have r: "replays_inv (worker_of s)" by (rule works_as_inv [OF system_invD(1) [OF inv]])
  have a: "assignment_of f \<in># running (worker_of s)"
    using f nth_mem [of i "wk_futures s"] by (auto simp: worker_of_def in_running_of future_at_Some intro!: exI [of _ f])
  have "holds (game_key f) (assignment_of f)" by (cases f) simp_all
  from held_strong [OF r a this] have "game_key f < next_key (wk_replays s)"
    using replays_invD(2) [OF r] by (auto simp: worker_of_def)
  then show ?thesis using system_invD(2) [OF inv, of "game_key f"] by auto
qed

definition others :: "nat \<Rightarrow> ('r, 'w) future option list \<Rightarrow> ('r, 'w) future option list \<Rightarrow> bool" where
  "others k fs fs' \<longleftrightarrow> (\<forall>j. j \<noteq> k \<longrightarrow> (\<forall>g. matches fs' j g = matches fs j g) \<and>
     (Some (Lives j) \<in> set fs \<longrightarrow> Some (Lives j) \<in> set fs'))"

lemma others_refl [simp]: "others k fs fs"
  by (simp add: others_def)

definition belongs :: "nat \<Rightarrow> ('r, 'w) future option \<Rightarrow> bool" where
  "belongs k x \<longleftrightarrow> (\<forall>f. x = Some f \<longrightarrow> game_key f = k)"

lemma not_game: "(\<And>f. x = Some f \<Longrightarrow> game_key f \<noteq> k) \<Longrightarrow> task_in k x = None \<and> \<not> reads_in k x \<and> x \<noteq> Some (Lives k)"
  by (cases "(k, x)" rule: task_in.cases; cases "(k, x)" rule: reads_in.cases) auto

lemma belongs_other: "belongs k x \<Longrightarrow> j \<noteq> k \<Longrightarrow> task_in j x = None \<and> \<not> reads_in j x \<and> x \<noteq> Some (Lives j)"
  by (rule not_game) (simp add: belongs_def)

lemma stays_in_list: "y \<in> set xs \<Longrightarrow> y \<noteq> xs ! i \<Longrightarrow> y \<in> set (xs[i := x])"
  by (metis in_set_conv_nth length_list_update nth_list_update_neq)

lemma others_update:
  assumes "i < length fs" "belongs k (fs ! i)" "belongs k x"
  shows "others k fs (fs[i := x])"
  unfolding others_def
proof (intro allI impI conjI)
  fix j assume j: "j \<noteq> k"
  show "matches (fs[i := x]) j g = matches fs j g" for g
    using belongs_other [OF assms(2) j] belongs_other [OF assms(3) j] by (intro matches_cong [OF assms(1)]) simp_all
  show "Some (Lives j) \<in> set (fs[i := x])" if "Some (Lives j) \<in> set fs"
    using that belongs_other [OF assms(2) j] by (intro stays_in_list) auto
qed

text \<open>What was merged and saved stays.\<close>

definition keeps :: "('r, 'w, 'p, 'd) worker_system \<Rightarrow> ('r, 'w, 'p, 'd) worker_system \<Rightarrow> bool" where
  "keeps s s' \<longleftrightarrow>
     (\<forall>k g. wk_games s k = Some g \<longrightarrow>
        (\<exists>g'. wk_games s' k = Some g' \<and> settles g g') \<and> replay_id (wk_replays s') k = replay_id (wk_replays s) k) \<and>
     wk_disk s' = wk_disk s \<and> wk_saved s' = wk_saved s \<and> SAVED_REPLAYS (wk_metrics s') = SAVED_REPLAYS (wk_metrics s)"

lemma saved_metric_simps [simp]:
  "SAVED_REPLAYS (conn_drop c M) = SAVED_REPLAYS M" "SAVED_REPLAYS (inc_served_conns e M) = SAVED_REPLAYS M"
  by (simp_all add: conn_drop_def reset_metric_def inc_served_conns_def Let_def)

text \<open>A step changes one replay, and one of its futures.\<close>

lemma system_inv_change:
  fixes s s' :: "('r, 'w, 'p, 'd) worker_system"
  assumes inv: "system_inv cq config M0 s" and g: "wk_games s k = Some g"
    and fits: "game_fits cq config s k (evs :: ('r, 'w) replay_event list) g'" and m: "matches (wk_futures s') k g'"
    and live: "Some (Lives k) \<in> set (wk_futures s') \<or> lifetime_over (w_replay g')"
    and oth: "others k (wk_futures s) (wk_futures s')"
    and w: "works_as M0 (worker_of s')"
    and s': "wk_games s' = (wk_games s)(k \<mapsto> g')" "wk_now s' = wk_now s" "wk_down s' = wk_down s"
      "next_key (wk_replays s') = next_key (wk_replays s)" "replay_id (wk_replays s') = replay_id (wk_replays s)"
    and k: "settles g g'" "wk_disk s' = wk_disk s" "wk_saved s' = wk_saved s"
      "SAVED_REPLAYS (wk_metrics s') = SAVED_REPLAYS (wk_metrics s)"
  shows "system_inv cq config M0 s' \<and> keeps s s'"
proof
  show "keeps s s'" using k s'(1,5) g by (auto simp: keeps_def)
  show "system_inv cq config M0 s'"
  unfolding system_inv_def
proof (intro conjI allI impI)
  show "works_as M0 (worker_of s')" by (rule w)
  show "(wk_games s' j \<noteq> None) = (j < next_key (wk_replays s'))" for j
    using system_invD(2) [OF inv, of j] g s' by auto
  fix j h assume h: "wk_games s' j = Some h"
  have fits': "game_fits cq config s' j evs h = game_fits cq config s j evs h" for evs
    using s' by (simp add: game_fits_def)
  show "\<exists>evs :: ('r, 'w) replay_event list. game_fits cq config s' j evs h"
    using h s'(1) fits system_invD(3) [OF inv, of j h] unfolding fits' by (cases "j = k") auto
  show "matches (wk_futures s') j h"
    using h s'(1) m system_invD(4) [OF inv, of j h] oth by (cases "j = k") (auto simp: others_def)
  show "Some (Lives j) \<in> set (wk_futures s') \<or> lifetime_over (w_replay h)"
    using h s'(1) live system_invD(5) [OF inv, of j h] oth by (cases "j = k") (auto simp: others_def)
qed
qed

subsection \<open>Every step keeps the invariant\<close>

lemma replay_turn:
  assumes ok: "config_ok cq config" and fits: "game_fits cq config s k evs g" and ords: "\<forall>n. orders_ok (its n)"
    and en: "possible g ev \<and> ev \<noteq> TimePasses"
  shows "\<exists>g'. replay_step cq its ev (g\<lparr>w_metrics := M\<rparr>) = Some g' \<and> game_fits cq config s k (evs @ [ev]) g'
    \<and> (writers_of g', readers_of g') = tasks_after ev g
    \<and> (lifetime_over (w_replay g) \<longrightarrow> lifetime_over (w_replay g'))
    \<and> settles g g' \<and> SAVED_REPLAYS (w_metrics g') = SAVED_REPLAYS M"
proof -
  let ?g = "g\<lparr>w_metrics := M\<rparr>"
  have L: "lives_as cq config (replay_id (wk_replays s) k) evs ?g" "possible ?g ev"
    using fits en by (simp_all add: game_fits_def lives_as_metrics)
  note inv = lives_as_inv [OF ok L(1)]
  obtain g' where g': "replay_step cq its ev ?g = Some g'" using replay_step_inv [OF ok inv ords L(2)] by blast
  have "tasks_after ev ?g = tasks_after ev g"
    by (cases ev) (auto simp: writers_of_def readers_of_def)
  then have "(writers_of g', readers_of g') = tasks_after ev g" using step_tasks [OF ok inv ords L(2) g'] by simp
  moreover have "game_fits cq config s k (evs @ [ev]) g'"
    using lives_as_step [OF L ords g'] step_keeps [OF L(2) g'] fits en by (simp add: game_fits_def)
  moreover have "settles g g'"
    using over_step_keeps_merger [OF inv ok L(2) _ g'] by (simp add: settles_def)
  ultimately show ?thesis using g' step_keeps [OF L(2) g'] step_saved_metric [OF g'] by simp
qed

lemma put_game_simps [simp]:
  "wk_games (put_game k g s) = (wk_games s)(k \<mapsto> g)" "wk_futures (put_game k g s) = wk_futures s"
  "wk_replays (put_game k g s) = wk_replays s" "wk_now (put_game k g s) = wk_now s" "wk_down (put_game k g s) = wk_down s"
  "wk_metrics (put_game k g s) = w_metrics g" "wk_disk (put_game k g s) = wk_disk s" "wk_saved (put_game k g s) = wk_saved s"
  "future_at (put_game k g s) i = future_at s i"
  by (simp_all add: put_game_def future_at_def)

lemma worker_of_put_game [simp]: "worker_of (put_game k g s) = (worker_of s)\<lparr>ws_metrics := w_metrics g\<rparr>"
  by (simp add: worker_of_def)

lemma game_turn_inv:
  fixes s :: "('r, 'w, 'p, 'd) worker_system" and ev :: "('r, 'w) replay_event"
  assumes ok: "config_ok cq config" and inv: "system_inv cq config M0 s" and ords: "\<forall>n. orders_ok (its n)"
    and g: "wk_games s k = Some g" and en: "possible g ev \<and> ev \<noteq> TimePasses"
    and same: "tasks_after ev g = (writers_of g, readers_of g)"
  shows "\<exists>g'. game_turn cq its k ev s = Some (put_game k g' s)
    \<and> replay_step cq its ev (g\<lparr>w_metrics := wk_metrics s\<rparr>) = Some g' \<and> system_inv cq config M0 (put_game k g' s) \<and> keeps s (put_game k g' s)"
proof -
  obtain evs :: "('r, 'w) replay_event list" where fits: "game_fits cq config s k evs g"
    using system_invD(3) [OF inv g] by blast
  obtain g' where g': "replay_step cq its ev (g\<lparr>w_metrics := wk_metrics s\<rparr>) = Some g'"
    "game_fits cq config s k (evs @ [ev]) g'" "(writers_of g', readers_of g') = tasks_after ev g"
    "lifetime_over (w_replay g) \<longrightarrow> lifetime_over (w_replay g')"
    "settles g g'" "SAVED_REPLAYS (w_metrics g') = SAVED_REPLAYS (wk_metrics s)"
    using replay_turn [OF ok fits ords en] by blast
  have "system_inv cq config M0 (put_game k g' s) \<and> keeps s (put_game k g' s)"
  proof (rule system_inv_change [OF inv g g'(2)])
    show "matches (wk_futures (put_game k g' s)) k g'"
      using system_invD(4) [OF inv g] g'(3) same by (simp add: matches_def)
    show "works_as M0 (worker_of (put_game k g' s))" using system_invD(1) [OF inv] by (simp add: works_as_metrics)
  qed (use system_invD(5) [OF inv g] g'(4-6) in auto)
  then show ?thesis using g g'(1) by (simp add: game_turn_def game_view_def)
qed

lemma connection_over_simps [simp]:
  "wk_games (connection_over i c k res s) = wk_games s" "wk_now (connection_over i c k res s) = wk_now s"
  "wk_down (connection_over i c k res s) = wk_down s" "wk_futures (connection_over i c k res s) = (wk_futures s)[i := None]"
  "next_key (wk_replays (connection_over i c k res s)) = next_key (wk_replays s)"
  "replay_id (wk_replays (connection_over i c k res s)) = replay_id (wk_replays s)"
  "wk_disk (connection_over i c k res s) = wk_disk s" "wk_saved (connection_over i c k res s) = wk_saved s"
  "SAVED_REPLAYS (wk_metrics (connection_over i c k res s)) = SAVED_REPLAYS (wk_metrics s)"
  by (simp_all add: connection_over_def connection_done_def Let_def)

text \<open>The future \<open>i\<close> of a connection ends, with a last turn of its replay.\<close>

lemma over_inv:
  fixes s :: "('r, 'w, 'p, 'd) worker_system"
  assumes inv: "system_inv cq config M0 s" and f: "future_at s i = Some (Handles c k p)" and g: "wk_games s k = Some g"
    and fits: "game_fits cq config s k (evs :: ('r, 'w) replay_event list) g'"
    and m: "matches ((wk_futures s)[i := None]) k g'"
    and over: "lifetime_over (w_replay g) \<longrightarrow> lifetime_over (w_replay g')"
    and sv: "settles g g'" "SAVED_REPLAYS (w_metrics g') = SAVED_REPLAYS (wk_metrics s)"
  shows "system_inv cq config M0 (connection_over i c k res (put_game k g' s))
    \<and> keeps s (connection_over i c k res (put_game k g' s))"
proof (rule system_inv_change [OF inv g fits])
  have i: "i < length (wk_futures s)" "wk_futures s ! i = Some (Handles c k p)" using f by (simp_all add: future_at_Some)
  then show "others k (wk_futures s) (wk_futures (connection_over i c k res (put_game k g' s)))"
    by (auto intro!: others_update simp: belongs_def)
  show "Some (Lives k) \<in> set (wk_futures (connection_over i c k res (put_game k g' s))) \<or> lifetime_over (w_replay g')"
    using system_invD(5) [OF inv g] over i(2) by (auto intro!: stays_in_list)
  have w: "works_as M0 (worker_of (put_game k g' s))" using system_invD(1) [OF inv] by (simp add: works_as_metrics)
  have "future_at (put_game k g' s) i = Some (Handles c k p)" using f by simp
  from works_as_step [OF w connection_over_worker [OF this]]
  show "works_as M0 (worker_of (connection_over i c k res (put_game k g' s)))" .
qed (use m sv in simp_all)

lemma ends_inv:
  fixes s :: "('r, 'w, 'p, 'd) worker_system"
  assumes ok: "config_ok cq config" and inv: "system_inv cq config M0 s" and ords: "\<forall>n. orders_ok (its n)"
    and en: "may_happen s (Ends i)"
  shows "\<exists>s'. system_step cq its config W saver (Ends i) s = Some s' \<and> system_inv cq config M0 s' \<and> keeps s s'"
proof -
  obtain c k p where f: "future_at s i = Some (Handles c k p)" and p: "p \<noteq> Fresh"
    using en by (auto split: option.splits future.splits phase.splits)
  obtain g where g: "wk_games s k = Some g" using future_game [OF inv f] by auto
  obtain evs :: "('r, 'w) replay_event list" where fits: "game_fits cq config s k evs g"
    using system_invD(3) [OF inv g] by blast
  have i: "i < length (wk_futures s)" "wk_futures s ! i = Some (Handles c k p)" using f by (simp_all add: future_at_Some)
  note m = system_invD(4) [OF inv g]
  show ?thesis
  proof (cases p)
    case (Writing t)
    have "writer_at (wk_futures s) k i = Some t" using i Writing by (simp add: writer_at_def)
    then have tg: "t \<in> writers_of g" using m by (auto simp: matches_def ran_def)
    let ?ev = "WriterEnds t :: ('r, 'w) replay_event"
    have "possible g ?ev \<and> ?ev \<noteq> TimePasses" using tg by (simp add: writers_of_def domIff)
    from replay_turn [OF ok fits ords this] obtain g' where g':
      "replay_step cq its ?ev (g\<lparr>w_metrics := wk_metrics s\<rparr>) = Some g'"
      "game_fits cq config s k (evs @ [?ev]) g'" "(writers_of g', readers_of g') = tasks_after ?ev g"
      "lifetime_over (w_replay g) \<longrightarrow> lifetime_over (w_replay g')"
      "settles g g'" "SAVED_REPLAYS (w_metrics g') = SAVED_REPLAYS (wk_metrics s)"
      by blast
    have "matches ((wk_futures s)[i := None]) k g'"
      using matches_writer_over [OF m i(1), of t g'] i(2) Writing g'(3) by simp
    from over_inv [OF inv f g g'(2) this g'(4-6)] show ?thesis using f Writing g g'(1)
      by (simp add: game_turn_def game_view_def del: replay_step.simps)
  next
    case Reading
    have tg: "i \<in> readers_of g" using m i Reading by (auto simp: matches_def readers_at_def)
    let ?ev = "ReaderEnds i :: ('r, 'w) replay_event"
    have "possible g ?ev \<and> ?ev \<noteq> TimePasses" using tg by (simp add: readers_of_def domIff)
    from replay_turn [OF ok fits ords this] obtain g' where g':
      "replay_step cq its ?ev (g\<lparr>w_metrics := wk_metrics s\<rparr>) = Some g'"
      "game_fits cq config s k (evs @ [?ev]) g'" "(writers_of g', readers_of g') = tasks_after ?ev g"
      "lifetime_over (w_replay g) \<longrightarrow> lifetime_over (w_replay g')"
      "settles g g'" "SAVED_REPLAYS (w_metrics g') = SAVED_REPLAYS (wk_metrics s)"
      by blast
    have "matches ((wk_futures s)[i := None]) k g'"
      using matches_reader_over [OF m i(1), of g'] i(2) Reading g'(3) by simp
    from over_inv [OF inv f g g'(2) this g'(4-6)] show ?thesis using f Reading g g'(1)
      by (simp add: game_turn_def game_view_def del: replay_step.simps)
  qed (use p in simp)
qed

text \<open>A connection has its header, and one that has not begun is no reader yet.\<close>

lemma fresh_possible:
  assumes inv: "system_inv cq config M0 s" and f: "future_at s i = Some (Handles c k Fresh)" and g: "wk_games s k = Some g"
    and cnt: "ec_count (writer_count (w_replay g)) < usize_max" "ec_count (reader_count (w_replay g)) < usize_max"
  shows "possible g (Arrives c i)"
proof -
  have i: "i < length (wk_futures s)" "wk_futures s ! i = Some (Handles c k Fresh)" using f by (simp_all add: future_at_Some)
  have "assignment_of (Handles c k Fresh) \<in># running (worker_of s)"
    using i nth_mem [OF i(1)] by (auto simp: worker_of_def in_running_of intro!: exI [of _ "Handles c k Fresh"])
  then have "get_header c \<noteq> None" using replays_invD(4) [OF works_as_inv [OF system_invD(1) [OF inv]]] by auto
  moreover have "i \<notin> readers_at (wk_futures s) k" using i(2) by (simp add: readers_at_def)
  then have "i \<notin> readers_of g" using system_invD(4) [OF inv g] by (simp add: matches_def)
  ultimately show ?thesis using cnt by (cases "rp_readers (w_replay g) i") (auto simp: readers_of_def)
qed

lemma begins_inv:
  fixes s :: "('r, 'w, 'p, 'd) worker_system"
  assumes ok: "config_ok cq config" and inv: "system_inv cq config M0 s" and ords: "\<forall>n. orders_ok (its n)"
    and f: "future_at s i = Some (Handles c k Fresh)" and g: "wk_games s k = Some g"
    and cnt: "ec_count (writer_count (w_replay g)) < usize_max" "ec_count (reader_count (w_replay g)) < usize_max"
  shows "\<exists>s'. begins cq its i c k s = Some s' \<and> system_inv cq config M0 s' \<and> keeps s s'"
proof -
  let ?v = "g\<lparr>w_metrics := wk_metrics s\<rparr>" and ?ev = "Arrives c i :: ('r, 'w) replay_event"
  have i: "i < length (wk_futures s)" "wk_futures s ! i = Some (Handles c k Fresh)" using f by (simp_all add: future_at_Some)
  note m = system_invD(4) [OF inv g]
  obtain evs :: "('r, 'w) replay_event list" where fits: "game_fits cq config s k evs g"
    using system_invD(3) [OF inv g] by blast
  have en: "possible g ?ev \<and> ?ev \<noteq> TimePasses" using fresh_possible [OF inv f g cnt] by simp
  obtain h where h: "get_header c = Some h" using en by auto
  obtain g' where g': "replay_step cq its ?ev ?v = Some g'" "game_fits cq config s k (evs @ [?ev]) g'"
    "(writers_of g', readers_of g') = tasks_after ?ev g" "lifetime_over (w_replay g) \<longrightarrow> lifetime_over (w_replay g')"
    "settles g g'" "SAVED_REPLAYS (w_metrics g') = SAVED_REPLAYS (wk_metrics s)"
    using replay_turn [OF ok fits ords en] by blast
  obtain res r where r: "handle_connection cq its c i (w_replay g) = Some (res, r)" "g' = note_writers ?v r"
    using g'(1) by auto
  have T: "res = None \<longleftrightarrow> \<not> should_stop (w_replay g)"
    "\<not> should_stop (w_replay g) \<Longrightarrow> ch_type h = Writer \<Longrightarrow> next_writer g \<notin> writers_of g"
    using arrives_tasks [OF ok lives_as_inv [OF ok] ords r(1)] fits h by (auto simp: game_fits_def)
  have step: "begins cq its i c k s = (case res of
        Some res \<Rightarrow> Some (connection_over i c k res (put_game k g' s))
      | None \<Rightarrow> Some ((put_game k g' s)\<lparr>wk_futures := (wk_futures s)[i := Some (Handles c k
          (case ch_type h of Writer \<Rightarrow> Writing (next_writer g) | Reader \<Rightarrow> Reading))]\<rparr>))"
    using r g h by (simp add: begins_def game_view_def split: option.splits connection_type.splits)
  show ?thesis
  proof (cases res)
    case (Some x)
    then have "matches ((wk_futures s)[i := None]) k g'"
      using matches_cong [OF i(1), of k None g' g] i(2) m g'(3) T(1) by simp
    from over_inv [OF inv f g g'(2) this g'(4-6)] show ?thesis using step Some by simp
  next
    case None
    define p where "p = (case ch_type h of Writer \<Rightarrow> Writing (next_writer g) | Reader \<Rightarrow> Reading)"
    let ?fs = "(wk_futures s)[i := Some (Handles c k p)]"
    let ?s = "(put_game k g' s)\<lparr>wk_futures := ?fs\<rparr>"
    have "matches ?fs k g'"
    proof (cases "ch_type h")
      case Writer
      then show ?thesis
        using matches_writer [OF m i(1), of "next_writer g" g' c] i(2) T None g'(3) h by (simp add: p_def)
    next
      case Reader
      then show ?thesis using matches_reader [OF m i(1), of g' c] i(2) T None g'(3) h by (simp add: p_def)
    qed
    then have "system_inv cq config M0 ?s \<and> keeps s ?s"
    proof (intro system_inv_change [OF inv g g'(2)])
      show "others k (wk_futures s) (wk_futures ?s)" using i by (auto intro!: others_update simp: belongs_def)
      show "Some (Lives k) \<in> set (wk_futures ?s) \<or> lifetime_over (w_replay g')"
        using system_invD(5) [OF inv g] g'(4) i(2) by (auto intro!: stays_in_list)
      have "running_of ?fs = running_of (wk_futures s)" using running_of_same [OF i] by simp
      then have "worker_of ?s = (worker_of s)\<lparr>ws_metrics := w_metrics g'\<rparr>" by (simp add: worker_of_def)
      then show "works_as M0 (worker_of ?s)" using system_invD(1) [OF inv] by (simp add: works_as_metrics)
    qed (use g'(5,6) in simp_all)
    then show ?thesis using step None by (simp add: p_def)
  qed
qed

lemma lifetime_ends_inv:
  fixes s :: "('r, 'w, 'p, 'd) worker_system"
  assumes inv: "system_inv cq config M0 s" and f: "future_at s i = Some (Lives k)" and g: "wk_games s k = Some g"
    and over: "lifetime_over (w_replay g)"
  shows "system_inv cq config M0 (lifetime_ends i k s) \<and> keeps s (lifetime_ends i k s)"
proof -
  have i: "i < length (wk_futures s)" "wk_futures s ! i = Some (Lives k)" using f by (simp_all add: future_at_Some)
  obtain evs :: "('r, 'w) replay_event list" where fits: "game_fits cq config s k evs g"
    using system_invD(3) [OF inv g] by blast
  show ?thesis
  proof (rule system_inv_change [OF inv g fits])
    show "matches (wk_futures (lifetime_ends i k s)) k g"
      using matches_cong [OF i(1), of k None g g] i(2) system_invD(4) [OF inv g] by (simp add: lifetime_ends_def)
    show "others k (wk_futures s) (wk_futures (lifetime_ends i k s))"
      using i by (auto intro!: others_update simp: belongs_def lifetime_ends_def)
    show "works_as M0 (worker_of (lifetime_ends i k s))"
      by (rule works_as_step [OF system_invD(1) [OF inv] lifetime_ends_worker [OF f]])
  qed (use over g in \<open>auto simp: lifetime_ends_def lifetime_done_def fun_eq_iff\<close>)
qed

text \<open>All replays take the same step.\<close>

lemma system_inv_all:
  fixes s s' :: "('r, 'w, 'p, 'd) worker_system" and ev :: "('r, 'w) replay_event"
  assumes ok: "config_ok cq config" and inv: "system_inv cq config M0 s" and ords: "\<forall>n. orders_ok (its n)"
    and s': "wk_games s' = map_option F \<circ> wk_games s" "wk_replays s' = wk_replays s" "wk_futures s' = wk_futures s"
      "wk_metrics s' = wk_metrics s" "wk_disk s' = wk_disk s" "wk_saved s' = wk_saved s"
    and F: "\<And>k g. wk_games s k = Some g \<Longrightarrow> w_now g = wk_now s \<Longrightarrow> (wk_down s \<longrightarrow> rp_cancelled (w_replay g)) \<Longrightarrow>
      possible g ev \<and> replay_step cq its ev g = Some (F g) \<and> w_now (F g) = wk_now s'
      \<and> (wk_down s' \<longrightarrow> rp_cancelled (w_replay (F g)))"
    and same: "\<And>g. tasks_after ev g = (writers_of g, readers_of g)"
  shows "system_inv cq config M0 s' \<and> keeps s s'"
  unfolding system_inv_def keeps_def
proof (intro conjI allI impI)
  show "works_as M0 (worker_of s')" using system_invD(1) [OF inv] s' by (simp add: worker_of_def)
  show "(wk_games s' k \<noteq> None) = (k < next_key (wk_replays s'))" for k
    using system_invD(2) [OF inv, of k] s' by simp
  fix k h assume h: "wk_games s' k = Some h"
  obtain g where g: "wk_games s k = Some g" "h = F g" using h s'(1) by auto
  obtain evs :: "('r, 'w) replay_event list" where fits: "game_fits cq config s k evs g"
    using system_invD(3) [OF inv g(1)] by blast
  then have L: "lives_as cq config (replay_id (wk_replays s) k) evs g" by (simp add: game_fits_def)
  have st: "possible g ev" "replay_step cq its ev g = Some h" "w_now h = wk_now s'"
    "wk_down s' \<longrightarrow> rp_cancelled (w_replay h)"
    using F [OF g(1)] fits g(2) by (simp_all add: game_fits_def)
  have "game_fits cq config s' k (evs @ [ev]) h"
    using lives_as_step [OF L st(1) ords st(2)] step_keeps [OF st(1,2)] fits st(3,4) s'(2) by (simp add: game_fits_def)
  then show "\<exists>evs :: ('r, 'w) replay_event list. game_fits cq config s' k evs h" by blast
  have "(writers_of h, readers_of h) = (writers_of g, readers_of g)"
    using step_tasks [OF ok lives_as_inv [OF ok L] ords st(1,2)] same by simp
  then show "matches (wk_futures s') k h" using system_invD(4) [OF inv g(1)] s'(3) by (simp add: matches_def)
  show "Some (Lives k) \<in> set (wk_futures s') \<or> lifetime_over (w_replay h)"
    using system_invD(5) [OF inv g(1)] s'(3) step_keeps [OF st(1,2)] by auto
next
  fix k g assume g: "wk_games s k = Some g"
  obtain evs :: "('r, 'w) replay_event list" where fits: "game_fits cq config s k evs g"
    using system_invD(3) [OF inv g] by blast
  then have L: "lives_as cq config (replay_id (wk_replays s) k) evs g" by (simp add: game_fits_def)
  have st: "possible g ev" "replay_step cq its ev g = Some (F g)" using F [OF g] fits by (simp_all add: game_fits_def)
  have "settles g (F g)"
    using over_step_keeps_merger [OF lives_as_inv [OF ok L] ok st(1) _ st(2)] by (simp add: settles_def)
  then show "\<exists>g'. wk_games s' k = Some g' \<and> settles g g'" using g s'(1) by simp
qed (use s' in simp_all)

lemma time_passes_inv:
  fixes s :: "('r, 'w, 'p, 'd) worker_system" and its :: "nat \<Rightarrow> nat \<Rightarrow> iteration"
  assumes ok: "config_ok cq config" and inv: "system_inv cq config M0 s" and ords: "\<forall>n. orders_ok (its n)"
    and en: "may_happen s (Ticks :: ('r, 'w) system_event)"
  shows "system_inv cq config M0 (time_passes s) \<and> keeps s (time_passes s)"
proof (rule system_inv_all [OF ok inv ords, where ev = TimePasses])
  fix k g assume g: "wk_games s k = Some g" "w_now g = wk_now s" "wk_down s \<longrightarrow> rp_cancelled (w_replay g)"
  then have "k < next_key (wk_replays s)" using system_invD(2) [OF inv, of k] by simp
  moreover have "\<forall>k < next_key (wk_replays s). game_has s k (\<lambda>g. \<not> lifetime_ready (w_now g) (w_replay g))"
    using en by (simp add: list_all_iff)
  ultimately have "game_has s k (\<lambda>g. \<not> lifetime_ready (w_now g) (w_replay g))" by blast
  then have "\<not> lifetime_ready (w_now g) (w_replay g)" using g(1) by (simp add: game_has_def)
  then show "possible g (TimePasses :: ('r, 'w) replay_event)
      \<and> replay_step cq its (TimePasses :: ('r, 'w) replay_event) g = Some (g\<lparr>w_now := Suc (w_now g)\<rparr>)
      \<and> w_now (g\<lparr>w_now := Suc (w_now g)\<rparr>) = wk_now (time_passes s)
      \<and> (wk_down (time_passes s) \<longrightarrow> rp_cancelled (w_replay (g\<lparr>w_now := Suc (w_now g)\<rparr>)))"
    using g by (simp add: time_passes_def)
qed (simp_all add: time_passes_def)

lemma shuts_down_inv:
  fixes s :: "('r, 'w, 'p, 'd) worker_system" and its :: "nat \<Rightarrow> nat \<Rightarrow> iteration"
  assumes ok: "config_ok cq config" and inv: "system_inv cq config M0 s" and ords: "\<forall>n. orders_ok (its n)"
  shows "system_inv cq config M0 (shuts_down s) \<and> keeps s (shuts_down s)"
  by (rule system_inv_all [OF ok inv ords, where ev = Shutdown
        and F = "\<lambda>g. g\<lparr>w_replay := (w_replay g)\<lparr>rp_cancelled := True\<rparr>\<rparr>"])
    (simp_all add: shuts_down_def)

text \<open>A connection comes to the worker.\<close>

lemma new_game_matches:
  assumes inv: "system_inv cq config M0 s" and k: "wk_games s k = None"
  shows "matches (wk_futures s) k (world_new rid shutdown config now M)"
proof -
  have "game_key f \<noteq> k" if "i < length (wk_futures s)" "wk_futures s ! i = Some f" for i f
    using future_game [OF inv, of i f] that k by (auto simp: future_at_Some)
  then have none: "task_in k (wk_futures s ! i) = None \<and> \<not> reads_in k (wk_futures s ! i)" if "i < length (wk_futures s)" for i
    using not_game [of "wk_futures s ! i" k] that by blast
  then have "writer_at (wk_futures s) k = Map.empty" "readers_at (wk_futures s) k = {}"
    by (auto simp: writer_at_def readers_at_def fun_eq_iff)
  then show ?thesis
    by (simp add: matches_def writers_of_def readers_of_def world_new_def replay_new_def replay_merger_new_def merger_new_def)
qed

lemma assign_returns:
  assumes "get_header c = Some h"
  shows "\<exists>as rs' M'. assign_connection_to_replay c rs M = Some (as, rs', M')"
  using assms by (cases "lookup rs (ch_id h)") (auto simp: assign_connection_to_replay_def insert_new_def Let_def)

lemma assign_cases:
  assumes "assign_connection_to_replay c rs M = Some (as, rs', M')"
  shows "\<exists>h. get_header c = Some h \<and> SAVED_REPLAYS M' = SAVED_REPLAYS M \<and>
    (as = [] \<and> rs' = rs \<or>
     (\<exists>k. as = [ToConnection c k] \<and> rs' = hold k rs \<and> lookup rs (ch_id h) = Some k) \<or>
     (as = [ToNewReplay (next_key rs), ToConnection c (next_key rs)] \<and>
      rs' = hold (next_key rs) (hold (next_key rs) (snd (insert_new (ch_id h) rs)))))"
proof -
  obtain h where "get_header c = Some h"
    using assms by (auto simp: assign_connection_to_replay_def bind_eq_Some_conv)
  then show ?thesis using assms
    by (cases "lookup rs (ch_id h)") (auto simp: assign_connection_to_replay_def insert_new_def Let_def split: if_splits)
qed

lemma receives_inv:
  fixes s :: "('r, 'w, 'p, 'd) worker_system"
  assumes inv: "system_inv cq config M0 s" and h: "get_header c \<noteq> None"
  shows "\<exists>s'. receives config c s = Some s' \<and> system_inv cq config M0 s' \<and> keeps s s'"
proof -
  obtain h where h: "get_header c = Some h" using h by blast
  obtain as rs M where a: "assign_connection_to_replay c (wk_replays s) (wk_metrics s) = Some (as, rs, M)"
    using assign_returns [OF h] by blast
  let ?s1 = "s\<lparr>wk_replays := rs, wk_metrics := M\<rparr>"
  let ?fs = "wk_futures s @ map (Some \<circ> future_of) as" and ?games = "fold (game_of config ?s1) as (wk_games s)"
  let ?s = "?s1\<lparr>wk_futures := ?fs, wk_games := ?games\<rparr>"
  have r: "receives config c s = Some ?s" by (simp add: receives_def a Let_def)
  let ?n = "next_key (wk_replays s)"
  have new: "wk_games s ?n = None" using system_invD(2) [OF inv, of ?n] by auto
  have old: "k < ?n" "replay_id rs k = replay_id (wk_replays s) k" if "wk_games s k \<noteq> None" for k
    using that system_invD(2) [OF inv, of k] assign_cases [OF a] by (auto simp: insert_new_def Let_def)
  have fresh: "\<forall>x \<in> set (map (Some \<circ> future_of) as). task_in k x = None \<and> \<not> reads_in k x" for k
    using assign_cases [OF a] by auto
  have games: "?games = wk_games s \<and> next_key rs = ?n \<or>
      (\<exists>rid. ?games = (wk_games s)(?n \<mapsto> world_new rid (wk_down s) config (wk_now s) M) \<and> next_key rs = Suc ?n
        \<and> replay_id rs ?n = rid \<and> Some (Lives ?n) \<in> set ?fs)"
    using assign_cases [OF a] by (auto simp: insert_new_def Let_def)
  have "system_inv cq config M0 ?s"
    unfolding system_inv_def
  proof (intro conjI allI impI)
    show "works_as M0 (worker_of ?s)"
      by (rule works_as_step [OF system_invD(1) [OF inv] receives_worker [OF r]])
    show "(wk_games ?s k \<noteq> None) = (k < next_key (wk_replays ?s))" for k
      using games system_invD(2) [OF inv, of k] by auto
    fix k g assume g: "wk_games ?s k = Some g"
    consider "wk_games s k = Some g"
      | "k = ?n" "g = world_new (replay_id rs k) (wk_down s) config (wk_now s) M" "Some (Lives k) \<in> set ?fs"
      using g games new by (auto split: if_splits)
    then have "(\<exists>evs :: ('r, 'w) replay_event list. game_fits cq config ?s k evs g) \<and> matches ?fs k g
        \<and> (Some (Lives k) \<in> set ?fs \<or> lifetime_over (w_replay g))"
    proof cases
      case 1
      have "game_fits cq config ?s k evs g = game_fits cq config s k evs g" for evs
        using old [of k] 1 by (simp add: game_fits_def)
      then show ?thesis
        using 1 system_invD(3-5) [OF inv 1] matches_append [OF fresh] by auto
    next
      case 2
      have "game_fits cq config ?s k ([] :: ('r, 'w) replay_event list) g"
        using lives_as_new by (simp add: game_fits_def 2(2)) (simp add: world_new_def replay_new_def)
      moreover have "matches ?fs k g"
        unfolding matches_append [OF fresh] unfolding 2(2) using new_game_matches [OF inv] new 2(1) by blast
      ultimately show ?thesis using 2(3) by blast
    qed
    then show "\<exists>evs :: ('r, 'w) replay_event list. game_fits cq config ?s k evs g" "matches (wk_futures ?s) k g"
      "Some (Lives k) \<in> set (wk_futures ?s) \<or> lifetime_over (w_replay g)" by auto
  qed
  moreover have "keeps s ?s"
    using old games new assign_cases [OF a] by (auto simp: keeps_def)
  ultimately show ?thesis using r by blast
qed

text \<open>A lifetime saves its replay.\<close>

lemma save_replay_finished:
  assumes laws: "saver_laws W files compress" and c: "mr_visible c zs" "mr_finished c"
  shows "\<exists>saved p' p2 d' M'. save_replay W self cx c i p d M = Some (p2, d', M')
    \<and> (\<forall>q x. files d q = Some x \<longrightarrow> files d' q = Some x)
    \<and> (if saved
       then \<exists>x. files d (replay_file (save_dir self) i) = None \<and> files d' (replay_file (save_dir self) i) = Some x
              \<and> saved_as W self i compress zs p p' x \<and> M' = M\<lparr>SAVED_REPLAYS := SAVED_REPLAYS M + 1\<rparr>
       else M' = M)"
proof -
  obtain saved p' d' M' where sv: "save_replay_to_disk W self cx c i p d M = Some (saved, p', d', M')"
    "\<forall>q x. files d q = Some x \<longrightarrow> files d' q = Some x"
    "if saved then \<exists>x. files d (replay_file (save_dir self) i) = None \<and> files d' (replay_file (save_dir self) i) = Some x
        \<and> saved_as W self i compress zs p p' x \<and> mr_header c \<noteq> None \<and> M' = M\<lparr>SAVED_REPLAYS := SAVED_REPLAYS M + 1\<rparr>
      else M' = M"
    using save_to_disk_finished [OF laws c, of self cx i p d M] by (elim exE conjE) (rule that)
  have "0 < copy_buffer W" using laws by (simp add: saver_laws_def)
  from count_ticks_visible [OF c this] obtain ticks where ticks: "count_ticks W c = Some ticks" by blast
  obtain r p2 where "queries_update_game_stats (ow_sqlx W) i ticks saved p' = (r, p2)" by fastforce
  then have "save_replay W self cx c i p d M = Some (p2, d', M')"
    using sv(1) ticks by (simp add: save_replay_def)
  then show ?thesis using sv(2,3) by (intro exI [of _ saved] exI [of _ p'] exI [of _ p2] exI [of _ d'] exI [of _ M']) auto
qed

text \<open>What saving does to the record and to the disk.\<close>

definition saves_one ::
  "('p, 't, 'e, 'd, 'f, 'z) outside_world \<Rightarrow> inner_replay_saver \<Rightarrow> ('d \<Rightarrow> string \<rightharpoonup> byte list) \<Rightarrow>
   (int \<Rightarrow> byte list \<Rightarrow> byte list) \<Rightarrow> nat \<Rightarrow> replay_world \<Rightarrow> ('r, 'w, 'p, 'd) worker_system \<Rightarrow>
   ('r, 'w, 'p, 'd) worker_system \<Rightarrow> bool" where
  "saves_one W saver files compress k g s s' \<longleftrightarrow>
     (\<forall>q x. files (wk_disk s) q = Some x \<longrightarrow> files (wk_disk s') q = Some x) \<and>
     (wk_saved s' = wk_saved s \<and> SAVED_REPLAYS (wk_metrics s') = SAVED_REPLAYS (wk_metrics s) \<or>
      wk_saved s' = wk_saved s @ [k] \<and> SAVED_REPLAYS (wk_metrics s') = SAVED_REPLAYS (wk_metrics s) + 1 \<and>
      (\<exists>c x p p'. canonical (rp_merger (w_replay g)) = Some c \<and>
         files (wk_disk s) (replay_file (save_dir saver) (rp_id (w_replay g))) = None \<and>
         files (wk_disk s') (replay_file (save_dir saver) (rp_id (w_replay g))) = Some x \<and>
         saved_as W saver (rp_id (w_replay g)) compress (visible_bytes c) p p' x))"

lemma saves_inv:
  fixes s :: "('r, 'w, 'p, 'd) worker_system"
  assumes ok: "config_ok cq config" and inv: "system_inv cq config M0 s" and ords: "\<forall>n. orders_ok (its n)"
    and laws: "saver_laws W files compress"
    and g: "wk_games s k = Some g" "rp_lifetime (w_replay g) = Saving"
  shows "\<exists>s1 s'. saves cq its W saver k s = Some s' \<and> system_inv cq config M0 s' \<and> keeps s1 s'
    \<and> wk_games s1 = wk_games s \<and> wk_replays s1 = wk_replays s \<and> saves_one W saver files compress k g s s1"
proof -
  obtain evs :: "('r, 'w) replay_event list" where fits: "game_fits cq config s k evs g"
    using system_invD(3) [OF inv g(1)] by blast
  then have ginv: "replay_inv cq config g" using lives_as_inv [OF ok] by (auto simp: game_fits_def)
  obtain c where c: "canonical (rp_merger (w_replay g)) = Some c" "mr_visible c (visible_bytes c)" "mr_finished c"
    using replay_invD(5) [OF ginv] g(2) by (auto simp: merged_over_def)
  obtain saved p' p2 d' M' where sv:
    "save_replay W saver 0 c (rp_id (w_replay g)) (wk_db s) (wk_disk s) (wk_metrics s) = Some (p2, d', M')"
    "\<forall>q x. files (wk_disk s) q = Some x \<longrightarrow> files d' q = Some x"
    "if saved then \<exists>x. files (wk_disk s) (replay_file (save_dir saver) (rp_id (w_replay g))) = None
        \<and> files d' (replay_file (save_dir saver) (rp_id (w_replay g))) = Some x
        \<and> saved_as W saver (rp_id (w_replay g)) compress (visible_bytes c) (wk_db s) p' x
        \<and> M' = (wk_metrics s)\<lparr>SAVED_REPLAYS := SAVED_REPLAYS (wk_metrics s) + 1\<rparr>
      else M' = wk_metrics s"
    using save_replay_finished [OF laws c(2,3), of saver 0 "rp_id (w_replay g)" "wk_db s" "wk_disk s" "wk_metrics s"]
    by (elim exE conjE) (rule that)
  let ?s1 = "s\<lparr>wk_db := p2, wk_disk := d', wk_metrics := M',
    wk_saved := wk_saved s @ (if SAVED_REPLAYS M' = SAVED_REPLAYS (wk_metrics s) then [] else [k])\<rparr>"
  have "worker_of ?s1 = (worker_of s)\<lparr>ws_metrics := M'\<rparr>" by (simp add: worker_of_def)
  then have inv1: "system_inv cq config M0 ?s1"
    using inv works_as_metrics [where t = "worker_of s" and M = M' and ?M0.0 = M0] by (simp add: system_inv_def game_fits_def)
  obtain g' where g': "game_turn cq its k (SaveDone :: ('r, 'w) replay_event) ?s1 = Some (put_game k g' ?s1)"
    "system_inv cq config M0 (put_game k g' ?s1)" "keeps ?s1 (put_game k g' ?s1)"
    using game_turn_inv [OF ok inv1 ords, of k g "SaveDone :: ('r, 'w) replay_event"] g by auto
  have "saves cq its W saver k s = Some (put_game k g' ?s1)"
    using g(1) c(1) sv(1) g'(1) by (simp add: saves_def Let_def)
  moreover have "saves_one W saver files compress k g s ?s1"
    using sv(2,3) c(1) by (cases saved) (auto simp: saves_one_def)
  ultimately show ?thesis using g'(2,3) by (intro exI [of _ ?s1] exI [of _ "put_game k g' ?s1"]) simp
qed

subsection \<open>Every step returns\<close>

text \<open>A step keeps the invariant; only one of the saver adds to the disk and to the record.\<close>

definition advances ::
  "('p, 't, 'e, 'd, 'f, 'z) outside_world \<Rightarrow> inner_replay_saver \<Rightarrow> ('d \<Rightarrow> string \<rightharpoonup> byte list) \<Rightarrow>
   (int \<Rightarrow> byte list \<Rightarrow> byte list) \<Rightarrow> ('r, 'w, 'p, 'd) worker_system \<Rightarrow> ('r, 'w, 'p, 'd) worker_system \<Rightarrow> bool" where
  "advances W saver files compress s s' \<longleftrightarrow> keeps s s' \<or>
     (\<exists>k g s1. wk_games s k = Some g \<and> rp_lifetime (w_replay g) = Saving \<and> keeps s1 s' \<and>
        wk_games s1 = wk_games s \<and> wk_replays s1 = wk_replays s \<and> saves_one W saver files compress k g s s1)"

lemma task_event: "event_task ev = Some t \<Longrightarrow> writer_event ev"
  by (cases ev) simp_all

lemma system_step_inv:
  fixes s :: "('r, 'w, 'p, 'd) worker_system" and ev :: "('r, 'w) system_event"
  assumes ok: "config_ok cq config" and inv: "system_inv cq config M0 s" and ords: "\<forall>n. orders_ok (its n)"
    and laws: "saver_laws W files compress" and en: "may_happen s ev"
  shows "\<exists>s'. system_step cq its config W saver ev s = Some s' \<and> system_inv cq config M0 s'
    \<and> advances W saver files compress s s'"
proof (cases ev)
  case (Receives c)
  then show ?thesis using receives_inv [OF inv, of c] en by (auto simp: advances_def)
next
  case (Begins i)
  then obtain c k where f: "future_at s i = Some (Handles c k Fresh)"
    using en by (auto split: option.splits future.splits phase.splits)
  then obtain g where g: "wk_games s k = Some g" using future_game [OF inv f] by auto
  then show ?thesis using begins_inv [OF ok inv ords f g] Begins f en by (auto simp: advances_def game_has_def)
next
  case (Feeds i e)
  then obtain c k t where f: "future_at s i = Some (Handles c k (Writing t))" "event_task e = Some t"
    using en by (auto split: option.splits future.splits phase.splits)
  then obtain g where g: "wk_games s k = Some g" using future_game [OF inv f(1)] by auto
  have "enabled (rp_merger (w_replay g)) e" using en Feeds f g by (simp add: game_has_def)
  then have "possible g (WriterStep e :: ('r, 'w) replay_event) \<and> (WriterStep e :: ('r, 'w) replay_event) \<noteq> TimePasses"
    using task_event [OF f(2)] by simp
  from game_turn_inv [OF ok inv ords g this] show ?thesis using Feeds f by (auto simp: advances_def)
next
  case (Polls i cap)
  then obtain c k where f: "future_at s i = Some (Handles c k Reading)"
    using en by (auto split: option.splits future.splits phase.splits)
  then obtain g where g: "wk_games s k = Some g" using future_game [OF inv f] by auto
  have "i \<in> readers_of g"
    using system_invD(4) [OF inv g] f by (auto simp: matches_def readers_at_def future_at_Some)
  then have "possible g (ReaderPolls i cap :: ('r, 'w) replay_event) \<and> (ReaderPolls i cap :: ('r, 'w) replay_event) \<noteq> TimePasses"
    by (auto simp: readers_of_def)
  from game_turn_inv [OF ok inv ords g this] show ?thesis using Polls f by (auto simp: advances_def)
next
  case (Ends i)
  then show ?thesis using ends_inv [OF ok inv ords, where i = i and W = W and saver = saver] en by (auto simp: advances_def)
next
  case (Lifetime i first)
  then obtain k where f: "future_at s i = Some (Lives k)" using en by (auto split: option.splits future.splits)
  then obtain g where g: "wk_games s k = Some g" using future_game [OF inv f] by auto
  from game_turn_inv [OF ok inv ords g, of "LifetimeTurn first :: ('r, 'w) replay_event"]
  show ?thesis using Lifetime f by (auto simp: advances_def)
next
  case (Timeout i)
  then obtain k where f: "future_at s i = Some (Lives k)" using en by (auto split: option.splits future.splits)
  then obtain g where g: "wk_games s k = Some g" using future_game [OF inv f] by auto
  from game_turn_inv [OF ok inv ords g, of "TimeoutTurn :: ('r, 'w) replay_event"]
  show ?thesis using Timeout f by (auto simp: advances_def)
next
  case (Saves i)
  then obtain k where f: "future_at s i = Some (Lives k)" using en by (auto split: option.splits future.splits)
  then obtain g where g: "wk_games s k = Some g" using future_game [OF inv f] by auto
  have l: "rp_lifetime (w_replay g) = Saving" using en Saves f g by (simp add: game_has_def)
  obtain s1 s' where "saves cq its W saver k s = Some s'" "system_inv cq config M0 s'" "keeps s1 s'"
    "wk_games s1 = wk_games s" "wk_replays s1 = wk_replays s" "saves_one W saver files compress k g s s1"
    using saves_inv [OF ok inv ords laws g l, of saver] by blast
  then show ?thesis using Saves f g l unfolding advances_def by auto
next
  case (LifetimeEnds i)
  then obtain k where f: "future_at s i = Some (Lives k)" using en by (auto split: option.splits future.splits)
  then obtain g where g: "wk_games s k = Some g" using future_game [OF inv f] by auto
  have "lifetime_over (w_replay g)" using en LifetimeEnds f g by (simp add: game_has_def)
  from lifetime_ends_inv [OF inv f g this] show ?thesis using LifetimeEnds f by (simp add: advances_def)
next
  case ShutsDown
  then show ?thesis using shuts_down_inv [OF ok inv ords] by (simp add: advances_def)
next
  case Ticks
  then show ?thesis using time_passes_inv [OF ok inv ords] en by (simp add: advances_def)
qed

lemma system_inv_new: "system_inv cq config M (system_new now down M p d)"
proof -
  have "worker_of (system_new now down M p d) = \<lparr>ws_replays = replays_new, running = {#}, ws_metrics = M\<rparr>"
    by (simp add: worker_of_def system_new_def)
  then have "works_as M (worker_of (system_new now down M p d))"
    unfolding works_as_def using works_new [of M] by fastforce
  then show ?thesis by (simp add: system_inv_def) (simp add: system_new_def replays_new_def)
qed

lemma operates_inv:
  assumes "operates cq config W saver (system_new now down M p d) s" "config_ok cq config" "saver_laws W files compress"
  shows "system_inv cq config M s"
  using assms(1)
proof induction
  case (operates_step s ev its s')
  then show ?case using system_step_inv [OF assms(2) operates_step.IH operates_step.hyps(3) assms(3) operates_step.hyps(2),
        where saver = saver] by fastforce
qed (rule system_inv_new)

end
