(* ===== verification/Worker_Promises.thy ===== *)
theory Worker_Promises
  imports Worker_Facts
begin

text \<open>
  The properties of a worker as a whole: it never panics, it is made of the parts as their own
  theories describe them, and every game that it counts as saved has its complete file.
\<close>

subsection \<open>What was saved\<close>

text \<open>The game \<open>k\<close> is saved: its merging is over, and its file, which \<open>d0\<close> did not have, is complete.\<close>

definition game_saved ::
  "('p, 't, 'e, 'd, 'f, 'z) outside_world \<Rightarrow> inner_replay_saver \<Rightarrow> ('d \<Rightarrow> string \<rightharpoonup> byte list) \<Rightarrow>
   (int \<Rightarrow> byte list \<Rightarrow> byte list) \<Rightarrow> 'd \<Rightarrow> 'd \<Rightarrow> ('r, 'w, 'p, 'd) worker_system \<Rightarrow> nat \<Rightarrow> bool" where
  "game_saved W saver files compress d0 d s k \<longleftrightarrow>
     (\<exists>g c x p p'. wk_games s k = Some g \<and> merged_over (rp_lifetime (w_replay g)) \<and>
        canonical (rp_merger (w_replay g)) = Some c \<and>
        files d0 (replay_file (save_dir saver) (replay_id (wk_replays s) k)) = None \<and>
        files d (replay_file (save_dir saver) (replay_id (wk_replays s) k)) = Some x \<and>
        saved_as W saver (replay_id (wk_replays s) k) compress (visible_bytes c) p p' x)"

definition saved_inv ::
  "('p, 't, 'e, 'd, 'f, 'z) outside_world \<Rightarrow> inner_replay_saver \<Rightarrow> ('d \<Rightarrow> string \<rightharpoonup> byte list) \<Rightarrow>
   (int \<Rightarrow> byte list \<Rightarrow> byte list) \<Rightarrow> metrics \<Rightarrow> 'd \<Rightarrow> ('r, 'w, 'p, 'd) worker_system \<Rightarrow> bool" where
  "saved_inv W saver files compress M0 d0 s \<longleftrightarrow>
     SAVED_REPLAYS (wk_metrics s) = SAVED_REPLAYS M0 + length (wk_saved s) \<and>
     (\<forall>q x. files d0 q = Some x \<longrightarrow> files (wk_disk s) q = Some x) \<and>
     distinct (map (replay_id (wk_replays s)) (wk_saved s)) \<and>
     (\<forall>k \<in> set (wk_saved s). game_saved W saver files compress d0 (wk_disk s) s k)"

lemma saved_invD:
  assumes "saved_inv W saver files compress M0 d0 s"
  shows "SAVED_REPLAYS (wk_metrics s) = SAVED_REPLAYS M0 + length (wk_saved s)"
    "files d0 q = Some x \<Longrightarrow> files (wk_disk s) q = Some x"
    "distinct (map (replay_id (wk_replays s)) (wk_saved s))"
    "k \<in> set (wk_saved s) \<Longrightarrow> game_saved W saver files compress d0 (wk_disk s) s k"
  using assms unfolding saved_inv_def by blast+

lemma game_saved_keeps:
  assumes saved: "game_saved W saver files compress d0 d s k" and k: "keeps s s'"
    and disk: "\<And>q x. files d q = Some x \<Longrightarrow> files d' q = Some x"
  shows "game_saved W saver files compress d0 d' s' k" "replay_id (wk_replays s') k = replay_id (wk_replays s) k"
proof -
  obtain g c x p p' where g: "wk_games s k = Some g" "merged_over (rp_lifetime (w_replay g))"
    "canonical (rp_merger (w_replay g)) = Some c"
    "files d0 (replay_file (save_dir saver) (replay_id (wk_replays s) k)) = None"
    "files d (replay_file (save_dir saver) (replay_id (wk_replays s) k)) = Some x"
    "saved_as W saver (replay_id (wk_replays s) k) compress (visible_bytes c) p p' x"
    using saved unfolding game_saved_def by (elim exE conjE) (rule that)
  show same: "replay_id (wk_replays s') k = replay_id (wk_replays s) k" using k g(1) by (auto simp: keeps_def)
  obtain g' where "wk_games s' k = Some g'" "settles g g'" using k g(1) unfolding keeps_def by blast
  then show "game_saved W saver files compress d0 d' s' k" unfolding game_saved_def same
    using g disk by (intro exI [of _ g'] exI [of _ c] exI [of _ x] exI [of _ p] exI [of _ p']) (simp add: settles_def)
qed

lemma game_saved_file:
  "game_saved W saver files compress d0 d s k \<Longrightarrow>
    files d (replay_file (save_dir saver) (replay_id (wk_replays s) k)) \<noteq> None"
  by (auto simp: game_saved_def)

lemma keeps_saved:
  assumes inv: "saved_inv W saver files compress M0 d0 s" and k: "keeps s s'"
  shows "saved_inv W saver files compress M0 d0 s'"
proof -
  note D = saved_invD [OF inv]
  have same: "wk_disk s' = wk_disk s" "wk_saved s' = wk_saved s" "SAVED_REPLAYS (wk_metrics s') = SAVED_REPLAYS (wk_metrics s)"
    using k by (simp_all add: keeps_def)
  have ids: "map (replay_id (wk_replays s')) (wk_saved s) = map (replay_id (wk_replays s)) (wk_saved s)"
    using game_saved_keeps(2) [OF D(4) k] by (intro map_cong) auto
  show ?thesis
    unfolding saved_inv_def same ids using D(1-3) game_saved_keeps(1) [OF D(4) k] by blast
qed

text \<open>What the saver adds.\<close>

lemma saves_one_cases:
  assumes one: "saves_one W saver files compress k g s s'" and g: "wk_games s k = Some g" "merged_over (rp_lifetime (w_replay g))"
    and rid: "rp_id (w_replay g) = replay_id (wk_replays s) k" and s': "wk_games s' = wk_games s" "wk_replays s' = wk_replays s"
    and d0: "\<And>q x. files d0 q = Some x \<Longrightarrow> files (wk_disk s) q = Some x"
  obtains "wk_saved s' = wk_saved s" "SAVED_REPLAYS (wk_metrics s') = SAVED_REPLAYS (wk_metrics s)"
  | "wk_saved s' = wk_saved s @ [k]" "SAVED_REPLAYS (wk_metrics s') = SAVED_REPLAYS (wk_metrics s) + 1"
    "game_saved W saver files compress d0 (wk_disk s') s' k"
    "files (wk_disk s) (replay_file (save_dir saver) (replay_id (wk_replays s) k)) = None"
proof -
  let ?file = "replay_file (save_dir saver) (replay_id (wk_replays s) k)"
  consider "wk_saved s' = wk_saved s" "SAVED_REPLAYS (wk_metrics s') = SAVED_REPLAYS (wk_metrics s)"
    | c x p p' where "wk_saved s' = wk_saved s @ [k]" "SAVED_REPLAYS (wk_metrics s') = SAVED_REPLAYS (wk_metrics s) + 1"
      "canonical (rp_merger (w_replay g)) = Some c" "files (wk_disk s) ?file = None" "files (wk_disk s') ?file = Some x"
      "saved_as W saver (replay_id (wk_replays s) k) compress (visible_bytes c) p p' x"
    using one unfolding saves_one_def rid by blast
  then show thesis
  proof cases
    case 2
    have "files d0 ?file = None" using d0 [of ?file] 2(4) by (cases "files d0 ?file") auto
    then have "game_saved W saver files compress d0 (wk_disk s') s' k"
      unfolding game_saved_def s' using g 2 by blast
    then show thesis using that(2) 2(1,2,4) by blast
  qed (use that(1) in blast)
qed

lemma one_saved:
  assumes inv: "saved_inv W saver files compress M0 d0 s" and g: "wk_games s k = Some g" "merged_over (rp_lifetime (w_replay g))"
    and rid: "rp_id (w_replay g) = replay_id (wk_replays s) k"
    and s1: "wk_games s1 = wk_games s" "wk_replays s1 = wk_replays s" "saves_one W saver files compress k g s s1"
  shows "saved_inv W saver files compress M0 d0 s1"
proof -
  note D = saved_invD [OF inv]
  have disk: "\<And>q x. files (wk_disk s) q = Some x \<Longrightarrow> files (wk_disk s1) q = Some x"
    using s1(3) by (simp add: saves_one_def)
  have old: "game_saved W saver files compress d0 (wk_disk s1) s1 j" if "j \<in> set (wk_saved s)" for j
    using D(4) [OF that] disk s1(1,2) unfolding game_saved_def by metis
  show ?thesis
  proof (rule saves_one_cases [OF s1(3) g rid s1(1,2) D(2)])
    assume "wk_saved s1 = wk_saved s" "SAVED_REPLAYS (wk_metrics s1) = SAVED_REPLAYS (wk_metrics s)"
    then show ?thesis using D(1-3) disk old s1(2) unfolding saved_inv_def by auto
  next
    assume new: "wk_saved s1 = wk_saved s @ [k]" "SAVED_REPLAYS (wk_metrics s1) = SAVED_REPLAYS (wk_metrics s) + 1"
      "game_saved W saver files compress d0 (wk_disk s1) s1 k"
      "files (wk_disk s) (replay_file (save_dir saver) (replay_id (wk_replays s) k)) = None"
    have "replay_id (wk_replays s) k \<notin> replay_id (wk_replays s) ` set (wk_saved s)"
      using game_saved_file [OF D(4)] new(4) by (metis image_iff)
    then show ?thesis using D(1-3) disk old new s1(2) unfolding saved_inv_def by auto
  qed
qed

lemma operates_saved:
  fixes s :: "('r, 'w, 'p, 'd) worker_system"
  assumes "operates cq config W saver (system_new now down M p d) s" "config_ok cq config" "saver_laws W files compress"
  shows "saved_inv W saver files compress M d s"
  using assms(1)
proof induction
  case operates_new
  then show ?case by (simp add: saved_inv_def system_new_def)
next
  case (operates_step s ev its s')
  have inv: "system_inv cq config M s" by (rule operates_inv [OF operates_step.hyps(1) assms(2,3)])
  have adv: "advances W saver files compress s s'"
    using system_step_inv [OF assms(2) inv operates_step.hyps(3) assms(3) operates_step.hyps(2), where saver = saver]
      operates_step.hyps(4) by auto
  show ?case
  proof (cases "keeps s s'")
    case True
    then show ?thesis by (rule keeps_saved [OF operates_step.IH])
  next
    case False
    then obtain k g s1 where k: "wk_games s k = Some g" "rp_lifetime (w_replay g) = Saving" "keeps s1 s'"
      "wk_games s1 = wk_games s" "wk_replays s1 = wk_replays s" "saves_one W saver files compress k g s s1"
      using adv unfolding advances_def by blast
    have "merged_over (rp_lifetime (w_replay g))" using k(2) by (simp add: merged_over_def)
    moreover have "rp_id (w_replay g) = replay_id (wk_replays s) k"
      using system_invD(3) [OF inv k(1)] by (auto simp: game_fits_def)
    ultimately show ?thesis using keeps_saved [OF one_saved [OF operates_step.IH k(1) _ _ k(4-6)] k(3)] by blast
  qed
qed

lemma merged_over_complete:
  assumes ok: "config_ok cq config" and inv: "replay_inv cq config g"
    and g: "merged_over (rp_lifetime (w_replay g))" "canonical (rp_merger (w_replay g)) = Some c"
  shows "visible_bytes c = header_bytes c @ merged_bytes c
    \<and> (\<forall>t. length (w_sent g t) \<le> length (merged_bytes c) \<or>
        (\<exists>p < min (length (w_sent g t)) (length (merged_bytes c)). w_sent g t ! p \<noteq> merged_bytes c ! p))"
proof -
  obtain m0 where m0: "game_merging cq config m0 (w_sent g)" "mg_tasks m0 = Map.empty"
    "merger_finalize quorum_ops m0 = Some (rp_merger (w_replay g))"
    using replay_invD(1) [OF inv] g(1) unfolding merger_state_def by auto
  then show ?thesis using finalized_visible [OF ok [unfolded config_ok_def] m0(1,2)] g(2) by auto
qed

lemma game_saved_complete:
  fixes s :: "('r, 'w, 'p, 'd) worker_system"
  assumes ok: "config_ok cq config" and inv: "system_inv cq config M s" and saved: "game_saved W saver files compress d0 d s k"
  shows "let file = replay_file (save_dir saver) (replay_id (wk_replays s) k) in
        \<exists>g c jh js. wk_games s k = Some g \<and> canonical (rp_merger (w_replay g)) = Some c \<and> to_json W jh = Inr js
          \<and> files d0 file = None
          \<and> files d file = Some (file_contents compress (saver_level saver) js (header_bytes c @ merged_bytes c))
          \<and> (\<forall>t. length (w_sent g t) \<le> length (merged_bytes c) \<or>
              (\<exists>p < min (length (w_sent g t)) (length (merged_bytes c)). w_sent g t ! p \<noteq> merged_bytes c ! p))"
proof -
  obtain g c x p p' where g: "wk_games s k = Some g" "merged_over (rp_lifetime (w_replay g))"
    "canonical (rp_merger (w_replay g)) = Some c"
    "files d0 (replay_file (save_dir saver) (replay_id (wk_replays s) k)) = None"
    "files d (replay_file (save_dir saver) (replay_id (wk_replays s) k)) = Some x"
    "saved_as W saver (replay_id (wk_replays s) k) compress (visible_bytes c) p p' x"
    using saved unfolding game_saved_def by (elim exE conjE) (rule that)
  obtain evs :: "('r, 'w) replay_event list" where "lives_as cq config (replay_id (wk_replays s) k) evs g"
    using system_invD(3) [OF inv g(1)] by (auto simp: game_fits_def)
  then have ginv: "replay_inv cq config g" by (rule lives_as_inv [OF ok])
  note merged_over_complete [OF ok ginv g(2,3)]
  moreover obtain jh js where "to_json W jh = Inr js" "x = file_contents compress (saver_level saver) js (visible_bytes c)"
    using g(6) by (auto simp: saved_as_def)
  ultimately show ?thesis using g(1,3-5) by (auto simp: Let_def)
qed

text \<open>Where the futures of the tasks are.\<close>

lemma task_in_Some: "task_in k x = Some t \<longleftrightarrow> (\<exists>c. x = Some (Handles c k (Writing t)))"
  by (cases "(k, x)" rule: task_in.cases) auto

lemma reads_in_iff: "reads_in k x \<longleftrightarrow> (\<exists>c. x = Some (Handles c k Reading))"
  by (cases "(k, x)" rule: reads_in.cases) auto

lemma card_dom_ran: "inj_on f (dom f) \<Longrightarrow> card (dom f) = card (ran f)"
proof -
  assume inj: "inj_on f (dom f)"
  have "Some ` ran f = f ` dom f" by (force simp: ran_def image_def dom_def)
  then have "card (Some ` ran f) = card (dom f)" using inj by (simp add: card_image)
  then show "card (dom f) = card (ran f)" by (simp add: card_image)
qed

subsection \<open>Runs over lists of events\<close>

definition system_run ::
  "ceil_quotient \<Rightarrow> (nat \<Rightarrow> nat \<Rightarrow> iteration) \<Rightarrow> InnerSettings \<Rightarrow> ('p, 't, 'e, 'd, 'f, 'z) outside_world \<Rightarrow>
   inner_replay_saver \<Rightarrow> ('r, 'w) system_event list \<Rightarrow> ('r, 'w, 'p, 'd) worker_system \<Rightarrow>
   ('r, 'w, 'p, 'd) worker_system option" where
  "system_run cq its config W saver evs s =
     foldM (\<lambda>ev s. do { assert_that (may_happen s ev); system_step cq its config W saver ev s }) evs s"

lemma system_run_simps:
  "system_run cq its config W saver [] s = Some s"
  "system_run cq its config W saver (ev # evs) s =
     (if may_happen s ev then system_step cq its config W saver ev s \<bind> system_run cq its config W saver evs else None)"
  by (simp_all add: system_run_def [abs_def] assert_that_def)

lemma system_run_operates:
  assumes "system_run cq its config W saver evs s = Some s'" "operates cq config W saver s0 s" "\<forall>n. orders_ok (its n)"
  shows "operates cq config W saver s0 s'"
  using assms(1,2)
proof (induction evs arbitrary: s)
  case Nil
  then show ?case by (simp add: system_run_simps)
next
  case (Cons ev evs)
  then obtain t where t: "may_happen s ev" "system_step cq its config W saver ev s = Some t"
    "system_run cq its config W saver evs t = Some s'"
    by (auto simp: system_run_simps bind_eq_Some_conv simp del: system_step.simps split: if_splits)
  from Cons.IH [OF t(3) operates_step [OF Cons.prems(2) t(1) assms(3) t(2)]] show ?case .
qed

text \<open>
  A worker that gets a writer of a game, and a reader of it that comes again; the writer sends a
  header and two bytes and leaves, and after one tick the replay is saved.
\<close>

definition demo_start :: "(unit, unit, unit, mem_disk) worker_system" where
  "demo_start = system_new 0 False metrics_new () Map.empty"

definition demo_traffic :: "(unit, unit) system_event list" where
  "demo_traffic =
     [Receives (demo_connection Writer), Receives (demo_connection Reader), Lifetime 0 False, Begins 1,
      Feeds 1 (HeaderRead 0 [1]), Begins 2, Polls 2 10, Feeds 1 (DataRead 0 [7, 8])]"

definition demo_ending :: "(unit, unit) system_event list" where
  "demo_ending =
     [Ends 1, Lifetime 0 False, Lifetime 0 True, Ticks, Lifetime 0 False, Lifetime 0 False, Lifetime 0 False, Saves 0]"

abbreviation demo_worker :: "(unit, unit) system_event list \<Rightarrow> (unit, unit, unit, mem_disk) worker_system option" where
  "demo_worker evs \<equiv> system_run exact_quotient (\<lambda>_ _. ascending) demo_config mem_world demo_saver evs demo_start"

lemmas system_eval =
  system_run_simps demo_start_def system_new_def replays_new_def receives_def assign_connection_to_replay_def
  lookup_def insert_new_def hold_def release_def future_at_def game_turn_def game_view_def put_game_def begins_def connection_over_def
  connection_done_def conn_drop_def inc_served_conns_def time_passes_def game_has_def strategy_tokens_def

lemma demo_traffic_run:
  "\<exists>s. demo_worker demo_traffic = Some s \<and> future_at s 1 = Some (Handles (demo_connection Writer) 0 (Writing 0))
     \<and> future_at s 2 = Some (Handles (demo_connection Reader) 0 Reading)
     \<and> (\<exists>g. wk_games s 0 = Some g \<and> mg_tasks (rp_merger (w_replay g)) 0 \<noteq> None)"
  unfolding demo_traffic_def
  by (simp add: system_eval replay_eval eval_simps Let_def cong: bind_weak option.case_cong_weak)

lemmas saver_eval =
  saves_def save_replay_def save_replay_to_disk_def mem_world_def demo_saver_def new_inner_def
  directory_new_def from_id_and_db_def get_game_stats_def get_game_stat_row_def get_player_count_def
  get_teams_in_game_def get_team_players_def demo_sqlx_def get_mod_versions_def get_mod_version_list_def
  touch_eq mem_disk_ops_def mem_zstd_def write_replay_file_def copy_replay.simps count_ticks_def get_ticks_def
  queries_update_game_stats_def update_game_stats_def mod_char_def read_to_end.simps reader_from_def cursor_read_def mr_ops_def read_at_def

lemma demo_ending_run:
  "\<exists>s. demo_worker (demo_traffic @ demo_ending) = Some s \<and> wk_saved s = [0] \<and> replay_id (wk_replays s) 0 = 1
     \<and> wk_games s 0 \<noteq> None"
  unfolding demo_traffic_def demo_ending_def
  by (simp add: saver_eval system_eval replay_eval eval_simps Let_def cong: bind_weak option.case_cong_weak)

lemma demo_operates:
  "demo_worker evs = Some s \<Longrightarrow>
    operates exact_quotient demo_config mem_world demo_saver (system_new 0 False metrics_new () Map.empty) s"
  unfolding demo_start_def
  using system_run_operates [where its = "\<lambda>_ _. ascending", OF _ operates_new] ascending_orders by fastforce

subsection \<open>Properties\<close>

text \<open>
  Nothing in a worker panics. Whatever connections come to it, whenever they begin, send, read
  and leave, in whatever order the futures are polled, whenever the server is shut down, and
  whatever the database, the disk and the parser of the ticks answer, every step of every future
  returns: all the games of a worker together do what each does on its own.
\<close>

theorem worker_steps_return:
  fixes s :: "('r, 'w, 'p, 'd) worker_system" and ev :: "('r, 'w) system_event"
  assumes "config_ok cq config" and "saver_laws W files compress"
    and "operates cq config W saver (system_new now down M p d) s"
    and "may_happen s ev" and "\<forall>n. orders_ok (its n)"
  shows "\<exists>s'. system_step cq its config W saver ev s = Some s'"
  using system_step_inv [OF assms(1) operates_inv [OF assms(3,1,2)] assms(5,2,4)] by blast

theorem worker_steps_return_witness:
  "\<exists>s s'. demo_worker demo_traffic = Some s
     \<and> system_step exact_quotient (\<lambda>_ _. ascending) demo_config mem_world demo_saver (Ends 2) s = Some s'"
proof -
  obtain s where s: "demo_worker demo_traffic = Some s" "future_at s 2 = Some (Handles (demo_connection Reader) 0 Reading)"
    using demo_traffic_run by blast
  have ords: "\<forall>n::nat. orders_ok (\<lambda>_. ascending)" by (simp add: ascending_orders)
  have en: "may_happen s (Ends 2)" using s(2) by simp
  from worker_steps_return [OF demo_config_ok mem_world_laws demo_operates [OF s(1)] en ords] s(1) show ?thesis by blast
qed

text \<open>
  A worker is the sum of its parts. Its map of replays and its futures are those of a run of
  \<open>Replays\<close>, so that a game has one replay; and each of its replays is, apart from the metrics that all
  of them share, a world that the turns of one replay alone reach, so that what holds of every replay
  on its own holds of each of them, whatever the others do.
\<close>

theorem worker_refines_parts:
  fixes s :: "('r, 'w, 'p, 'd) worker_system"
  assumes "config_ok cq config" and "saver_laws W files compress"
    and "operates cq config W saver (system_new now down M p d) s"
  shows "(\<exists>t. works M t \<and> ws_replays t = wk_replays s \<and> running t = running_of (wk_futures s))
    \<and> (\<forall>k g. wk_games s k = Some g \<longrightarrow>
        (\<exists>shutdown now0 M0 w. \<exists>evs :: ('r, 'w) replay_event list.
           lives cq (world_new (replay_id (wk_replays s) k) shutdown config now0 M0) evs w
           \<and> g = w\<lparr>w_metrics := w_metrics g\<rparr>))"
proof (intro conjI allI impI)
  have inv: "system_inv cq config M s" by (rule operates_inv [OF assms(3,1,2)])
  obtain u N where "works M u" "worker_of s = u\<lparr>ws_metrics := N\<rparr>"
    using system_invD(1) [OF inv] by (auto simp: works_as_def)
  then have "works M u" "ws_replays (worker_of s) = ws_replays u" "running (worker_of s) = running u" by simp_all
  then show "\<exists>t. works M t \<and> ws_replays t = wk_replays s \<and> running t = running_of (wk_futures s)"
    by (intro exI [of _ u]) (auto simp: worker_of_def)
  fix k g assume "wk_games s k = Some g"
  then obtain evs :: "('r, 'w) replay_event list" where
    "lives_as cq config (replay_id (wk_replays s) k) evs g"
    using system_invD(3) [OF inv, of k g] by (auto simp: game_fits_def)
  then obtain sd now0 M0 w N where "lives cq (world_new (replay_id (wk_replays s) k) sd config now0 M0) evs w"
    "g = w\<lparr>w_metrics := N\<rparr>"
    unfolding lives_as_def by blast
  then show "\<exists>shutdown now0 M0 w. \<exists>evs :: ('r, 'w) replay_event list.
      lives cq (world_new (replay_id (wk_replays s) k) shutdown config now0 M0) evs w \<and> g = w\<lparr>w_metrics := w_metrics g\<rparr>"
    by (intro exI [of _ sd] exI [of _ now0] exI [of _ M0] exI [of _ w] exI [of _ evs]) simp
qed

theorem worker_refines_parts_witness:
  "\<exists>s g w evs. demo_worker (demo_traffic @ demo_ending) = Some s \<and> wk_games s 0 = Some g
     \<and> (\<exists>sd now0 M0. lives exact_quotient (world_new 1 sd demo_config now0 M0) (evs :: (unit, unit) replay_event list) w)
     \<and> w_replay g = w_replay w"
proof -
  obtain s g where s: "demo_worker (demo_traffic @ demo_ending) = Some s" "replay_id (wk_replays s) 0 = 1"
    "wk_games s 0 = Some g"
    using demo_ending_run by blast
  obtain sd now0 M0 w and evs :: "(unit, unit) replay_event list" where
    w: "lives exact_quotient (world_new 1 sd demo_config now0 M0) evs w" "g = w\<lparr>w_metrics := w_metrics g\<rparr>"
    using worker_refines_parts [OF demo_config_ok mem_world_laws demo_operates [OF s(1)]] s(2,3) by metis
  have "w_replay g = w_replay w" by (subst w(2)) simp
  with s(1,3) w(1) show ?thesis by blast
qed

text \<open>
  Every game that was saved has its complete file. The metric of saved replays counts the games in
  \<open>wk_saved\<close>, no game twice; no file that was on the disk is ever changed; and for each of
  these games the disk has a file that was not there at the start, with the header for the
  game on its first line, and then the encoding of the header and all the data of the merged replay, of which
  no writer that agrees with it as far as both go has sent more.
\<close>

theorem saved_games_complete:
  fixes s :: "('r, 'w, 'p, 'd) worker_system"
  assumes "config_ok cq config" and "saver_laws W files compress"
    and "operates cq config W saver (system_new now down M p d) s"
  shows "SAVED_REPLAYS (wk_metrics s) = SAVED_REPLAYS M + length (wk_saved s)
    \<and> distinct (map (replay_id (wk_replays s)) (wk_saved s))
    \<and> (\<forall>q x. files d q = Some x \<longrightarrow> files (wk_disk s) q = Some x)
    \<and> (\<forall>k \<in> set (wk_saved s). let file = replay_file (save_dir saver) (replay_id (wk_replays s) k) in
        \<exists>g c jh js. wk_games s k = Some g \<and> canonical (rp_merger (w_replay g)) = Some c \<and> to_json W jh = Inr js
          \<and> files d file = None
          \<and> files (wk_disk s) file = Some (file_contents compress (saver_level saver) js (header_bytes c @ merged_bytes c))
          \<and> (\<forall>t. length (w_sent g t) \<le> length (merged_bytes c) \<or>
              (\<exists>p < min (length (w_sent g t)) (length (merged_bytes c)). w_sent g t ! p \<noteq> merged_bytes c ! p)))"
  using saved_invD [OF operates_saved [OF assms(3,1,2)]] game_saved_complete [OF assms(1) operates_inv [OF assms(3,1,2)]]
  by blast

theorem saved_games_complete_witness:
  "\<exists>s x. demo_worker (demo_traffic @ demo_ending) = Some s \<and> SAVED_REPLAYS (wk_metrics s) = 1
     \<and> wk_disk s (replay_file (save_dir demo_saver) 1) = Some x"
proof -
  obtain s where s: "demo_worker (demo_traffic @ demo_ending) = Some s" "wk_saved s = [0]" "replay_id (wk_replays s) 0 = 1"
    using demo_ending_run by blast
  from saved_games_complete [OF demo_config_ok mem_world_laws demo_operates [OF s(1)]] s show ?thesis
    by (auto simp: Let_def metrics_new_def)
qed

text \<open>
  C18: every connection is where it should be. For every replay of a worker the two counters are the
  numbers of the connections that its merger and its sender are handling now; each of the writers has a
  task of its own in the merger; and all of them have asked for the game of that replay.
\<close>

theorem worker_counts_connections:
  fixes s :: "('r, 'w, 'p, 'd) worker_system"
  assumes "config_ok cq config" and "saver_laws W files compress"
    and "operates cq config W saver (system_new now down M p d) s" and "wk_games s k = Some g"
  shows "ec_count (writer_count (w_replay g)) = card {i. \<exists>c t. future_at s i = Some (Handles c k (Writing t))}
    \<and> ec_count (reader_count (w_replay g)) = card {i. \<exists>c. future_at s i = Some (Handles c k Reading)}
    \<and> (\<forall>t. mg_tasks (rp_merger (w_replay g)) t \<noteq> None \<longleftrightarrow>
        (\<exists>!i. \<exists>c. future_at s i = Some (Handles c k (Writing t))))
    \<and> (\<forall>i c ph. future_at s i = Some (Handles c k ph) \<longrightarrow>
        (\<exists>h. get_header c = Some h \<and> ch_id h = rp_id (w_replay g)))"
proof -
  have inv: "system_inv cq config M s" by (rule operates_inv [OF assms(3,1,2)])
  obtain evs :: "('r, 'w) replay_event list" where fits: "game_fits cq config s k evs g"
    using system_invD(3) [OF inv assms(4)] by blast
  then have ginv: "replay_inv cq config g" using lives_as_inv [OF assms(1)] by (auto simp: game_fits_def)
  have m: "ran (writer_at (wk_futures s) k) = writers_of g"
    "inj_on (writer_at (wk_futures s) k) (dom (writer_at (wk_futures s) k))"
    "readers_at (wk_futures s) k = readers_of g"
    using system_invD(4) [OF inv assms(4)] by (simp_all add: matches_def)
  have w: "writer_at (wk_futures s) k i = Some t \<longleftrightarrow> (\<exists>c. future_at s i = Some (Handles c k (Writing t)))" for i t
    by (auto simp: writer_at_def future_at_def task_in_Some)
  have r: "readers_at (wk_futures s) k = {i. \<exists>c. future_at s i = Some (Handles c k Reading)}"
    by (auto simp: readers_at_def future_at_Some reads_in_iff)
  have "{i. \<exists>c t. future_at s i = Some (Handles c k (Writing t))} = dom (writer_at (wk_futures s) k)"
    using w by blast
  moreover have "card (dom (writer_at (wk_futures s) k)) = card (writers_of g)"
    unfolding m(1) [symmetric] by (rule card_dom_ran [OF m(2)])
  moreover have "ec_count (writer_count (w_replay g)) = card (writers_of g)"
    "ec_count (reader_count (w_replay g)) = card (readers_of g)"
    using replay_invD(2,3) [OF ginv] by (simp_all add: counts_tasks_def writers_of_def readers_of_def)
  moreover have "mg_tasks (rp_merger (w_replay g)) t \<noteq> None \<longleftrightarrow>
      (\<exists>!i. \<exists>c. future_at s i = Some (Handles c k (Writing t)))" for t
  proof -
    have "mg_tasks (rp_merger (w_replay g)) t \<noteq> None \<longleftrightarrow> t \<in> ran (writer_at (wk_futures s) k)"
      unfolding m(1) by (auto simp: writers_of_def)
    also have "\<dots> \<longleftrightarrow> (\<exists>!i. writer_at (wk_futures s) k i = Some t)"
      using m(2) by (auto simp: ran_def inj_on_def dom_def)
    finally show ?thesis unfolding w .
  qed
  moreover have "\<exists>h. get_header c = Some h \<and> ch_id h = rp_id (w_replay g)" if "future_at s i = Some (Handles c k ph)" for i c ph
  proof -
    have "ToConnection c k \<in># running (worker_of s)"
      using that nth_mem [of i "wk_futures s"]
      by (auto simp: worker_of_def in_running_of future_at_Some intro!: exI [of _ "Handles c k ph"])
    then show ?thesis using replays_invD(4) [OF works_as_inv [OF system_invD(1) [OF inv]]] fits
      by (auto simp: worker_of_def game_fits_def)
  qed
  ultimately show ?thesis using m(3) r by simp
qed

theorem worker_counts_connections_witness:
  "\<exists>s g. demo_worker demo_traffic = Some s \<and> wk_games s 0 = Some g
     \<and> (\<exists>!i. \<exists>c. future_at s i = Some (Handles c 0 (Writing 0)))"
proof -
  obtain s g where s: "demo_worker demo_traffic = Some s" "wk_games s 0 = Some g" "mg_tasks (rp_merger (w_replay g)) 0 \<noteq> None"
    using demo_traffic_run by blast
  from worker_counts_connections [OF demo_config_ok mem_world_laws demo_operates [OF s(1)] s(2)] s show ?thesis by blast
qed

end
