(* ===== verification/Whole_Server.thy ===== *)
theory Whole_Server
  imports Server Worker_Promises
begin

text \<open>
  The whole server: the accept loop, the channels and the shutdown of \<open>Server\<close>, where each worker
  thread runs the worker of \<open>Worker_System\<close>, with its replays, connections and the saver
  (\<open>src/server/server.rs\<close>, \<open>src/replay/runner.rs\<close>, \<open>src/replay/replays.rs\<close>). The threads share
  the metrics of the process, the database, the disk and the token of the shutdown, and nothing else.
\<close>

subsection \<open>State\<close>

text \<open>
  The fields of \<open>server_state\<close> and \<open>worker_thread\<close>, with a worker in the place of its assignments. A worker
  sees the shared parts when it takes a step; its own fields for them are not used.
\<close>

record ('r, 'w, 'p, 'd) thread =
  th_channel :: "('r, 'w) connection list"
  th_open :: bool
  th_exited :: bool
  th_system :: "('r, 'w, 'p, 'd) worker_system"

record ('r, 'w, 'p, 'd) whole_server =
  wh_futures :: "(bool \<times> ('r, 'w) connection) list"
  wh_threads :: "('r, 'w, 'p, 'd) thread list"
  wh_joined :: "nat option"
  wh_down :: bool
  wh_metrics :: metrics
  wh_db :: 'p
  wh_disk :: 'd
  wh_accepted :: nat
  wh_silent :: nat

definition thread_new :: "'p \<Rightarrow> 'd \<Rightarrow> ('r, 'w, 'p, 'd) thread" where
  "thread_new p d = \<lparr>th_channel = [], th_open = True, th_exited = False, th_system = system_new 0 False metrics_new p d\<rparr>"

definition whole_new :: "InnerSettings \<Rightarrow> 'p \<Rightarrow> 'd \<Rightarrow> ('r, 'w, 'p, 'd) whole_server" where
  "whole_new config p d =
     \<lparr>wh_futures = [], wh_threads = replicate (worker_threads (server config)) (thread_new p d), wh_joined = None,
      wh_down = False, wh_metrics = metrics_new, wh_db = p, wh_disk = d, wh_accepted = 0, wh_silent = 0\<rparr>"

subsection \<open>The view of the server\<close>

text \<open>What \<open>Server\<close> knows of it: of a worker, which replay is whose, and which futures run.\<close>

definition thread_view :: "('r, 'w, 'p, 'd) thread \<Rightarrow> ('r, 'w) worker_thread" where
  "thread_view t =
     \<lparr>wt_channel = th_channel t, wt_open = th_open t, wt_replays = wk_replays (th_system t),
      wt_running = running_of (wk_futures (th_system t)), wt_exited = th_exited t\<rparr>"

definition server_view :: "('r, 'w, 'p, 'd) whole_server \<Rightarrow> ('r, 'w) server_state" where
  "server_view p =
     \<lparr>sv_futures = wh_futures p, sv_runner = \<lparr>replay_workers = map thread_view (wh_threads p), rn_joined = wh_joined p\<rparr>,
      sv_metrics = wh_metrics p, sv_accepted = wh_accepted p, sv_silent = wh_silent p\<rparr>"

text \<open>A turn of the accept loop, of a channel or of the shutdown, which leaves the workers alone.\<close>

definition front ::
  "(('r, 'w) server_state \<Rightarrow> ('r, 'w) server_state option) \<Rightarrow> ('r, 'w, 'p, 'd) whole_server \<Rightarrow>
   ('r, 'w, 'p, 'd) whole_server option" where
  "front f p =
     map_option (\<lambda>s. p\<lparr>wh_futures := sv_futures s,
         wh_threads := map2 (\<lambda>t w. t\<lparr>th_channel := wt_channel w, th_open := wt_open w, th_exited := wt_exited w\<rparr>)
           (wh_threads p) (replay_workers (sv_runner s)),
         wh_joined := rn_joined (sv_runner s), wh_metrics := sv_metrics s, wh_accepted := sv_accepted s,
         wh_silent := sv_silent s\<rparr>)
       (f (server_view p))"

subsection \<open>The workers\<close>

definition system_at :: "nat \<Rightarrow> ('r, 'w, 'p, 'd) whole_server \<Rightarrow> ('r, 'w, 'p, 'd) worker_system" where
  "system_at i p =
     (th_system (wh_threads p ! i))\<lparr>wk_metrics := wh_metrics p, wk_db := wh_db p, wk_disk := wh_disk p\<rparr>"

definition on_system ::
  "nat \<Rightarrow> (('r, 'w, 'p, 'd) worker_system \<Rightarrow> ('r, 'w, 'p, 'd) worker_system option) \<Rightarrow>
   ('r, 'w, 'p, 'd) whole_server \<Rightarrow> ('r, 'w, 'p, 'd) whole_server option" where
  "on_system i f p =
     map_option (\<lambda>s. p\<lparr>wh_threads := (wh_threads p)[i := (wh_threads p ! i)\<lparr>th_system := s\<rparr>],
         wh_metrics := wk_metrics s, wh_db := wk_db s, wh_disk := wk_disk s\<rparr>)
       (f (system_at i p))"

text \<open>The stream of a worker takes a connection from its channel.\<close>

definition takes ::
  "InnerSettings \<Rightarrow> nat \<Rightarrow> ('r, 'w, 'p, 'd) whole_server \<Rightarrow> ('r, 'w, 'p, 'd) whole_server option" where
  "takes config i p =
     (case th_channel (wh_threads p ! i) of
        [] \<Rightarrow> None
      | c # cs \<Rightarrow> on_system i (receives config c)
          (p\<lparr>wh_threads := (wh_threads p)[i := (wh_threads p ! i)\<lparr>th_channel := cs\<rparr>]\<rparr>))"

text \<open>A signal cancels the token of the shutdown, which all workers have.\<close>

definition signal :: "('r, 'w, 'p, 'd) whole_server \<Rightarrow> ('r, 'w, 'p, 'd) whole_server" where
  "signal p = p\<lparr>wh_down := True, wh_threads := map (\<lambda>t. t\<lparr>th_system := shuts_down (th_system t)\<rparr>) (wh_threads p)\<rparr>"

subsection \<open>All tasks of all threads\<close>

text \<open>
  A turn of a future of the worker \<open>i\<close>, or a tick of its clock: the threads read the clock each on its own. The
  saver has the directory and the level of the settings.
\<close>

datatype ('r, 'w) whole_event =
    Front "('r, 'w) server_event"
  | Takes nat
  | Turns nat "('r, 'w) system_event"
  | Signal

fun whole_step ::
  "'r reader_ops \<Rightarrow> ceil_quotient \<Rightarrow> (nat \<Rightarrow> nat \<Rightarrow> iteration) \<Rightarrow> InnerSettings \<Rightarrow>
   ('p, 't, 'e, 'd, 'f, 'z) outside_world \<Rightarrow> saved_replay_directory \<Rightarrow> ('r, 'w) whole_event \<Rightarrow>
   ('r, 'w, 'p, 'd) whole_server \<Rightarrow> ('r, 'w, 'p, 'd) whole_server option" where
  "whole_step R cq its config W dir (Front ev) p = front (server_step R config ev) p"
| "whole_step R cq its config W dir (Takes i) p = takes config i p"
| "whole_step R cq its config W dir (Turns i ev) p =
     on_system i (system_step cq its config W (new_inner dir config) ev) p"
| "whole_step R cq its config W dir Signal p = Some (signal p)"

text \<open>
  When a step can happen. The accept loop is cancelled only after the signal; receiving and the turns of the workers are
  not turns of the front.
\<close>

fun of_front :: "('r, 'w) server_event \<Rightarrow> bool" where
  "of_front (WorkerReceives i) = False"
| "of_front (WorkerTurn i ev) = False"
| "of_front ev = True"

fun of_worker :: "('r, 'w) system_event \<Rightarrow> bool" where
  "of_worker (Receives c) = False"
| "of_worker ShutsDown = False"
| "of_worker ev = True"

fun may_step :: "('r, 'w, 'p, 'd) whole_server \<Rightarrow> ('r, 'w) whole_event \<Rightarrow> bool" where
  "may_step p (Front ev) = (of_front ev \<and> can_happen (server_view p) ev \<and> (ev = Cancelled \<longrightarrow> wh_down p))"
| "may_step p (Takes i) = (i < length (wh_threads p) \<and> th_channel (wh_threads p ! i) \<noteq> [])"
| "may_step p (Turns i ev) = (i < length (wh_threads p) \<and> of_worker ev \<and> may_happen (system_at i p) ev)"
| "may_step p Signal = True"

inductive runs ::
  "'r reader_ops \<Rightarrow> ceil_quotient \<Rightarrow> InnerSettings \<Rightarrow> ('p, 't, 'e, 'd, 'f, 'z) outside_world \<Rightarrow>
   saved_replay_directory \<Rightarrow> ('r, 'w, 'p, 'd) whole_server \<Rightarrow> ('r, 'w, 'p, 'd) whole_server \<Rightarrow> bool"
  for R cq config W dir p0 where
  runs_new: "runs R cq config W dir p0 p0"
| runs_step: "runs R cq config W dir p0 p \<Longrightarrow> may_step p ev \<Longrightarrow> (\<forall>n. orders_ok (its n)) \<Longrightarrow>
    whole_step R cq its config W dir ev p = Some p' \<Longrightarrow> runs R cq config W dir p0 p'"

end
