(* ===== verification/Whole_Facts.thy ===== *)
theory Whole_Facts
  imports Whole_Server
begin

text \<open>
  The whole server does what \<open>Server\<close> does, with workers that do what \<open>Worker_System\<close> does: its steps are
  those of its parts, and all of them return.
\<close>

subsection \<open>The metrics of connections\<close>

text \<open>Two states of the metrics that agree on the connections; the turns of the replays change the others.\<close>

definition same_conns :: "metrics \<Rightarrow> metrics \<Rightarrow> bool" where
  "same_conns M N \<longleftrightarrow> ACTIVE_CONNS M = ACTIVE_CONNS N \<and> SERVED_CONNS M = SERVED_CONNS N"

lemma same_conns_refl [simp]: "same_conns M M"
  by (simp add: same_conns_def)

lemma same_conns_sym: "same_conns M N \<Longrightarrow> same_conns N M"
  by (simp add: same_conns_def)

lemma same_conns_trans: "same_conns L M \<Longrightarrow> same_conns M N \<Longrightarrow> same_conns L N"
  by (simp add: same_conns_def)

lemma same_conns_ops:
  assumes "same_conns M N"
  shows "same_conns (set_metric c M) (set_metric c N)" "same_conns (reset_metric c M) (reset_metric c N)"
    "same_conns (conn_drop c M) (conn_drop c N)" "same_conns (inc_served_conns e M) (inc_served_conns e N)"
  using assms by (simp_all add: same_conns_def set_metric_def reset_metric_def conn_drop_def inc_served_conns_def Let_def)

lemma same_conns_gauge: "same_conns M N \<Longrightarrow> gauge M L = gauge N L" "same_conns M N \<Longrightarrow> served M = served N"
  by (simp_all add: same_conns_def gauge_def served_def)

lemma same_conns_drops:
  "same_conns M N \<Longrightarrow> same_conns (fold (\<lambda>(_, c). conn_drop c) fs M) (fold (\<lambda>(_, c). conn_drop c) fs N)"
proof (induction fs arbitrary: M N)
  case (Cons f fs)
  then show ?case by (cases f) (simp add: same_conns_ops(3))
qed simp

subsection \<open>The server does not look at the others\<close>

lemma assign_same_conns:
  assumes "assign_connection_to_replay c rs M = Some (as, rs', M')" "same_conns M N"
  shows "\<exists>N'. assign_connection_to_replay c rs N = Some (as, rs', N') \<and> same_conns M' N'"
proof -
  obtain h where "get_header c = Some h"
    using assms(1) by (auto simp: assign_connection_to_replay_def bind_eq_Some_conv)
  then show ?thesis using assms
    by (cases "lookup rs (ch_id h)")
      (auto simp: assign_connection_to_replay_def Let_def intro: same_conns_ops split: if_splits prod.splits)
qed

lemma thread_turn_same_conns:
  assumes "thread_turn ev w M = Some (w', M')" "same_conns M N"
  shows "\<exists>N'. thread_turn ev w N = Some (w', N') \<and> same_conns M' N'"
proof (cases ev)
  case (Received c)
  then obtain as rs where a: "assign_connection_to_replay c (wt_replays w) M = Some (as, rs, M')"
    "w' = w\<lparr>wt_replays := rs, wt_running := wt_running w + mset as\<rparr>"
    using assms(1) by (auto simp: thread_turn_def worker_view_def)
  from assign_same_conns [OF a(1) assms(2)] show ?thesis
    using Received a(2) by (auto simp: thread_turn_def worker_view_def)
next
  case (LifetimeDone k)
  then show ?thesis using assms by (auto simp: thread_turn_def worker_view_def split: if_splits)
next
  case (ConnectionDone c k res)
  then show ?thesis using assms
    by (auto simp: thread_turn_def worker_view_def connection_done_def intro: same_conns_ops split: if_splits)
qed

lemma thread_receives_same_conns:
  assumes "thread_receives w M = Some (w', M')" "same_conns M N"
  shows "\<exists>N'. thread_receives w N = Some (w', N') \<and> same_conns M' N'"
  using assms thread_turn_same_conns by (fastforce simp: thread_receives_def split: list.splits)

text \<open>Two states of the server that agree but for the metrics of replays.\<close>

definition agrees :: "('r, 'w) server_state \<Rightarrow> ('r, 'w) server_state \<Rightarrow> bool" where
  "agrees s t \<longleftrightarrow> sv_futures s = sv_futures t \<and> sv_runner s = sv_runner t \<and> sv_accepted s = sv_accepted t
     \<and> sv_silent s = sv_silent t \<and> same_conns (sv_metrics s) (sv_metrics t)"

lemma agrees_refl [simp]: "agrees s s"
  by (simp add: agrees_def)

lemma agrees_sym: "agrees s t \<Longrightarrow> agrees t s"
  by (simp add: agrees_def same_conns_sym)

lemma agrees_trans: "agrees r s \<Longrightarrow> agrees s t \<Longrightarrow> agrees r t"
  using same_conns_trans by (auto simp: agrees_def)

lemma agrees_can_happen:
  fixes s t :: "('r, 'w) server_state" and ev :: "('r, 'w) server_event"
  shows "agrees s t \<Longrightarrow> can_happen s ev = can_happen t ev"
proof -
  assume a: "agrees s t"
  then have "worker_at i s = worker_at i t" for i by (simp add: agrees_def worker_at_def)
  with a show ?thesis by (cases ev) (simp_all add: agrees_def split: option.splits worker_event.splits)
qed

lemma agrees_inv:
  fixes s t :: "('r, 'w) server_state"
  shows "agrees s t \<Longrightarrow> server_inv config s = server_inv config t"
proof -
  assume a: "agrees s t"
  then have "gauge (sv_metrics s) L = gauge (sv_metrics t) L" "served (sv_metrics s) = served (sv_metrics t)"
    for L :: "('r, 'w) connection multiset"
    using same_conns_gauge by (auto simp: agrees_def)
  with a show ?thesis by (simp add: agrees_def server_inv_def accounted_def live_conns_def)
qed

lemma on_worker_agrees:
  assumes "on_worker i f s = Some s'" "agrees s t"
    and f: "\<And>w M w' M' N. f w M = Some (w', M') \<Longrightarrow> same_conns M N \<Longrightarrow> \<exists>N'. f w N = Some (w', N') \<and> same_conns M' N'"
  shows "\<exists>t'. on_worker i f t = Some t' \<and> agrees s' t'"
proof -
  obtain w M' where w: "f (replay_workers (sv_runner s) ! i) (sv_metrics s) = Some (w, M')"
    "s' = s\<lparr>sv_runner := (sv_runner s)\<lparr>replay_workers := (replay_workers (sv_runner s))[i := w]\<rparr>, sv_metrics := M'\<rparr>"
    using assms(1) by (auto simp: on_worker_def with_worker_def)
  obtain N' where "f (replay_workers (sv_runner s) ! i) (sv_metrics t) = Some (w, N')" "same_conns M' N'"
    using f [OF w(1)] assms(2) by (auto simp: agrees_def)
  then show ?thesis using w(2) assms(2) by (auto simp: on_worker_def with_worker_def agrees_def)
qed

text \<open>What the metrics are plays no part in reading a header.\<close>

lemma read_header_uniform:
  "\<exists>u res c'. (\<exists>e. res = Inl e) \<and> (\<forall>M. read_initial_header R first now arrival time c M = Some (u, res, c, M)) \<or>
     res = Inr () \<and> (\<forall>M. read_initial_header R first now arrival time c M = Some (u, res, c', set_metric c' (reset_metric c M)))"
proof -
  have read: "(\<exists>e. \<forall>M. read_and_set_connection_header R c M = (Inl e, c, M)) \<or>
      (\<exists>c'. \<forall>M. read_and_set_connection_header R c M = (Inr (), c', set_metric c' (reset_metric c M)))"
    by (auto simp: read_and_set_connection_header_def set_header_def reset_metric_def header2label_def Let_def split: sum.splits)
  have late: ?thesis if "\<And>M. read_initial_header R first now arrival time c M =
      Some (now + time, Inl (bad_data ''Timed out while accepting connection''), c, M)"
    using that by blast
  show ?thesis
  proof (cases arrival)
    case None
    then show ?thesis by (intro late) (simp add: read_initial_header_def timeout_def until_def)
  next
    case (Some t)
    show ?thesis
    proof (cases "t < now + time \<or> t = now + time \<and> first")
      case True
      then have "\<And>M. read_initial_header R first now arrival time c M = Some (t, read_and_set_connection_header R c M)"
        using Some by (simp add: read_initial_header_def timeout_def until_def)
      then show ?thesis using read by auto
    next
      case False
      then show ?thesis using Some by (intro late) (auto simp: read_initial_header_def timeout_def until_def)
    qed
  qed
qed

lemma header_ready_agrees:
  assumes step: "header_ready R config first now arrival i s = Some s'" and M: "agrees s t"
  shows "\<exists>t'. header_ready R config first now arrival i t = Some t' \<and> agrees s' t'"
proof -
  let ?c = "snd (sv_futures s ! i)"
  let ?read = "read_initial_header R first now arrival (connection_accept_timeout_s (server config)) ?c"
  obtain u res c' where r: "(\<exists>e. res = Inl e) \<and> (\<forall>M. ?read M = Some (u, res, ?c, M)) \<or>
      res = Inr () \<and> (\<forall>M. ?read M = Some (u, res, c', set_metric c' (reset_metric ?c M)))"
    using read_header_uniform [of R first now arrival "connection_accept_timeout_s (server config)" ?c] by (elim exE) (rule that)
  have t: "sv_futures t = sv_futures s" using M by (simp add: agrees_def)
  show ?thesis
  proof (cases res)
    case (Inl e)
    then have "\<forall>M. ?read M = Some (u, Inl e, ?c, M)" using r by auto
    then show ?thesis using step M t by (auto simp: header_ready_def agrees_def intro!: same_conns_ops)
  next
    case (Inr x)
    then have "\<forall>M. ?read M = Some (u, Inr (), c', set_metric c' (reset_metric ?c M))" using r by auto
    then show ?thesis using step M t by (auto simp: header_ready_def agrees_def intro!: same_conns_ops)
  qed
qed

lemma server_step_agrees:
  assumes step: "server_step R config ev s = Some s'" and M: "agrees s t"
  shows "\<exists>t'. server_step R config ev t = Some t' \<and> agrees s' t'"
proof (cases ev)
  case (Accepts random r w)
  then show ?thesis using step M by (auto simp: accepts_def new_from_def agrees_def Let_def intro: same_conns_ops)
next
  case (HeaderReady first now arrival i)
  then show ?thesis using header_ready_agrees [OF _ M] step by simp
next
  case (Sends i)
  then show ?thesis using step M by (auto simp: sends_def agrees_def)
next
  case StreamEnds
  then show ?thesis using step M by (auto simp: stream_ends_def agrees_def)
next
  case Cancelled
  then show ?thesis using step M by (auto simp: cancels_def agrees_def intro: same_conns_drops)
next
  case (WorkerReceives i)
  then show ?thesis using on_worker_agrees [OF _ M thread_receives_same_conns] step by simp
next
  case (WorkerTurn i e)
  then show ?thesis using on_worker_agrees [OF _ M thread_turn_same_conns] step by simp
next
  case (WorkerExits i)
  then show ?thesis
    using on_worker_agrees [OF _ M, of i "\<lambda>w M. map_option (\<lambda>w. (w, M)) (thread_exits w)" s'] step by auto
next
  case Joins
  then show ?thesis using step M by (auto simp: agrees_def)
qed

text \<open>A state that agrees with one of \<open>Server\<close>.\<close>

definition serves_as :: "'r reader_ops \<Rightarrow> InnerSettings \<Rightarrow> ('r, 'w) server_state \<Rightarrow> bool" where
  "serves_as R config s \<longleftrightarrow> (\<exists>u. serves R config u \<and> agrees s u)"

lemma serves_as_step:
  assumes "serves_as R config s" "can_happen s ev" "server_step R config ev s = Some s'"
  shows "serves_as R config s'"
proof -
  obtain u where u: "serves R config u" "agrees s u" using assms(1) by (auto simp: serves_as_def)
  from server_step_agrees [OF assms(3) u(2)] obtain u' where "server_step R config ev u = Some u'" "agrees s' u'" by blast
  moreover have "can_happen u ev" using assms(2) agrees_can_happen [OF u(2)] by blast
  ultimately show ?thesis using serves_step [OF u(1)] unfolding serves_as_def by blast
qed

lemma serves_as_agrees: "serves_as R config s \<Longrightarrow> agrees t s \<Longrightarrow> serves_as R config t"
  using agrees_trans by (auto simp: serves_as_def)

lemma serves_as_inv: "serves_as R config s \<Longrightarrow> 0 < worker_threads (server config) \<Longrightarrow> server_inv config s"
  unfolding serves_as_def using serves_inv agrees_inv by blast

subsection \<open>What the server sees of the turn of a worker\<close>

lemma replay_step_conns:
  assumes "replay_step cq its ev g = Some g'"
  shows "same_conns (w_metrics g) (w_metrics g')"
proof (cases ev)
  case (LifetimeTurn first)
  then show ?thesis using assms
    by (auto simp: lifetime_turn_def stop_accepting_def bind_eq_Some_conv same_conns_def split: lifetime.splits sum.splits)
qed (use assms in \<open>auto simp: note_writers_def simp del: merger_step.simps\<close>)

lemma save_to_disk_conns:
  assumes "save_replay_to_disk W self cx c i p d M = Some (saved, p', d', M')"
  shows "same_conns M M'"
proof -
  obtain r1 p1 where r1: "from_id_and_db (ow_sqlx W) (unix_timestamp W) (now_utc W) i p = (r1, p1)" by fastforce
  show ?thesis
  proof (cases "mr_header c = None \<or> (\<exists>e. r1 = Inl e)")
    case True
    then show ?thesis using assms r1 by (auto simp: save_replay_to_disk_def split: if_split_asm)
  next
    case False
    then obtain jh where "r1 = Inr jh" "mr_header c \<noteq> None" by (cases r1) auto
    then obtain r2 d1 where d1: "touch_and_return_file (ow_disk W) (save_dir self) i d = Some (r2, d1)"
      using assms r1 by (auto simp: save_replay_to_disk_def bind_eq_Some_conv)
    show ?thesis
    proof (cases r2)
      case (Inl e)
      then show ?thesis using assms r1 \<open>r1 = Inr jh\<close> d1 by (auto simp: save_replay_to_disk_def split: if_split_asm)
    next
      case (Inr fp)
      then obtain w d2 where "(case w of Inl e \<Rightarrow> (False, p1, d2, M)
          | Inr _ \<Rightarrow> (True, p1, d2, M\<lparr>SAVED_REPLAYS := SAVED_REPLAYS M + 1\<rparr>)) = (saved, p', d', M')"
        "write_replay_file (ow_disk W) (ow_zstd W) (to_json W) (copy_buffer W) cx (fst fp) jh c (saver_level self) d1 = Some (w, d2)"
        using assms r1 \<open>r1 = Inr jh\<close> \<open>mr_header c \<noteq> None\<close> d1
        by (cases fp) (auto simp: save_replay_to_disk_def bind_eq_Some_conv)
      then show ?thesis by (auto simp: same_conns_def split: sum.split_asm)
    qed
  qed
qed

lemma save_replay_conns:
  assumes "save_replay W self cx c i p d M = Some (p', d', M')"
  shows "same_conns M M'"
proof -
  obtain saved p1 d1 M1 where "save_replay_to_disk W self cx c i p d M = Some (saved, p1, d1, M1)" "M' = M1"
    using assms by (auto simp: save_replay_def bind_eq_Some_conv case_prod_beta Let_def)
  then show ?thesis using save_to_disk_conns by simp
qed

text \<open>A turn that no connection and no lifetime ends.\<close>

definition quiet :: "('r, 'w, 'p, 'd) worker_system \<Rightarrow> ('r, 'w, 'p, 'd) worker_system \<Rightarrow> bool" where
  "quiet s s' \<longleftrightarrow> wk_replays s' = wk_replays s \<and> running_of (wk_futures s') = running_of (wk_futures s)
     \<and> same_conns (wk_metrics s) (wk_metrics s')"

lemma quiet_refl [simp]: "quiet s s"
  by (simp add: quiet_def)

lemma game_turn_quiet:
  assumes "game_turn cq its k ev s = Some s'"
  shows "quiet s s' \<and> wk_futures s' = wk_futures s"
proof -
  obtain g g' where "wk_games s k = Some g" "replay_step cq its ev (g\<lparr>w_metrics := wk_metrics s\<rparr>) = Some g'" "s' = put_game k g' s"
    using assms by (auto simp: game_turn_def game_view_def bind_eq_Some_conv)
  then show ?thesis using replay_step_conns by (fastforce simp: quiet_def)
qed

definition turns_to :: "('r, 'w, 'p, 'd) worker_system \<Rightarrow> ('r, 'w, 'p, 'd) worker_system \<Rightarrow> bool" where
  "turns_to s s' \<longleftrightarrow> quiet s s' \<or>
     (\<exists>e N. (\<forall>c. e \<noteq> Received c) \<and> same_conns (wk_metrics s) N \<and>
        worker_step e ((worker_of s)\<lparr>ws_metrics := N\<rparr>) = Some (worker_of s'))"

lemma quiet_turn: "game_turn cq its k ev s = Some s' \<Longrightarrow> turns_to s s'"
  using game_turn_quiet by (fastforce simp: turns_to_def)

lemma quiet_over:
  assumes q: "quiet s t" "wk_futures t = wk_futures s" and f: "future_at s i = Some (Handles c k p)"
  shows "turns_to s (connection_over i c k res t)"
proof -
  have "worker_of t = (worker_of s)\<lparr>ws_metrics := wk_metrics t\<rparr>" using q by (simp add: quiet_def worker_of_def)
  moreover have "future_at t i = Some (Handles c k p)" using f q(2) by (simp add: future_at_Some)
  ultimately have "worker_step (ConnectionDone c k res) ((worker_of s)\<lparr>ws_metrics := wk_metrics t\<rparr>)
      = Some (worker_of (connection_over i c k res t))"
    using connection_over_worker by metis
  then show ?thesis using q(1) unfolding turns_to_def quiet_def by blast
qed

lemma begins_turns:
  assumes step: "begins cq its i c k s = Some s'" and f: "future_at s i = Some (Handles c k Fresh)"
  shows "turns_to s s'"
proof -
  obtain g res r where g: "wk_games s k = Some g" "handle_connection cq its c i (w_replay g) = Some (res, r)"
    using step by (auto simp: begins_def game_view_def bind_eq_Some_conv)
  let ?t = "put_game k (note_writers (g\<lparr>w_metrics := wk_metrics s\<rparr>) r) s"
  have q: "quiet s ?t" "wk_futures ?t = wk_futures s" by (simp_all add: quiet_def note_writers_def)
  show ?thesis
  proof (cases res)
    case (Some res')
    then have "s' = connection_over i c k res' ?t" using step g by (auto simp: begins_def game_view_def)
    then show ?thesis using quiet_over [OF q f] by simp
  next
    case None
    then obtain p where "s' = ?t\<lparr>wk_futures := (wk_futures ?t)[i := Some (Handles c k p)]\<rparr>"
      using step g by (auto simp: begins_def game_view_def bind_eq_Some_conv Let_def)
    moreover have "running_of ((wk_futures s)[i := Some (Handles c k p)]) = running_of (wk_futures s)"
      using f by (intro running_of_same) (auto simp: future_at_Some)
    ultimately show ?thesis using q(1) by (simp add: turns_to_def quiet_def)
  qed
qed

lemma system_step_turns:
  fixes s :: "('r, 'w, 'p, 'd) worker_system" and ev :: "('r, 'w) system_event"
  assumes step: "system_step cq its config W saver ev s = Some s'" and w: "of_worker ev"
  shows "turns_to s s'"
proof (cases ev)
  case (Begins i)
  then obtain c k where "future_at s i = Some (Handles c k Fresh)" "begins cq its i c k s = Some s'"
    using step by (auto split: option.splits future.splits phase.splits)
  then show ?thesis using begins_turns by blast
next
  case (Ends i)
  then obtain c k p t e where f: "future_at s i = Some (Handles c k p)" "game_turn cq its k (e :: ('r, 'w) replay_event) s = Some t"
    "s' = connection_over i c k (Inr ()) t"
    using step by (auto split: option.splits future.splits phase.splits)
  then show ?thesis using quiet_over [OF _ _ f(1)] game_turn_quiet [OF f(2)] by simp
next
  case (LifetimeEnds i)
  then obtain k where "future_at s i = Some (Lives k)" "s' = lifetime_ends i k s"
    using step by (auto split: option.splits future.splits)
  then have "worker_step (LifetimeDone k) ((worker_of s)\<lparr>ws_metrics := wk_metrics s\<rparr>) = Some (worker_of s')"
    using lifetime_ends_worker [of s i k] by (simp add: worker_of_def del: worker_step.simps)
  then show ?thesis unfolding turns_to_def by (metis same_conns_refl worker_event.distinct(1))
next
  case (Saves i)
  then obtain k where "saves cq its W saver k s = Some s'" using step by (auto split: option.splits future.splits)
  then obtain g :: replay_world and c p d M where sv: "save_replay W saver 0 c (rp_id (w_replay g)) (wk_db s) (wk_disk s) (wk_metrics s) = Some (p, d, M)"
    "game_turn cq its k (SaveDone :: ('r, 'w) replay_event) (s\<lparr>wk_db := p, wk_disk := d, wk_metrics := M,
      wk_saved := wk_saved s @ (if SAVED_REPLAYS M = SAVED_REPLAYS (wk_metrics s) then [] else [k])\<rparr>) = Some s'"
    unfolding saves_def bind_eq_Some_conv Let_def by (auto split: prod.split_asm)
  then show ?thesis using game_turn_quiet [OF sv(2)] same_conns_trans [OF save_replay_conns [OF sv(1)]]
    by (simp add: turns_to_def quiet_def)
next
  case Ticks
  then show ?thesis using step by (auto simp: turns_to_def quiet_def time_passes_def)
qed (use step w in \<open>auto intro: quiet_turn split: option.splits future.splits phase.splits\<close>)

subsection \<open>The invariant\<close>

definition whole_inv ::
  "'r reader_ops \<Rightarrow> ceil_quotient \<Rightarrow> InnerSettings \<Rightarrow> ('r, 'w, 'p, 'd) whole_server \<Rightarrow> bool" where
  "whole_inv R cq config p \<longleftrightarrow> serves_as R config (server_view p) \<and>
     (\<forall>t \<in> set (wh_threads p). system_inv cq config metrics_new (th_system t) \<and> wk_down (th_system t) = wh_down p)"

lemma whole_invD:
  assumes "whole_inv R cq config p"
  shows "serves_as R config (server_view p)"
    "i < length (wh_threads p) \<Longrightarrow> system_inv cq config metrics_new (th_system (wh_threads p ! i))"
    "i < length (wh_threads p) \<Longrightarrow> wk_down (th_system (wh_threads p ! i)) = wh_down p"
  using assms unfolding whole_inv_def by simp_all

lemma system_inv_shared:
  "system_inv cq config M0 (s\<lparr>wk_metrics := M, wk_db := p, wk_disk := d\<rparr>) = system_inv cq config M0 s"
proof -
  have "worker_of (s\<lparr>wk_metrics := M, wk_db := p, wk_disk := d\<rparr>) = (worker_of s)\<lparr>ws_metrics := M\<rparr>"
    by (simp add: worker_of_def)
  then show ?thesis by (simp add: system_inv_def works_as_metrics game_fits_def)
qed

lemma system_at_inv:
  "whole_inv R cq config p \<Longrightarrow> i < length (wh_threads p) \<Longrightarrow> system_inv cq config metrics_new (system_at i p)"
  by (simp add: system_at_def system_inv_shared whole_invD(2))

lemma system_at_simps [simp]:
  "wk_metrics (system_at i p) = wh_metrics p" "wk_disk (system_at i p) = wh_disk p" "wk_db (system_at i p) = wh_db p"
  "wk_replays (system_at i p) = wk_replays (th_system (wh_threads p ! i))"
  "wk_futures (system_at i p) = wk_futures (th_system (wh_threads p ! i))"
  "wk_games (system_at i p) = wk_games (th_system (wh_threads p ! i))"
  "wk_saved (system_at i p) = wk_saved (th_system (wh_threads p ! i))"
  "wk_down (system_at i p) = wk_down (th_system (wh_threads p ! i))"
  "wk_now (system_at i p) = wk_now (th_system (wh_threads p ! i))"
  "future_at (system_at i p) j = future_at (th_system (wh_threads p ! i)) j"
  by (simp_all add: system_at_def future_at_def)

lemma whole_inv_new:
  fixes R :: "'r reader_ops"
  shows "whole_inv R cq config (whole_new config p d :: ('r, 'w, 'p, 'd) whole_server)"
proof -
  let ?p = "whole_new config p d :: ('r, 'w, 'p, 'd) whole_server"
  have "server_view ?p = server_new config"
    by (simp add: server_view_def whole_new_def server_new_def runner_new_def thread_new_def thread_view_def worker_new_def
        system_new_def Let_def)
  then have "serves_as R config (server_view ?p)" using serves_new by (metis agrees_refl serves_as_def)
  moreover have "system_inv cq config metrics_new (th_system t) \<and> wk_down (th_system t) = wh_down ?p"
    if "t \<in> set (wh_threads ?p)" for t
  proof -
    have "t = thread_new p d" using that by (simp add: whole_new_def)
    then show ?thesis using system_inv_new [of cq config metrics_new 0 False p d]
      by (simp add: thread_new_def whole_new_def) (simp add: system_new_def)
  qed
  ultimately show ?thesis by (simp add: whole_inv_def)
qed

subsection \<open>A turn of the front\<close>

text \<open>It leaves the replays and the futures of every worker as they are.\<close>

definition same_work :: "('r, 'w) replay_runner \<Rightarrow> ('r, 'w) replay_runner \<Rightarrow> bool" where
  "same_work r r' \<longleftrightarrow> list_all2 (\<lambda>w w'. wt_replays w' = wt_replays w \<and> wt_running w' = wt_running w)
     (replay_workers r) (replay_workers r')"

lemma same_work_refl [simp]: "same_work r r"
  by (simp add: same_work_def list_all2_refl)

lemma same_work_update:
  assumes "wt_replays w = wt_replays (replay_workers r ! i)" "wt_running w = wt_running (replay_workers r ! i)"
    and "replay_workers r' = (replay_workers r)[i := w]"
  shows "same_work r r'"
proof -
  have "wt_replays ((replay_workers r)[i := w] ! j) = wt_replays (replay_workers r ! j)
      \<and> wt_running ((replay_workers r)[i := w] ! j) = wt_running (replay_workers r ! j)"
    if "j < length (replay_workers r)" for j
    using assms(1,2) that by (cases "i = j") simp_all
  then show ?thesis using assms(3) by (simp add: same_work_def list_all2_conv_all_nth)
qed

lemma close_worker_work: "same_work r (close_worker i r)"
proof (cases "i < length (replay_workers r)")
  case True
  then show ?thesis
    by (intro same_work_update [of "(replay_workers r ! i)\<lparr>wt_open := False\<rparr>" r i]) (simp_all add: close_worker_def)
qed (simp add: close_worker_def)

lemma close_joined_work: "same_work r (close_worker i (r\<lparr>rn_joined := j\<rparr>))"
  using close_worker_work [of "r\<lparr>rn_joined := j\<rparr>" i] by (simp add: same_work_def)

lemma dispatch_work: "dispatch_connection r c = Some r' \<Longrightarrow> same_work r r'"
proof -
  assume "dispatch_connection r c = Some r'"
  then obtain k w where "worker_dispatch (replay_workers r ! k) c = Some w" "r' = r\<lparr>replay_workers := (replay_workers r)[k := w]\<rparr>"
    by (auto simp: dispatch_connection_def bind_eq_Some_conv)
  then show ?thesis by (intro same_work_update [of w r k]) (auto simp: worker_dispatch_def split: if_splits)
qed

lemma header_ready_runner:
  assumes "header_ready R config first now arrival i s = Some s'"
  shows "sv_runner s' = sv_runner s"
proof -
  obtain u res c M where "read_initial_header R first now arrival (connection_accept_timeout_s (server config))
      (snd (sv_futures s ! i)) (sv_metrics s) = Some (u, res, c, M)"
    using read_header_uniform [of R first now arrival "connection_accept_timeout_s (server config)" "snd (sv_futures s ! i)"] by blast
  then show ?thesis using assms by (cases res) (auto simp: header_ready_def split: if_splits)
qed

lemma front_work:
  assumes step: "server_step R config ev s = Some s'" and ev: "of_front ev"
  shows "same_work (sv_runner s) (sv_runner s')"
proof (cases ev)
  case (HeaderReady first now arrival i)
  then have "sv_runner s' = sv_runner s" using step header_ready_runner by simp
  then show ?thesis by simp
next
  case (WorkerExits i)
  then obtain w where "thread_exits (replay_workers (sv_runner s) ! i) = Some w"
    "sv_runner s' = (sv_runner s)\<lparr>replay_workers := (replay_workers (sv_runner s))[i := w]\<rparr>"
    using step by (auto simp: on_worker_def with_worker_def)
  then show ?thesis by (intro same_work_update [of w _ i]) (auto simp: thread_exits_def split: if_splits)
next
  case Joins
  then obtain n where "sv_runner s' = close_worker (Suc n) ((sv_runner s)\<lparr>rn_joined := Some (Suc n)\<rparr>)"
    using step by (auto simp: runner_join_def split: option.splits if_splits)
  then show ?thesis using close_joined_work by simp
qed (use step ev dispatch_work close_joined_work in
  \<open>auto simp: accepts_def new_from_def Let_def sends_def stream_ends_def cancels_def runner_shutdown_def\<close>)

lemma front_view:
  assumes "f (server_view p) = Some s'" and "same_work (sv_runner (server_view p)) (sv_runner s')"
  shows "\<exists>p'. front f p = Some p' \<and> server_view p' = s' \<and> map th_system (wh_threads p') = map th_system (wh_threads p)
    \<and> wh_down p' = wh_down p \<and> wh_db p' = wh_db p \<and> wh_disk p' = wh_disk p"
proof -
  let ?put = "\<lambda>t w. t\<lparr>th_channel := wt_channel w, th_open := wt_open w, th_exited := wt_exited w\<rparr>"
  let ?ws = "replay_workers (sv_runner s')"
  let ?ts = "map2 ?put (wh_threads p) ?ws"
  have work: "length ?ws = length (wh_threads p)"
    "\<And>i. i < length ?ws \<Longrightarrow> wt_replays (?ws ! i) = wk_replays (th_system (wh_threads p ! i))
      \<and> wt_running (?ws ! i) = running_of (wk_futures (th_system (wh_threads p ! i)))"
    using assms(2) by (auto simp: same_work_def server_view_def thread_view_def list_all2_conv_all_nth)
  have "map thread_view ?ts = ?ws"
    using work by (intro nth_equalityI) (auto simp: thread_view_def)
  moreover have "map th_system ?ts = map th_system (wh_threads p)"
    using work(1) by (intro nth_equalityI) auto
  ultimately show ?thesis using assms(1) by (simp add: front_def server_view_def)
qed

lemma front_inv:
  assumes inv: "whole_inv R cq config p" and n: "0 < worker_threads (server config)"
    and en: "of_front ev" "can_happen (server_view p) ev"
  shows "\<exists>p' s'. front (server_step R config ev) p = Some p' \<and> whole_inv R cq config p'
    \<and> server_step R config ev (server_view p) = Some s' \<and> server_view p' = s'
    \<and> map th_system (wh_threads p') = map th_system (wh_threads p) \<and> wh_down p' = wh_down p
    \<and> wh_db p' = wh_db p \<and> wh_disk p' = wh_disk p"
proof -
  note S = whole_invD(1) [OF inv]
  obtain s' where s': "server_step R config ev (server_view p) = Some s'"
    using server_step_inv [OF serves_as_inv [OF S n] n en(2)] by blast
  from front_view [where f = "server_step R config ev", OF s' front_work [OF s' en(1)]]
  obtain p' where p': "front (server_step R config ev) p = Some p'" "server_view p' = s'"
    "map th_system (wh_threads p') = map th_system (wh_threads p)" "wh_down p' = wh_down p"
    "wh_db p' = wh_db p" "wh_disk p' = wh_disk p" by blast
  have "system_inv cq config metrics_new (th_system t) \<and> wk_down (th_system t) = wh_down p'"
    if "t \<in> set (wh_threads p')" for t
  proof -
    have "th_system t \<in> set (map th_system (wh_threads p))" using that p'(3) by (metis image_eqI list.set_map)
    then show ?thesis using inv p'(4) by (auto simp: whole_inv_def)
  qed
  then have "whole_inv R cq config p'" using serves_as_step [OF S en(2) s'] p'(2) by (simp add: whole_inv_def)
  then show ?thesis using p' s' by blast
qed

subsection \<open>A turn of a worker\<close>

lemma on_system_view:
  assumes i: "i < length (wh_threads p)" and f: "f (system_at i p) = Some s'"
  shows "on_system i f p = Some (p\<lparr>wh_threads := (wh_threads p)[i := (wh_threads p ! i)\<lparr>th_system := s'\<rparr>],
      wh_metrics := wk_metrics s', wh_db := wk_db s', wh_disk := wk_disk s'\<rparr>)"
  using f by (simp add: on_system_def)

lemma turn_serves:
  assumes S: "serves_as R config (server_view p)" and i: "i < length (wh_threads p)" and t: "turns_to (system_at i p) s'"
    and p': "p' = p\<lparr>wh_threads := (wh_threads p)[i := (wh_threads p ! i)\<lparr>th_system := s'\<rparr>],
      wh_metrics := wk_metrics s', wh_db := d', wh_disk := e'\<rparr>"
  shows "serves_as R config (server_view p')"
proof -
  let ?t = "(wh_threads p ! i)\<lparr>th_system := s'\<rparr>"
  have view: "server_view p' = (server_view p)\<lparr>sv_runner := (sv_runner (server_view p))\<lparr>replay_workers :=
      (replay_workers (sv_runner (server_view p)))[i := thread_view ?t]\<rparr>, sv_metrics := wk_metrics s'\<rparr>"
    by (simp add: p' server_view_def map_update)
  show ?thesis
  proof (cases "quiet (system_at i p) s'")
    case True
    then have "thread_view ?t = map thread_view (wh_threads p) ! i"
      using i by (simp add: quiet_def thread_view_def)
    then have "agrees (server_view p') (server_view p)"
      using True i same_conns_sym map_update [of thread_view "wh_threads p" i "wh_threads p ! i"]
      by (simp add: view agrees_def quiet_def) (simp add: server_view_def)
    then show ?thesis by (rule serves_as_agrees [OF S])
  next
    case False
    then obtain e N where e: "\<forall>c. e \<noteq> Received c" "same_conns (wh_metrics p) N"
      "worker_step e ((worker_of (system_at i p))\<lparr>ws_metrics := N\<rparr>) = Some (worker_of s')"
      using t by (auto simp: turns_to_def simp del: worker_step.simps)
    let ?s = "(server_view p)\<lparr>sv_metrics := N\<rparr>"
    have "agrees ?s (server_view p)" using e(2) same_conns_sym by (simp add: agrees_def server_view_def)
    then have S': "serves_as R config ?s" by (rule serves_as_agrees [OF S])
    have w: "worker_at i ?s = thread_view (wh_threads p ! i)" using i by (simp add: worker_at_def server_view_def)
    have v: "worker_view (thread_view (wh_threads p ! i)) N = (worker_of (system_at i p))\<lparr>ws_metrics := N\<rparr>"
      by (simp add: worker_view_def thread_view_def worker_of_def)
    have "thread_turn e (worker_at i ?s) N = Some (thread_view ?t, wk_metrics s')"
      unfolding thread_turn_def w v e(3) by (simp add: worker_of_def thread_view_def)
    then have step: "server_step R config (WorkerTurn i e) ?s = Some (server_view p')"
      by (simp add: on_worker_def with_worker_def worker_at_def view)
    have "can_happen ?s (WorkerTurn i e)"
    proof (cases e)
      case (LifetimeDone k)
      then show ?thesis using e(3) i w by (auto simp: server_view_def thread_view_def worker_of_def split: if_splits)
    next
      case (ConnectionDone c k res)
      then show ?thesis using e(3) i w by (auto simp: server_view_def thread_view_def worker_of_def split: if_splits)
    qed (use e(1) in simp)
    then show ?thesis using serves_as_step [OF S' _ step] by blast
  qed
qed

lemma system_step_down:
  fixes s :: "('r, 'w, 'p, 'd) worker_system" and ev :: "('r, 'w) system_event"
  assumes step: "system_step cq its config W saver ev s = Some s'" and w: "of_worker ev"
  shows "wk_down s' = wk_down s"
proof -
  have turn: "wk_down t' = wk_down t" if "game_turn cq its k e t = Some t'"
    for t t' :: "('r, 'w, 'p, 'd) worker_system" and k and e :: "('r, 'w) replay_event"
    using that by (auto simp: game_turn_def bind_eq_Some_conv)
  have "wk_down s' = wk_down s" if "begins cq its i c k s = Some s'" for i c k
    using that by (auto simp: begins_def bind_eq_Some_conv Let_def split: option.splits)
  moreover have "wk_down s' = wk_down s" if "saves cq its W saver k s = Some s'" for k
    using that by (auto simp: saves_def bind_eq_Some_conv Let_def dest: turn split: prod.split_asm)
  ultimately show ?thesis using step w turn
    by (cases ev) (auto simp: lifetime_ends_def time_passes_def split: option.splits future.splits phase.splits)
qed

lemma on_system_inv:
  assumes inv: "whole_inv R cq config p" and i: "i < length (wh_threads p)" and f: "f (system_at i p) = Some s'"
    and s': "turns_to (system_at i p) s'" "system_inv cq config metrics_new s'" "wk_down s' = wk_down (system_at i p)"
  shows "\<exists>p'. on_system i f p = Some p' \<and> whole_inv R cq config p'"
proof -
  let ?p = "p\<lparr>wh_threads := (wh_threads p)[i := (wh_threads p ! i)\<lparr>th_system := s'\<rparr>],
      wh_metrics := wk_metrics s', wh_db := wk_db s', wh_disk := wk_disk s'\<rparr>"
  have "system_inv cq config metrics_new (th_system t) \<and> wk_down (th_system t) = wh_down ?p" if "t \<in> set (wh_threads ?p)" for t
  proof -
    have "t = (wh_threads p ! i)\<lparr>th_system := s'\<rparr> \<or> t \<in> set (wh_threads p)"
      using that set_update_subset_insert [of "wh_threads p" i] by auto
    then show ?thesis using inv s'(2,3) whole_invD(3) [OF inv i] by (auto simp: whole_inv_def)
  qed
  then have "whole_inv R cq config ?p"
    using turn_serves [OF whole_invD(1) [OF inv] i s'(1) refl] by (simp add: whole_inv_def)
  then show ?thesis using on_system_view [where f = f, OF i f] by blast
qed

lemma takes_inv:
  assumes inv: "whole_inv R cq config p" and n: "0 < worker_threads (server config)"
    and i: "i < length (wh_threads p)" "th_channel (wh_threads p ! i) = c # cs"
  shows "\<exists>p' s'. takes config i p = Some p' \<and> whole_inv R cq config p' \<and> receives config c (system_at i p) = Some s'
    \<and> keeps (system_at i p) s'
    \<and> p' = p\<lparr>wh_threads := (wh_threads p)[i := (wh_threads p ! i)\<lparr>th_channel := cs, th_system := s'\<rparr>],
        wh_metrics := wk_metrics s', wh_db := wk_db s', wh_disk := wk_disk s'\<rparr>"
proof -
  note S = whole_invD(1) [OF inv]
  have sv: "i < length (replay_workers (sv_runner (server_view p)))" "worker_at i (server_view p) = thread_view (wh_threads p ! i)"
    using i(1) by (simp_all add: server_view_def worker_at_def)
  have "worker_inv (worker_threads (server config)) i (thread_view (wh_threads p ! i))"
    using server_inv_workerD [OF serves_as_inv [OF S n] sv(1)] sv(2) by simp
  then have "get_header c \<noteq> None" using i(2) by (auto simp: worker_inv_def thread_view_def)
  from receives_inv [OF system_at_inv [OF inv i(1)] this] obtain s' where s': "receives config c (system_at i p) = Some s'"
    "system_inv cq config metrics_new s'" "keeps (system_at i p) s'" by blast
  let ?t = "(wh_threads p ! i)\<lparr>th_channel := cs, th_system := s'\<rparr>"
  let ?p = "p\<lparr>wh_threads := (wh_threads p)[i := ?t],
      wh_metrics := wk_metrics s', wh_db := wk_db s', wh_disk := wk_disk s'\<rparr>"
  have sys: "system_at i (p\<lparr>wh_threads := (wh_threads p)[i := (wh_threads p ! i)\<lparr>th_channel := cs\<rparr>]\<rparr>) = system_at i p"
    using i(1) by (simp add: system_at_def)
  have p': "takes config i p = Some ?p"
    unfolding takes_def i(2) list.case on_system_def sys s'(1) using i(1) by simp
  have down: "wk_down s' = wk_down (system_at i p)"
    using s'(1) by (auto simp: receives_def bind_eq_Some_conv Let_def)
  have v: "worker_view (thread_view ((wh_threads p ! i)\<lparr>th_channel := cs\<rparr>)) (wh_metrics p) = worker_of (system_at i p)"
    by (simp add: worker_view_def thread_view_def worker_of_def)
  have w: "(thread_view (wh_threads p ! i))\<lparr>wt_channel := cs\<rparr> = thread_view ((wh_threads p ! i)\<lparr>th_channel := cs\<rparr>)"
    "wt_channel (thread_view (wh_threads p ! i)) = c # cs"
    using i(2) by (simp_all add: thread_view_def)
  have "thread_turn (Received c) (thread_view ((wh_threads p ! i)\<lparr>th_channel := cs\<rparr>)) (wh_metrics p) = Some (thread_view ?t, wk_metrics s')"
    unfolding thread_turn_def v receives_worker [OF s'(1)] by (simp add: worker_of_def thread_view_def)
  then have "thread_receives (thread_view (wh_threads p ! i)) (wh_metrics p) = Some (thread_view ?t, wk_metrics s')"
    by (simp add: thread_receives_def w)
  then have "server_step R config (WorkerReceives i) (server_view p) = Some (server_view ?p)"
    using i(1) by (simp add: on_worker_def with_worker_def server_view_def map_update)
  moreover have "can_happen (server_view p) (WorkerReceives i)" using sv w(2) by simp
  ultimately have S': "serves_as R config (server_view ?p)" using serves_as_step [OF S] by blast
  have "system_inv cq config metrics_new (th_system t) \<and> wk_down (th_system t) = wh_down ?p" if "t \<in> set (wh_threads ?p)" for t
  proof -
    have "t = ?t \<or> t \<in> set (wh_threads p)"
      using that set_update_subset_insert [of "wh_threads p" i] by auto
    then show ?thesis using inv s'(2) down whole_invD(3) [OF inv i(1)] by (auto simp: whole_inv_def)
  qed
  then have "whole_inv R cq config ?p" using S' by (simp add: whole_inv_def)
  then show ?thesis using p' s' by blast
qed

lemma signal_inv:
  fixes p :: "('r, 'w, 'p, 'd) whole_server" and its :: "nat \<Rightarrow> nat \<Rightarrow> iteration"
  assumes ok: "config_ok cq config" and inv: "whole_inv R cq config p" and ords: "\<forall>n. orders_ok (its n)"
  shows "whole_inv R cq config (signal p)"
proof -
  have "map thread_view (map (\<lambda>t. t\<lparr>th_system := shuts_down (th_system t)\<rparr>) (wh_threads p)) = map thread_view (wh_threads p)"
    by (simp add: thread_view_def shuts_down_def)
  then have "server_view (signal p) = server_view p" by (simp add: server_view_def signal_def)
  then show ?thesis using inv shuts_down_inv [OF ok _ ords]
    by (auto simp: whole_inv_def signal_def) (simp add: shuts_down_def)
qed

end
