(* ===== verification/Whole_Promises.thy ===== *)
theory Whole_Promises
  imports Whole_Facts
begin

text \<open>
  The properties of the program as a whole: it does not panic, it is made of its parts, every game that it counts as
  saved has its complete file, whichever worker saved it.
\<close>

subsection \<open>What was saved\<close>

definition saved_ids :: "('r, 'w, 'p, 'd) thread \<Rightarrow> nat list" where
  "saved_ids t = map (replay_id (wk_replays (th_system t))) (wk_saved (th_system t))"

definition whole_saved ::
  "('p, 't, 'e, 'd, 'f, 'z) outside_world \<Rightarrow> inner_replay_saver \<Rightarrow> ('d \<Rightarrow> string \<rightharpoonup> byte list) \<Rightarrow>
   (int \<Rightarrow> byte list \<Rightarrow> byte list) \<Rightarrow> 'd \<Rightarrow> ('r, 'w, 'p, 'd) whole_server \<Rightarrow> bool" where
  "whole_saved W saver files compress d0 p \<longleftrightarrow>
     SAVED_REPLAYS (wh_metrics p) = length (concat (map saved_ids (wh_threads p))) \<and>
     (\<forall>q x. files d0 q = Some x \<longrightarrow> files (wh_disk p) q = Some x) \<and>
     distinct (concat (map saved_ids (wh_threads p))) \<and>
     (\<forall>t \<in> set (wh_threads p). \<forall>k \<in> set (wk_saved (th_system t)).
        game_saved W saver files compress d0 (wh_disk p) (th_system t) k)"

lemma whole_savedD:
  assumes "whole_saved W saver files compress d0 p"
  shows "SAVED_REPLAYS (wh_metrics p) = length (concat (map saved_ids (wh_threads p)))"
    "files d0 q = Some x \<Longrightarrow> files (wh_disk p) q = Some x"
    "distinct (concat (map saved_ids (wh_threads p)))"
    "t \<in> set (wh_threads p) \<Longrightarrow> k \<in> set (wk_saved (th_system t)) \<Longrightarrow>
      game_saved W saver files compress d0 (wh_disk p) (th_system t) k"
  using assms unfolding whole_saved_def by blast+

text \<open>It depends on the games, on their numbers and on the disk.\<close>

lemma game_saved_cong:
  assumes "game_saved W saver files compress d0 d s k" and "wk_games s' = wk_games s" "wk_replays s' = wk_replays s"
    and "\<And>q x. files d q = Some x \<Longrightarrow> files d' q = Some x"
  shows "game_saved W saver files compress d0 d' s' k"
proof -
  obtain g c x p p' where "wk_games s k = Some g" "merged_over (rp_lifetime (w_replay g))"
    "canonical (rp_merger (w_replay g)) = Some c"
    "files d0 (replay_file (save_dir saver) (replay_id (wk_replays s) k)) = None"
    "files d (replay_file (save_dir saver) (replay_id (wk_replays s) k)) = Some x"
    "saved_as W saver (replay_id (wk_replays s) k) compress (visible_bytes c) p p' x"
    using assms(1) unfolding game_saved_def by (elim exE conjE) (rule that)
  then show ?thesis using assms(2-4) unfolding game_saved_def
    by (intro exI [of _ g] exI [of _ c] exI [of _ x] exI [of _ p] exI [of _ p']) simp
qed

lemma concat_update:
  "i < length xs \<Longrightarrow> length (concat (xs[i := xs ! i @ [x]])) = Suc (length (concat xs))"
  "i < length xs \<Longrightarrow> distinct (concat xs) \<Longrightarrow> x \<notin> set (concat xs) \<Longrightarrow> distinct (concat (xs[i := xs ! i @ [x]]))"
proof (induction xs arbitrary: i)
  case (Cons y ys)
  { case 1 then show ?case using Cons.IH(1) by (cases i) auto }
  { case 2
    show ?case
    proof (cases i)
      case (Suc j)
      then have j: "j < length ys" using 2 by simp
      have "set (concat (ys[j := ys ! j @ [x]])) \<subseteq> insert x (set (concat ys))"
        using set_update_subset_insert [of ys j "ys ! j @ [x]"] nth_mem [OF j] by fastforce
      then show ?thesis using Suc 2 j Cons.IH(2) [of j] by auto
    qed (use 2 in auto)
  }
qed simp_all

text \<open>A turn that keeps what was saved, and one that saves a game.\<close>

lemma whole_saved_keeps:
  assumes saved: "whole_saved W saver files compress d0 p" and i: "i < length (wh_threads p)"
    and k: "keeps (system_at i p) s'" and t: "th_system t = s'"
    and p': "wh_threads p' = (wh_threads p)[i := t]" "wh_disk p' = wk_disk s'" "wh_metrics p' = wk_metrics s'"
  shows "whole_saved W saver files compress d0 p'"
proof -
  note D = whole_savedD [OF saved]
  let ?t = "wh_threads p ! i"
  have disk: "wh_disk p' = wh_disk p" using k p'(2) by (simp add: keeps_def)
  have same: "wk_saved s' = wk_saved (th_system ?t)" using k by (simp add: keeps_def)
  have old: "game_saved W saver files compress d0 (wh_disk p) (system_at i p) j" if "j \<in> set (wk_saved (th_system ?t))" for j
    by (rule game_saved_cong [OF D(4) [OF nth_mem [OF i] that]]) simp_all
  have new: "game_saved W saver files compress d0 (wh_disk p') s' j"
    "replay_id (wk_replays s') j = replay_id (wk_replays (th_system ?t)) j" if "j \<in> set (wk_saved (th_system ?t))" for j
    using game_saved_keeps [OF old [OF that] k, of "wh_disk p'"] disk by simp_all
  have "saved_ids t = saved_ids ?t" using new(2) t same by (simp add: saved_ids_def)
  then have ids: "map saved_ids (wh_threads p') = map saved_ids (wh_threads p)"
    using i by (simp add: p'(1) map_update list_update_same_conv)
  have "game_saved W saver files compress d0 (wh_disk p') (th_system u) j"
    if "u \<in> set (wh_threads p')" "j \<in> set (wk_saved (th_system u))" for u j
  proof (cases "u = t")
    case True
    then show ?thesis using that new(1) t same by simp
  next
    case False
    then have "u \<in> set (wh_threads p)" using that(1) p'(1) set_update_subset_insert [of "wh_threads p" i t] by auto
    then show ?thesis using D(4) that(2) disk by simp
  qed
  moreover have "SAVED_REPLAYS (wh_metrics p') = SAVED_REPLAYS (wh_metrics p)" using k p'(3) by (simp add: keeps_def)
  ultimately show ?thesis using D(1-3) unfolding whole_saved_def ids disk by simp
qed

lemma whole_saved_one:
  assumes saved: "whole_saved W saver files compress d0 p" and i: "i < length (wh_threads p)"
    and g: "wk_games (system_at i p) k = Some g" "merged_over (rp_lifetime (w_replay g))"
    and rid: "rp_id (w_replay g) = replay_id (wk_replays (system_at i p)) k"
    and s1: "wk_games s1 = wk_games (system_at i p)" "wk_replays s1 = wk_replays (system_at i p)"
      "saves_one W saver files compress k g (system_at i p) s1"
  shows "whole_saved W saver files compress d0
    (p\<lparr>wh_threads := (wh_threads p)[i := (wh_threads p ! i)\<lparr>th_system := s1\<rparr>], wh_metrics := wk_metrics s1,
       wh_db := wk_db s1, wh_disk := wk_disk s1\<rparr>)" (is "whole_saved _ _ _ _ _ ?p")
proof -
  note D = whole_savedD [OF saved]
  let ?t = "wh_threads p ! i"
  let ?rid = "replay_id (wk_replays (th_system ?t)) k"
  have disk: "\<And>q x. files (wh_disk p) q = Some x \<Longrightarrow> files (wk_disk s1) q = Some x"
    using s1(3) by (simp add: saves_one_def)
  have old: "game_saved W saver files compress d0 (wk_disk s1) (th_system u) j"
    if "u \<in> set (wh_threads p)" "j \<in> set (wk_saved (th_system u))" for u j
    using game_saved_cong [OF D(4) [OF that] refl refl] disk by blast
  have old1: "game_saved W saver files compress d0 (wk_disk s1) s1 j" if "j \<in> set (wk_saved (th_system ?t))" for j
    using game_saved_cong [OF old [OF nth_mem [OF i] that], of s1] s1(1,2) by simp
  have others: "u = ?t\<lparr>th_system := s1\<rparr> \<or> u \<in> set (wh_threads p)" if "u \<in> set (wh_threads ?p)" for u
    using that set_update_subset_insert [of "wh_threads p" i] by auto
  have d0: "\<And>q x. files d0 q = Some x \<Longrightarrow> files (wk_disk (system_at i p)) q = Some x" using D(2) by simp
  show ?thesis
  proof (rule saves_one_cases [OF s1(3) g rid s1(1,2) d0])
    assume none: "wk_saved s1 = wk_saved (system_at i p)" "SAVED_REPLAYS (wk_metrics s1) = SAVED_REPLAYS (wk_metrics (system_at i p))"
    then have "map saved_ids (wh_threads ?p) = map saved_ids (wh_threads p)"
      using i s1(2) by (simp add: map_update list_update_same_conv saved_ids_def)
    then show ?thesis using D(1-3) disk none old old1 others unfolding whole_saved_def by fastforce
  next
    assume new: "wk_saved s1 = wk_saved (system_at i p) @ [k]"
      "SAVED_REPLAYS (wk_metrics s1) = SAVED_REPLAYS (wk_metrics (system_at i p)) + 1"
      "game_saved W saver files compress d0 (wk_disk s1) s1 k"
      "files (wk_disk (system_at i p)) (replay_file (save_dir saver) (replay_id (wk_replays (system_at i p)) k)) = None"
    let ?ids = "map saved_ids (wh_threads p)"
    have ids: "map saved_ids (wh_threads ?p) = ?ids[i := ?ids ! i @ [?rid]]"
      using i new(1) s1(2) by (simp add: map_update saved_ids_def)
    have "?rid \<notin> set (concat ?ids)"
    proof
      assume "?rid \<in> set (concat ?ids)"
      then obtain u j where u: "u \<in> set (wh_threads p)" "j \<in> set (wk_saved (th_system u))"
        "replay_id (wk_replays (th_system u)) j = ?rid"
        by (auto simp: saved_ids_def)
      then show False using game_saved_file [OF D(4) [OF u(1,2)]] new(4) by simp
    qed
    then have "distinct (concat (map saved_ids (wh_threads ?p)))"
      "length (concat (map saved_ids (wh_threads ?p))) = Suc (length (concat ?ids))"
      unfolding ids using concat_update [of i ?ids ?rid] i D(3) by simp_all
    moreover have "game_saved W saver files compress d0 (wh_disk ?p) (th_system u) j"
      if "u \<in> set (wh_threads ?p)" "j \<in> set (wk_saved (th_system u))" for u j
      using others [OF that(1)] that(2) new(1,3) old old1 by auto
    ultimately show ?thesis using D(1,2) disk new(2) unfolding whole_saved_def by auto
  qed
qed

subsection \<open>Every step returns\<close>

text \<open>The front saves nothing.\<close>

lemma saved_metric_conns [simp]:
  "SAVED_REPLAYS (set_metric c M) = SAVED_REPLAYS M" "SAVED_REPLAYS (reset_metric c M) = SAVED_REPLAYS M"
  "SAVED_REPLAYS (fold (\<lambda>(_, c). conn_drop c) fs M) = SAVED_REPLAYS M"
proof -
  show "SAVED_REPLAYS (fold (\<lambda>(_, c). conn_drop c) fs M) = SAVED_REPLAYS M"
    by (induction fs arbitrary: M) (simp_all add: case_prod_beta)
qed (simp_all add: set_metric_def reset_metric_def)

lemma server_step_saved:
  assumes step: "server_step R config ev s = Some s'" and ev: "of_front ev"
  shows "SAVED_REPLAYS (sv_metrics s') = SAVED_REPLAYS (sv_metrics s)"
proof (cases ev)
  case (HeaderReady first now arrival i)
  obtain u res c M where "read_initial_header R first now arrival (connection_accept_timeout_s (server config))
      (snd (sv_futures s ! i)) (sv_metrics s) = Some (u, res, c, M)" "SAVED_REPLAYS M = SAVED_REPLAYS (sv_metrics s)"
    using read_header_uniform [of R first now arrival "connection_accept_timeout_s (server config)" "snd (sv_futures s ! i)"]
      saved_metric_conns by metis
  then show ?thesis using step HeaderReady by (cases res) (auto simp: header_ready_def split: if_splits)
next
  case (WorkerExits i)
  then show ?thesis using step by (auto simp: on_worker_def with_worker_def)
qed (use step ev in \<open>auto simp: accepts_def new_from_def Let_def sends_def stream_ends_def cancels_def\<close>)

lemma turns_inv:
  fixes p :: "('r, 'w, 'p, 'd) whole_server" and ev :: "('r, 'w) system_event"
  assumes ok: "config_ok cq config" and laws: "saver_laws W files compress" and inv: "whole_inv R cq config p"
    and ords: "\<forall>n. orders_ok (its n)" and en: "may_step p (Turns i ev)"
  shows "\<exists>p' s'. whole_step R cq its config W dir (Turns i ev) p = Some p' \<and> whole_inv R cq config p'
    \<and> (whole_saved W (new_inner dir config) files compress d0 p \<longrightarrow> whole_saved W (new_inner dir config) files compress d0 p')
    \<and> system_step cq its config W (new_inner dir config) ev (system_at i p) = Some s'
    \<and> p' = p\<lparr>wh_threads := (wh_threads p)[i := (wh_threads p ! i)\<lparr>th_system := s'\<rparr>],
        wh_metrics := wk_metrics s', wh_db := wk_db s', wh_disk := wk_disk s'\<rparr>"
proof -
  let ?saver = "new_inner dir config"
  have i: "i < length (wh_threads p)" "of_worker ev" "may_happen (system_at i p) ev" using en by simp_all
  note sinv = system_at_inv [OF inv i(1)]
  obtain s' where s': "system_step cq its config W ?saver ev (system_at i p) = Some s'" "system_inv cq config metrics_new s'"
    "advances W ?saver files compress (system_at i p) s'"
    using system_step_inv [OF ok sinv ords laws i(3), where saver = ?saver] by blast
  let ?p = "\<lambda>s. p\<lparr>wh_threads := (wh_threads p)[i := (wh_threads p ! i)\<lparr>th_system := s\<rparr>],
        wh_metrics := wk_metrics s, wh_db := wk_db s, wh_disk := wk_disk s\<rparr>"
  have step: "on_system i (system_step cq its config W ?saver ev) p = Some (?p s')"
    using on_system_view [where f = "system_step cq its config W ?saver ev", OF i(1) s'(1)] .
  have inv': "whole_inv R cq config (?p s')"
    using on_system_inv [where f = "system_step cq its config W ?saver ev", OF inv i(1) s'(1) system_step_turns [OF s'(1) i(2)] s'(2)
        system_step_down [OF s'(1) i(2)]] step by simp
  have "whole_saved W ?saver files compress d0 (?p s')" if saved: "whole_saved W ?saver files compress d0 p"
  proof (cases "keeps (system_at i p) s'")
    case True
    show ?thesis by (rule whole_saved_keeps [OF saved i(1) True]) simp_all
  next
    case False
    then obtain k g s1 where g: "wk_games (system_at i p) k = Some g" "rp_lifetime (w_replay g) = Saving" "keeps s1 s'"
      "wk_games s1 = wk_games (system_at i p)" "wk_replays s1 = wk_replays (system_at i p)"
      "saves_one W ?saver files compress k g (system_at i p) s1"
      using s'(3) unfolding advances_def by blast
    have over: "merged_over (rp_lifetime (w_replay g))" using g(2) by (simp add: merged_over_def)
    have rid: "rp_id (w_replay g) = replay_id (wk_replays (system_at i p)) k"
      using system_invD(3) [OF sinv g(1)] by (auto simp: game_fits_def)
    have "system_at i (?p s1) = s1" using i(1) by (simp add: system_at_def)
    then have k: "keeps (system_at i (?p s1)) s'" using g(3) by (simp only:)
    have one: "whole_saved W ?saver files compress d0 (?p s1)" by (rule whole_saved_one [OF saved i(1) g(1) over rid g(4-6)])
    have len: "i < length (wh_threads (?p s1))" using i(1) by simp
    show ?thesis
      by (rule whole_saved_keeps [OF one len k, of "(wh_threads p ! i)\<lparr>th_system := s'\<rparr>"]) (use i(1) in simp_all)
  qed
  then show ?thesis using step inv' s'(1) by auto
qed

lemma whole_step_inv:
  fixes p :: "('r, 'w, 'p, 'd) whole_server" and its :: "nat \<Rightarrow> nat \<Rightarrow> iteration"
  assumes ok: "config_ok cq config" and laws: "saver_laws W files compress" and n: "0 < worker_threads (server config)"
    and inv: "whole_inv R cq config p" and ords: "\<forall>n. orders_ok (its n)" and en: "may_step p ev"
  shows "\<exists>p'. whole_step R cq its config W dir ev p = Some p' \<and> whole_inv R cq config p'
    \<and> (whole_saved W (new_inner dir config) files compress d0 p \<longrightarrow> whole_saved W (new_inner dir config) files compress d0 p')"
proof (cases ev)
  case (Front e)
  then obtain p' s' where p': "front (server_step R config e) p = Some p'" "whole_inv R cq config p'"
    "server_step R config e (server_view p) = Some s'" "server_view p' = s'"
    "map th_system (wh_threads p') = map th_system (wh_threads p)" "wh_disk p' = wh_disk p"
    using front_inv [OF inv n, of e] en by auto
  have saved: "SAVED_REPLAYS (wh_metrics p') = SAVED_REPLAYS (wh_metrics p)"
    using server_step_saved [OF p'(3)] p'(4) en Front by (auto simp: server_view_def)
  have "wh_metrics p' = sv_metrics s'" using p'(4) by (auto simp: server_view_def)
  moreover have ids: "map saved_ids (wh_threads p') = map saved_ids (wh_threads p)"
  proof -
    have "map saved_ids ts = map (\<lambda>s. map (replay_id (wk_replays s)) (wk_saved s)) (map th_system ts)"
      for ts :: "('r, 'w, 'p, 'd) thread list" by (simp add: saved_ids_def)
    then show ?thesis using p'(5) by metis
  qed
  moreover have "th_system t \<in> th_system ` set (wh_threads p)" if "t \<in> set (wh_threads p')" for t
    using that p'(5) by (metis image_eqI list.set_map)
  ultimately have "whole_saved W (new_inner dir config) files compress d0 p'"
    if "whole_saved W (new_inner dir config) files compress d0 p"
    using whole_savedD [OF that] p'(6) saved unfolding whole_saved_def by fastforce
  then show ?thesis using Front p' by auto
next
  case (Takes i)
  then have i: "i < length (wh_threads p)" "th_channel (wh_threads p ! i) \<noteq> []" using en by simp_all
  then obtain c cs where c: "th_channel (wh_threads p ! i) = c # cs" by (cases "th_channel (wh_threads p ! i)") auto
  obtain p' s' where p': "takes config i p = Some p'" "whole_inv R cq config p'" "keeps (system_at i p) s'"
    "p' = p\<lparr>wh_threads := (wh_threads p)[i := (wh_threads p ! i)\<lparr>th_channel := cs, th_system := s'\<rparr>],
        wh_metrics := wk_metrics s', wh_db := wk_db s', wh_disk := wk_disk s'\<rparr>"
    using takes_inv [OF inv n i(1) c] by blast
  then show ?thesis
    using whole_saved_keeps [OF _ i(1) p'(3), of W "new_inner dir config" files compress d0
        "(wh_threads p ! i)\<lparr>th_channel := cs, th_system := s'\<rparr>" p'] Takes by simp
next
  case (Turns i e)
  then show ?thesis using turns_inv [OF ok laws inv ords, of i e dir d0] en by blast
next
  case Signal
  have "whole_saved W (new_inner dir config) files compress d0 (signal p)"
    if saved: "whole_saved W (new_inner dir config) files compress d0 p"
  proof -
    have k: "keeps (th_system t) (shuts_down (th_system t))" if "t \<in> set (wh_threads p)" for t
      using shuts_down_inv [OF ok _ ords] inv that by (auto simp: whole_inv_def)
    have "map saved_ids (wh_threads (signal p)) = map saved_ids (wh_threads p)"
      by (simp add: signal_def saved_ids_def shuts_down_def)
    moreover have "game_saved W (new_inner dir config) files compress d0 (wh_disk p) (th_system t) j"
      if t: "t \<in> set (wh_threads (signal p))" "j \<in> set (wk_saved (th_system t))" for t j
    proof -
      obtain u where u: "u \<in> set (wh_threads p)" "th_system t = shuts_down (th_system u)"
        using t(1) by (auto simp: signal_def)
      then have "j \<in> set (wk_saved (th_system u))" using t(2) by (simp add: shuts_down_def)
      from game_saved_keeps(1) [OF whole_savedD(4) [OF saved u(1) this] k [OF u(1)]] show ?thesis unfolding u(2) by blast
    qed
    moreover have "wh_disk (signal p) = wh_disk p" "wh_metrics (signal p) = wh_metrics p" by (simp_all add: signal_def)
    ultimately show ?thesis using whole_savedD(1-3) [OF saved] unfolding whole_saved_def by auto
  qed
  then show ?thesis using signal_inv [OF ok inv ords] Signal by simp
qed

lemma runs_inv:
  fixes s :: "('r, 'w, 'p, 'd) whole_server"
  assumes "runs R cq config W dir (whole_new config p d) s" "config_ok cq config" "saver_laws W files compress"
    "0 < worker_threads (server config)"
  shows "whole_inv R cq config s \<and> whole_saved W (new_inner dir config) files compress d s"
  using assms(1)
proof induction
  case runs_new
  let ?p = "whole_new config p d :: ('r, 'w, 'p, 'd) whole_server"
  have "wk_saved (th_system t) = []" "saved_ids t = []" if "t \<in> set (wh_threads ?p)" for t
  proof -
    have "t = thread_new p d" using that by (simp add: whole_new_def)
    then show "wk_saved (th_system t) = []" "saved_ids t = []" by (simp_all add: saved_ids_def thread_new_def system_new_def)
  qed
  moreover from this have none: "concat (map saved_ids (wh_threads ?p)) = []" by auto
  moreover have "SAVED_REPLAYS (wh_metrics ?p) = 0" "wh_disk ?p = d"
    by (simp_all add: whole_new_def metrics_new_def)
  ultimately show ?case unfolding whole_saved_def none by (simp add: whole_inv_new)
next
  case (runs_step s ev its s')
  then show ?case using whole_step_inv [OF assms(2-4) _ runs_step.hyps(3,2), where R = R and dir = dir and ?d0.0 = d] by fastforce
qed

subsection \<open>Runs over lists of events\<close>

definition whole_run ::
  "'r reader_ops \<Rightarrow> ceil_quotient \<Rightarrow> (nat \<Rightarrow> nat \<Rightarrow> iteration) \<Rightarrow> InnerSettings \<Rightarrow>
   ('p, 't, 'e, 'd, 'f, 'z) outside_world \<Rightarrow> saved_replay_directory \<Rightarrow> ('r, 'w) whole_event list \<Rightarrow>
   ('r, 'w, 'p, 'd) whole_server \<Rightarrow> ('r, 'w, 'p, 'd) whole_server option" where
  "whole_run R cq its config W dir evs p =
     foldM (\<lambda>ev p. do { assert_that (may_step p ev); whole_step R cq its config W dir ev p }) evs p"

lemma whole_run_simps:
  "whole_run R cq its config W dir [] p = Some p"
  "whole_run R cq its config W dir (ev # evs) p =
     (if may_step p ev then whole_step R cq its config W dir ev p \<bind> whole_run R cq its config W dir evs else None)"
  by (simp_all add: whole_run_def [abs_def] assert_that_def)

lemma whole_run_append:
  "whole_run R cq its config W dir (xs @ ys) p =
     whole_run R cq its config W dir xs p \<bind> whole_run R cq its config W dir ys"
proof (induction xs arbitrary: p)
  case (Cons x xs)
  then show ?case
    by (cases "whole_step R cq its config W dir x p") (simp_all add: whole_run_simps del: may_step.simps whole_step.simps)
qed (simp add: whole_run_simps)

lemma whole_run_runs:
  assumes "whole_run R cq its config W dir evs p = Some p'" "runs R cq config W dir p0 p" "\<forall>n. orders_ok (its n)"
  shows "runs R cq config W dir p0 p'"
  using assms(1,2)
proof (induction evs arbitrary: p)
  case Nil
  then show ?case by (simp add: whole_run_simps)
next
  case (Cons ev evs)
  then obtain t where t: "may_step p ev" "whole_step R cq its config W dir ev p = Some t"
    "whole_run R cq its config W dir evs t = Some p'"
    by (auto simp: whole_run_simps bind_eq_Some_conv simp del: may_step.simps whole_step.simps split: if_splits)
  from Cons.IH [OF t(3) runs_step [OF Cons.prems(2) t(1) assms(3) t(2)]] show ?case .
qed

text \<open>
  Two threads. A writer of the game 1 connects and sends a header and two bytes; its replay is in the second
  thread, which saves it a while after the writer has left.
\<close>

definition demo_whole :: InnerSettings where
  "demo_whole = (example_settings 2 2 1)\<lparr>replay := replay demo_config\<rparr>"

definition demo_player :: "(list_reader, unit) connection" where
  "demo_player = \<lparr>cn_reader = ([5], None), cn_writer = (),
     cn_header = Some \<lparr>ch_type = Writer, ch_id = 1, ch_name = [97]\<rparr>, cn_id = map (\<lambda>_. CHR ''x'') [0..<12]\<rparr>"

lemma demo_hello:
  "read_initial_header list_reader_ops True 0 (Some 3) (7200 * NANOS)
      \<lparr>cn_reader = ([80, 47, 49, 47, 97, 0, 5], None), cn_writer = (), cn_header = None, cn_id = i\<rparr> M
    = Some (3, Inr (), set_header \<lparr>cn_reader = ([5], None), cn_writer = (), cn_header = None, cn_id = i\<rparr>
        \<lparr>ch_type = Writer, ch_id = 1, ch_name = [97]\<rparr> M)"
proof -
  have "read_connection_header list_reader_ops ([80, 47, 49, 47, 97, 0, 5], None)
      = Inr (\<lparr>ch_type = Writer, ch_id = 1, ch_name = [97]\<rparr>, ([5], None))"
    by (simp add: read_connection_header_def read_type_def list_reader_ops_def clip_def read_game_data_def
        read_until_exact_def upto_def fails_at_def list_rest_def list_fate_def Let_def split_slash_def
        ok_or_def from_utf8_def parse_u64_def digit_def)
  then show ?thesis by (simp add: read_initial_header_def timeout_def until_def read_and_set_connection_header_def NANOS_def)
qed

definition demo_joins :: "(list_reader, unit) whole_event list" where
  "demo_joins =
     [Front (Accepts (\<lambda>_. CHR ''x'') ([80, 47, 49, 47, 97, 0, 5], None) ()), Front (HeaderReady True 0 (Some 3) 0),
      Front (Sends 0), Takes 1, Turns 1 (Lifetime 0 False), Turns 1 (Begins 1), Turns 1 (Feeds 1 (HeaderRead 0 [1])),
      Turns 1 (Feeds 1 (DataRead 0 [7, 8]))]"

definition demo_leaves :: "(list_reader, unit) whole_event list" where
  "demo_leaves =
     [Turns 1 (Ends 1), Turns 1 (Lifetime 0 False), Turns 1 (Lifetime 0 True), Turns 1 Ticks, Turns 1 (Lifetime 0 False),
      Turns 1 (Lifetime 0 False), Turns 1 (Lifetime 0 False), Turns 1 (Saves 0)]"

abbreviation demo_program :: "(list_reader, unit) whole_event list \<Rightarrow> (list_reader, unit, unit, mem_disk) whole_server option" where
  "demo_program evs \<equiv> whole_run list_reader_ops exact_quotient (\<lambda>_ _. ascending) demo_whole mem_world (directory_new ''/v'') evs
     (whole_new demo_whole () Map.empty)"

lemmas whole_eval =
  whole_run_simps whole_new_def thread_new_def demo_whole_def example_settings_def front_def takes_def on_system_def system_at_def
  server_view_def thread_view_def accepts_def new_from_def header_ready_def sends_def dispatch_connection_def worker_to_pick_def
  worker_dispatch_def can_send_def channel_capacity_def worker_at_def get_header_def set_header_def remove_at_def demo_config_def

lemma demo_joins_run:
  "\<exists>s. demo_program demo_joins = Some s \<and> future_at (th_system (wh_threads s ! 1)) 1 = Some (Handles demo_player 0 (Writing 0))
     \<and> length (wh_threads s) = 2"
  unfolding demo_joins_def
  by (simp add: two_workers whole_eval system_eval replay_eval eval_simps demo_hello demo_player_def Let_def cong: bind_weak option.case_cong_weak)

lemma demo_leaves_run:
  "\<exists>s. demo_program (demo_joins @ demo_leaves) = Some s \<and> wk_saved (th_system (wh_threads s ! 1)) = [0]
     \<and> replay_id (wk_replays (th_system (wh_threads s ! 1))) 0 = 1 \<and> length (wh_threads s) = 2"
  unfolding demo_joins_def demo_leaves_def
  by (simp add: two_workers saver_eval whole_eval system_eval replay_eval eval_simps demo_hello demo_player_def Let_def
      cong: bind_weak option.case_cong_weak)

lemma demo_whole_ok: "config_ok exact_quotient demo_whole" "0 < worker_threads (server demo_whole)"
  using demo_config_ok by (simp_all add: config_ok_def demo_whole_def example_settings_def)

lemma demo_runs:
  "demo_program evs = Some s \<Longrightarrow>
    runs list_reader_ops exact_quotient demo_whole mem_world (directory_new ''/v'') (whole_new demo_whole () Map.empty) s"
  using whole_run_runs [where its = "\<lambda>_ _. ascending", OF _ runs_new] ascending_orders by fastforce

subsection \<open>Properties\<close>

text \<open>
  C7: the program does not panic. Whatever clients connect, send and read, in whatever order the tasks of all
  threads run, whenever the signal to shut down comes, and whatever the database, the disk and the parser of
  ticks answer, every step of every task returns: the server with all of its worker threads does what
  each of its parts does on its own.
\<close>

theorem program_steps_return:
  fixes s :: "('r, 'w, 'p, 'd) whole_server"
  assumes "config_ok cq config" and "0 < worker_threads (server config)" and "saver_laws W files compress"
    and "runs R cq config W dir (whole_new config p d) s"
    and "may_step s ev" and "\<forall>n. orders_ok (its n)"
  shows "\<exists>s'. whole_step R cq its config W dir ev s = Some s'"
  using whole_step_inv [OF assms(1,3,2) _ assms(6,5), where R = R and dir = dir] runs_inv [OF assms(4,1,3,2)] by blast

theorem program_steps_return_witness:
  "\<exists>s s'. demo_program demo_joins = Some s
     \<and> whole_step list_reader_ops exact_quotient (\<lambda>_ _. ascending) demo_whole mem_world (directory_new ''/v'') (Turns 1 (Ends 1)) s = Some s'"
proof -
  obtain s where s: "demo_program demo_joins = Some s"
    "future_at (th_system (wh_threads s ! 1)) 1 = Some (Handles demo_player 0 (Writing 0))" "length (wh_threads s) = 2"
    using demo_joins_run by blast
  have ords: "\<forall>n::nat. orders_ok (\<lambda>_. ascending)" by (simp add: ascending_orders)
  have "may_step s (Turns 1 (Ends 1))" using s(2,3) by simp
  from program_steps_return [OF demo_whole_ok mem_world_laws demo_runs [OF s(1)] this ords] s(1) show ?thesis by blast
qed

text \<open>
  C9: the program is the sum of its parts. What the accept loop, the channels, the workers and the shutdown do to
  connections is a run of \<open>Server\<close>, with the same gauges and counters of connections; and every replay of every
  worker is, apart from the metrics that all threads share, a world that the turns of one replay alone reach. So what
  holds of the server and of every replay on its own holds in the program.
\<close>

theorem program_refines_parts:
  fixes s :: "('r, 'w, 'p, 'd) whole_server"
  assumes "config_ok cq config" and "0 < worker_threads (server config)" and "saver_laws W files compress"
    and "runs R cq config W dir (whole_new config p d) s"
  shows "(\<exists>M. serves R config ((server_view s)\<lparr>sv_metrics := M\<rparr>)
        \<and> ACTIVE_CONNS M = ACTIVE_CONNS (wh_metrics s) \<and> SERVED_CONNS M = SERVED_CONNS (wh_metrics s))
    \<and> (\<forall>t \<in> set (wh_threads s). \<forall>k g. wk_games (th_system t) k = Some g \<longrightarrow>
        (\<exists>shutdown now M w. \<exists>evs :: ('r, 'w) replay_event list.
           lives cq (world_new (replay_id (wk_replays (th_system t)) k) shutdown config now M) evs w
           \<and> g = w\<lparr>w_metrics := w_metrics g\<rparr>))"
proof (intro conjI ballI allI impI)
  have inv: "whole_inv R cq config s" using runs_inv [OF assms(4,1,3,2)] by blast
  obtain u where u: "serves R config u" "agrees (server_view s) u"
    using whole_invD(1) [OF inv] by (auto simp: serves_as_def)
  then have "u = (server_view s)\<lparr>sv_metrics := sv_metrics u\<rparr>" by (simp add: agrees_def)
  then have "serves R config ((server_view s)\<lparr>sv_metrics := sv_metrics u\<rparr>)" using u(1) by (rule subst)
  then show "\<exists>M. serves R config ((server_view s)\<lparr>sv_metrics := M\<rparr>)
      \<and> ACTIVE_CONNS M = ACTIVE_CONNS (wh_metrics s) \<and> SERVED_CONNS M = SERVED_CONNS (wh_metrics s)"
    using u(2) by (intro exI [of _ "sv_metrics u"]) (simp add: agrees_def same_conns_def server_view_def)
  fix t k g assume t: "t \<in> set (wh_threads s)" and g: "wk_games (th_system t) k = Some g"
  have "system_inv cq config metrics_new (th_system t)" using inv t by (simp add: whole_inv_def)
  from system_invD(3) [OF this g] obtain evs :: "('r, 'w) replay_event list" where
    "lives_as cq config (replay_id (wk_replays (th_system t)) k) evs g"
    by (auto simp: game_fits_def)
  then obtain sd now M w N where "lives cq (world_new (replay_id (wk_replays (th_system t)) k) sd config now M) evs w"
    "g = w\<lparr>w_metrics := N\<rparr>"
    unfolding lives_as_def by blast
  then show "\<exists>shutdown now M w. \<exists>evs :: ('r, 'w) replay_event list.
      lives cq (world_new (replay_id (wk_replays (th_system t)) k) shutdown config now M) evs w
      \<and> g = w\<lparr>w_metrics := w_metrics g\<rparr>"
    by (intro exI [of _ sd] exI [of _ now] exI [of _ M] exI [of _ w] exI [of _ evs]) simp
qed

theorem program_refines_parts_witness:
  "\<exists>s M. demo_program demo_joins = Some s \<and> serves list_reader_ops demo_whole ((server_view s)\<lparr>sv_metrics := M\<rparr>)
     \<and> ACTIVE_CONNS M = ACTIVE_CONNS (wh_metrics s)"
proof -
  obtain s where s: "demo_program demo_joins = Some s" using demo_joins_run by blast
  from program_refines_parts [OF demo_whole_ok mem_world_laws demo_runs [OF s]] s show ?thesis by blast
qed

text \<open>
  C8: every game that the program saved has its complete file. The metric of saved replays is the number
  of the games that the workers have saved, all of them different; no file that was on the disk is ever
  changed; and for each of these games the disk has a file that was not there at the start, with the header for the game on its
  first line, and then the encoding of the header and all the data of the merged replay, of which no writer that agrees with
  it as far as both go has sent more.
\<close>

theorem program_saves_games:
  fixes s :: "('r, 'w, 'p, 'd) whole_server"
  assumes "config_ok cq config" and "0 < worker_threads (server config)" and "saver_laws W files compress"
    and "runs R cq config W dir (whole_new config p d) s"
  shows "let ids = concat (map saved_ids (wh_threads s)) in
      SAVED_REPLAYS (wh_metrics s) = length ids \<and> distinct ids
    \<and> (\<forall>q x. files d q = Some x \<longrightarrow> files (wh_disk s) q = Some x)
    \<and> (\<forall>t \<in> set (wh_threads s). \<forall>k \<in> set (wk_saved (th_system t)).
        let file = replay_file dir (replay_id (wk_replays (th_system t)) k) in
        \<exists>g c jh js. wk_games (th_system t) k = Some g \<and> canonical (rp_merger (w_replay g)) = Some c \<and> to_json W jh = Inr js
          \<and> files d file = None
          \<and> files (wh_disk s) file = Some (file_contents compress (compression_level (storage config)) js (header_bytes c @ merged_bytes c))
          \<and> (\<forall>u. length (w_sent g u) \<le> length (merged_bytes c) \<or>
              (\<exists>p < min (length (w_sent g u)) (length (merged_bytes c)). w_sent g u ! p \<noteq> merged_bytes c ! p)))"
proof -
  have inv: "whole_inv R cq config s" and saved: "whole_saved W (new_inner dir config) files compress d s"
    using runs_inv [OF assms(4,1,3,2)] by blast+
  have sv: "save_dir (new_inner dir config) = dir" "saver_level (new_inner dir config) = compression_level (storage config)"
    by (simp_all add: new_inner_def)
  have "system_inv cq config metrics_new (th_system t)" if "t \<in> set (wh_threads s)" for t
    using inv that by (simp add: whole_inv_def)
  then show ?thesis
    using whole_savedD(1-3) [OF saved] game_saved_complete [OF assms(1) _ whole_savedD(4) [OF saved]] unfolding sv Let_def by blast
qed

theorem program_saves_games_witness:
  "\<exists>s x. demo_program (demo_joins @ demo_leaves) = Some s \<and> SAVED_REPLAYS (wh_metrics s) = length (concat (map saved_ids (wh_threads s)))
     \<and> wh_disk s (replay_file (directory_new ''/v'') 1) = Some x"
proof -
  obtain s where s: "demo_program (demo_joins @ demo_leaves) = Some s" "wk_saved (th_system (wh_threads s ! 1)) = [0]"
    "replay_id (wk_replays (th_system (wh_threads s ! 1))) 0 = 1" "length (wh_threads s) = 2"
    using demo_leaves_run by blast
  let ?t = "wh_threads s ! 1"
  have "?t \<in> set (wh_threads s)" "0 \<in> set (wk_saved (th_system ?t))" using s(2,4) by simp_all
  with program_saves_games [OF demo_whole_ok mem_world_laws demo_runs [OF s(1)], unfolded Let_def] s(3)
  have "SAVED_REPLAYS (wh_metrics s) = length (concat (map saved_ids (wh_threads s)))"
    "\<exists>x. wh_disk s (replay_file (directory_new ''/v'') 1) = Some x" by metis+
  with s(1) show ?thesis by blast
qed

end
