(* ===== verification/Worker_Drains.thy ===== *)
theory Worker_Drains
  imports Worker_Promises
begin

text \<open>
  A worker whose token is cancelled, and whose connections have gone, comes to its end: every turn of
  a lifetime that is not over brings it closer to that, whichever it is.
\<close>

subsection \<open>A wait without a timeout\<close>

text \<open>What holds of the wait of \<open>wait_until_empty\<close> while it goes on, and how far it is from its end.\<close>

definition fair_counter :: "empty_counter \<Rightarrow> bool" where
  "fair_counter c \<longleftrightarrow> watcher c \<le> ch_version (counter c) \<and> \<not> ch_closed (counter c)"

definition wakes :: "nat \<Rightarrow> empty_counter \<Rightarrow> waiter \<Rightarrow> bool" where
  "wakes now c x \<longleftrightarrow> wt_timeout x = 0 \<and> wt_watcher x \<le> ch_version (counter c) \<and>
     (case wt_phase x of
        NotStarted \<Rightarrow> True
      | Changing \<Rightarrow> wt_watcher x = ch_version (counter c) \<longrightarrow> ec_count c \<noteq> 0
      | Sleeping d \<Rightarrow> d \<le> now
      | Returned \<Rightarrow> False)"

definition wait_rank :: "empty_counter \<Rightarrow> waiter \<Rightarrow> nat" where
  "wait_rank c x =
     (case wt_phase x of
        NotStarted \<Rightarrow> 3
      | Changing \<Rightarrow> 2
      | Sleeping d \<Rightarrow> if wt_watcher x = ch_version (counter c) then 1 else 2
      | Returned \<Rightarrow> 0)"

lemma wait_rank_bounds: "wakes now c x \<Longrightarrow> 0 < wait_rank c x" "wait_rank c x \<le> 3"
  by (auto simp: wakes_def wait_rank_def split: wait_phase.splits)

lemma wakes_new:
  assumes "fair_counter c"
  shows "wakes now c (wait_until_empty c)" "wait_rank c (wait_until_empty c) = 3"
  using assms by (simp_all add: wakes_def wait_rank_def wait_until_empty_def wait_until_empty_for_def fair_counter_def)

lemma wakes_later: "wakes now c x \<Longrightarrow> now \<le> now' \<Longrightarrow> wakes now' c x"
  by (auto simp: wakes_def split: wait_phase.splits)

lemma fair_counter_send:
  assumes "ec_inc c = Some c' \<or> ec_dec c = Some c'" "fair_counter c"
  shows "fair_counter c'"
  using assms by (auto simp: fair_counter_def ec_inc_simp ec_dec_simp)

lemma wakes_send:
  assumes "ec_inc c = Some c' \<or> ec_dec c = Some c'" "wakes now c x"
  shows "wakes now c' x"
  using assms by (auto simp: wakes_def ec_inc_simp ec_dec_simp split: wait_phase.splits)

lemma wakes_poll:
  assumes "wakes now c x" "poll_wait first now c x = Inl y" "fair_counter c"
  shows "wakes now c y"
  using assms
  by (cases "wt_phase x"; cases first)
    (auto simp: wakes_def poll_wait_def wait_step_def await_new_count_def wait_head_def fair_counter_def ec_count_def
      split: if_splits)

lemma wakes_turn:
  assumes "wakes now c x" "fair_counter c" "ec_count c = 0"
  shows "poll_wait first now c x = Inr () \<or> (\<exists>y. poll_wait first now c x = Inl y \<and> wait_rank c y < wait_rank c x)"
  using assms
  by (cases "wt_phase x") (auto simp: wakes_def poll_wait_def wait_step_def await_new_count_def wait_head_def
      fair_counter_def wait_rank_def ec_count_def Let_def)

subsection \<open>The waits of a replay\<close>

definition lifetime_wakes :: "nat \<Rightarrow> game_replay \<Rightarrow> bool" where
  "lifetime_wakes now r \<longleftrightarrow> fair_counter (writer_count r) \<and> fair_counter (reader_count r) \<and>
     (case rp_lifetime r of
        Draining x \<Rightarrow> wakes now (writer_count r) x
      | NoReaders x \<Rightarrow> wakes now (reader_count r) x
      | _ \<Rightarrow> True)"

lemma lifetime_wakes_counts:
  assumes "lifetime_wakes now r" "rp_lifetime r' = rp_lifetime r"
    "writer_count r' = writer_count r \<or> ec_inc (writer_count r) = Some (writer_count r') \<or> ec_dec (writer_count r) = Some (writer_count r')"
    "reader_count r' = reader_count r \<or> ec_inc (reader_count r) = Some (reader_count r') \<or> ec_dec (reader_count r) = Some (reader_count r')"
  shows "lifetime_wakes now r'"
proof -
  have "fair_counter (writer_count r')" "fair_counter (reader_count r')"
    using assms fair_counter_send by (auto simp: lifetime_wakes_def)
  moreover have "wakes now (writer_count r') x" if "wakes now (writer_count r) x" for x
    using assms(3) that wakes_send by auto
  moreover have "wakes now (reader_count r') x" if "wakes now (reader_count r) x" for x
    using assms(4) that wakes_send by auto
  ultimately show ?thesis using assms(1,2) by (auto simp: lifetime_wakes_def split: lifetime.splits)
qed

lemma lifetime_turn_wakes:
  assumes "lifetime_wakes now r" "lifetime_turn first now r M = Some (r', M')"
  shows "lifetime_wakes now r'"
proof (cases "rp_lifetime r")
  case (NoWriters x)
  then show ?thesis using assms wakes_new
    by (auto simp: lifetime_wakes_def lifetime_turn_def stop_accepting_def split: sum.splits)
next
  case (Draining x)
  show ?thesis
  proof (cases "poll_wait first now (writer_count r) x")
    case (Inl y)
    then show ?thesis using assms Draining wakes_poll [OF _ Inl] by (auto simp: lifetime_wakes_def lifetime_turn_def)
  next
    case (Inr u)
    then show ?thesis using assms Draining by (auto simp: lifetime_wakes_def lifetime_turn_def bind_eq_Some_conv)
  qed
next
  case (NoReaders x)
  show ?thesis
  proof (cases "poll_wait first now (reader_count r) x")
    case (Inl y)
    then show ?thesis using assms NoReaders wakes_poll [OF _ Inl] by (auto simp: lifetime_wakes_def lifetime_turn_def)
  next
    case (Inr u)
    then show ?thesis using assms NoReaders by (auto simp: lifetime_wakes_def lifetime_turn_def)
  qed
qed (use assms in \<open>auto simp: lifetime_wakes_def lifetime_turn_def\<close>)

lemma handle_connection_counts:
  assumes "handle_connection cq its c k r = Some (res, r')"
  shows "rp_lifetime r' = rp_lifetime r \<and> (writer_count r' = writer_count r \<or> ec_inc (writer_count r) = Some (writer_count r'))
    \<and> (reader_count r' = reader_count r \<or> ec_inc (reader_count r) = Some (reader_count r'))"
proof (cases "should_stop r")
  case False
  then obtain h where "get_header c = Some h" using assms by (auto simp: handle_connection_def bind_eq_Some_conv)
  then show ?thesis using assms False
    by (cases "ch_type h") (auto simp: handle_connection_def bind_eq_Some_conv simp del: merger_step.simps)
qed (use assms in \<open>simp add: handle_connection_def\<close>)

lemma replay_step_wakes:
  assumes "lifetime_wakes (w_now g) (w_replay g)" "replay_step cq its ev g = Some g'"
  shows "lifetime_wakes (w_now g') (w_replay g')"
proof (cases ev)
  case (Arrives c k)
  then obtain res r where r: "handle_connection cq its c k (w_replay g) = Some (res, r)" "g' = note_writers g r"
    using assms(2) by auto
  show ?thesis using lifetime_wakes_counts [OF assms(1), of r] handle_connection_counts [OF r(1)] r(2)
    by (auto simp: note_writers_def)
next
  case (WriterEnds t)
  then obtain r where r: "writer_ends cq its t (w_replay g) = Some r" "g' = note_writers g r" using assms(2) by auto
  have "lifetime_wakes (w_now g) r"
    by (rule lifetime_wakes_counts [OF assms(1)]) (use r(1) in \<open>auto simp: writer_ends_def bind_eq_Some_conv\<close>)
  then show ?thesis using r(2) by (simp add: note_writers_def)
next
  case (ReaderEnds k)
  then obtain r where r: "reader_ends k (w_replay g) = Some r" "g' = g\<lparr>w_replay := r\<rparr>" using assms(2) by auto
  have "lifetime_wakes (w_now g) r"
    by (rule lifetime_wakes_counts [OF assms(1)]) (use r(1) in \<open>auto simp: reader_ends_def bind_eq_Some_conv\<close>)
  then show ?thesis using r(2) by simp
next
  case (ReaderPolls k cap)
  then obtain r where r: "reader_polls cq its k cap (w_replay g) = Some r" "g' = g\<lparr>w_replay := r\<rparr>" using assms(2) by auto
  have "lifetime_wakes (w_now g) r"
    by (rule lifetime_wakes_counts [OF assms(1)])
      (use r(1) in \<open>auto simp: reader_polls_def bind_eq_Some_conv simp del: merger_step.simps\<close>)
  then show ?thesis using r(2) by simp
next
  case (WriterStep e)
  then show ?thesis using assms by (auto simp: lifetime_wakes_def simp del: merger_step.simps split: lifetime.splits)
next
  case (LifetimeTurn first)
  then show ?thesis using assms lifetime_turn_wakes by auto
next
  case SaveDone
  then show ?thesis using assms wakes_new by (auto simp: save_done_def lifetime_wakes_def split: lifetime.splits)
next
  case TimePasses
  then show ?thesis using assms by (auto simp: lifetime_wakes_def intro: wakes_later [OF _ le_SucI [OF le_refl]] split: lifetime.splits)
next
  case TimeoutTurn
  have "lifetime_wakes (w_now g) (timeout_turn (w_now g) (w_replay g))"
    by (rule lifetime_wakes_counts [OF assms(1)]) (auto simp: timeout_turn_def split: forced_end.splits)
  then show ?thesis using assms TimeoutTurn by auto
next
  case Shutdown
  then show ?thesis using assms by (auto simp: lifetime_wakes_def split: lifetime.splits)
qed

lemma lives_as_wakes:
  assumes "lives_as cq config rid evs g"
  shows "lifetime_wakes (w_now g) (w_replay g)"
proof -
  obtain sd now M w N where w: "lives cq (world_new rid sd config now M) evs w" "g = w\<lparr>w_metrics := N\<rparr>"
    using assms by (auto simp: lives_as_def)
  from w(1) have "lifetime_wakes (w_now w) (w_replay w)"
  proof induction
    case lives_new
    then show ?case by (simp add: lifetime_wakes_def world_new_def replay_new_def fair_counter_def) (simp add: ec_new_def)
  next
    case (lives_step evs w ev its w')
    then show ?case using replay_step_wakes by blast
  qed
  then show ?thesis using w(2) by simp
qed

subsection \<open>How far a replay is from its end\<close>

definition phase_rank :: "empty_counter \<Rightarrow> empty_counter \<Rightarrow> lifetime \<Rightarrow> nat" where
  "phase_rank writers readers l =
     (case l of
        NotRunning \<Rightarrow> 9
      | NoWriters x \<Rightarrow> 8
      | Draining x \<Rightarrow> 4 + wait_rank writers x
      | Saving \<Rightarrow> 4
      | NoReaders x \<Rightarrow> wait_rank readers x
      | Ended \<Rightarrow> 0)"

definition timeout_rank :: "forced_end \<Rightarrow> nat" where
  "timeout_rank t = (case t of NotArmed \<Rightarrow> 2 | Armed d \<Rightarrow> 1 | TimeoutOver \<Rightarrow> 0)"

definition lifetime_rank :: "game_replay \<Rightarrow> nat" where
  "lifetime_rank r = phase_rank (writer_count r) (reader_count r) (rp_lifetime r) + timeout_rank (rp_timeout r)"

lemma lifetime_rank_bound: "lifetime_rank r \<le> 11"
proof -
  have "phase_rank c c' l \<le> 9" for c c' l
    by (cases l) (auto simp: phase_rank_def intro: order_trans [OF wait_rank_bounds(2)])
  moreover have "timeout_rank t \<le> 2" for t by (cases t) (simp_all add: timeout_rank_def)
  ultimately have "lifetime_rank r \<le> 9 + 2" unfolding lifetime_rank_def by (rule add_mono)
  then show ?thesis by simp
qed

lemma lifetime_turn_rank:
  assumes wk: "lifetime_wakes now r" and c: "rp_cancelled r" "ec_count (writer_count r) = 0" "ec_count (reader_count r) = 0"
    and l: "rp_lifetime r \<noteq> Saving" "rp_lifetime r \<noteq> Ended" and t: "lifetime_turn first now r M = Some (r', M')"
  shows "lifetime_rank r' < lifetime_rank r"
proof (cases "rp_lifetime r")
  case (Draining x)
  have "wakes now (writer_count r) x" "fair_counter (writer_count r)" using wk Draining by (simp_all add: lifetime_wakes_def)
  with wakes_turn [OF this c(2), of first] wait_rank_bounds(1) [OF this(1)] show ?thesis
    using t Draining by (auto simp: lifetime_turn_def lifetime_rank_def phase_rank_def bind_eq_Some_conv)
next
  case (NoReaders x)
  have "wakes now (reader_count r) x" "fair_counter (reader_count r)" using wk NoReaders by (simp_all add: lifetime_wakes_def)
  with wakes_turn [OF this c(3), of first] wait_rank_bounds(1) [OF this(1)] show ?thesis
    using t NoReaders by (auto simp: lifetime_turn_def lifetime_rank_def phase_rank_def)
next
  case (NoWriters x)
  then show ?thesis using t c(1) wk wakes_new(2) [of "writer_count r"]
    by (auto simp: lifetime_turn_def no_writers_turn_def stop_accepting_def lifetime_rank_def phase_rank_def lifetime_wakes_def)
qed (use t l in \<open>auto simp: lifetime_turn_def lifetime_rank_def phase_rank_def\<close>)

lemma timeout_turn_rank:
  "rp_cancelled r \<Longrightarrow> rp_timeout r \<noteq> TimeoutOver \<Longrightarrow> lifetime_rank (timeout_turn now r) < lifetime_rank r"
  by (cases "rp_timeout r") (auto simp: timeout_turn_def lifetime_rank_def timeout_rank_def)

lemma save_done_rank:
  "rp_lifetime r = Saving \<Longrightarrow> fair_counter (reader_count r) \<Longrightarrow> lifetime_rank (save_done r) < lifetime_rank r"
  using wakes_new(2) [of "reader_count r"] by (simp add: save_done_def lifetime_rank_def phase_rank_def)

subsection \<open>How far a worker is from its end\<close>

text \<open>The worker has no connections, and its token is cancelled.\<close>

fun no_connection :: "('r, 'w) future option \<Rightarrow> bool" where
  "no_connection (Some (Handles c k p)) = False"
| "no_connection _ = True"

definition drained :: "('r, 'w, 'p, 'd) worker_system \<Rightarrow> bool" where
  "drained s \<longleftrightarrow> wk_down s \<and> list_all no_connection (wk_futures s)"

definition game_rank :: "(nat \<rightharpoonup> replay_world) \<Rightarrow> nat \<Rightarrow> nat" where
  "game_rank games k = (case games k of None \<Rightarrow> 0 | Some g \<Rightarrow> lifetime_rank (w_replay g))"

fun future_rank :: "(nat \<rightharpoonup> replay_world) \<Rightarrow> ('r, 'w) future option \<Rightarrow> nat" where
  "future_rank games (Some (Lives k)) = Suc (game_rank games k)"
| "future_rank games _ = 0"

definition system_rank :: "('r, 'w, 'p, 'd) worker_system \<Rightarrow> nat" where
  "system_rank s = sum_list (map (future_rank (wk_games s)) (wk_futures s))"

lemma future_rank_change: "future_rank (games(k \<mapsto> g)) x = (if x = Some (Lives k) then Suc (lifetime_rank (w_replay g)) else future_rank games x)"
  by (cases "(games, x)" rule: future_rank.cases) (auto simp: game_rank_def)

lemma system_rank_turn:
  assumes "wk_games s k = Some g" "wk_games s' = (wk_games s)(k \<mapsto> g')" "wk_futures s' = wk_futures s"
    "Some (Lives k) \<in> set (wk_futures s)" "lifetime_rank (w_replay g') < lifetime_rank (w_replay g)"
  shows "system_rank s' < system_rank s"
proof -
  have le: "future_rank (wk_games s') x \<le> future_rank (wk_games s) x" for x :: "('a, 'b) future option"
    using assms(1,2,5) by (auto simp: future_rank_change game_rank_def)
  obtain xs ys where xs: "wk_futures s = xs @ Some (Lives k) # ys" using split_list [OF assms(4)] by blast
  have "sum_list (map (future_rank (wk_games s')) zs) \<le> sum_list (map (future_rank (wk_games s)) zs)"
    for zs :: "('a, 'b) future option list"
    using le by (intro sum_list_mono) simp
  from this [of xs] this [of ys]
  show ?thesis using assms(1,2,3,5) by (simp add: system_rank_def xs game_rank_def)
qed

lemma system_rank_over:
  assumes "i < length (wk_futures s)" "wk_futures s ! i = Some (Lives k)" "wk_games s' = wk_games s"
    "wk_futures s' = (wk_futures s)[i := None]"
  shows "system_rank s' < system_rank s"
proof -
  have "sum_list (map (future_rank (wk_games s)) (fs[i := None])) < sum_list (map (future_rank (wk_games s)) fs)"
    if "i < length fs" "fs ! i = Some (Lives k)" for i and fs :: "('a, 'b) future option list"
    using that by (induction fs arbitrary: i) (auto simp: nth_Cons' split: nat.splits if_splits)
  then show ?thesis using assms by (simp add: system_rank_def)
qed

lemma system_rank_bound:
  "system_rank s \<le> 12 * size (running_of (wk_futures s))"
proof -
  have "game_rank games k \<le> 11" for games k
    using lifetime_rank_bound by (auto simp: game_rank_def split: option.splits)
  then have "future_rank games x \<le> 12 * size (place x)" for games and x :: "('a, 'b) future option"
    by (cases "(games, x)" rule: future_rank.cases) auto
  then have "sum_list (map (future_rank games) fs) \<le> 12 * size (running_of fs)"
    for games and fs :: "('a, 'b) future option list"
    by (induction fs) (auto simp: running_of_def intro: add_mono)
  then show ?thesis by (simp add: system_rank_def)
qed

text \<open>No connection, no writer, no reader.\<close>

lemma drained_game:
  fixes s :: "('r, 'w, 'p, 'd) worker_system"
  assumes ok: "config_ok cq config" and inv: "system_inv cq config M s" and dr: "drained s" and g: "wk_games s k = Some g"
  shows "ec_count (writer_count (w_replay g)) = 0" "ec_count (reader_count (w_replay g)) = 0"
    "rp_cancelled (w_replay g)" "lifetime_wakes (w_now g) (w_replay g)" "replay_inv cq config g"
proof -
  obtain evs :: "('r, 'w) replay_event list" where fits: "game_fits cq config s k evs g"
    using system_invD(3) [OF inv g] by blast
  then have L: "lives_as cq config (replay_id (wk_replays s) k) evs g" by (simp add: game_fits_def)
  have none: "task_in k (wk_futures s ! i) = None \<and> \<not> reads_in k (wk_futures s ! i)" if "i < length (wk_futures s)" for i
  proof -
    have "no_connection (wk_futures s ! i)" using dr that by (simp add: drained_def list_all_length)
    then show ?thesis by (cases "wk_futures s ! i" rule: no_connection.cases) simp_all
  qed
  then have "writer_at (wk_futures s) k = Map.empty" "readers_at (wk_futures s) k = {}"
    by (auto simp: writer_at_def readers_at_def fun_eq_iff)
  then have "writers_of g = {}" "readers_of g = {}" using system_invD(4) [OF inv g] by (simp_all add: matches_def)
  moreover show ginv: "replay_inv cq config g" by (rule lives_as_inv [OF ok L])
  ultimately show "ec_count (writer_count (w_replay g)) = 0" "ec_count (reader_count (w_replay g)) = 0"
    using replay_invD(2,3) [OF ginv] by (simp_all add: counts_tasks_def writers_of_def readers_of_def)
  show "rp_cancelled (w_replay g)" using fits dr by (simp add: game_fits_def drained_def)
  show "lifetime_wakes (w_now g) (w_replay g)" by (rule lives_as_wakes [OF L])
qed

text \<open>The events that end a worker; the one that brings a lifetime further.\<close>

definition next_event :: "bool \<Rightarrow> nat \<Rightarrow> game_replay \<Rightarrow> ('r, 'w) system_event" where
  "next_event first i r =
     (if rp_lifetime r = Saving then Saves i
      else if rp_lifetime r \<noteq> Ended then Lifetime i first
      else if rp_timeout r \<noteq> TimeoutOver then Timeout i
      else LifetimeEnds i)"

lemma saves_shape:
  assumes "saves cq its W saver k s = Some s'" "wk_games s k = Some g"
  shows "\<exists>g'. wk_games s' = (wk_games s)(k \<mapsto> g') \<and> w_replay g' = save_done (w_replay g)
    \<and> wk_futures s' = wk_futures s \<and> wk_down s' = wk_down s \<and> wk_now s' = wk_now s"
  using assms by (auto simp: saves_def game_turn_def game_view_def put_game_def bind_eq_Some_conv Let_def split: prod.splits)

lemma drain_step:
  fixes s :: "('r, 'w, 'p, 'd) worker_system"
  assumes ok: "config_ok cq config" and laws: "saver_laws W files compress"
    and inv: "system_inv cq config M s" and dr: "drained s" and ords: "\<forall>n. orders_ok (its n)"
    and f: "future_at s i = Some (Lives k)" and g: "wk_games s k = Some g"
  shows "\<exists>s'. may_happen s (next_event first i (w_replay g) :: ('r, 'w) system_event)
    \<and> system_step cq its config W saver (next_event first i (w_replay g)) s = Some s' \<and> system_inv cq config M s'
    \<and> drained s' \<and> wk_now s' = wk_now s \<and> system_rank s' < system_rank s"
proof -
  note D = drained_game [OF ok inv dr g]
  let ?r = "w_replay g" and ?ev = "next_event first i (w_replay g) :: ('r, 'w) system_event"
  have i: "i < length (wk_futures s)" "wk_futures s ! i = Some (Lives k)" using f by (simp_all add: future_at_Some)
  then have mem: "Some (Lives k) \<in> set (wk_futures s)" by (metis nth_mem)
  have en: "may_happen s ?ev" using f g by (simp add: next_event_def game_has_def lifetime_over_def)
  obtain s' where s': "system_step cq its config W saver ?ev s = Some s'" "system_inv cq config M s'"
    using system_step_inv [OF ok inv ords laws en, where saver = saver] by blast
  have turn: "drained s' \<and> wk_now s' = wk_now s \<and> system_rank s' < system_rank s"
    if "wk_games s' = (wk_games s)(k \<mapsto> g')" "wk_futures s' = wk_futures s" "wk_down s' = wk_down s" "wk_now s' = wk_now s"
      "lifetime_rank (w_replay g') < lifetime_rank ?r" for g'
    using that dr system_rank_turn [OF g that(1,2) mem that(5)] by (simp add: drained_def)
  have "drained s' \<and> wk_now s' = wk_now s \<and> system_rank s' < system_rank s"
  proof (cases "rp_lifetime ?r = Saving")
    case True
    then have "saves cq its W saver k s = Some s'" using s'(1) f by (simp add: next_event_def)
    from saves_shape [OF this g] obtain g' where g': "wk_games s' = (wk_games s)(k \<mapsto> g')"
      "w_replay g' = save_done ?r" "wk_futures s' = wk_futures s" "wk_down s' = wk_down s" "wk_now s' = wk_now s" by blast
    have "fair_counter (reader_count ?r)" using D(4) by (simp add: lifetime_wakes_def)
    then show ?thesis using turn [OF g'(1,3-5)] save_done_rank [OF True] g'(2) by simp
  next
    case saving: False
    show ?thesis
    proof (cases "rp_lifetime ?r = Ended")
      case False
      then obtain r M' where r: "lifetime_turn first (w_now g) ?r (wk_metrics s) = Some (r, M')"
        "s' = put_game k (g\<lparr>w_replay := r, w_metrics := M'\<rparr>) s"
        using s'(1) f g saving by (auto simp: next_event_def game_turn_def game_view_def bind_eq_Some_conv)
      then show ?thesis
        using turn [of "g\<lparr>w_replay := r, w_metrics := M'\<rparr>"] lifetime_turn_rank [OF D(4,3,1,2) saving False r(1)] by simp
    next
      case True
      show ?thesis
      proof (cases "rp_timeout ?r = TimeoutOver")
        case False
        then have "s' = put_game k (g\<lparr>w_metrics := wk_metrics s, w_replay := timeout_turn (w_now g) ?r\<rparr>) s"
          using s'(1) f g True by (auto simp: next_event_def game_turn_def game_view_def bind_eq_Some_conv)
        then show ?thesis
          using turn [of "g\<lparr>w_metrics := wk_metrics s, w_replay := timeout_turn (w_now g) ?r\<rparr>"]
            timeout_turn_rank [OF D(3) False, of "w_now g"] by simp
      next
        case False2: True
        then have e: "s' = lifetime_ends i k s" using s'(1) f True by (simp add: next_event_def)
        have "drained s'" using dr unfolding e
          by (auto simp: drained_def lifetime_ends_def list_all_iff dest!: set_update_subset_insert [THEN subsetD])
        moreover have "system_rank s' < system_rank s" unfolding e
          by (rule system_rank_over [OF i]) (simp_all add: lifetime_ends_def)
        ultimately show ?thesis unfolding e by (simp add: lifetime_ends_def)
      qed
    qed
  qed
  then show ?thesis using en s' by blast
qed

subsection \<open>The end of a worker\<close>

lemma drained_run:
  fixes s :: "('r, 'w, 'p, 'd) worker_system"
  assumes ok: "config_ok cq config" and laws: "saver_laws W files compress" and ords: "\<forall>n. orders_ok (its n)"
  shows "system_inv cq config M s \<Longrightarrow> drained s \<Longrightarrow>
    \<exists>(evs :: ('r, 'w) system_event list) s'. system_run cq its config W saver evs s = Some s' \<and> length evs \<le> system_rank s
      \<and> running_of (wk_futures s') = {#} \<and> wk_now s' = wk_now s"
proof (induction "system_rank s" arbitrary: s rule: less_induct)
  case less
  show ?case
  proof (cases "running_of (wk_futures s) = {#}")
    case True
    then show ?thesis by (intro exI [of _ "[]"]) (simp add: system_run_simps)
  next
    case False
    then obtain a where "a \<in># running_of (wk_futures s)" by blast
    then obtain fu where fu: "Some fu \<in> set (wk_futures s)" by (auto simp: in_running_of)
    then obtain i where i: "i < length (wk_futures s)" "wk_futures s ! i = Some fu" by (metis in_set_conv_nth)
    have "no_connection (Some fu)" using less.prems(2) fu by (auto simp: drained_def list_all_iff)
    then obtain k where k: "fu = Lives k" by (cases fu) auto
    have f: "future_at s i = Some (Lives k)" using i k by (simp add: future_at_Some)
    then obtain g where g: "wk_games s k = Some g" using future_game [OF less.prems(1) f] by auto
    obtain ev :: "('r, 'w) system_event" and s1 where s1: "may_happen s ev"
      "system_step cq its config W saver ev s = Some s1" "system_inv cq config M s1" "drained s1"
      "wk_now s1 = wk_now s" "system_rank s1 < system_rank s"
      using drain_step [OF ok laws less.prems ords f g, where saver = saver and first = True] by blast
    obtain evs :: "('r, 'w) system_event list" and s' where s': "system_run cq its config W saver evs s1 = Some s'"
      "length evs \<le> system_rank s1" "running_of (wk_futures s') = {#}" "wk_now s' = wk_now s1"
      using less.hyps [OF s1(6,3,4)] by blast
    have "system_run cq its config W saver (ev # evs) s = Some s'"
      using s1(1,2) s'(1) by (simp add: system_run_simps del: system_step.simps)
    then show ?thesis using s' s1(5,6) by (intro exI [of _ "ev # evs"] exI [of _ s']) simp
  qed
qed

text \<open>
  A worker that is shut down ends. Once its token is cancelled and its connections have gone, however
  far its replays had come, it has no future left after at most twelve turns for each of
  them, in which every replay is merged, given to the saver and closed, and which take no time; so that its thread can
  exit. Before that, whichever lifetime gets a turn that it is ready for, it is closer to its end afterwards.
\<close>

theorem worker_drains:
  fixes s :: "('r, 'w, 'p, 'd) worker_system"
  assumes "config_ok cq config" and "saver_laws W files compress"
    and "operates cq config W saver (system_new now down M p d) s" and "drained s" and "\<forall>n. orders_ok (its n)"
  shows "(\<exists>(evs :: ('r, 'w) system_event list) s'. system_run cq its config W saver evs s = Some s'
      \<and> length evs \<le> 12 * size (running_of (wk_futures s)) \<and> running_of (wk_futures s') = {#} \<and> wk_now s' = wk_now s)
    \<and> (\<forall>i k g first. future_at s i = Some (Lives k) \<longrightarrow> wk_games s k = Some g \<longrightarrow>
        (\<exists>s'. system_step cq its config W saver (next_event first i (w_replay g)) s = Some s'
          \<and> drained s' \<and> system_rank s' < system_rank s))"
proof (intro conjI allI impI)
  have inv: "system_inv cq config M s" by (rule operates_inv [OF assms(3,1,2)])
  obtain evs :: "('r, 'w) system_event list" and s' where "system_run cq its config W saver evs s = Some s'"
    "length evs \<le> system_rank s" "running_of (wk_futures s') = {#}" "wk_now s' = wk_now s"
    using drained_run [OF assms(1,2,5) inv assms(4)] by blast
  then show "\<exists>(evs :: ('r, 'w) system_event list) s'. system_run cq its config W saver evs s = Some s'
      \<and> length evs \<le> 12 * size (running_of (wk_futures s)) \<and> running_of (wk_futures s') = {#} \<and> wk_now s' = wk_now s"
    using system_rank_bound [of s] le_trans by blast
  fix i k g first assume "future_at s i = Some (Lives k)" "wk_games s k = Some g"
  from drain_step [OF assms(1,2) inv assms(4,5) this, where saver = saver and first = first]
  show "\<exists>s'. system_step cq its config W saver (next_event first i (w_replay g)) s = Some s'
      \<and> drained s' \<and> system_rank s' < system_rank s"
    by blast
qed

theorem worker_drains_witness:
  "\<exists>s (evs :: (unit, unit) system_event list) s'. demo_worker (demo_traffic @ [Ends 1, Ends 2, ShutsDown]) = Some s
     \<and> running_of (wk_futures s) = {#ToNewReplay 0#}
     \<and> system_run exact_quotient (\<lambda>_ _. ascending) demo_config mem_world demo_saver evs s = Some s'
     \<and> running_of (wk_futures s') = {#}"
proof -
  obtain s where s: "demo_worker (demo_traffic @ [Ends 1, Ends 2, ShutsDown]) = Some s"
    "running_of (wk_futures s) = {#ToNewReplay 0#}" "drained s"
    unfolding demo_traffic_def
    by (auto simp: drained_def running_of_def shuts_down_def system_eval replay_eval eval_simps Let_def cong: bind_weak option.case_cong_weak)
  have ords: "\<forall>n::nat. orders_ok (\<lambda>_. ascending)" by (simp add: ascending_orders)
  from worker_drains [OF demo_config_ok mem_world_laws demo_operates [OF s(1)] s(3) ords] s(1,2) show ?thesis by blast
qed

end
