(* ===== verification/Whole_Ends.thy ===== *)
theory Whole_Ends
  imports Whole_Promises Worker_Drains
begin

text \<open>
  The end of the program: once the shutdown was begun and the connections have gone, the workers drain,
  their threads exit, and the accept loop joins them.
\<close>

subsection \<open>How far the workers are\<close>

definition all_drained :: "('r, 'w, 'p, 'd) whole_server \<Rightarrow> bool" where
  "all_drained p \<longleftrightarrow> (\<forall>t \<in> set (wh_threads p). th_channel t = [] \<and> drained (th_system t))"

definition whole_rank :: "('r, 'w, 'p, 'd) whole_server \<Rightarrow> nat" where
  "whole_rank p = sum_list (map (system_rank \<circ> th_system) (wh_threads p))"

definition futures_left :: "('r, 'w, 'p, 'd) whole_server \<Rightarrow> nat" where
  "futures_left p = sum_list (map (\<lambda>t. size (running_of (wk_futures (th_system t)))) (wh_threads p))"

lemma whole_rank_bound: "whole_rank p \<le> 12 * futures_left p"
proof -
  have "sum_list (map (system_rank \<circ> th_system) ts) \<le> 12 * sum_list (map (\<lambda>t. size (running_of (wk_futures (th_system t)))) ts)"
    for ts :: "('r, 'w, 'p, 'd) thread list"
  proof (induction ts)
    case (Cons t ts)
    then show ?case using system_rank_bound [of "th_system t"] by simp
  qed simp
  then show ?thesis by (simp add: whole_rank_def futures_left_def)
qed

lemma drained_system_at: "drained (system_at i p) = drained (th_system (wh_threads p ! i))"
  "system_rank (system_at i p) = system_rank (th_system (wh_threads p ! i))"
  by (simp_all add: drained_def system_rank_def)

lemma sum_list_update_less:
  "i < length xs \<Longrightarrow> y < xs ! i \<Longrightarrow> sum_list (xs[i := y]) < sum_list (xs :: nat list)"
proof (induction xs arbitrary: i)
  case (Cons x xs)
  then show ?case by (cases i) auto
qed simp

text \<open>A lifetime that gets the turn it is ready for brings the whole closer to its end.\<close>

lemma whole_drain_step:
  fixes p :: "('r, 'w, 'p, 'd) whole_server"
  assumes ok: "config_ok cq config" and laws: "saver_laws W files compress" and inv: "whole_inv R cq config p"
    and dr: "all_drained p" and ords: "\<forall>n. orders_ok (its n)" and i: "i < length (wh_threads p)"
    and f: "future_at (th_system (wh_threads p ! i)) j = Some (Lives k)" and g: "wk_games (th_system (wh_threads p ! i)) k = Some g"
  shows "\<exists>p'. may_step p (Turns i (next_event first j (w_replay g)) :: ('r, 'w) whole_event)
    \<and> whole_step R cq its config W dir (Turns i (next_event first j (w_replay g))) p = Some p'
    \<and> whole_inv R cq config p' \<and> all_drained p' \<and> whole_rank p' < whole_rank p
    \<and> wh_joined p' = wh_joined p \<and> length (wh_threads p') = length (wh_threads p)"
proof -
  let ?ev = "next_event first j (w_replay g) :: ('r, 'w) system_event" and ?saver = "new_inner dir config"
  have d: "drained (system_at i p)" using dr i by (simp add: all_drained_def drained_system_at)
  obtain s' where s': "may_happen (system_at i p) ?ev"
    "system_step cq its config W ?saver ?ev (system_at i p) = Some s'" "drained s'" "system_rank s' < system_rank (system_at i p)"
    using drain_step [OF ok laws system_at_inv [OF inv i] d ords, of j k g first ?saver] f g by auto
  have en: "may_step p (Turns i ?ev)" using i s'(1) by (simp add: next_event_def)
  obtain p' where p': "whole_step R cq its config W dir (Turns i ?ev) p = Some p'" "whole_inv R cq config p'"
    "p' = p\<lparr>wh_threads := (wh_threads p)[i := (wh_threads p ! i)\<lparr>th_system := s'\<rparr>],
        wh_metrics := wk_metrics s', wh_db := wk_db s', wh_disk := wk_disk s'\<rparr>"
    using turns_inv [OF ok laws inv ords en, of dir] s'(2) by (auto simp del: whole_step.simps)
  have "th_channel t = [] \<and> drained (th_system t)" if "t \<in> set (wh_threads p')" for t
  proof -
    have "t = (wh_threads p ! i)\<lparr>th_system := s'\<rparr> \<or> t \<in> set (wh_threads p)"
      using that p'(3) set_update_subset_insert [of "wh_threads p" i] by auto
    then show ?thesis using dr s'(3) i by (auto simp: all_drained_def)
  qed
  moreover have "whole_rank p' < whole_rank p"
    using sum_list_update_less [of i "map (system_rank \<circ> th_system) (wh_threads p)" "system_rank s'"] s'(4) i p'(3)
    by (simp add: whole_rank_def map_update drained_system_at)
  ultimately show ?thesis using en p' by (simp add: all_drained_def)
qed

lemma whole_drains:
  fixes p :: "('r, 'w, 'p, 'd) whole_server"
  assumes ok: "config_ok cq config" and laws: "saver_laws W files compress" and ords: "\<forall>n. orders_ok (its n)"
  shows "whole_inv R cq config p \<Longrightarrow> all_drained p \<Longrightarrow>
    \<exists>(evs :: ('r, 'w) whole_event list) p'. whole_run R cq its config W dir evs p = Some p' \<and> length evs \<le> whole_rank p
      \<and> whole_inv R cq config p' \<and> all_drained p' \<and> futures_left p' = 0
      \<and> wh_joined p' = wh_joined p \<and> length (wh_threads p') = length (wh_threads p)"
proof (induction "whole_rank p" arbitrary: p rule: less_induct)
  case less
  show ?case
  proof (cases "futures_left p = 0")
    case True
    then show ?thesis using less.prems by (intro exI [of _ "[]"] exI [of _ p]) (simp add: whole_run_simps)
  next
    case False
    then obtain i where i: "i < length (wh_threads p)" "running_of (wk_futures (th_system (wh_threads p ! i))) \<noteq> {#}"
      by (auto simp: futures_left_def in_set_conv_nth)
    let ?s = "th_system (wh_threads p ! i)"
    obtain a where "a \<in># running_of (wk_futures ?s)" using i(2) by blast
    then obtain fu where fu: "Some fu \<in> set (wk_futures ?s)" by (auto simp: in_running_of)
    then obtain j where j: "j < length (wk_futures ?s)" "wk_futures ?s ! j = Some fu" by (metis in_set_conv_nth)
    have "no_connection (Some fu)" using less.prems(2) fu i(1) by (auto simp: all_drained_def drained_def list_all_iff)
    then obtain k where k: "fu = Lives k" by (cases fu) auto
    have f: "future_at ?s j = Some (Lives k)" using j k by (simp add: future_at_Some)
    obtain g where g: "wk_games ?s k = Some g" using future_game [OF whole_invD(2) [OF less.prems(1) i(1)] f] by auto
    obtain ev :: "('r, 'w) whole_event" and p1 where p1: "may_step p ev" "whole_step R cq its config W dir ev p = Some p1"
      "whole_inv R cq config p1" "all_drained p1" "whole_rank p1 < whole_rank p"
      "wh_joined p1 = wh_joined p" "length (wh_threads p1) = length (wh_threads p)"
      using whole_drain_step [OF ok laws less.prems ords i(1) f g, of True dir] by blast
    obtain evs :: "('r, 'w) whole_event list" and p' where p': "whole_run R cq its config W dir evs p1 = Some p'"
      "length evs \<le> whole_rank p1" "whole_inv R cq config p'" "all_drained p'" "futures_left p' = 0"
      "wh_joined p' = wh_joined p1" "length (wh_threads p') = length (wh_threads p1)"
      using less.hyps [OF p1(5,3,4)] by blast
    have "whole_run R cq its config W dir (ev # evs) p = Some p'"
      using p1(1,2) p'(1) by (simp add: whole_run_simps del: whole_step.simps may_step.simps)
    then show ?thesis using p' p1(5-7) by (intro exI [of _ "ev # evs"] exI [of _ p']) simp
  qed
qed

subsection \<open>Joining the threads\<close>

lemma front_run:
  fixes p :: "('r, 'w, 'p, 'd) whole_server"
  assumes n: "0 < worker_threads (server config)"
  shows "whole_inv R cq config p \<Longrightarrow> \<forall>ev \<in> set evs. of_front ev \<and> ev \<noteq> Cancelled \<Longrightarrow>
    server_run R config evs (server_view p) = Some s' \<Longrightarrow>
    \<exists>p'. whole_run R cq its config W dir (map Front evs) p = Some p' \<and> whole_inv R cq config p' \<and> server_view p' = s'
      \<and> map th_system (wh_threads p') = map th_system (wh_threads p)"
proof (induction evs arbitrary: p)
  case Nil
  then show ?case by (simp add: whole_run_simps server_run_simps)
next
  case (Cons ev evs)
  have ev: "of_front ev" "ev \<noteq> Cancelled" using Cons.prems(2) by simp_all
  obtain t where t: "can_happen (server_view p) ev" "server_step R config ev (server_view p) = Some t"
    "server_run R config evs t = Some s'"
    using Cons.prems(3) by (auto simp: server_run_simps bind_eq_Some_conv simp del: can_happen.simps server_step.simps split: if_splits)
  obtain p1 where p1: "front (server_step R config ev) p = Some p1" "whole_inv R cq config p1" "server_view p1 = t"
    "map th_system (wh_threads p1) = map th_system (wh_threads p)"
    using front_inv [OF Cons.prems(1) n ev(1) t(1)] t(2) by auto
  obtain p' where p': "whole_run R cq its config W dir (map Front evs) p1 = Some p'" "whole_inv R cq config p'"
    "server_view p' = s'" "map th_system (wh_threads p') = map th_system (wh_threads p1)"
    using Cons.IH [OF p1(2)] Cons.prems(2) t(3) p1(3) by auto
  have "whole_run R cq its config W dir (map Front (ev # evs)) p = Some p'"
    using ev t(1) p1(1) p'(1) by (simp add: whole_run_simps)
  then show ?case using p' p1(4) by auto
qed

lemma joins_of_front: "\<forall>ev \<in> set (concat (map (\<lambda>i. [WorkerExits i, Joins]) xs)). of_front ev \<and> ev \<noteq> Cancelled"
  by auto

lemma joins_length: "length (concat (map (\<lambda>i. [WorkerExits i, Joins]) xs)) = 2 * length xs"
  by (induction xs) simp_all

lemma joined_run:
  fixes p :: "('r, 'w, 'p, 'd) whole_server"
  assumes n: "0 < worker_threads (server config)" and inv: "whole_inv R cq config p"
    and idle: "all_drained p" "futures_left p = 0" and m: "wh_joined p = Some m"
  shows "\<exists>(evs :: ('r, 'w) whole_event list) p'. whole_run R cq its config W dir evs p = Some p'
    \<and> length evs \<le> 2 * worker_threads (server config)
    \<and> whole_inv R cq config p' \<and> map th_system (wh_threads p') = map th_system (wh_threads p)
    \<and> runner_done (sv_runner (server_view p')) \<and> all_idle (server_view p') \<and> server_inv config (server_view p')"
proof -
  let ?evs = "concat (map (\<lambda>i. [WorkerExits i, Joins]) [m..<worker_threads (server config)]) :: ('r, 'w) server_event list"
  have sinv: "server_inv config (server_view p)" by (rule serves_as_inv [OF whole_invD(1) [OF inv] n])
  have "running_of (wk_futures (th_system t)) = {#}" if "t \<in> set (wh_threads p)" for t
    using idle(2) that by (simp add: futures_left_def)
  then have i: "all_idle (server_view p)"
    using idle(1) by (auto simp: all_idle_def server_view_def thread_view_def all_drained_def)
  have j: "rn_joined (sv_runner (server_view p)) = Some m" using m by (simp add: server_view_def)
  then have "m \<le> worker_threads (server config)" using sinv by (simp add: server_inv_def runner_inv_def)
  from join_all [OF sinv i j this] obtain s' where s': "server_run R config ?evs (server_view p) = Some s'"
    "server_inv config s'" "all_idle s'" "runner_done (sv_runner s')" by blast
  obtain p' where "whole_run R cq its config W dir (map Front ?evs) p = Some p'" "whole_inv R cq config p'" "server_view p' = s'"
    "map th_system (wh_threads p') = map th_system (wh_threads p)"
    using front_run [OF n inv joins_of_front s'(1)] by blast
  moreover have "length (map Front ?evs) \<le> 2 * worker_threads (server config)"
    unfolding length_map joins_length by simp
  ultimately show ?thesis using s'(2-4) by blast
qed

lemma no_futures_over:
  assumes "system_inv cq config M s" "running_of (wk_futures s) = {#}" "wk_games s k = Some g"
  shows "lifetime_over (w_replay g)"
proof -
  have "Some (Lives k) \<notin> set (wk_futures s)" using assms(2) in_running_of [of "ToNewReplay k" "wk_futures s"] by force
  then show ?thesis using system_invD(5) [OF assms(1,3)] by blast
qed

subsection \<open>Property\<close>

text \<open>
  C10: the program ends. Once the server has begun to shut down, and the token is cancelled and the connections of the workers
  have gone, however far their games had come, all of it is over after at most twelve turns for each future that is
  left and two for each thread: every replay was merged, given to the saver and closed, every
  thread has exited and was joined, all gauges of connections are zero, and every connection that was ever accepted was counted as served or given
  up. On the way, whichever lifetime gets a turn that it is ready for brings the program closer to its end.
\<close>

theorem program_shuts_down:
  fixes s :: "('r, 'w, 'p, 'd) whole_server"
  assumes "config_ok cq config" and "0 < worker_threads (server config)" and "saver_laws W files compress"
    and "runs R cq config W dir (whole_new config p d) s"
    and "wh_joined s = Some m" and "all_drained s" and "\<forall>n. orders_ok (its n)"
  shows "(\<exists>(evs :: ('r, 'w) whole_event list) s'. whole_run R cq its config W dir evs s = Some s'
      \<and> length evs \<le> 12 * futures_left s + 2 * worker_threads (server config)
      \<and> wh_joined s' = Some (length (wh_threads s'))
      \<and> (\<forall>t \<in> set (wh_threads s'). th_exited t \<and> (\<forall>k g. wk_games (th_system t) k = Some g \<longrightarrow> lifetime_over (w_replay g)))
      \<and> (\<forall>label. ACTIVE_CONNS (wh_metrics s') label = 0) \<and> wh_accepted s' = served (wh_metrics s') + wh_silent s')
    \<and> (\<forall>i j k g first. i < length (wh_threads s) \<longrightarrow> future_at (th_system (wh_threads s ! i)) j = Some (Lives k) \<longrightarrow>
        wk_games (th_system (wh_threads s ! i)) k = Some g \<longrightarrow>
        (\<exists>s'. whole_step R cq its config W dir (Turns i (next_event first j (w_replay g))) s = Some s'
          \<and> all_drained s' \<and> whole_rank s' < whole_rank s))"
proof (intro conjI allI impI)
  have inv: "whole_inv R cq config s" using runs_inv [OF assms(4,1,3,2)] by blast
  obtain evs1 :: "('r, 'w) whole_event list" and s1 where s1: "whole_run R cq its config W dir evs1 s = Some s1"
    "length evs1 \<le> whole_rank s" "whole_inv R cq config s1" "all_drained s1" "futures_left s1 = 0" "wh_joined s1 = Some m"
    using whole_drains [OF assms(1,3,7) inv assms(6), of dir] assms(5) by metis
  obtain evs2 :: "('r, 'w) whole_event list" and s2 where s2: "whole_run R cq its config W dir evs2 s1 = Some s2"
    "length evs2 \<le> 2 * worker_threads (server config)" "whole_inv R cq config s2"
    "map th_system (wh_threads s2) = map th_system (wh_threads s1)"
    "runner_done (sv_runner (server_view s2))" "all_idle (server_view s2)" "server_inv config (server_view s2)"
    using joined_run [OF assms(2) s1(3-6), of its W dir] by blast
  have run: "whole_run R cq its config W dir (evs1 @ evs2) s = Some s2"
    using s1(1) s2(1) by (simp add: whole_run_append)
  have len: "length (evs1 @ evs2) \<le> 12 * futures_left s + 2 * worker_threads (server config)"
    using s1(2) s2(2) whole_rank_bound [of s] by simp
  have joined: "wh_joined s2 = Some (length (wh_threads s2))"
    using s2(5) by (simp add: runner_done_def server_view_def)
  have over: "th_exited t \<and> (\<forall>k g. wk_games (th_system t) k = Some g \<longrightarrow> lifetime_over (w_replay g))"
    if t: "t \<in> set (wh_threads s2)" for t
  proof
    obtain i where i: "i < length (wh_threads s2)" "wh_threads s2 ! i = t" using t by (auto simp: in_set_conv_nth)
    have "runner_inv (sv_runner (server_view s2))" using s2(7) by (simp add: server_inv_def)
    then show "th_exited t" using i joined by (auto simp: runner_inv_def server_view_def thread_view_def)
    have "thread_view t \<in> set (replay_workers (sv_runner (server_view s2)))" using t by (simp add: server_view_def)
    then have "running_of (wk_futures (th_system t)) = {#}" using s2(6) by (auto simp: all_idle_def thread_view_def)
    then show "\<forall>k g. wk_games (th_system t) k = Some g \<longrightarrow> lifetime_over (w_replay g)"
      using no_futures_over s2(3) t by (fastforce simp: whole_inv_def)
  qed
  have "sv_futures (server_view s2) = []" using s2(7) joined by (simp add: server_inv_def server_view_def)
  then have "live_conns (server_view s2) = {#}" by (rule idle_no_live [OF s2(6)])
  then have "(\<forall>label. ACTIVE_CONNS (wh_metrics s2) label = 0) \<and> wh_accepted s2 = served (wh_metrics s2) + wh_silent s2"
    using s2(7) by (simp add: server_inv_def accounted_def gauge_def) (simp add: server_view_def)
  then show "\<exists>(evs :: ('r, 'w) whole_event list) s'. whole_run R cq its config W dir evs s = Some s'
      \<and> length evs \<le> 12 * futures_left s + 2 * worker_threads (server config)
      \<and> wh_joined s' = Some (length (wh_threads s'))
      \<and> (\<forall>t \<in> set (wh_threads s'). th_exited t \<and> (\<forall>k g. wk_games (th_system t) k = Some g \<longrightarrow> lifetime_over (w_replay g)))
      \<and> (\<forall>label. ACTIVE_CONNS (wh_metrics s') label = 0) \<and> wh_accepted s' = served (wh_metrics s') + wh_silent s'"
    using run len joined over by blast
  fix i j k g first
  assume "i < length (wh_threads s)" "future_at (th_system (wh_threads s ! i)) j = Some (Lives k)"
    "wk_games (th_system (wh_threads s ! i)) k = Some g"
  from whole_drain_step [OF assms(1,3) inv assms(6,7) this, of first dir]
  show "\<exists>s'. whole_step R cq its config W dir (Turns i (next_event first j (w_replay g))) s = Some s'
      \<and> all_drained s' \<and> whole_rank s' < whole_rank s" by blast
qed

lemma demo_stops_run:
  "\<exists>s. demo_program (demo_joins @ [Turns 1 (Ends 1), Signal, Front Cancelled]) = Some s \<and> wh_joined s = Some 0 \<and> all_drained s"
  unfolding demo_joins_def
  by (simp add: two_workers saver_eval whole_eval system_eval replay_eval eval_simps demo_hello demo_player_def Let_def
      all_drained_def drained_def shuts_down_def signal_def cancels_def runner_shutdown_def close_worker_def
      cong: bind_weak option.case_cong_weak)

theorem program_shuts_down_witness:
  "\<exists>s evs s'. demo_program (demo_joins @ [Turns 1 (Ends 1), Signal, Front Cancelled]) = Some s
     \<and> whole_run list_reader_ops exact_quotient (\<lambda>_ _. ascending) demo_whole mem_world (directory_new ''/v'') evs s = Some s'
     \<and> wh_joined s' = Some (length (wh_threads s')) \<and> wh_accepted s' = served (wh_metrics s') + wh_silent s'"
proof -
  obtain s where s: "demo_program (demo_joins @ [Turns 1 (Ends 1), Signal, Front Cancelled]) = Some s"
    "wh_joined s = Some 0" "all_drained s"
    using demo_stops_run by blast
  have ords: "\<forall>n::nat. orders_ok (\<lambda>_. ascending)" by (simp add: ascending_orders)
  from program_shuts_down [OF demo_whole_ok mem_world_laws demo_runs [OF s(1)] s(2,3) ords] s(1) show ?thesis by blast
qed

end
