(* ===== verification/Test_Merge.thy ===== *)
theory Test_Merge
  imports Evaluation
begin

text \<open>
  The unit tests of \<open>src/replay/receive/quorum_merge_strategy.rs\<close>, run on the model. An \<open>assert!\<close> that fails is a
  panic, and so is an \<open>unwrap\<close> of an error: a test passes if it returns. The replays that a test shares with the
  strategy are changed where the strategy keeps them.
\<close>

subsection \<open>What the tests do with a replay\<close>

definition strat :: strategy where
  "strat = strategy_new 2 4096"

definition stream_add_data :: "strategy \<Rightarrow> nat \<Rightarrow> byte list \<Rightarrow> strategy option" where
  "stream_add_data q t buf = with_writer q t (\<lambda>w. wr_add_data w buf)"

definition stream_set_delayed_data_len :: "strategy \<Rightarrow> nat \<Rightarrow> usize \<Rightarrow> strategy option" where
  "stream_set_delayed_data_len q t n = with_writer q t (\<lambda>w. wr_set_delayed_data_len w n)"

definition stream_finish :: "strategy \<Rightarrow> nat \<Rightarrow> strategy option" where
  "stream_finish q t = with_writer q t (\<lambda>w. Some (wr_finish w))"

text \<open>One read from the start of the merged data into a buffer of zeros.\<close>

definition read_out :: "merged_replay \<Rightarrow> usize \<Rightarrow> byte list option" where
  "read_out out cap =
     do {
       (res, _) \<leftarrow> cursor_read bd_ops (reader_from (mr_data out) 0) cap;
       Some (res @ replicate (cap - length res) 0)
     }"

lemmas [eval_simps] =
  strat_def stream_add_data_def stream_set_delayed_data_len_def stream_finish_def read_out_def cursor_read_def
  reader_from_def read_at_def

subsection \<open>The tests\<close>

definition test_strategy_ends_stream_when_finalized :: "(nat \<Rightarrow> iteration) \<Rightarrow> unit option" where
  "test_strategy_ends_stream_when_finalized its =
     do {
       (q, token1) \<leftarrow> replay_added its strat wr_new;
       q \<leftarrow> stream_finish q token1;
       q \<leftarrow> replay_removed its q token1;
       q \<leftarrow> strategy_finish q;
       out_stream \<leftarrow> get_merged_replay q;
       assert_that (mr_header out_stream = None);
       assert_that (mr_data_len out_stream = 0)
     }"

definition test_strategy_picks_at_least_one_header :: "(nat \<Rightarrow> iteration) \<Rightarrow> unit option" where
  "test_strategy_picks_at_least_one_header its =
     do {
       let stream2 = wr_add_header wr_new [1, 3, 3, 7];
       (q, token1) \<leftarrow> replay_added its strat wr_new;
       (q, token2) \<leftarrow> replay_added its q stream2;
       q \<leftarrow> replay_header_added q token2;
       q \<leftarrow> stream_finish q token1;
       q \<leftarrow> stream_finish q token2;
       q \<leftarrow> replay_removed its q token1;
       q \<leftarrow> replay_removed its q token2;
       q \<leftarrow> strategy_finish q;
       out_stream \<leftarrow> get_merged_replay q;
       h \<leftarrow> mr_header out_stream;
       assert_that (h = [1, 3, 3, 7])
     }"

definition test_strategy_gets_all_data_of_one :: "(nat \<Rightarrow> iteration) \<Rightarrow> unit option" where
  "test_strategy_gets_all_data_of_one its =
     do {
       (q, token1) \<leftarrow> replay_added its strat (wr_add_header wr_new [1, 3, 3, 7]);
       q \<leftarrow> replay_header_added q token1;
       q \<leftarrow> stream_add_data q token1 [1, 2, 3, 4];
       q \<leftarrow> replay_data_updated its q token1;
       q \<leftarrow> stream_set_delayed_data_len q token1 4;
       q \<leftarrow> replay_data_updated its q token1;
       q \<leftarrow> stream_add_data q token1 [5, 6];
       q \<leftarrow> stream_set_delayed_data_len q token1 5;
       q \<leftarrow> replay_data_updated its q token1;
       q \<leftarrow> stream_add_data q token1 [7, 8];
       q \<leftarrow> stream_set_delayed_data_len q token1 8;
       q \<leftarrow> replay_data_updated its q token1;
       q \<leftarrow> stream_finish q token1;
       q \<leftarrow> replay_removed its q token1;
       q \<leftarrow> strategy_finish q;
       out_stream \<leftarrow> get_merged_replay q;
       assert_that (mr_data_len out_stream = 8);
       out_buf \<leftarrow> read_out out_stream 8;
       assert_that (out_buf = [1, 2, 3, 4, 5, 6, 7, 8])
     }"

definition test_strategy_gets_common_prefix_of_all :: "(nat \<Rightarrow> iteration) \<Rightarrow> unit option" where
  "test_strategy_gets_common_prefix_of_all its =
     do {
       let stream = wr_add_header wr_new [1, 3, 3, 7];
       (q, token1) \<leftarrow> replay_added its strat stream;
       (q, token2) \<leftarrow> replay_added its q stream;
       q \<leftarrow> replay_header_added q token1;
       q \<leftarrow> replay_header_added q token2;
       q \<leftarrow> stream_add_data q token1 [1, 2, 3, 4];
       q \<leftarrow> stream_set_delayed_data_len q token1 4;
       q \<leftarrow> replay_data_updated its q token1;
       q \<leftarrow> stream_add_data q token2 [1, 2];
       q \<leftarrow> stream_set_delayed_data_len q token2 2;
       q \<leftarrow> replay_data_updated its q token2;
       q \<leftarrow> stream_add_data q token1 [5, 6];
       q \<leftarrow> stream_set_delayed_data_len q token1 6;
       q \<leftarrow> replay_data_updated its q token1;
       q \<leftarrow> stream_add_data q token2 [3, 20, 21, 22, 23];
       q \<leftarrow> stream_set_delayed_data_len q token2 7;
       q \<leftarrow> replay_data_updated its q token2;
       q \<leftarrow> stream_add_data q token1 [7, 8];
       q \<leftarrow> stream_set_delayed_data_len q token1 8;
       q \<leftarrow> replay_data_updated its q token1;
       q \<leftarrow> stream_finish q token1;
       q \<leftarrow> stream_finish q token2;
       q \<leftarrow> replay_removed its q token1;
       q \<leftarrow> replay_removed its q token2;
       q \<leftarrow> strategy_finish q;
       out_stream \<leftarrow> get_merged_replay q;
       let len = mr_data_len out_stream;
       assert_that (len = 7 \<or> len = 8);
       out_buf \<leftarrow> read_out out_stream 8;
       assert_that (take 3 out_buf = [1, 2, 3]);
       (if len = 7 then assert_that (take 4 (drop 3 out_buf) = [20, 21, 22, 23])
        else assert_that (drop 3 out_buf = [4, 5, 6, 7, 8]))
     }"

definition test_strategy_later_has_more_data :: "(nat \<Rightarrow> iteration) \<Rightarrow> unit option" where
  "test_strategy_later_has_more_data its =
     do {
       let stream = wr_add_header wr_new [1, 3, 3, 7];
       (q, token1) \<leftarrow> replay_added its strat stream;
       (q, token2) \<leftarrow> replay_added its q stream;
       q \<leftarrow> replay_header_added q token1;
       q \<leftarrow> replay_header_added q token2;
       q \<leftarrow> stream_add_data q token1 [1, 2, 3, 4];
       q \<leftarrow> stream_set_delayed_data_len q token1 4;
       q \<leftarrow> replay_data_updated its q token1;
       q \<leftarrow> stream_add_data q token2 [1, 2, 3, 4, 5, 6];
       q \<leftarrow> stream_set_delayed_data_len q token2 6;
       q \<leftarrow> replay_data_updated its q token2;
       q \<leftarrow> stream_finish q token1;
       q \<leftarrow> stream_finish q token2;
       q \<leftarrow> replay_removed its q token1;
       q \<leftarrow> replay_removed its q token2;
       q \<leftarrow> strategy_finish q;
       out_stream \<leftarrow> get_merged_replay q;
       assert_that (mr_data_len out_stream = 6);
       out_buf \<leftarrow> read_out out_stream 6;
       assert_that (out_buf = [1, 2, 3, 4, 5, 6])
     }"

subsection \<open>They pass\<close>

text \<open>In two orders of the hash sets, where also the sort treats equal keys differently.\<close>

definition descending :: iteration where
  "descending = \<lparr>set_iter = (\<lambda>S. rev (sorted_list_of_set S)), sort_unstable = (\<lambda>f xs. sort_key f (rev xs))\<rparr>"

lemma descending_simps [eval_simps]:
  "set_iter descending S = rev (sorted_list_of_set S)" "sort_unstable descending f xs = sort_key f (rev xs)"
  by (simp_all add: descending_def)

lemma descending_ok: "iteration_ok descending"
  by (simp add: iteration_ok_def descending_simps)

lemma strategy_ends_stream_when_finalized_passes:
  "test_strategy_ends_stream_when_finalized (\<lambda>_. ascending) = Some ()" "test_strategy_ends_stream_when_finalized (\<lambda>_. descending) = Some ()"
  by (simp_all add: test_strategy_ends_stream_when_finalized_def eval_simps cong: bind_weak option.case_cong_weak)

lemma strategy_picks_at_least_one_header_passes:
  "test_strategy_picks_at_least_one_header (\<lambda>_. ascending) = Some ()" "test_strategy_picks_at_least_one_header (\<lambda>_. descending) = Some ()"
  by (simp_all add: test_strategy_picks_at_least_one_header_def eval_simps cong: bind_weak option.case_cong_weak)

lemma strategy_gets_all_data_of_one_passes:
  "test_strategy_gets_all_data_of_one (\<lambda>_. ascending) = Some ()" "test_strategy_gets_all_data_of_one (\<lambda>_. descending) = Some ()"
  by (simp_all add: test_strategy_gets_all_data_of_one_def eval_simps cong: bind_weak option.case_cong_weak)

lemma strategy_gets_common_prefix_of_all_passes:
  "test_strategy_gets_common_prefix_of_all (\<lambda>_. ascending) = Some ()" "test_strategy_gets_common_prefix_of_all (\<lambda>_. descending) = Some ()"
  by (simp_all add: test_strategy_gets_common_prefix_of_all_def eval_simps cong: bind_weak option.case_cong_weak)

lemma strategy_later_has_more_data_passes:
  "test_strategy_later_has_more_data (\<lambda>_. ascending) = Some ()" "test_strategy_later_has_more_data (\<lambda>_. descending) = Some ()"
  by (simp_all add: test_strategy_later_has_more_data_def eval_simps cong: bind_weak option.case_cong_weak)

end
