(* ===== verification/Test_Buffers.thy ===== *)
theory Test_Buffers
  imports Buf_Deque
begin

text \<open>
  The unit tests of \<open>src/util/buf_deque.rs\<close>, run on the model. A test passes if it returns. Most of them are too long to be
  evaluated: that they pass follows from the contract of the deque. \<open>read_to_end\<close> of the std library reads into
  a buffer of a size that is not known, here \<open>cap\<close>.
\<close>

subsection \<open>The tests\<close>

definition compare_eq :: "usize \<Rightarrow> buf_deque \<Rightarrow> byte list \<Rightarrow> unit option" where
  "compare_eq cap deque data =
     do {
       deque_data \<leftarrow> read_to_end bd_ops cap (reader_from deque 0) [];
       assert_that (deque_data = data)
     }"

definition append_at :: "usize \<Rightarrow> usize \<Rightarrow> unit option" where
  "append_at cap offset =
     do {
       let off = replicate offset 0;
       let data = [0, 1, 2, 3, 4, 5, 6, 7];
       bl \<leftarrow> write_all bd_new off;
       bl \<leftarrow> write_all bl data;
       compare_eq cap bl (off @ data)
     }"

definition test_append :: "usize \<Rightarrow> unit option" where
  "test_append cap =
     do {
       append_at cap 0;
       append_at cap (CHUNK_SIZE * 2 - 4);
       append_at cap (CHUNK_SIZE * 2);
       append_at cap (CHUNK_SIZE * 2 + 4)
     }"

definition seven :: "byte list" where
  "seven = [0, 1, 2, 3, 4, 5, 6]"

text \<open>The \<open>while\<close> loop over the chunks.\<close>

partial_function (option) check_chunks :: "buf_deque \<Rightarrow> usize \<Rightarrow> unit option" where
  "check_chunks bl cursor =
     (if cursor < CHUNK_SIZE * 8 * length seven
      then do {
        chunk \<leftarrow> bd_get_chunk bl cursor;
        foldM (\<lambda>i _. assert_that (chunk ! i = seven ! ((cursor + i) mod length seven))) [0..<length chunk] ();
        check_chunks bl (cursor + length chunk)
      }
      else Some ())"

declare check_chunks.simps [code]

definition test_get_chunk :: "unit option" where
  "test_get_chunk =
     do {
       bl \<leftarrow> foldM (\<lambda>i bl. do {
               bl \<leftarrow> write_all bl seven;
               assert_that (window_end bl = (i + 1) * length seven);
               Some bl
             }) [0..<CHUNK_SIZE * 8] bd_new;
       check_chunks bl 0
     }"

definition test_discard_data_immediately :: "usize \<Rightarrow> unit option" where
  "test_discard_data_immediately cap =
     do {
       foldM (\<lambda>i bl. do {
           bl \<leftarrow> write_all bl seven;
           got \<leftarrow> read_to_end bd_ops cap (reader_from bl (i * length seven)) [];
           assert_that (seven = got);
           Some (bd_discard bl ((i + 1) * length seven))
         }) [0..<CHUNK_SIZE * 8] bd_new;
       Some ()
     }"

definition test_chunks_are_discarded_beyond_end :: "unit option" where
  "test_chunks_are_discarded_beyond_end =
     do {
       let data = replicate CHUNK_SIZE 1;
       let data2 = replicate (CHUNK_SIZE div 2) 1;
       bl \<leftarrow> write_all bd_new data;
       let bl = bd_discard bl (CHUNK_SIZE * 2);
       assert_that (chunks bl = []);
       bl \<leftarrow> write_all bl data2;
       assert_that (chunks bl = []);
       bl \<leftarrow> write_all bl data2;
       assert_that (chunks bl = [])
     }"

definition test_partial_write_after_discard :: "usize \<Rightarrow> unit option" where
  "test_partial_write_after_discard cap =
     do {
       let data1 = replicate (CHUNK_SIZE - 4) 1;
       let data2 = replicate 8 2;
       bl \<leftarrow> write_all bd_new data1;
       let bl = bd_discard bl CHUNK_SIZE;
       bl \<leftarrow> write_all bl data2;
       got \<leftarrow> read_to_end bd_ops cap (reader_from bl CHUNK_SIZE) [];
       assert_that (got = replicate 4 2)
     }"

text \<open>All chunks that an iterator gives.\<close>

partial_function (option) iter_all :: "buf_deque chunk_iter \<Rightarrow> byte list list option" where
  "iter_all it =
     do {
       r \<leftarrow> iter_next bd_ops it;
       (case r of None \<Rightarrow> Some [] | Some (c, it) \<Rightarrow> do { cs \<leftarrow> iter_all it; Some (c # cs) })
     }"

declare iter_all.simps [code]

definition test_iter_chunks :: "unit option" where
  "test_iter_chunks =
     do {
       let data1 = replicate (CHUNK_SIZE - 4) 1;
       let data2 = replicate 8 2;
       bl \<leftarrow> write_all bd_new data1;
       bl \<leftarrow> write_all bl data2;
       it \<leftarrow> iter_chunks bd_ops bl 30 30;
       bufs \<leftarrow> iter_all it;
       assert_that (length bufs = 0);
       it \<leftarrow> iter_chunks bd_ops bl (CHUNK_SIZE - 5) (CHUNK_SIZE + 2);
       bufs \<leftarrow> iter_all it;
       total \<leftarrow> foldM (\<lambda>(i, buf) _. do {
           (if i = 0 then assert_that (buf = [1, 2, 2, 2, 2])
            else if i = 1 then assert_that (buf = [2, 2])
            else None);
           Some (i + 1)
         }) (zip [0..<length bufs] bufs) (0 :: nat);
       assert_that (total = 2)
     }"

subsection \<open>They pass\<close>

lemma append_at_passes: "0 < cap \<Longrightarrow> append_at cap offset = Some ()"
proof -
  assume cap: "0 < cap"
  let ?data = "[0, 1, 2, 3, 4, 5, 6, 7] :: byte list" and ?off = "replicate offset 0 :: byte list"
  obtain d where d: "write_all bd_new ?off = Some d" "deque_rep d ?off" "discarded_chunks d = 0"
    using write_all_rep [OF deque_rep_new, of ?off] by auto
  obtain e where e: "write_all d ?data = Some e" "deque_rep e (?off @ ?data)" "discarded_chunks e = 0"
    using write_all_rep [OF d(2), of ?data] d(3) by auto
  then have "read_to_end bd_ops cap (reader_from e 0) [] = Some (?off @ ?data)"
    using bd.read_to_upto_rep [OF e(2) _ cap, of 0] by (simp add: window_start_def)
  with d(1) e(1) show ?thesis by (simp add: append_at_def compare_eq_def)
qed

theorem append_passes: "0 < cap \<Longrightarrow> test_append cap = Some ()"
  by (simp add: test_append_def append_at_passes)

theorem append_passes_witness: "test_append 32 = Some ()"
  by (simp add: append_passes)

text \<open>The same bytes over and over.\<close>

definition sevens :: "nat \<Rightarrow> byte list" where
  "sevens n = concat (replicate n seven)"

lemma sevens_simps:
  "sevens 0 = []" "sevens (Suc n) = sevens n @ seven" "length (sevens n) = n * 7" "length seven = 7"
proof -
  have "concat (replicate n seven) @ seven = seven @ concat (replicate n seven)" by (induction n) auto
  then show "sevens (Suc n) = sevens n @ seven" by (simp add: sevens_def)
  show "sevens 0 = []" "length (sevens n) = n * 7" "length seven = 7"
    by (simp_all add: sevens_def length_concat sum_list_replicate seven_def)
qed

lemma sevens_nth: "k < n * 7 \<Longrightarrow> sevens n ! k = seven ! (k mod 7)"
proof (induction n)
  case (Suc n)
  show ?case
  proof (cases "k < n * 7")
    case True
    then show ?thesis using Suc by (simp add: sevens_simps nth_append)
  next
    case False
    moreover have "k < n * 7 + 7" using Suc.prems by simp
    ultimately have "k - n * 7 < 7" "k = k - n * 7 + n * 7" by linarith+
    then have "k mod 7 = k - n * 7" by (metis mod_mult_self1 mod_less)
    then show ?thesis using False by (simp add: sevens_simps nth_append)
  qed
qed simp

lemma check_chunks_passes:
  assumes "deque_rep bl (sevens (CHUNK_SIZE * 8))" "window_start bl = 0"
  shows "check_chunks bl cursor = Some ()"
proof (induction "CHUNK_SIZE * 8 * 7 - cursor" arbitrary: cursor rule: less_induct)
  case less
  show ?case
  proof (cases "cursor < CHUNK_SIZE * 8 * 7")
    case True
    let ?xs = "sevens (CHUNK_SIZE * 8)"
    obtain c where c: "bd_get_chunk bl cursor = Some c" "c \<noteq> []" "prefix c (drop cursor ?xs)"
      using bd_get_chunk_rep [OF assms(1), of cursor] assms(2) True by (auto simp: sevens_simps)
    have "c ! i = seven ! ((cursor + i) mod 7) \<and> cursor + i < CHUNK_SIZE * 8 * 7" if "i < length c" for i
    proof -
      have len: "length c \<le> CHUNK_SIZE * 8 * 7 - cursor" using prefix_length_le [OF c(3)] by (simp add: sevens_simps)
      then have lt: "cursor + i < CHUNK_SIZE * 8 * 7" using that by linarith
      have "c ! i = drop cursor ?xs ! i" using c(3) that by (auto simp: prefix_def nth_append)
      then show ?thesis using lt sevens_nth [OF lt] by (simp add: sevens_simps)
    qed
    then have "\<exists>u. foldM (\<lambda>i _. assert_that (c ! i = seven ! ((cursor + i) mod 7))) [0..<length c] () = Some u \<and> True"
      by (intro foldM_inv) auto
    moreover have "check_chunks bl (cursor + length c) = Some ()"
      using True c(2) by (intro less) (cases c, auto)
    ultimately show ?thesis using c(1) True by (subst check_chunks.simps) (simp add: sevens_simps)
  next
    case False
    then show ?thesis by (subst check_chunks.simps) (simp add: sevens_simps)
  qed
qed

theorem get_chunk_passes: "test_get_chunk = Some ()"
proof -
  let ?I = "\<lambda>i bl. deque_rep bl (sevens i) \<and> window_start bl = 0"
  let ?f = "\<lambda>i bl. do {
      bl \<leftarrow> write_all bl seven;
      assert_that (window_end bl = (i + 1) * length seven);
      Some bl
    }"
  have "\<exists>bl. foldM ?f [0..<CHUNK_SIZE * 8] bd_new = Some bl \<and> ?I (CHUNK_SIZE * 8) bl"
  proof (rule foldM_inv)
    fix i bl assume I: "?I i bl"
    obtain d where d: "write_all bl seven = Some d" "deque_rep d (sevens i @ seven)"
      "discarded_chunks d = discarded_chunks bl"
      using write_all_rep [OF conjunct1 [OF I]] by blast
    then show "\<exists>s'. ?f i bl = Some s' \<and> ?I (Suc i) s'"
      using I deque_rep_len [OF d(2)] by (simp add: sevens_simps window_start_def)
  qed (simp add: sevens_simps)
  then obtain bl where "foldM ?f [0..<CHUNK_SIZE * 8] bd_new = Some bl" "?I (CHUNK_SIZE * 8) bl" by blast
  then show ?thesis using check_chunks_passes unfolding test_get_chunk_def by simp
qed

theorem discard_data_immediately_passes: "0 < cap \<Longrightarrow> test_discard_data_immediately cap = Some ()"
proof -
  assume cap: "0 < cap"
  let ?I = "\<lambda>i bl. deque_rep bl (sevens i) \<and> window_start bl \<le> i * 7"
  let ?f = "\<lambda>i bl. do {
      bl \<leftarrow> write_all bl seven;
      got \<leftarrow> read_to_end bd_ops cap (reader_from bl (i * length seven)) [];
      assert_that (seven = got);
      Some (bd_discard bl ((i + 1) * length seven))
    }"
  have "\<exists>bl. foldM ?f [0..<CHUNK_SIZE * 8] bd_new = Some bl \<and> ?I (CHUNK_SIZE * 8) bl"
  proof (rule foldM_inv)
    fix i bl assume I: "?I i bl"
    obtain d where d: "write_all bl seven = Some d" "deque_rep d (sevens i @ seven)"
      "discarded_chunks d = discarded_chunks bl"
      using write_all_rep [OF conjunct1 [OF I]] by blast
    have ws: "window_start d \<le> i * 7" using I d(3) by (simp add: window_start_def)
    have "read_to_end bd_ops cap (reader_from d (i * 7)) [] = Some seven"
      using bd.read_to_upto_rep [OF d(2) ws cap, of "[]"] by (simp add: sevens_simps)
    then show "\<exists>s'. ?f i bl = Some s' \<and> ?I (Suc i) s'"
      using d(1) bd_discard_rep [OF d(2)] window_start_discard_le [of d "7 + i * 7"] ws by (simp add: sevens_simps)
  qed (simp add: sevens_simps)
  then show ?thesis unfolding test_discard_data_immediately_def by auto
qed

theorem discard_data_immediately_passes_witness: "test_discard_data_immediately 32 = Some ()"
  by (simp add: discard_data_immediately_passes)

text \<open>A deque that ends before its window or at its start has no chunks.\<close>

lemma no_chunks: "deque_rep d xs \<Longrightarrow> length xs \<le> window_start d \<Longrightarrow> chunks d = []"
  by (cases "length xs < window_start d") (auto simp: deque_rep_def deque_inv_def)

lemma write_discarded:
  assumes "write_all bd_new xs = Some d"
  shows "deque_rep (bd_discard d n) xs" "window_start (bd_discard d n) = n div CHUNK_SIZE * CHUNK_SIZE"
proof -
  have "deque_rep d xs" "window_start d = 0"
    using write_all_rep [OF deque_rep_new, of xs] assms by (auto simp: window_start_def)
  then show "deque_rep (bd_discard d n) xs" "window_start (bd_discard d n) = n div CHUNK_SIZE * CHUNK_SIZE"
    by (simp_all add: bd_discard_rep window_start_discard)
qed

lemma write_on:
  assumes "deque_rep d xs"
  obtains e where "write_all d ys = Some e" "deque_rep e (xs @ ys)" "window_start e = window_start d"
  using write_all_rep [OF assms, of ys] by (auto simp: window_start_def)

theorem chunks_are_discarded_beyond_end_passes: "test_chunks_are_discarded_beyond_end = Some ()"
proof -
  let ?data = "replicate CHUNK_SIZE (1 :: byte)" and ?data2 = "replicate (CHUNK_SIZE div 2) (1 :: byte)"
  obtain a where a: "write_all bd_new ?data = Some a" using write_on [OF deque_rep_new] by blast
  let ?b = "bd_discard a (CHUNK_SIZE * 2)"
  have b: "deque_rep ?b ?data" "window_start ?b = CHUNK_SIZE * 2"
    using write_discarded [OF a, of "CHUNK_SIZE * 2"] by simp_all
  obtain c where c: "write_all ?b ?data2 = Some c" "deque_rep c (?data @ ?data2)" "window_start c = CHUNK_SIZE * 2"
    using write_on [OF b(1)] b(2) by metis
  obtain d where d: "write_all c ?data2 = Some d" "deque_rep d ((?data @ ?data2) @ ?data2)" "window_start d = CHUNK_SIZE * 2"
    using write_on [OF c(2)] c(3) by metis
  have "chunks ?b = []" "chunks c = []" "chunks d = []"
    using no_chunks [OF b(1)] no_chunks [OF c(2)] no_chunks [OF d(2)] b(2) c(3) d(3) by simp_all
  then show ?thesis using a c(1) d(1) by (simp add: test_chunks_are_discarded_beyond_end_def)
qed

theorem partial_write_after_discard_passes: "0 < cap \<Longrightarrow> test_partial_write_after_discard cap = Some ()"
proof -
  assume cap: "0 < cap"
  let ?data1 = "replicate (CHUNK_SIZE - 4) (1 :: byte)" and ?data2 = "replicate 8 (2 :: byte)"
  obtain a where a: "write_all bd_new ?data1 = Some a" using write_on [OF deque_rep_new] by blast
  let ?b = "bd_discard a CHUNK_SIZE"
  have b: "deque_rep ?b ?data1" "window_start ?b = CHUNK_SIZE" using write_discarded [OF a, of CHUNK_SIZE] by simp_all
  obtain c where c: "write_all ?b ?data2 = Some c" "deque_rep c (?data1 @ ?data2)" "window_start c = CHUNK_SIZE"
    using write_on [OF b(1)] b(2) by metis
  have "drop CHUNK_SIZE (?data1 @ ?data2) = replicate 4 2" by (simp add: CHUNK_SIZE_def)
  then have "read_to_end bd_ops cap (reader_from c CHUNK_SIZE) [] = Some (replicate 4 2)"
    using bd.read_to_upto_rep [OF c(2) _ cap, of CHUNK_SIZE "[]"] c(3) by simp
  then show ?thesis using a c(1) by (simp add: test_partial_write_after_discard_def)
qed

theorem partial_write_after_discard_passes_witness: "test_partial_write_after_discard 32 = Some ()"
  by (simp add: partial_write_after_discard_passes)

text \<open>The two chunks that the last test writes.\<close>

lemma two_chunks:
  "\<exists>d. write_all bd_new (replicate (CHUNK_SIZE - 4) 1) = Some d \<and>
     write_all d (replicate 8 2) = Some \<lparr>chunks = [replicate (CHUNK_SIZE - 4) 1 @ replicate 4 2,
       replicate 4 2 @ replicate (CHUNK_SIZE - 4) 0], discarded_chunks = 0, window_end = CHUNK_SIZE + 4\<rparr>"
proof -
  let ?d = "\<lparr>chunks = [replicate (CHUNK_SIZE - 4) 1 @ replicate 4 0], discarded_chunks = 0, window_end = CHUNK_SIZE - 4\<rparr>"
  let ?e = "\<lparr>chunks = [replicate (CHUNK_SIZE - 4) 1 @ replicate 4 2], discarded_chunks = 0, window_end = CHUNK_SIZE\<rparr>"
  note defs = append_some_def get_last_chunk_def no_space_in_last_chunk_def window_size_def window_start_def bd_new_def
  have "append_some bd_new (replicate (CHUNK_SIZE - 4) 1) = Some (?d, CHUNK_SIZE - 4)"
    by (simp add: defs CHUNK_SIZE_def Let_def)
  then have d: "write_all bd_new (replicate (CHUNK_SIZE - 4) 1) = Some ?d"
    by (simp add: write_all.simps CHUNK_SIZE_def)
  have "append_some ?d (replicate 8 2) = Some (?e, 4)"
    by (simp add: defs CHUNK_SIZE_def Let_def)
  moreover have "append_some ?e (replicate 4 2) = Some (\<lparr>chunks = [replicate (CHUNK_SIZE - 4) 1 @ replicate 4 2,
       replicate 4 2 @ replicate (CHUNK_SIZE - 4) 0], discarded_chunks = 0, window_end = CHUNK_SIZE + 4\<rparr>, 4)"
    by (simp add: defs CHUNK_SIZE_def Let_def)
  ultimately have "write_all ?d (replicate 8 2) = Some \<lparr>chunks = [replicate (CHUNK_SIZE - 4) 1 @ replicate 4 2,
       replicate 4 2 @ replicate (CHUNK_SIZE - 4) 0], discarded_chunks = 0, window_end = CHUNK_SIZE + 4\<rparr>"
    by (simp add: write_all.simps)
  with d show ?thesis by blast
qed

theorem iter_chunks_passes: "test_iter_chunks = Some ()"
proof -
  obtain d where d: "write_all bd_new (replicate (CHUNK_SIZE - 4) 1) = Some d"
    "write_all d (replicate 8 2) = Some \<lparr>chunks = [replicate (CHUNK_SIZE - 4) 1 @ replicate 4 2,
       replicate 4 2 @ replicate (CHUNK_SIZE - 4) 0], discarded_chunks = 0, window_end = CHUNK_SIZE + 4\<rparr>"
    using two_chunks by blast
  have "replicate 5 x = [x, x, x, x, x]" "replicate 4 x = [x, x, x, x]" "replicate 2 x = [x, x]" "replicate 1 x = [x]" for x :: byte
    by (simp_all add: numeral_eq_Suc)
  then show ?thesis using d
    by (simp add: test_iter_chunks_def iter_chunks_def iter_all.simps iter_next_def bd_ops_def bd_get_chunk_def window_size_def
        window_start_def CHUNK_SIZE_def Let_def)
qed

end
