(* ===== verification/Test_Timers.thy ===== *)
theory Test_Timers
  imports Empty_Counter Live_Connection Evaluation
begin

text \<open>
  The unit tests of \<open>src/util/empty_counter.rs\<close> and \<open>src/util/timeout.rs\<close>, run on the model. A test passes if it returns.
  The clock is paused: it jumps to the next timer that a task waits for, in milliseconds here, and in seconds for
  the timeouts. What \<open>select!\<close> polls first is the argument \<open>first\<close>.
\<close>

subsection \<open>Counters in time\<close>

text \<open>What the tasks that hold a counter do, and what they expect of the waiting task when they let it go.\<close>

datatype hold_event = Enter | Leave "bool option"

definition hold_counter :: "nat \<Rightarrow> nat \<Rightarrow> bool option \<Rightarrow> (nat \<times> hold_event) list" where
  "hold_counter wait_ms hold_end_ms awakened = [(wait_ms, Enter), (hold_end_ms, Leave awakened)]"

record timed =
  td_counter :: empty_counter
  td_waiter :: waiter
  td_awakened :: "nat option"

text \<open>A poll of the waiting task takes its turns until it is pending.\<close>

partial_function (option) poll_waiter :: "bool \<Rightarrow> nat \<Rightarrow> channel \<Rightarrow> waiter \<Rightarrow> waiter option" where
  "poll_waiter first now ch w =
     (case wait_step first now ch w of
        None \<Rightarrow> Some w
      | Some w' \<Rightarrow> poll_waiter first now ch w')"

definition poll_at :: "bool \<Rightarrow> nat \<Rightarrow> timed \<Rightarrow> timed option" where
  "poll_at first now s =
     do {
       w \<leftarrow> poll_waiter first now (counter (td_counter s)) (td_waiter s);
       Some (s\<lparr>td_waiter := w,
               td_awakened := (if td_awakened s = None \<and> wt_phase w = Returned then Some now else td_awakened s)\<rparr>)
     }"

text \<open>The sleeps of the waiting task that end before a time.\<close>

partial_function (option) sleep_until :: "bool \<Rightarrow> nat \<Rightarrow> timed \<Rightarrow> timed option" where
  "sleep_until first now s =
     (case wt_phase (td_waiter s) of
        Sleeping d \<Rightarrow>
          if d < now then do { s \<leftarrow> poll_at first d s; sleep_until first now s } else Some s
      | _ \<Rightarrow> Some s)"

declare poll_waiter.simps [code] sleep_until.simps [code]

fun hold_step :: "hold_event \<Rightarrow> timed \<Rightarrow> timed option" where
  "hold_step Enter s = do { c \<leftarrow> ec_inc (td_counter s); Some (s\<lparr>td_counter := c\<rparr>) }"
| "hold_step (Leave awakened) s =
     do {
       c \<leftarrow> ec_dec (td_counter s);
       assert_that (case awakened of None \<Rightarrow> True | Some b \<Rightarrow> b = (td_awakened s \<noteq> None));
       Some (s\<lparr>td_counter := c\<rparr>)
     }"

fun join_holds :: "bool \<Rightarrow> (nat \<times> hold_event) list \<Rightarrow> timed \<Rightarrow> timed option" where
  "join_holds first [] s = Some s"
| "join_holds first ((t, ev) # evs) s =
     do {
       s \<leftarrow> sleep_until first t s;
       s \<leftarrow> hold_step ev s;
       s \<leftarrow> poll_at first t s;
       join_holds first evs s
     }"

text \<open>
  All tasks together, with the time after which the test is over. A task that begins to hold the counter at once does so
  before or after the first poll of the waiting task, which is \<open>early\<close>. The result is when the wait ended.
\<close>

definition run_holds :: "bool \<Rightarrow> bool \<Rightarrow> nat \<Rightarrow> (nat \<times> hold_event) list list \<Rightarrow> (timed \<times> nat) option" where
  "run_holds first early lim tasks =
     do {
       let evs = sort_key fst (concat tasks);
       let s = \<lparr>td_counter = ec_new, td_waiter = wait_until_empty_for ec_new 100, td_awakened = None\<rparr>;
       assert_that (\<forall>(t, _) \<in> set evs. t < lim);
       s \<leftarrow> (if early \<and> evs \<noteq> [] \<and> fst (hd evs) = 0 then Some s else poll_at first 0 s);
       s \<leftarrow> join_holds first evs s;
       s \<leftarrow> sleep_until first lim s;
       after \<leftarrow> td_awakened s;
       Some (s, after)
     }"

definition test_empty_counter_one_waiter :: "bool \<Rightarrow> bool \<Rightarrow> unit option" where
  "test_empty_counter_one_waiter first early =
     do {
       (_, after) \<leftarrow> run_holds first early 300 [hold_counter 20 70 (Some False)];
       assert_that (after > 120);
       assert_that (after < 200)
     }"

definition test_empty_counter_no_waiters :: "bool \<Rightarrow> bool \<Rightarrow> unit option" where
  "test_empty_counter_no_waiters first early =
     do {
       (_, after) \<leftarrow> run_holds first early 300 [];
       assert_that (after > 90);
       assert_that (after < 200)
     }"

definition test_empty_counter_multiple_waiters_breaks :: "bool \<Rightarrow> bool \<Rightarrow> unit option" where
  "test_empty_counter_multiple_waiters_breaks first early =
     do {
       let counter_1 = hold_counter 0 50 (Some False);
       let counter_2 = hold_counter 120 220 (Some False);
       let counter_3 = hold_counter 300 350 (Some False);
       let counter_4 = hold_counter 500 600 (Some True);
       (_, after) \<leftarrow> run_holds first early 1000 [counter_1, counter_2, counter_3, counter_4];
       assert_that (after > 420);
       assert_that (after < 500)
     }"

definition test_empty_counter_multiple_waiters_concurrent :: "bool \<Rightarrow> bool \<Rightarrow> unit option" where
  "test_empty_counter_multiple_waiters_concurrent first early =
     do {
       let counter_1 = hold_counter 0 120 (Some False);
       let counter_2 = hold_counter 50 220 (Some False);
       let counter_3 = hold_counter 350 420 (Some True);
       let counter_4 = hold_counter 350 420 (Some True);
       (_, after) \<leftarrow> run_holds first early 1000 [counter_1, counter_2, counter_3, counter_4];
       assert_that (after > 300);
       assert_that (after < 350)
     }"

text \<open>The second wait starts when the first one is over.\<close>

definition test_empty_counter_wait_twice :: "bool \<Rightarrow> bool \<Rightarrow> unit option" where
  "test_empty_counter_wait_twice first early =
     do {
       let counter_1 = hold_counter 0 100 None;
       (s, first_end) \<leftarrow> run_holds first early 1000 [counter_1];
       let s = s\<lparr>td_waiter := wait_until_empty (td_counter s), td_awakened := None\<rparr>;
       s \<leftarrow> poll_at first first_end s;
       s \<leftarrow> sleep_until first 1000 s;
       after \<leftarrow> td_awakened s;
       assert_that (after > 150);
       assert_that (after < 300)
     }"

subsection \<open>Timeouts\<close>

text \<open>Some work that takes a number of seconds.\<close>

definition work :: "nat \<Rightarrow> nat future" where
  "work s = Some (s, 1)"

definition timeout_normal :: "bool \<Rightarrow> unit option" where
  "timeout_normal first = do { (_, res) \<leftarrow> timeout first 0 (work 5) 10; assert_that (res = Some 1) }"

definition timeout_timeout :: "bool \<Rightarrow> unit option" where
  "timeout_timeout first = do { (_, res) \<leftarrow> timeout first 0 (work 20) 10; assert_that (res = None) }"

definition cancel_normal :: "bool \<Rightarrow> unit option" where
  "cancel_normal first = do { (_, res) \<leftarrow> cancellable first (work 5) (Some 10); assert_that (res \<noteq> None) }"

definition cancel_cancelled :: "bool \<Rightarrow> unit option" where
  "cancel_cancelled first = do { (_, res) \<leftarrow> cancellable first (work 20) (Some 10); assert_that (res = None) }"

subsection \<open>They pass\<close>

lemmas timer_eval =
  run_holds_def hold_counter_def poll_at_def poll_waiter.simps sleep_until.simps wait_step_def wait_head_def await_new_count_def
  wait_until_empty_for_def wait_until_empty_def ec_new_def ec_inc_def ec_dec_def send_def usize_max_def Let_def

lemma empty_counter_one_waiter_passes: "test_empty_counter_one_waiter first early = Some ()"
  by (cases first; cases early; simp add: test_empty_counter_one_waiter_def timer_eval cong: bind_weak option.case_cong_weak)

lemma empty_counter_no_waiters_passes: "test_empty_counter_no_waiters first early = Some ()"
  by (cases first; cases early; simp add: test_empty_counter_no_waiters_def timer_eval cong: bind_weak option.case_cong_weak)

lemma empty_counter_multiple_waiters_breaks_passes: "test_empty_counter_multiple_waiters_breaks first early = Some ()"
  by (cases first; cases early;
      simp add: test_empty_counter_multiple_waiters_breaks_def timer_eval cong: bind_weak option.case_cong_weak)

lemma empty_counter_multiple_waiters_concurrent_passes: "test_empty_counter_multiple_waiters_concurrent first early = Some ()"
  by (cases first; cases early;
      simp add: test_empty_counter_multiple_waiters_concurrent_def timer_eval cong: bind_weak option.case_cong_weak)

lemma empty_counter_wait_twice_passes: "test_empty_counter_wait_twice first early = Some ()"
  by (cases first; cases early; simp add: test_empty_counter_wait_twice_def timer_eval cong: bind_weak option.case_cong_weak)

lemma timeouts_pass:
  "timeout_normal first = Some ()" "timeout_timeout first = Some ()" "cancel_normal first = Some ()"
  "cancel_cancelled first = Some ()"
  by (simp_all add: timeout_normal_def timeout_timeout_def cancel_normal_def cancel_cancelled_def work_def timeout_def
      cancellable_def until_def)

end
