(* ===== verification/Test_Headers.thy ===== *)
theory Test_Headers
  imports Live_Connection Replay_Header_Facts
begin

text \<open>
  The unit tests of \<open>src/accept/header.rs\<close>, of \<open>read_until_exact\<close> in \<open>src/server/connection.rs\<close> and of
  \<open>src/replay/streams/header.rs\<close>, run on the model with a reader of given bytes. A test passes if it returns.
\<close>

subsection \<open>The header of a connection\<close>

type_synonym test_conn = "(list_reader, unit) connection"

definition conn_from_read_data :: "byte list \<Rightarrow> test_conn" where
  "conn_from_read_data data = \<lparr>cn_reader = (data, None), cn_writer = (), cn_header = None, cn_id = []\<rparr>"

text \<open>The text of a byte string.\<close>

definition bytes :: "string \<Rightarrow> byte list" where
  "bytes s = map (\<lambda>c. of_nat (of_char c)) s"

text \<open>Reading, followed by \<open>unwrap\<close> and \<open>get_header\<close>, or by \<open>err().unwrap()\<close>.\<close>

definition header_of :: "byte list \<Rightarrow> connection_header option" where
  "header_of data =
     (case read_and_set_connection_header list_reader_ops (conn_from_read_data data) metrics_new of
        (Inr _, c, _) \<Rightarrow> get_header c
      | (Inl _, _) \<Rightarrow> None)"

definition error_of :: "byte list \<Rightarrow> connection_error option" where
  "error_of data =
     (case read_and_set_connection_header list_reader_ops (conn_from_read_data data) metrics_new of
        (Inl e, _) \<Rightarrow> Some e
      | _ \<Rightarrow> None)"

fun is_bad_data :: "connection_error \<Rightarrow> bool" where
  "is_bad_data (BadData _) = True"
| "is_bad_data _ = False"

definition expect_bad_data :: "byte list \<Rightarrow> unit option" where
  "expect_bad_data data = do { err \<leftarrow> error_of data; assert_that (is_bad_data err) }"

definition test_connection_header_type :: "unit option" where
  "test_connection_header_type =
     do {
       h \<leftarrow> header_of (bytes ''P/1/foo'' @ [0]);
       assert_that (ch_type h = Writer);
       h \<leftarrow> header_of (bytes ''G/1/foo'' @ [0]);
       assert_that (ch_type h = Reader)
     }"

definition test_connection_header_invalid_type :: "unit option" where
  "test_connection_header_invalid_type = expect_bad_data (bytes ''U/1/foo'' @ [0])"

definition test_connection_header_type_short_data :: "unit option" where
  "test_connection_header_type_short_data =
     foldM (\<lambda>short_data _. do { err \<leftarrow> error_of short_data; assert_that (err = NoData) }) [[], bytes ''P''] ()"

definition test_connection_header_replay_info :: "unit option" where
  "test_connection_header_replay_info =
     do {
       h \<leftarrow> header_of (bytes ''G/1/foo'' @ [0]);
       assert_that (ch_id h = 1);
       assert_that (ch_name h = bytes ''foo'')
     }"

definition test_connection_header_replay_uid_not_int :: "unit option" where
  "test_connection_header_replay_uid_not_int = expect_bad_data (bytes ''G/bar/foo'' @ [0])"

definition test_connection_header_replay_info_no_null_end :: "unit option" where
  "test_connection_header_replay_info_no_null_end = expect_bad_data (bytes ''G/1/foo'')"

definition test_connection_header_replay_info_no_delimiter :: "unit option" where
  "test_connection_header_replay_info_no_delimiter = expect_bad_data (bytes ''G/1'' @ [0])"

definition test_connection_header_replay_info_more_slashes :: "unit option" where
  "test_connection_header_replay_info_more_slashes =
     do {
       h \<leftarrow> header_of (bytes ''G/1/name/with/slash'' @ [0]);
       assert_that (ch_id h = 1);
       assert_that (ch_name h = bytes ''name/with/slash'')
     }"

definition test_connection_header_replay_info_invalid_unicode :: "unit option" where
  "test_connection_header_replay_info_invalid_unicode = expect_bad_data (bytes ''G/1/foo '' @ [0xc0] @ bytes '' bar'' @ [0])"

definition test_connection_header_replay_info_limit_overrun :: "unit option" where
  "test_connection_header_replay_info_limit_overrun =
     (let data = bytes ''G/1/'' @ concat (replicate 1024 (bytes ''foo '')) @ [0]
      in expect_bad_data data)"

definition test_connection_header_replay_info_negative_id :: "unit option" where
  "test_connection_header_replay_info_negative_id = expect_bad_data (bytes ''G/-1/foo'' @ [0])"

subsection \<open>Reading up to a byte\<close>

definition read_until_exact_normal :: "unit option" where
  "read_until_exact_normal =
     (case read_until_exact list_reader_ops ([1, 2, 3, 4, 5], None) None 3 [] of
        Inr (val, data, _) \<Rightarrow> do { assert_that (val = 3); assert_that (data = [1, 2, 3]) }
      | Inl _ \<Rightarrow> None)"

definition read_until_exact_missing :: "unit option" where
  "read_until_exact_missing =
     (case read_until_exact list_reader_ops ([1, 2, 3, 4, 5], None) None 8 [] of Inr _ \<Rightarrow> None | Inl _ \<Rightarrow> Some ())"

definition read_until_exact_empty :: "unit option" where
  "read_until_exact_empty =
     (case read_until_exact list_reader_ops ([], None) None 0 [] of Inr _ \<Rightarrow> None | Inl _ \<Rightarrow> Some ())"

subsection \<open>The header of a replay\<close>

text \<open>The example file is an argument, and the tests pass for every well-formed header of its size.\<close>

definition example_header :: "byte list \<Rightarrow> unit option" where
  "example_header example =
     (case from_connection list_reader_ops (example, None) of
        Inr (header, _) \<Rightarrow> assert_that (header = example)
      | Inl _ \<Rightarrow> None)"

definition short_header :: "byte list \<Rightarrow> unit option" where
  "short_header example =
     foldM (\<lambda>i _. case from_connection list_reader_ops (take i example, None) of Inr _ \<Rightarrow> None | Inl _ \<Rightarrow> Some ())
       [0..<length example] ()"

definition too_large_header :: "byte list \<Rightarrow> unit option" where
  "too_large_header example =
     do {
       let long_header = replicate (MAX_SIZE - 500) 1 @ example;
       (case from_connection list_reader_ops (long_header, None) of Inr _ \<Rightarrow> None | Inl _ \<Rightarrow> Some ());
       let short_header = replicate (MAX_SIZE - 2000) 1 @ example;
       (case from_connection list_reader_ops (short_header, None) of Inr _ \<Rightarrow> Some () | Inl _ \<Rightarrow> None)
     }"

subsection \<open>They pass\<close>

lemmas header_eval =
  header_of_def error_of_def expect_bad_data_def conn_from_read_data_def bytes_def read_and_set_connection_header_def
  read_connection_header_def read_type_def list_reader_ops_def clip_def read_game_data_def read_until_exact_def upto_def
  fails_at_def list_rest_def list_fate_def split_slash_def ok_or_def from_utf8_def parse_u64_def digit_def
  set_header_def get_header_def bad_data_def Let_def

lemma connection_header_type_passes: "test_connection_header_type = Some ()"
  by (simp add: test_connection_header_type_def header_eval)

lemma connection_header_invalid_type_passes: "test_connection_header_invalid_type = Some ()"
  by (simp add: test_connection_header_invalid_type_def header_eval)

lemma connection_header_type_short_data_passes: "test_connection_header_type_short_data = Some ()"
  by (simp add: test_connection_header_type_short_data_def header_eval)

lemma connection_header_replay_info_passes: "test_connection_header_replay_info = Some ()"
  by (simp add: test_connection_header_replay_info_def header_eval)

lemma connection_header_replay_uid_not_int_passes: "test_connection_header_replay_uid_not_int = Some ()"
  by (simp add: test_connection_header_replay_uid_not_int_def header_eval)

lemma connection_header_replay_info_no_null_end_passes: "test_connection_header_replay_info_no_null_end = Some ()"
  by (simp add: test_connection_header_replay_info_no_null_end_def header_eval)

lemma connection_header_replay_info_no_delimiter_passes: "test_connection_header_replay_info_no_delimiter = Some ()"
  by (simp add: test_connection_header_replay_info_no_delimiter_def header_eval)

lemma connection_header_replay_info_more_slashes_passes: "test_connection_header_replay_info_more_slashes = Some ()"
  by (simp add: test_connection_header_replay_info_more_slashes_def header_eval)

lemma connection_header_replay_info_invalid_unicode_passes: "test_connection_header_replay_info_invalid_unicode = Some ()"
  by (simp add: test_connection_header_replay_info_invalid_unicode_def header_eval utf8_two_def utf8_three_def utf8_four_def)

lemma connection_header_replay_info_negative_id_passes: "test_connection_header_replay_info_negative_id = Some ()"
  by (simp add: test_connection_header_replay_info_negative_id_def header_eval)

lemma read_until_exact_passes:
  "read_until_exact_normal = Some ()" "read_until_exact_missing = Some ()" "read_until_exact_empty = Some ()"
  by (simp_all add: read_until_exact_normal_def read_until_exact_missing_def read_until_exact_empty_def header_eval)

text \<open>Four thousand bytes without a zero are too many for the first line.\<close>

lemma connection_header_replay_info_limit_overrun_passes: "test_connection_header_replay_info_limit_overrun = Some ()"
proof -
  let ?foos = "concat (replicate 1024 (bytes ''foo ''))"
  let ?c = "([49, 47] @ ?foos @ [0], None) :: list_reader"
  have kind: "read_type list_reader_ops (bytes ''G/1/'' @ ?foos @ [0], None) = Inr (Reader, ?c)"
    by (simp add: header_eval)
  have no_zero: "\<forall>x \<in> set ([49, 47] @ ?foos). x \<noteq> 0" by (auto simp: bytes_def)
  have long: "length ([49, 47] @ ?foos) = 4098" by (simp add: length_concat sum_list_replicate bytes_def)
  have "\<exists>msg. read_game_data list_reader_ops ?c = Inl (BadData msg)"
  proof (cases "read_game_data list_reader_ops ?c")
    case (Inl e)
    then show ?thesis using read_game_data_spec(3) [OF list_reader_laws Inl] by blast
  next
    case (Inr r)
    then obtain gid name c' where "read_game_data list_reader_ops ?c = Inr ((gid, name), c')" by (cases r) auto
    from read_game_data_spec(1) [OF list_reader_laws this] obtain line where
      line: "list_rest ?c = line @ 0 # list_rest c'" "0 \<notin> set line" "length line < 1024"
      by (auto simp: list_rest_def)
    have "takeWhile (\<lambda>x. x \<noteq> 0) (line @ 0 # list_rest c') = line"
      using line(2) by (subst takeWhile_append2) auto
    moreover have "takeWhile (\<lambda>x. x \<noteq> 0) (([49, 47] @ ?foos) @ [0]) = [49, 47] @ ?foos"
      using no_zero by (subst takeWhile_append2) auto
    moreover have "line @ 0 # list_rest c' = ([49, 47] @ ?foos) @ [0]" using line(1) by (simp add: list_rest_def)
    ultimately have "line = [49, 47] @ ?foos" by metis
    then show ?thesis using line(3) long by simp
  qed
  then obtain msg where "read_game_data list_reader_ops ?c = Inl (BadData msg)" by blast
  with kind have "read_connection_header list_reader_ops (bytes ''G/1/'' @ ?foos @ [0], None) = Inl (BadData msg)"
    by (simp add: read_connection_header_def)
  then show ?thesis
    by (simp add: test_connection_header_replay_info_limit_overrun_def expect_bad_data_def error_of_def
        read_and_set_connection_header_def conn_from_read_data_def Let_def)
qed

theorem example_header_passes:
  "header_wf h \<Longrightarrow> length (encode_header h) \<le> MAX_SIZE \<Longrightarrow> example_header (encode_header h) = Some ()"
  using from_connection_takes(1) [OF takes_header [OF list_reader_laws], of h "(encode_header h, None)"]
  by (auto simp: example_header_def list_rest_def)

theorem example_header_passes_witness: "example_header (encode_header demo_header) = Some ()"
  by (rule example_header_passes [OF demo_header_wf]) (simp add: demo_header_length MAX_SIZE_def)

theorem short_header_passes:
  assumes "header_wf h" and "length (encode_header h) \<le> MAX_SIZE"
  shows "short_header (encode_header h) = Some ()"
proof -
  let ?f = "\<lambda>i _. case from_connection list_reader_ops (take i (encode_header h), None) of Inr _ \<Rightarrow> None | Inl _ \<Rightarrow> Some ()"
  have "\<exists>u. foldM ?f [0..<length (encode_header h)] () = Some u \<and> True"
  proof (rule foldM_inv)
    fix i u assume i: "i < length (encode_header h)"
    let ?c = "(take i (encode_header h), None) :: list_reader"
    have "take MAX_SIZE (list_rest ?c) = take i (encode_header h)" using i assms(2) by (simp add: list_rest_def)
    then have "from_connection list_reader_ops ?c = Inl (IO (eof_error list_rest list_fate ?c MAX_SIZE))"
      using take_strict_prefix [OF i] by (intro from_connection_takes(2) [OF takes_header [OF list_reader_laws assms(1)]]) simp
    then show "\<exists>u. ?f i () = Some u \<and> True" by simp
  qed simp
  then show ?thesis by (simp add: short_header_def)
qed

theorem short_header_passes_witness: "short_header (encode_header demo_header) = Some ()"
  by (rule short_header_passes [OF demo_header_wf]) (simp add: demo_header_length MAX_SIZE_def)

text \<open>A longer version string makes a longer header.\<close>

lemma longer_header:
  assumes "header_wf h"
  obtains g where "header_wf g" "encode_header g = replicate n 1 @ encode_header h"
proof
  show "header_wf (h\<lparr>hf_version := replicate n 1 @ hf_version h\<rparr>)" using assms by (simp add: header_wf_def)
  show "encode_header (h\<lparr>hf_version := replicate n 1 @ hf_version h\<rparr>) = replicate n 1 @ encode_header h"
    by (simp add: encode_header_def)
qed

theorem too_large_header_passes:
  assumes "header_wf h" and "500 < length (encode_header h)" and "length (encode_header h) \<le> 2000"
  shows "too_large_header (encode_header h) = Some ()"
proof -
  let ?long = "replicate (MAX_SIZE - 500) 1 @ encode_header h" and ?short = "replicate (MAX_SIZE - 2000) 1 @ encode_header h"
  obtain g where g: "header_wf g" "encode_header g = ?long" using longer_header [OF assms(1)] by metis
  have "MAX_SIZE < length ?long" using assms(2) by (simp add: MAX_SIZE_def)
  then have "strict_prefix (take MAX_SIZE (list_rest (?long, None))) (encode_header g)"
    using take_strict_prefix [of MAX_SIZE ?long] g(2) by (simp add: list_rest_def)
  then have 1: "from_connection list_reader_ops (?long, None) = Inl (IO (eof_error list_rest list_fate (?long, None) MAX_SIZE))"
    by (rule from_connection_takes(2) [OF takes_header [OF list_reader_laws g(1)]])
  obtain k where k: "header_wf k" "encode_header k = ?short" using longer_header [OF assms(1)] by metis
  have "length ?short \<le> MAX_SIZE" using assms(3) by (simp add: MAX_SIZE_def)
  then have "prefix (encode_header k) (take MAX_SIZE (list_rest (?short, None)))" using k(2) by (simp add: list_rest_def)
  then obtain c' where "from_connection list_reader_ops (?short, None) = Inr (encode_header k, c')"
    using from_connection_takes(1) [OF takes_header [OF list_reader_laws k(1)]] by blast
  with 1 show ?thesis by (simp add: too_large_header_def Let_def)
qed

end
