(* ===== verification/Test_Data.thy ===== *)
theory Test_Data
  imports Queries Saved_Path Config
begin

text \<open>
  The unit tests of \<open>src/config.rs\<close>, \<open>src/database/\<close> and \<open>src/replay/save/directory.rs\<close>, run on the
  model. A test passes if it returns. The files of \<open>test/resources/\<close> are documents of \<open>document_ops\<close>, the mock of the
  database answers every query with the same rows, and a time is its seconds since the epoch.
\<close>

subsection \<open>Configuration\<close>

definition default_config :: InnerSettings where
  "default_config =
     \<lparr>server = \<lparr>port = Some 15000, websocket_port = Some 15001, prometheus_port = 8001, worker_threads = 8,
        connection_accept_timeout_s = 7200 * NANOS\<rparr>,
      database = \<lparr>pool_size = 8, db_host = ''localhost'', db_port = 3306, db_user = ''root'', db_password = ''banana'',
        db_name = ''faf''\<rparr>,
      storage = \<lparr>vault_path = ''/tmp/foo'', compression_level = 10\<rparr>,
      replay = \<lparr>forced_timeout_s = 3600 * 6 * NANOS, time_with_zero_writers_to_end_replay_s = 10 * NANOS,
        delay_s = 60 * 5 * NANOS, update_interval_s = 1 * NANOS, merge_quorum_size = 2,
        stream_comparison_distance_b = 4096\<rparr>\<rparr>"

text \<open>The file \<open>example_config.yml\<close>, and the ones that leave ports out.\<close>

abbreviation example_file :: "string \<rightharpoonup> config_value" where
  "example_file \<equiv> example_config 8 2 (Finite 1)"

definition load :: "(string \<rightharpoonup> config_value) \<Rightarrow> string option \<Rightarrow> string option \<Rightarrow> InnerSettings config_result option" where
  "load doc = do_from_env (document_ops ''example_config.yml'' doc)"

fun unwrapped :: "'a config_result option \<Rightarrow> 'a option" where
  "unwrapped (Some (Inr x)) = Some x"
| "unwrapped _ = None"

fun expect_err :: "'a config_result option \<Rightarrow> unit option" where
  "expect_err (Some (Inl e)) = Some ()"
| "expect_err _ = None"

definition test_example_config_load :: "unit option" where
  "test_example_config_load =
     do {
       conf \<leftarrow> unwrapped (load example_file (Some ''example_config.yml'') (Some ''banana''));
       assert_that (conf = default_config)
     }"

definition test_example_config_optional_websocket_port :: "unit option" where
  "test_example_config_optional_websocket_port =
     do {
       conf \<leftarrow> unwrapped (load (example_file(''server.websocket_port'' := None)) (Some ''example_config.yml'') (Some ''banana''));
       let def = default_config\<lparr>server := (server default_config)\<lparr>websocket_port := None\<rparr>\<rparr>;
       assert_that (conf = def)
     }"

definition test_example_config_optional_tcp_port :: "unit option" where
  "test_example_config_optional_tcp_port =
     do {
       conf \<leftarrow> unwrapped (load (example_file(''server.port'' := None)) (Some ''example_config.yml'') (Some ''banana''));
       let def = default_config\<lparr>server := (server default_config)\<lparr>port := None\<rparr>\<rparr>;
       assert_that (conf = def)
     }"

definition test_example_config_at_least_one_port_needs_to_be_set :: "unit option" where
  "test_example_config_at_least_one_port_needs_to_be_set =
     expect_err (load (example_file(''server.port'' := None, ''server.websocket_port'' := None))
       (Some ''example_config.yml'') (Some ''banana''))"

definition test_config_needs_password :: "unit option" where
  "test_config_needs_password = expect_err (load example_file (Some ''example_config.yml'') None)"

definition test_config_needs_file :: "unit option" where
  "test_config_needs_file = expect_err (load example_file None (Some ''banana''))"

text \<open>Loading the example with any ports.\<close>

lemma load_ports:
  assumes "\<forall>n. p = Some n \<or> w = Some n \<longrightarrow> n < 2 ^ 16"
  shows "load (example_file(''server.port'' := map_option IntValue p, ''server.websocket_port'' := map_option IntValue w))
      (Some ''example_config.yml'') (Some ''banana'')
    = Some (if p = None \<and> w = None
        then Inl (Message ''At least one of port, websocket_port must be set in server configuration.'')
        else Inr (default_config\<lparr>server := (server default_config)\<lparr>port := p, websocket_port := w\<rparr>\<rparr>))"
proof -
  define K where "K = document_ops ''example_config.yml''
    (example_file(''server.port'' := map_option IntValue p, ''server.websocket_port'' := map_option IntValue w))"
  define c where "c = (example_file(''server.port'' := map_option IntValue p, ''server.websocket_port'' := map_option IntValue w))
    ++ map_of [(''database.password'', StringValue ''banana'')]"
  have build: "cfg_build K [(''database.password'', ''banana'')] ''example_config.yml'' = Inr c"
    by (simp add: K_def c_def document_ops_def)
  have ports: "cfg_u16_option K c ''server.port'' = Inr p" "cfg_u16_option K c ''server.websocket_port'' = Inr w"
    using assms by (cases p; cases w; simp add: K_def c_def document_ops_def)+
  have one: "float_to_duration (Inr (Finite 1)) = Some (Inr NANOS)"
    by (simp add: float_to_duration_def round_even_def NANOS_def Let_def)
  have others: "cfg_u16 K c ''server.prometheus_port'' = Inr 8001" "cfg_u32 K c ''server.worker_threads'' = Inr 8"
    "cfg_f64 K c ''server.connection_accept_timeout_s'' = Inr (Finite 7200)"
    by (simp_all add: K_def c_def document_ops_def example_config_def)
  have sv: "de_server K c = Some (Inr ((server default_config)\<lparr>port := p, websocket_port := w\<rparr>))"
    by (simp add: de_server_def ports others float_to_duration_seconds default_config_def)
  have db: "de_database K c = Some (Inr (database default_config))"
    by (simp add: de_database_def K_def c_def document_ops_def example_config_def default_config_def)
  have st: "de_storage K c = Some (Inr (storage default_config))"
    by (simp add: de_storage_def K_def c_def document_ops_def example_config_def default_config_def)
  have rp: "de_replay K c = Some (Inr (replay default_config))"
    by (simp add: de_replay_def K_def c_def document_ops_def example_config_def default_config_def float_to_duration_seconds one)
  show ?thesis unfolding load_def K_def [symmetric]
    by (simp add: do_from_env_def ok_or_def build de_settings_def sv db st rp default_config_def)
qed

lemma example_ports:
  "example_file(''server.port'' := Some (IntValue 15000)) = example_file"
  "example_file(''server.websocket_port'' := Some (IntValue 15001)) = example_file"
  by (rule fun_upd_idem; simp add: example_config_def)+

lemma config_tests_pass:
  "test_example_config_load = Some ()" "test_example_config_optional_websocket_port = Some ()"
  "test_example_config_optional_tcp_port = Some ()" "test_example_config_at_least_one_port_needs_to_be_set = Some ()"
  "test_config_needs_password = Some ()" "test_config_needs_file = Some ()"
proof -
  have default_ports: "default_config\<lparr>server := (server default_config)\<lparr>port := Some 15000, websocket_port := Some 15001\<rparr>\<rparr> = default_config"
    "default_config\<lparr>server := (server default_config)\<lparr>port := Some 15000, websocket_port := None\<rparr>\<rparr>
      = default_config\<lparr>server := (server default_config)\<lparr>websocket_port := None\<rparr>\<rparr>"
    "default_config\<lparr>server := (server default_config)\<lparr>port := None, websocket_port := Some 15001\<rparr>\<rparr>
      = default_config\<lparr>server := (server default_config)\<lparr>port := None\<rparr>\<rparr>"
    by (simp_all add: default_config_def)
  have other: "example_file(''server.port'' := None, ''server.websocket_port'' := Some (IntValue 15001))
      = example_file(''server.port'' := None)"
    by (subst fun_upd_twist) (simp_all add: example_ports)
  show "test_example_config_load = Some ()"
    using load_ports [of "Some 15000" "Some 15001"]
    by (simp add: test_example_config_load_def example_ports default_ports)
  show "test_example_config_optional_websocket_port = Some ()"
    using load_ports [of "Some 15000" None]
    by (simp add: test_example_config_optional_websocket_port_def example_ports default_ports)
  show "test_example_config_optional_tcp_port = Some ()"
    using load_ports [of None "Some 15001"]
    by (simp add: test_example_config_optional_tcp_port_def other default_ports)
  show "test_example_config_at_least_one_port_needs_to_be_set = Some ()"
    using load_ports [of None None]
    by (simp add: test_example_config_at_least_one_port_needs_to_be_set_def)
  show "test_config_needs_password = Some ()" "test_config_needs_file = Some ()"
    by (simp_all add: test_config_needs_password_def test_config_needs_file_def load_def do_from_env_def ok_or_def)
qed

subsection \<open>Queries\<close>

definition default_game_stats :: "int game_stat_row" where
  "default_game_stats =
     \<lparr>start_time = 1262304000, end_time = Some 1262307600, game_type = ''DEMORALIZATION'', host = ''user1'',
      game_name = ''2v2 Game'', game_mod = Some ''faf'', file_name = Some ''maps/scmp_001.zip''\<rparr>"

definition mock_database :: "(unit, int, nat) sqlx" where
  "mock_database =
     \<lparr>connect_lazy_with = (\<lambda>_. ()),
      fetch_team_players = (\<lambda>_ _ p. (Inr [\<lparr>login = ''user1'', team = 1\<rparr>, \<lparr>login = ''user2'', team = 1\<rparr>,
        \<lparr>login = ''user3'', team = 2\<rparr>, \<lparr>login = ''user4'', team = 2\<rparr>], p)),
      fetch_game_stats = (\<lambda>_ _ p. (Inr default_game_stats, p)),
      fetch_player_count = (\<lambda>_ _ p. (Inr 4, p)),
      fetch_mod_versions = (\<lambda>_ _ p. (Inr [\<lparr>file_id = 50, version = 3000\<rparr>, \<lparr>file_id = 60, version = 3001\<rparr>,
        \<lparr>file_id = 70, version = 3002\<rparr>], p)),
      execute_query = (\<lambda>_ _ p. (Inr (), p))\<rparr>"

fun ok :: "('e + 'a) \<times> 'p \<Rightarrow> 'a option" where
  "ok (Inr x, p) = Some x"
| "ok (Inl e, p) = None"

definition test_teams_in_game :: "unit option" where
  "test_teams_in_game =
     do {
       teams \<leftarrow> ok (get_teams_in_game mock_database 1 ());
       assert_that (length teams = 2);
       t1 \<leftarrow> bt_get teams 1;
       assert_that (sort t1 = [''user1'', ''user2'']);
       t2 \<leftarrow> bt_get teams 2;
       assert_that (sort t2 = [''user3'', ''user4''])
     }"

definition test_usual_game_stats :: "int \<Rightarrow> unit option" where
  "test_usual_game_stats now_utc =
     do {
       stats \<leftarrow> ok (get_game_stats mock_database (\<lambda>t. t) now_utc 1 ());
       assert_that (gs_featured_mod stats = Some ''faf'');
       assert_that (gs_launched_at stats = 1262304000);
       assert_that (gs_game_end stats = 1262307600);
       assert_that (gs_mapname stats = ''scmp_001'');
       assert_that (gs_num_players stats = 4)
     }"

definition test_game_stats_none_fields :: "int \<Rightarrow> unit option" where
  "test_game_stats_none_fields now_utc =
     do {
       let null_stats = default_game_stats\<lparr>end_time := None, file_name := None\<rparr>;
       let mdb = mock_database\<lparr>fetch_game_stats := (\<lambda>_ _ p. (Inr null_stats, p))\<rparr>;
       stats \<leftarrow> ok (get_game_stats mdb (\<lambda>t. t) now_utc 1 ());
       assert_that (gs_mapname stats = ''None'');
       assert_that (gs_game_end stats > 1577836800)
     }"

definition test_game_mod_versions :: "unit option" where
  "test_game_mod_versions =
     do {
       mods \<leftarrow> ok (get_mod_versions mock_database ''foo'' ());
       assert_that (length mods = 3);
       assert_that (bt_get mods ''50'' = Some 3000);
       assert_that (bt_get mods ''60'' = Some 3001);
       assert_that (bt_get mods ''70'' = Some 3002)
     }"

text \<open>The tests of \<open>src/database/database.rs\<close> in which no row of the real database matters.\<close>

definition test_db_ladder_mod_is_ignored :: "('p, 't, 'e) sqlx \<Rightarrow> 'p \<Rightarrow> unit option" where
  "test_db_ladder_mod_is_ignored X db =
     do {
       mod_data \<leftarrow> ok (get_mod_version_list X ''ladder1v1'' db);
       assert_that (mod_data = [])
     }"

definition test_db_mod_with_odd_characters :: "('p, 't, 'e) sqlx \<Rightarrow> 'p \<Rightarrow> unit option" where
  "test_db_mod_with_odd_characters X db =
     do {
       mod_data \<leftarrow> ok (get_mod_version_list X (''blarg'' @ [CHR 0x27] @ '' OR 1=1--'') db);
       assert_that (mod_data = [])
     }"

subsection \<open>The directory of the replays\<close>

definition test_replay_path_works_as_intended :: "unit option" where
  "test_replay_path_works_as_intended =
     do {
       let dir = directory_new ''./'';
       path_1 \<leftarrow> replay_path dir 1234567;
       assert_that (path_1 = ''./0/1/23/45'');
       path_2 \<leftarrow> replay_path dir 1;
       assert_that (path_2 = ''./0/0/0/0'');
       path_3 \<leftarrow> replay_path dir 5500550055;
       assert_that (path_3 = ''./55/0/55/0'')
     }"

definition test_replay_path_uses_provided_directory :: "unit option" where
  "test_replay_path_uses_provided_directory =
     do {
       path_1 \<leftarrow> replay_path (directory_new ''/tmp/foo'') 1234567;
       assert_that (path_1 = ''/tmp/foo/0/1/23/45'')
     }"

subsection \<open>They pass\<close>

lemmas data_eval =
  get_teams_in_game_def get_team_players_def get_game_stats_def get_game_stat_row_def get_player_count_def
  get_mod_versions_def get_mod_version_list_def mock_database_def default_game_stats_def add_player_def add_version_def
  mod_char_def less_eq_char_def less_char_def map_err_def bt_get_def Let_def

lemma show_two_digits: "show_nat 50 = ''50''" "show_nat 60 = ''60''" "show_nat 70 = ''70''"
  by (simp_all add: show_nat_eval)

lemma map_name_of_example: "unmangle_map_name (Some ''maps/scmp_001.zip'') = ''scmp_001''" "unmangle_map_name None = ''None''"
  using rsplit2_at [of "CHR ''.''" "''zip''" "''maps/scmp_001''"] rsplit2_at [of "CHR ''/''" "''scmp_001''" "''maps''"]
  by (simp_all add: unmangle_map_name_def)

lemma query_tests_pass:
  "test_teams_in_game = Some ()" "test_usual_game_stats now_utc = Some ()" "test_game_mod_versions = Some ()"
  by (simp_all add: test_teams_in_game_def test_usual_game_stats_def test_game_mod_versions_def data_eval
      show_two_digits map_name_of_example)

lemma database_tests_pass:
  "test_db_ladder_mod_is_ignored X db = Some ()" "test_db_mod_with_odd_characters X db = Some ()"
  by (simp_all add: test_db_ladder_mod_is_ignored_def test_db_mod_with_odd_characters_def get_mod_version_list_def
      mod_char_def less_eq_char_def)

theorem game_stats_none_fields_passes: "1577836800 < now_utc \<Longrightarrow> test_game_stats_none_fields now_utc = Some ()"
  by (simp add: test_game_stats_none_fields_def data_eval map_name_of_example)

theorem game_stats_none_fields_passes_witness: "test_game_stats_none_fields 1577836801 = Some ()"
  by (rule game_stats_none_fields_passes) simp

lemma directory_tests_pass:
  "test_replay_path_works_as_intended = Some ()" "test_replay_path_uses_provided_directory = Some ()"
  by (simp_all add: test_replay_path_works_as_intended_def test_replay_path_uses_provided_directory_def replay_path_dirs
      replay_dirs_def directory_new_def path_push_def show_nat_eval)

end
