(* ===== verification/Spec2Isabelle.thy ===== *)
theory Spec2Isabelle
  imports Evaluation Writer_Input Startup Buffer_Facts Server_Types Whole_Ends
    Test_Merge Test_Buffers Test_Timers Test_Headers Test_Data
begin

text \<open>
  A model of the replay server: the program that receives the replays of running games from the players,
  merges what the players of a game send into one replay, sends it on with a delay to spectators, and saves
  it. The names of definitions are those of the code; a prefix tells apart what the code tells apart by type
  (\<open>bd_\<close> \<open>BufDeque\<close>, \<open>wr_\<close> \<open>WriterReplay\<close>, \<open>mr_\<close> \<open>MergedReplay\<close>, \<open>rd_\<close> \<open>MReplayReader\<close>, \<open>ec_\<close>
  \<open>EmptyCounter\<close>, \<open>ph_\<close> \<open>PositionHistory\<close>, \<open>qms_\<close> \<open>QuorumMergeStrategy\<close>). Paths are under \<open>src/src/\<close>.

  How the program works. \<open>main.rs\<close> loads \<open>config.rs\<close> and runs the \<open>Server\<close>. The listeners
  (\<open>accept/producer.rs\<close>, TCP or websocket) give connections; for each the server reads the header
  (\<open>accept/header.rs\<close>, at most until a timeout) and sends the connection over a channel to the worker thread
  that the number of its game picks (\<open>replay/runner.rs\<close>). A worker assigns it to the replay of its game
  (\<open>replay/replays.rs\<close>), which a writer creates if there is none. A replay (\<open>replay/replay.rs\<close>) has a merger, to
  which its writers feed their data (\<open>replay/receive/\<close>), a sender, which copies the merged replay to
  its readers (\<open>replay/send/sender.rs\<close>), and a lifetime: wait until there was no writer for a while, refuse
  connections from then on, wait for the last writer, finish the merge, have the replay saved
  (\<open>replay/save/\<close>, with \<open>database/\<close>), and wait for the last reader. A forced timeout or the shutdown cancels a
  token, which ends the waits.

  How it is modelled. A struct is a \<open>record\<close>, an enum a \<open>datatype\<close>, a \<open>usize\<close> a natural number whose
  overflow is a panic where the code can reach it, bytes are \<open>8 word\<close>. \<open>None\<close> is a panic (an
  \<open>assert!\<close>, an \<open>unwrap\<close>, an index or a subtraction that is out of range, a borrow rule), and errors are the
  left side of a sum. An async function is cut at its await points, and a step is what one of
  its tasks does between two of them, since all tasks of a worker share one thread; a schedule is a
  sequence of steps in any order, so that a theorem about all reachable states is about all
  interleavings. What the future holds for a task (the next bytes of a connection, the order in which \<open>select!\<close> polls,
  the order in which a hash set is iterated) is an argument of its step.

  The theories, in the order of their imports.
  \<^item> \<open>Prelude\<close>: options, the panicking \<open>assert_that\<close>, prefixes and agreement of lists.
  \<^item> \<open>Buf_Traits\<close>, \<open>Buf_Deque\<close> (\<open>util/buf_traits.rs\<close>, \<open>util/buf_deque.rs\<close>): the trait \<open>ChunkedBuf\<close> as a record of
    operations with its provided methods, and the deque of chunks. The locale \<open>chunked_buf\<close> is the contract of the trait,
    interpreted for the deque and for the merged replay, \<open>chunked_buf_pair\<close> the comparison of two buffers.
    \<open>Buffer_Facts\<close>: the deque refines a list, and the comparison is the longest common prefix.
  \<^item> \<open>Event\<close>, \<open>Writer_Replay\<close>, \<open>Merged_Replay\<close>, \<open>Replay_Stream\<close> (\<open>util/event.rs\<close>, \<open>replay/streams/\<close>): the two kinds of
    replays, the reader of the merged one, and the trait that they share with its contract \<open>stream_contract\<close>.
  \<^item> \<open>Merge_Strategy\<close> (\<open>replay/receive/quorum_merge_strategy.rs\<close>): the two states of the merge and all their
    operations. \<open>Merge_Invariant\<close>, \<open>Merge_Quorum\<close>, \<open>Merge_Work\<close>: what they keep, and that \<open>work_state_until_stable\<close>
    comes to an end.
  \<^item> \<open>Merge_Trait\<close>, \<open>Merge_Contract\<close> (\<open>replay/receive/merge_strategy.rs\<close>): the trait \<open>MergeStrategy\<close> as a record, its contract as the
    locale \<open>merge_contract\<close>, and its interpretation for the quorum strategy.
  \<^item> \<open>Replay_Delay\<close>, \<open>Merger\<close>, \<open>Merger_Invariant\<close>, \<open>Merge_Growth\<close>, \<open>Merge_Run\<close> (\<open>replay/receive/replay_delay.rs\<close>, \<open>merger.rs\<close>):
    the tasks of the writers as steps, and what every schedule of them does to the merged replay.
    \<open>Evaluation\<close> runs them on examples.
  \<^item> \<open>Live_Connection\<close>, \<open>Connection\<close>, \<open>Connection_Header\<close> (\<open>error.rs\<close>, \<open>metrics.rs\<close>, \<open>server/connection.rs\<close>, \<open>accept/header.rs\<close>,
    \<open>util/timeout.rs\<close>, \<open>util/mod.rs\<close>): connections, their gauges, and the first line that they send.
  \<^item> \<open>Replay_Header\<close>, \<open>Replay_Header_Facts\<close> (\<open>replay/streams/header.rs\<close>): the parser of the header of a replay. \<open>Writer_Input\<close>: what a
    writer's connection goes through, with \<open>read_header\<close>.
  \<^item> \<open>Empty_Counter\<close> (\<open>util/empty_counter.rs\<close>): the counter on a watch channel, and the wait for it to be zero.
  \<^item> \<open>Config\<close> (\<open>config.rs\<close>): loading the settings; exactly which settings and durations load, which are errors, and which panic.
  \<^item> \<open>Replay_Lifecycle\<close>, \<open>Replay_Facts\<close> (\<open>replay/replay.rs\<close>, \<open>replay/send/sender.rs\<close>): one replay, with all of its tasks. Its
    lifetime returns when both of the tasks that it joins are over, in whatever order they run.
  \<^item> \<open>Replays\<close> (\<open>replay/replays.rs\<close>): which replay a connection belongs to.
  \<^item> \<open>Std_Text\<close>, \<open>Saved_Path\<close>, \<open>Database\<close>, \<open>Queries\<close>, \<open>Json_Header\<close>, \<open>Saver\<close> (\<open>replay/save/\<close>, \<open>database/\<close>): the file of a game, the
    queries, the header of the file, and the saver.
  \<^item> \<open>Worker_System\<close>, \<open>Worker_Facts\<close>, \<open>Worker_Promises\<close>, \<open>Worker_Drains\<close>: a worker with all the replays, connections and the saver that
    run in it, sharing one clock, one set of metrics, one database and one disk. Here the parts are put together: the
    worker refines \<open>Replays\<close> and each of its replays \<open>Replay_Lifecycle\<close>, and the promises of the whole follow.
  \<^item> \<open>Runner\<close>, \<open>Server\<close> (\<open>replay/runner.rs\<close>, \<open>server/server.rs\<close>): the threads with their channels, the accept loop and
    the shutdown, with the futures of a worker as the assignments of \<open>Replays\<close>.
    \<open>Server_Types\<close>: what the connections look like wherever they are.
  \<^item> \<open>Whole_Server\<close>, \<open>Whole_Facts\<close>, \<open>Whole_Promises\<close>, \<open>Whole_Ends\<close>: the whole program, the server with every thread running a worker
    of \<open>Worker_System\<close>. The threads share the metrics, the database, the disk and the token, and read the clock each on its own. The
    program refines \<open>Server\<close> and each of its replays \<open>Replay_Lifecycle\<close>; it does not panic, saves its games, and ends.
  \<^item> \<open>Websocket\<close>, \<open>Startup\<close> (\<open>server/websocket_stream.rs\<close>, \<open>accept/producer.rs\<close>, \<open>main.rs\<close>): websockets as streams of bytes, the
    listeners, and the start of the program.
  \<^item> \<open>Test_Merge\<close>, \<open>Test_Buffers\<close>, \<open>Test_Timers\<close>, \<open>Test_Headers\<close>, \<open>Test_Data\<close>: the unit tests that the files above have beside their code,
    translated, and that they pass on the model. They show that the model does what its authors expect of the code.

  This theory has the properties of the merge.

  What is shown. Safety: no step of a merger, a worker or the server panics, whatever the schedule, under settings that
  make sense (\<open>config_ok\<close>: a quorum, an interval and a history that are not zero), and with which settings it does.
  Merging: the merged replay has only bytes that were sent, grows, hides what is too new, and is complete when it is
  finished. Worlds around it: one replay for each game, in one worker; a finished replay is final; what is saved
  is all of it, in a file of its own; the gauges and counters are exact; every wait, reader and shutdown ends; and all of this
  holds of the whole program, in every interleaving of its threads.
  Formats: headers are parsed losslessly, saved files can be unpacked.

  Loops. Recursion over data is \<open>fun\<close>. A loop that ends for a reason that is not in its arguments alone is a
  \<open>partial_function (option)\<close>: \<open>write_chunks\<close> over the chunks of an iterator, \<open>common_prefix_loop\<close>, \<open>read_to_end\<close>, \<open>copy_replay\<close>,
  \<open>work_state_until_stable\<close>; each is proved to return \<open>Some\<close> where it is used, since a chunk is never
  empty, a buffer has room, and a round of the merge makes a measure smaller. There is no fuel. The
  number of connections of a replay is below \<open>usize_max\<close>, which is a condition of the step that begins one; a
  read gives at most the 4096 bytes of its buffer.

  What is a parameter, because it is not part of the program: the readers and writers of tokio (\<open>reader_ops\<close>), the sources of
  the config crate (\<open>config_ops\<close>), the results of sqlx (\<open>sqlx\<close>), the file system (\<open>disk\<close>, with \<open>disk_laws\<close>: a new file is
  empty and was not there before, a write appends to its own file only), the zstd encoder (\<open>zstd_laws\<close>), serde, the parser that
  counts ticks, the calendar, the listeners, the iteration order of hash sets (\<open>iteration\<close>: each element once) and
  the float quotient that sizes the history of positions (\<open>ceil_quotient\<close>). The tasks that a theorem speaks
  of run as the executor polls them; only the liveness theorems say that one gets its turns.

  What is not modelled. \<open>util/process.rs\<close> (the panic hook and the signal pipe) is calls of the operating system; the signal
  is an argument of the start. Logging, the setup of the tokio runtime and of the logger, and the metrics endpoint
  have no effect on the rest. The forwarding of \<open>AsyncRead\<close> and \<open>AsyncWrite\<close> in
  \<open>server/connection.rs\<close> is that of its fields. Memory ordering plays no part, since threads
  share only channels, the cancellation token and the metrics. The saver is one step of the program: it awaits the disk and the database, but the replay
  that it saves does not change any more, and its file is its own; the database is only asked and told. Of the
  tests, those are left out that need a running server, a real database, files in the repository or random numbers
  (\<open>integration_tests.rs\<close>, \<open>process_test/\<close>, those of \<open>server.rs\<close> and \<open>replay.rs\<close>, most of \<open>database.rs\<close>, and the fuzzing of the merge).
\<close>

section \<open>Merging the replays of one game\<close>

text \<open>
  C1: whatever the connections send, in whatever order their tasks run, and whatever order
  hash sets are iterated in, no step that a task takes panics and every step returns: the
  assertions of the merge strategy and of the two replay types hold, every lookup finds its
  replay, and \<open>work_state_until_stable\<close> comes to an end.
\<close>

theorem merger_steps_return:
  assumes "settings_ok cq tq ds ss" and "merging cq tq cmp ds ss m H"
    and "enabled m ev" and "\<forall>n. orders_ok (its n)"
  shows "\<exists>m'. merger_step quorum_ops cq its m ev = Some m'"
  using merging_step [OF assms] by blast

theorem merger_steps_return_witness:
  "\<exists>m H m'. demo_run demo_open_events = Some (m, H)
     \<and> merger_step quorum_ops exact_quotient (\<lambda>_ _. ascending) m Connect = Some m'"
proof -
  obtain m H where m: "demo_run demo_open_events = Some (m, H)" using demo_open by blast
  have "\<exists>m'. merger_step quorum_ops exact_quotient (\<lambda>_ _. ascending) m Connect = Some m'"
    by (rule merger_steps_return [OF demo_settings demo_reached [OF m]])
      (simp_all add: ascending_orders)
  with m show ?thesis by blast
qed

text \<open>
  C2: no data is made up. Every byte of the canonical replay was sent by some connection at
  that very position.
\<close>

theorem canonical_provenance:
  assumes "settings_ok cq tq ds ss" and "merging cq tq cmp ds ss m H"
  shows "\<exists>c. canonical m = Some c \<and>
    (\<forall>p < length (merged_bytes c). \<exists>t. p < length (H t) \<and> H t ! p = merged_bytes c ! p)"
  using merging_inv [OF assms] unfolding shared_inv_def provenance_def by blast

theorem canonical_provenance_witness:
  "\<exists>m H c. demo_run demo_open_events = Some (m, H) \<and> canonical m = Some c \<and>
    (\<forall>p < length (merged_bytes c). \<exists>t. p < length (H t) \<and> H t ! p = merged_bytes c ! p)"
proof -
  obtain m H where m: "demo_run demo_open_events = Some (m, H)" using demo_open by blast
  from canonical_provenance [OF demo_settings demo_reached [OF m]] m show ?thesis by blast
qed

text \<open>
  C3: the canonical replay only grows, and nobody misses it. A step appends to the canonical
  data, never moves the delayed position back, and extends what readers may see; when what
  they may see changes, every waiting reader is woken.
\<close>

theorem canonical_grows_and_wakes:
  assumes "settings_ok cq tq ds ss" and "merging cq tq cmp ds ss m H"
    and "enabled m ev" and "\<forall>n. orders_ok (its n)"
    and "merger_step quorum_ops cq its m ev = Some m'"
    and "canonical m = Some c" and "canonical m' = Some c'"
  shows "prefix (merged_bytes c) (merged_bytes c') \<and> prefix (visible_bytes c) (visible_bytes c')
    \<and> mr_delayed_data_len c \<le> mr_delayed_data_len c'
    \<and> (visible_bytes c' \<noteq> visible_bytes c \<longrightarrow>
        woken (mr_read_event c') = woken (mr_read_event c) @ wakers (mr_read_event c))"
proof -
  have c: "mr_rep c (merged_bytes c)" "mr_rep c' (merged_bytes c')" "prefix (merged_bytes c) (merged_bytes c')"
    "view_evolves c c' \<or> only_waits c c'" "mr_header c = None \<longrightarrow> merged_bytes c = []"
    using merging_step [OF assms(1-4)] assms(5-7) by auto
  have "mr_stream c' (merged_bytes c') = mr_stream c (merged_bytes c)" if "reader_view c' = reader_view c"
    using that c(1,3) by (auto simp: reader_view_def mr_stream_def header_bytes_def mr_rep_def prefix_def)
  moreover have "reader_view c' = reader_view c" if "only_waits c c'"
    using that by (auto simp: only_waits_def reader_view_def stream_simps)
  ultimately show ?thesis using c(3,4) visible_grows [OF c]
    by (auto simp: view_evolves_def visible_bytes_def reader_view_def)
qed

theorem canonical_grows_and_wakes_witness:
  "\<exists>m H m' c c'. demo_run demo_waiting_events = Some (m, H)
     \<and> merger_step quorum_ops exact_quotient (\<lambda>_ _. ascending) m (DelayTurn 1) = Some m'
     \<and> canonical m = Some c \<and> canonical m' = Some c'
     \<and> visible_bytes c' \<noteq> visible_bytes c \<and> woken (mr_read_event c') = [5]"
proof -
  obtain m H m' c c' where m: "demo_run demo_waiting_events = Some (m, H)" "enabled m (DelayTurn 1)"
    "merger_step quorum_ops exact_quotient (\<lambda>_ _. ascending) m (DelayTurn 1) = Some m'"
    "canonical m = Some c" "canonical m' = Some c'" "visible_bytes c' \<noteq> visible_bytes c"
    "wakers (mr_read_event c) = [5]" "woken (mr_read_event c) = []"
    using demo_waiting by blast
  have "\<forall>n::nat. orders_ok (\<lambda>_. ascending)" by (simp add: ascending_orders)
  then show ?thesis
    using canonical_grows_and_wakes [OF demo_settings demo_reached [OF m(1)] m(2) _ m(3-5)] m by auto
qed

text \<open>
  C4: readers see nothing too early. The delayed position of the canonical replay lies within
  its data, and it is not beyond the delayed position of every connection.
\<close>

theorem canonical_delay_bounded:
  assumes "settings_ok cq tq ds ss" and "merging cq tq cmp ds ss m H"
  shows "\<exists>c. canonical m = Some c \<and> mr_delayed_data_len c \<le> length (merged_bytes c) \<and>
    (mr_delayed_data_len c = 0 \<or>
     (\<exists>t w. strategy_writer (mg_strategy m) t = Some w \<and> mr_delayed_data_len c \<le> wr_delayed_data_len w))"
proof -
  obtain s where s: "shared_of (mg_strategy m) = Some s" "shared_inv s H (merged_bytes (canonical_stream s))"
    "canonical m = Some (canonical_stream s)"
    using merging_inv [OF assms] by blast
  have "mr_delayed_data_len (canonical_stream s) \<le> length (merged_bytes (canonical_stream s))" "delay_bounded s"
    using s(2) by (auto simp: shared_inv_def mr_rep_def)
  then show ?thesis using s(3) unfolding delay_bounded_def
    by (fastforce simp: strategy_views(1) [OF s(1)])
qed

theorem canonical_delay_bounded_witness:
  "\<exists>m H c t w. demo_run demo_open_events = Some (m, H) \<and> canonical m = Some c
     \<and> strategy_writer (mg_strategy m) t = Some w \<and> 2 \<le> wr_delayed_data_len w"
proof -
  obtain m H c where m: "demo_run demo_open_events = Some (m, H)" "canonical m = Some c"
    "mr_delayed_data_len c = 2"
    using demo_open by blast
  from canonical_delay_bounded [OF demo_settings demo_reached [OF m(1)]] m show ?thesis by fastforce
qed

text \<open>
  C5: once every connection has ended, \<open>finalize\<close> does not panic. It marks the canonical
  replay as finished, with all of its data visible, and nothing was left out: a connection
  that agrees with the canonical replay as far as both go did not send more.
\<close>

theorem finalize_complete:
  assumes "settings_ok cq tq ds ss" and "merging cq tq cmp ds ss m H" and "mg_tasks m = Map.empty"
  shows "\<exists>m' c. merger_finalize quorum_ops m = Some m' \<and> canonical m = Some c
    \<and> canonical m' = Some (mr_finish c) \<and> visible_bytes (mr_finish c) = header_bytes c @ merged_bytes c
    \<and> (\<forall>t. length (H t) \<le> length (merged_bytes c) \<or>
        (\<exists>p < min (length (H t)) (length (merged_bytes c)). H t ! p \<noteq> merged_bytes c ! p))"
  by (rule finalize_all_ended [OF assms])

theorem finalize_complete_witness:
  "\<exists>m H m' c. demo_run demo_events = Some (m, H) \<and> merger_finalize quorum_ops m = Some m'
     \<and> canonical m' = Some c \<and> mr_finished c \<and> H 1 = [7, 8, 5]"
proof -
  obtain m where m: "demo_run demo_events = Some (m, (\<lambda>_. [])(0 := [7, 8, 9], 1 := [7, 8, 5]))"
    "mg_tasks m = Map.empty"
    using demo_end by blast
  from finalize_complete [OF demo_settings demo_reached [OF m(1)] m(2)] m show ?thesis
    by (fastforce simp: stream_simps)
qed

text \<open>
  C6: with a quorum of at most two, and as long as no more than the comparison distance was
  merged, the final canonical replay is exactly what one of the connections sent.
\<close>

theorem merged_replay_is_one_of_the_sent:
  assumes "settings_ok cq tq ds ss" and "merging cq tq cmp ds ss m H" and "mg_tasks m = Map.empty"
    and "tq \<le> 2" and "canonical m = Some c" and "length (merged_bytes c) \<le> cmp"
  shows "\<exists>t. merged_bytes c = H t"
proof -
  obtain s where s: "shared_inv s H (merged_bytes (canonical_stream s))" "canonical m = Some (canonical_stream s)"
    "target_quorum_size s = tq" "stream_cmp_distance s = cmp"
    using merging_inv [OF assms(1,2)] by blast
  have c: "c = canonical_stream s" using s(2) assms(5) by simp
  have fin: "length (H t) \<le> length (merged_bytes c) \<or>
      (\<exists>p < min (length (H t)) (length (merged_bytes c)). H t ! p \<noteq> merged_bytes c ! p)" for t
    using finalize_all_ended [OF assms(1-3)] assms(5) by auto
  have "merged_bytes c = [] \<or> (\<exists>t. prefix (merged_bytes c) (H t))"
    using s assms(4,6) c unfolding shared_inv_def has_source_def by blast
  then show ?thesis
  proof
    assume "merged_bytes c = []"
    then have "H 0 = []" using fin [of 0] by simp
    then show ?thesis using \<open>merged_bytes c = []\<close> by metis
  next
    assume "\<exists>t. prefix (merged_bytes c) (H t)"
    then obtain t where t: "prefix (merged_bytes c) (H t)" by blast
    then have "H t ! p = merged_bytes c ! p" if "p < length (merged_bytes c)" for p
      using that by (auto simp: prefix_def nth_append)
    then have "length (H t) \<le> length (merged_bytes c)" using fin [of t] by auto
    then have "merged_bytes c = H t" using t by (auto simp: prefix_def)
    then show ?thesis ..
  qed
qed

theorem merged_replay_is_one_of_the_sent_witness:
  "\<exists>m H c t. demo_run demo_events = Some (m, H) \<and> canonical m = Some c
     \<and> merged_bytes c = [7, 8, 9] \<and> merged_bytes c = H t"
proof -
  obtain m c where m: "demo_run demo_events = Some (m, (\<lambda>_. [])(0 := [7, 8, 9], 1 := [7, 8, 5]))"
    "mg_tasks m = Map.empty" "canonical m = Some c" "merged_bytes c = [7, 8, 9]"
    using demo_end by blast
  from merged_replay_is_one_of_the_sent [OF demo_settings demo_reached [OF m(1)] m(2) _ m(3)] m
  show ?thesis by fastforce
qed

end
